(* ===== verification/E4F_Prelude.thy ===== *)
theory E4F_Prelude
  imports Main "HOL-Library.Word"
begin

text \<open>
  Shared vocabulary of the ext4fuse development: the machine integer types of the C sources
  (src/types/ext4_basic.h), the outcome of a C function that may fail an assertion or touch
  memory outside an object, byte memories with little-endian loads and stores, and the generic
  facts on lists and words that the component theories use.
\<close>

unbundle bit_operations_syntax

type_synonym u8 = "8 word"
type_synonym u16 = "16 word"
type_synonym u32 = "32 word"
type_synonym u64 = "64 word"
type_synonym bytes = "u8 list"
type_synonym ext4_lblk_t = u32
type_synonym ext4_fsblk_t = u64
type_synonym ext4_group_t = u32

named_theorems mem_simps
named_theorems res_simps

section \<open>Outcomes of C functions\<close>

text \<open>
  \<open>Assert_fail\<close> is a failed assert() or ASSERT() (the process aborts); \<open>Undefined\<close> is an access
  the C standard leaves undefined (out of the bounds of an object, or through NULL); \<open>Diverge\<close> is
  a loop that never ends.
\<close>

datatype fault = Assert_fail | Undefined | Diverge

type_synonym 'a res = "fault + 'a"

fun res_bind :: "'a res \<Rightarrow> ('a \<Rightarrow> 'b res) \<Rightarrow> 'b res" where
  "res_bind (Inl e) f = Inl e"
| "res_bind (Inr x) f = f x"

definition c_assert :: "bool \<Rightarrow> unit res" where
  "c_assert b = (if b then Inr () else Inl Assert_fail)"

definition c_defined :: "bool \<Rightarrow> unit res" where
  "c_defined b = (if b then Inr () else Inl Undefined)"

lemma res_bind_Inr_iff [res_simps]: "res_bind m f = Inr y \<longleftrightarrow> (\<exists>x. m = Inr x \<and> f x = Inr y)"
  by (cases m) auto

lemma res_bind_Inl_iff [res_simps]:
  "res_bind m f = Inl e \<longleftrightarrow> m = Inl e \<or> (\<exists>x. m = Inr x \<and> f x = Inl e)"
  by (cases m) auto

lemma c_assert_simps [simp]:
  "c_assert True = Inr ()" "c_assert False = Inl Assert_fail"
  by (simp_all add: c_assert_def)

lemma c_defined_simps [simp]:
  "c_defined True = Inr ()" "c_defined False = Inl Undefined"
  by (simp_all add: c_defined_def)

lemma c_assert_Inr_iff [res_simps]: "c_assert b = Inr x \<longleftrightarrow> b"
  by (simp add: c_assert_def)

lemma c_defined_Inr_iff [res_simps]: "c_defined b = Inr x \<longleftrightarrow> b"
  by (simp add: c_defined_def)

section \<open>Byte memories\<close>

text \<open>
  A block of memory (the data of a buffer, an on-disk structure) is the list of its bytes. The
  sources are little-endian only; \<open>ld n m a\<close> is the load of an \<open>n\<close>-byte integer at byte offset
  \<open>a\<close> and \<open>st n m a w\<close> the store. A load outside the list is unspecified, as it is in C; every
  theorem that depends on a load has the bound among its hypotheses, or proves it.
\<close>

fun ld :: "nat \<Rightarrow> bytes \<Rightarrow> nat \<Rightarrow> 'a::len word" where
  "ld 0 m a = 0"
| "ld (Suc n) m a = ucast (m ! a) OR push_bit 8 (ld n m (Suc a))"

fun st :: "nat \<Rightarrow> bytes \<Rightarrow> nat \<Rightarrow> 'a::len word \<Rightarrow> bytes" where
  "st 0 m a w = m"
| "st (Suc n) m a w = (st n m (Suc a) (drop_bit 8 w))[a := ucast w]"

definition ld16 :: "bytes \<Rightarrow> nat \<Rightarrow> u16" where "ld16 = ld 2"
definition ld32 :: "bytes \<Rightarrow> nat \<Rightarrow> u32" where "ld32 = ld 4"
definition ld64 :: "bytes \<Rightarrow> nat \<Rightarrow> u64" where "ld64 = ld 8"
definition st16 :: "bytes \<Rightarrow> nat \<Rightarrow> u16 \<Rightarrow> bytes" where "st16 = st 2"
definition st32 :: "bytes \<Rightarrow> nat \<Rightarrow> u32 \<Rightarrow> bytes" where "st32 = st 4"
definition st64 :: "bytes \<Rightarrow> nat \<Rightarrow> u64 \<Rightarrow> bytes" where "st64 = st 8"

text \<open>memcpy() and memset() into a byte memory; the lengths are the callers' obligation.\<close>

definition splice :: "bytes \<Rightarrow> nat \<Rightarrow> bytes \<Rightarrow> bytes" where
  "splice m a xs = take a m @ xs @ drop (a + length xs) m"

definition slice :: "bytes \<Rightarrow> nat \<Rightarrow> nat \<Rightarrow> bytes" where
  "slice m a n = take n (drop a m)"

text \<open>Bit \<open>i\<close> of a byte memory, counted from the least significant bit of byte 0.\<close>

definition mbit :: "bytes \<Rightarrow> nat \<Rightarrow> bool" where
  "mbit m i \<longleftrightarrow> bit (m ! (i div 8)) (i mod 8)"

lemma bit64_bound: "bit (w :: u64) i \<Longrightarrow> i < 64"
  using bit_imp_le_length [of w i] by simp

lemma bit_ld:
  "bit (ld n m a :: 'a::len word) i \<longleftrightarrow> i < 8 * n \<and> i < LENGTH('a) \<and> mbit m (8 * a + i)"
proof (induction n arbitrary: a i)
  case 0
  then show ?case by simp
next
  case (Suc n)
  show ?case
  proof (cases "i < 8")
    case True
    then show ?thesis
      by (auto simp: bit_simps mbit_def)
  next
    case False
    then have "8 * a + i = 8 * Suc a + (i - 8)" by simp
    with False show ?thesis
      using Suc.IH [of "Suc a" "i - 8"]
      by (auto simp: bit_simps bit_imp_le_length dest: bit_imp_le_length [of "m ! a"])
  qed
qed

lemma length_st [simp]: "length (st n m a w) = length m"
  by (induction n arbitrary: a w) auto

lemma length_st_widths [simp]:
  "length (st16 m a w16) = length m" "length (st32 m a w32) = length m"
  "length (st64 m a w64) = length m"
  by (simp_all add: st16_def st32_def st64_def)

lemma nth_st:
  "i < length m \<Longrightarrow>
    st n m a (w :: 'a::len word) ! i =
      (if a \<le> i \<and> i < a + n then ucast (drop_bit (8 * (i - a)) w) else m ! i)"
proof (induction n arbitrary: a w)
  case 0
  then show ?case by auto
next
  case (Suc n)
  show ?case
  proof (cases "i = a")
    case True
    with Suc.prems show ?thesis by simp
  next
    case False
    have "8 * (i - Suc a) + 8 = 8 * (i - a)" if "a < i"
      using that by simp
    with False Suc show ?thesis
      by (auto simp: drop_bit_drop_bit)
  qed
qed

lemma mbit_st:
  assumes "i < 8 * length m" and "8 * n \<le> LENGTH('a)"
  shows "mbit (st n m a (w :: 'a::len word)) i \<longleftrightarrow>
    (if 8 * a \<le> i \<and> i < 8 * (a + n) then bit w (i - 8 * a) else mbit m i)"
proof -
  have "i div 8 < length m" using assms(1) by simp
  moreover have "8 * (i div 8 - a) + i mod 8 = i - 8 * a" if "a \<le> i div 8"
    using that by (simp add: diff_mult_distrib2)
  moreover have "a \<le> i div 8 \<longleftrightarrow> 8 * a \<le> i" "i div 8 < a + n \<longleftrightarrow> i < 8 * (a + n)"
    by (simp_all add: less_eq_div_iff_mult_less_eq div_less_iff_less_mult mult.commute)
  ultimately show ?thesis
    using assms(2) by (auto simp: mbit_def nth_st bit_simps)
qed

lemma bytes_eq_iff_mbit:
  assumes "length m = length m'"
  shows "m = m' \<longleftrightarrow> (\<forall>i < 8 * length m. mbit m i = mbit m' i)"
proof
  assume r: "\<forall>i < 8 * length m. mbit m i = mbit m' i"
  show "m = m'"
  proof (rule nth_equalityI [OF assms])
    fix k assume k: "k < length m"
    show "m ! k = m' ! k"
    proof (rule bit_word_eqI)
      fix j assume "j < LENGTH(8)"
      then have "mbit m (8 * k + j) = mbit m' (8 * k + j)" using r k by simp
      with \<open>j < LENGTH(8)\<close> show "bit (m ! k) j = bit (m' ! k) j" by (simp add: mbit_def)
    qed
  qed
qed simp

lemma ld_st_same:
  assumes "a + n \<le> length m" and "8 * n = LENGTH('a)"
  shows "ld n (st n m a w) a = (w :: 'a::len word)"
  using assms by (intro bit_word_eqI) (auto simp: bit_ld mbit_st)

lemma ld_st_other:
  assumes "a + n \<le> b \<or> b + k \<le> a" and "b + k \<le> length m" and "8 * n \<le> LENGTH('a)"
  shows "(ld k (st n m a (w :: 'a::len word)) b :: 'b::len word) = ld k m b"
  using assms by (intro bit_word_eqI) (auto simp: bit_ld mbit_st)

lemma length_splice [simp]: "a + length xs \<le> length m \<Longrightarrow> length (splice m a xs) = length m"
  by (simp add: splice_def)

lemma length_slice [simp]: "a + n \<le> length m \<Longrightarrow> length (slice m a n) = n"
  by (simp add: slice_def)

lemma nth_slice: "i < n \<Longrightarrow> a + n \<le> length m \<Longrightarrow> slice m a n ! i = m ! (a + i)"
  by (simp add: slice_def)

lemma nth_splice:
  "a + length xs \<le> length m \<Longrightarrow> i < length m \<Longrightarrow>
    splice m a xs ! i = (if a \<le> i \<and> i < a + length xs then xs ! (i - a) else m ! i)"
  by (auto simp: splice_def nth_append min_def)

lemma slice_splice_same: "a + length xs \<le> length m \<Longrightarrow> slice (splice m a xs) a (length xs) = xs"
  by (simp add: slice_def splice_def)

lemma slice_all: "slice m 0 (length m) = m"
  by (simp add: slice_def)

section \<open>First position with a property\<close>

text \<open>The reference for every search loop of the sources: the first \<open>i\<close> in \<open>[i, n)\<close>, else \<open>n\<close>.\<close>

function first_from :: "(nat \<Rightarrow> bool) \<Rightarrow> nat \<Rightarrow> nat \<Rightarrow> nat" where
  "first_from P i n = (if n \<le> i then n else if P i then i else first_from P (Suc i) n)"
  by pat_completeness auto
termination
  by (relation "measure (\<lambda>(P, i, n). n - i)") auto

declare first_from.simps [simp del]

lemma first_from_bounds: "i \<le> n \<Longrightarrow> i \<le> first_from P i n \<and> first_from P i n \<le> n"
proof (induction P i n rule: first_from.induct)
  case (1 P i n)
  then show ?case by (subst (1 2) first_from.simps) fastforce
qed

lemma first_from_holds: "first_from P i n < n \<Longrightarrow> P (first_from P i n)"
proof (induction P i n rule: first_from.induct)
  case (1 P i n)
  then show ?case by (simp add: first_from.simps [of P i n] split: if_splits)
qed

lemma first_from_least: "i \<le> j \<Longrightarrow> j < first_from P i n \<Longrightarrow> j < n \<Longrightarrow> \<not> P j"
proof (induction P i n rule: first_from.induct)
  case (1 P i n)
  then show ?case
    by (cases "j = i") (auto simp: first_from.simps [of P i n] split: if_splits)
qed

lemma first_from_eqI:
  assumes "i \<le> r" and "r \<le> n" and "\<And>j. i \<le> j \<Longrightarrow> j < r \<Longrightarrow> \<not> P j" and "r < n \<Longrightarrow> P r"
  shows "first_from P i n = r"
proof -
  let ?f = "first_from P i n"
  have b: "i \<le> ?f" "?f \<le> n" using first_from_bounds [of i n P] assms(1,2) by auto
  have "\<not> ?f < r" using assms(3) [of ?f] b first_from_holds [of P i n] assms(2) by auto
  moreover have "\<not> r < ?f" using first_from_least [of i r P n] assms b by auto
  ultimately show ?thesis by simp
qed

lemma first_from_skip:
  assumes "i \<le> k" and "k \<le> n" and "\<And>j. i \<le> j \<Longrightarrow> j < k \<Longrightarrow> \<not> P j"
  shows "first_from P i n = first_from P k n"
proof (rule first_from_eqI)
  have b: "k \<le> first_from P k n" "first_from P k n \<le> n"
    using first_from_bounds [of k n P] assms(2) by auto
  then show "i \<le> first_from P k n" "first_from P k n \<le> n" using assms(1) by auto
  show "\<not> P j" if "i \<le> j" "j < first_from P k n" for j
    using that b assms(3) [of j] first_from_least [of k j P n] by (cases "j < k") auto
  show "P (first_from P k n)" if "first_from P k n < n"
    using that by (rule first_from_holds)
qed

lemma first_from_none:
  "i \<le> n \<Longrightarrow> (\<And>j. i \<le> j \<Longrightarrow> j < n \<Longrightarrow> \<not> P j) \<Longrightarrow> first_from P i n = n"
  by (rule first_from_eqI) auto

lemma first_from_none_shift:
  assumes "off \<le> sz" and "\<And>j. off \<le> j \<Longrightarrow> j < sz \<Longrightarrow> \<not> P (res + j)"
  shows "first_from P (res + off) (res + sz) = res + sz"
proof (rule first_from_none)
  show "\<not> P i" if "res + off \<le> i" "i < res + sz" for i
    using assms(2) [of "i - res"] that by simp
qed (use assms(1) in simp)

lemma first_from_skip_shift:
  assumes "off \<le> k" and "k \<le> sz" and "\<And>j. off \<le> j \<Longrightarrow> j < k \<Longrightarrow> \<not> P (res + j)"
  shows "first_from P (res + off) (res + sz) = first_from P (res + k) (res + sz)"
proof (rule first_from_skip)
  show "\<not> P i" if "res + off \<le> i" "i < res + k" for i
    using assms(3) [of "i - res"] that by simp
qed (use assms in simp_all)

lemma first_from_cong:
  assumes "\<And>j. i \<le> j \<Longrightarrow> j < n \<Longrightarrow> P j = Q j"
  shows "first_from P i n = first_from Q i n"
proof (cases "i \<le> n")
  case True
  note b = first_from_bounds [OF True, of Q]
  show ?thesis
  proof (rule first_from_eqI)
    show "\<not> P j" if "i \<le> j" "j < first_from Q i n" for j
      using that b assms [of j] first_from_least [of i j Q n] by auto
    show "P (first_from Q i n)" if "first_from Q i n < n"
      using that b assms [of "first_from Q i n"] first_from_holds by auto
  qed (use b in auto)
qed (simp add: first_from.simps)

lemma unat_less: "unat (w :: 'a::len word) < 2 ^ LENGTH('a)"
  by (rule unsigned_less)

lemma not_zero_bits: "NOT (w :: u64) = 0 \<Longrightarrow> j < 64 \<Longrightarrow> bit w j"
proof -
  assume "NOT w = 0" and j: "j < 64"
  then have "w = NOT 0" by (metis bit.double_compl)
  with j show "bit w j" by (simp add: bit_simps)
qed

end
