(* ===== verification/E4F_Bitops.thy ===== *)
theory E4F_Bitops
  imports E4F_Prelude
begin

text \<open>
  The bit operations of src/bitmap.h: __ffs and ffz on a 64-bit word, the single-bit operations on
  an array of unsigned longs and the two word-at-a-time searches. The array is a byte memory and
  an address is a byte offset into it; bit numbers are the non-negative values of the C ints. The
  lemmas reduce every operation to \<open>mbit\<close>, the bit of the memory that it touches.
\<close>

section \<open>Definitions\<close>

definition BIT_MASK :: "nat \<Rightarrow> u64" where
  "BIT_MASK nr = push_bit (nr mod 64) 1"

definition BIT_WORD :: "nat \<Rightarrow> nat" where
  "BIT_WORD nr = nr div 64"

text \<open>The byte address of the unsigned long that holds bit \<open>nr\<close>: \<open>(unsigned long *)addr + BIT_WORD(nr)\<close>.\<close>

definition long_at :: "nat \<Rightarrow> nat \<Rightarrow> nat" where
  "long_at addr nr = addr + 8 * BIT_WORD nr"

text \<open>One \<open>if\<close> of __ffs: the low \<open>k\<close> bits are skipped when they are all zero.\<close>

definition ffs_step :: "nat \<Rightarrow> nat \<times> u64 \<Rightarrow> nat \<times> u64" where
  "ffs_step k s = (case s of (num, word) \<Rightarrow>
     if word AND mask k = 0 then (num + k, drop_bit k word) else (num, word))"

definition ffs :: "u64 \<Rightarrow> nat" where
  "ffs word = fst (ffs_step 1 (ffs_step 2 (ffs_step 4 (ffs_step 8 (ffs_step 16 (ffs_step 32 (0, word)))))))"

definition ffz :: "u64 \<Rightarrow> nat" where
  "ffz x = ffs (NOT x)"

definition c_set_bit :: "nat \<Rightarrow> bytes \<Rightarrow> nat \<Rightarrow> bytes" where
  "c_set_bit nr m addr = (let p = long_at addr nr in st64 m p (ld64 m p OR BIT_MASK nr))"

definition c_clear_bit :: "nat \<Rightarrow> bytes \<Rightarrow> nat \<Rightarrow> bytes" where
  "c_clear_bit nr m addr = (let p = long_at addr nr in st64 m p (ld64 m p AND NOT (BIT_MASK nr)))"

definition c_change_bit :: "nat \<Rightarrow> bytes \<Rightarrow> nat \<Rightarrow> bytes" where
  "c_change_bit nr m addr = (let p = long_at addr nr in st64 m p (ld64 m p XOR BIT_MASK nr))"

definition test_and_set_bit :: "nat \<Rightarrow> bytes \<Rightarrow> nat \<Rightarrow> bool \<times> bytes" where
  "test_and_set_bit nr m addr =
     (let p = long_at addr nr; old = ld64 m p
      in (old AND BIT_MASK nr \<noteq> 0, st64 m p (old OR BIT_MASK nr)))"

definition test_and_clear_bit :: "nat \<Rightarrow> bytes \<Rightarrow> nat \<Rightarrow> bool \<times> bytes" where
  "test_and_clear_bit nr m addr =
     (let p = long_at addr nr; old = ld64 m p
      in (old AND BIT_MASK nr \<noteq> 0, st64 m p (old AND NOT (BIT_MASK nr))))"

definition test_and_change_bit :: "nat \<Rightarrow> bytes \<Rightarrow> nat \<Rightarrow> bool \<times> bytes" where
  "test_and_change_bit nr m addr =
     (let p = long_at addr nr; old = ld64 m p
      in (old AND BIT_MASK nr \<noteq> 0, st64 m p (old XOR BIT_MASK nr)))"

definition test_bit :: "nat \<Rightarrow> bytes \<Rightarrow> nat \<Rightarrow> bool" where
  "test_bit nr m addr \<longleftrightarrow> 1 AND drop_bit (nr mod 64) (ld64 m (long_at addr nr)) \<noteq> 0"

text \<open>
  find_next_bit and find_next_zero_bit. The labels found_first and found_middle and the loop
  over whole words are functions of their own; \<open>size & ~(BITS_PER_LONG-1)\<close> is non-zero exactly
  when the remaining size (\<open>sz\<close>) is at least 64.
\<close>

definition found_first_bit :: "u64 \<Rightarrow> nat \<Rightarrow> nat \<Rightarrow> nat" where
  "found_first_bit tmp result sz =
     (let tmp = tmp AND drop_bit (64 - sz) (NOT 0)
      in if tmp = 0 then result + sz else result + ffs tmp)"

fun find_next_bit_loop :: "bytes \<Rightarrow> nat \<Rightarrow> nat \<Rightarrow> nat \<Rightarrow> nat" where
  "find_next_bit_loop m p sz result =
     (if 64 \<le> sz then
        (let tmp = ld64 m p in
         if tmp \<noteq> 0 then result + ffs tmp
         else find_next_bit_loop m (p + 8) (sz - 64) (result + 64))
      else if sz = 0 then result
      else found_first_bit (ld64 m p) result sz)"

definition find_next_bit :: "bytes \<Rightarrow> nat \<Rightarrow> nat \<Rightarrow> nat \<Rightarrow> nat" where
  "find_next_bit m addr sz offset =
     (if sz \<le> offset then sz
      else
       (let p = long_at addr offset;
            result = 64 * (offset div 64);
            sz = sz - result;
            offset = offset mod 64
        in if offset \<noteq> 0 then
             (let tmp = ld64 m p AND push_bit offset (NOT 0) in
              if sz < 64 then found_first_bit tmp result sz
              else if tmp \<noteq> 0 then result + ffs tmp
              else find_next_bit_loop m (p + 8) (sz - 64) (result + 64))
           else find_next_bit_loop m p sz result))"

definition found_first_zero :: "u64 \<Rightarrow> nat \<Rightarrow> nat \<Rightarrow> nat" where
  "found_first_zero tmp result sz =
     (let tmp = tmp OR push_bit sz (NOT 0)
      in if tmp = NOT 0 then result + sz else result + ffz tmp)"

fun find_next_zero_loop :: "bytes \<Rightarrow> nat \<Rightarrow> nat \<Rightarrow> nat \<Rightarrow> nat" where
  "find_next_zero_loop m p sz result =
     (if 64 \<le> sz then
        (let tmp = ld64 m p in
         if NOT tmp \<noteq> 0 then result + ffz tmp
         else find_next_zero_loop m (p + 8) (sz - 64) (result + 64))
      else if sz = 0 then result
      else found_first_zero (ld64 m p) result sz)"

definition find_next_zero_bit :: "bytes \<Rightarrow> nat \<Rightarrow> nat \<Rightarrow> nat \<Rightarrow> nat" where
  "find_next_zero_bit m addr sz offset =
     (let p = long_at addr offset;
          result = 64 * (offset div 64)
      in if sz \<le> offset then sz
         else
          (let sz = sz - result;
               offset = offset mod 64
           in if offset \<noteq> 0 then
                (let tmp = ld64 m p OR drop_bit (64 - offset) (NOT 0) in
                 if sz < 64 then found_first_zero tmp result sz
                 else if NOT tmp \<noteq> 0 then result + ffz tmp
                 else find_next_zero_loop m (p + 8) (sz - 64) (result + 64))
              else find_next_zero_loop m p sz result))"

declare find_next_bit_loop.simps [simp del] find_next_zero_loop.simps [simp del]

section \<open>Facts\<close>

subsection \<open>The first set bit of a word\<close>

text \<open>
  After the step of width \<open>k\<close> the first set bit of the remaining word is below \<open>k\<close>, and the
  bits skipped so far were zero.
\<close>

definition ffs_inv :: "u64 \<Rightarrow> nat \<Rightarrow> nat \<times> u64 \<Rightarrow> bool" where
  "ffs_inv w k s \<longleftrightarrow>
     (\<exists>i<k. bit (snd s) i) \<and> snd s = drop_bit (fst s) w \<and> (\<forall>j < fst s. \<not> bit w j)"

lemma ffs_step_inv:
  assumes "ffs_inv w (2 * k) s"
  shows "ffs_inv w k (ffs_step k s)"
proof -
  obtain num word where s: "s = (num, word)" by (cases s)
  from assms s obtain i where i: "i < 2 * k" "bit word i"
    and d: "word = drop_bit num w" and z: "\<forall>j<num. \<not> bit w j"
    by (auto simp: ffs_inv_def)
  show ?thesis
  proof (cases "word AND mask k = 0")
    case True
    have low: "\<not> bit word j" if "j < k" for j
    proof
      assume "bit word j"
      then have "bit (word AND mask k) j"
        using that by (simp add: bit_simps bit64_bound)
      with True show False by simp
    qed
    have "k \<le> i" using low i(2) by (meson not_le)
    then have "i - k < k" "bit (drop_bit k word) (i - k)" using i by (auto simp: bit_simps)
    moreover have "\<not> bit w j" if "j < num + k" for j
    proof (cases "j < num")
      case False
      then have "\<not> bit word (j - num)" using low that by simp
      with False d show ?thesis by (simp add: bit_simps)
    qed (use z in simp)
    ultimately show ?thesis
      using True s d
      by (auto simp: ffs_step_def ffs_inv_def drop_bit_drop_bit add.commute intro: exI [of _ "i - k"])
  next
    case False
    then obtain j where "bit (word AND mask k) j" by (auto simp: bit_eq_iff)
    then have "j < k" "bit word j" by (auto simp: bit_simps)
    with False s d z show ?thesis by (auto simp: ffs_step_def ffs_inv_def)
  qed
qed

lemma ffs_inv_final:
  assumes "w \<noteq> 0"
  shows "ffs_inv w 1 (ffs_step 1 (ffs_step 2 (ffs_step 4 (ffs_step 8 (ffs_step 16 (ffs_step 32 (0, w)))))))"
proof -
  from assms obtain i where "bit w i" by (auto simp: bit_eq_iff)
  then have "ffs_inv w 64 (0, w)"
    by (auto simp: ffs_inv_def intro: bit64_bound)
  note init = this
  have step: "ffs_inv w k (ffs_step k s)" if "ffs_inv w n s" "n = 2 * k" for n k s
    using that ffs_step_inv by blast
  show ?thesis
    by (rule step, rule step, rule step, rule step, rule step, rule step, rule init) simp_all
qed

lemma bit_ffs: "w \<noteq> 0 \<Longrightarrow> bit w (ffs w)"
  using ffs_inv_final [of w] by (auto simp: ffs_inv_def ffs_def bit_simps)

lemma bit_before_ffs: "w \<noteq> 0 \<Longrightarrow> j < ffs w \<Longrightarrow> \<not> bit w j"
  using ffs_inv_final [of w] by (auto simp: ffs_inv_def ffs_def)

lemma ffs_less: "w \<noteq> 0 \<Longrightarrow> ffs w < 64"
  using bit_ffs [of w] bit_imp_le_length [of w "ffs w"] by simp


subsection \<open>Single-bit operations\<close>

lemma bit_BIT_MASK: "bit (BIT_MASK nr) j \<longleftrightarrow> j = nr mod 64"
  by (auto simp: BIT_MASK_def bit_simps)

lemma mbit_ld64_long_at:
  "j < 64 \<Longrightarrow> bit (ld64 m (long_at addr nr)) j \<longleftrightarrow> mbit m (8 * addr + 64 * (nr div 64) + j)"
  by (simp add: ld64_def bit_ld long_at_def BIT_WORD_def algebra_simps)

lemma mask_test: "ld64 m (long_at addr nr) AND BIT_MASK nr \<noteq> 0 \<longleftrightarrow> mbit m (8 * addr + nr)"
proof -
  have "bit (ld64 m (long_at addr nr)) (nr mod 64) \<longleftrightarrow> mbit m (8 * addr + nr)"
    by (subst mbit_ld64_long_at) (simp_all add: add.assoc)
  then show ?thesis
    by (auto simp: bit_eq_iff [where 'a = "64 word"] bit_simps bit_BIT_MASK)
qed

text \<open>
  A read-modify-write of the word of bit \<open>nr\<close> that agrees with the old word except at that bit
  changes that one bit of the memory.
\<close>

lemma mbit_word_update:
  assumes "long_at addr nr + 8 \<le> length m" and "i < 8 * length m"
    and "\<And>j. j < 64 \<Longrightarrow> bit w j \<longleftrightarrow> (if j = nr mod 64 then b else bit (ld64 m (long_at addr nr)) j)"
  shows "mbit (st64 m (long_at addr nr) w) i \<longleftrightarrow> (if i = 8 * addr + nr then b else mbit m i)"
proof -
  let ?a = "8 * addr + 64 * (nr div 64)"
  have p: "8 * long_at addr nr = ?a" by (simp add: long_at_def BIT_WORD_def)
  have r: "8 * addr + nr = ?a + nr mod 64" by (simp add: add.assoc)
  show ?thesis
  proof (cases "?a \<le> i \<and> i < ?a + 64")
    case True
    then have "mbit (st64 m (long_at addr nr) w) i \<longleftrightarrow> bit w (i - ?a)"
      using assms(2) p by (simp add: st64_def mbit_st algebra_simps)
    moreover obtain j where j: "i = ?a + j" using True le_Suc_ex by blast
    moreover have "64 * (nr div 64) + j = nr \<longleftrightarrow> j = nr mod 64"
      by (metis add_left_cancel mult_div_mod_eq)
    ultimately show ?thesis
      using True r by (simp add: assms(3) mbit_ld64_long_at)
  next
    case False
    then have "mbit (st64 m (long_at addr nr) w) i \<longleftrightarrow> mbit m i"
      using assms(2) p by (auto simp: st64_def mbit_st algebra_simps)
    moreover have "i \<noteq> 8 * addr + nr" using False r by auto
    ultimately show ?thesis by simp
  qed
qed

lemma length_bitops [simp]:
  "length (c_set_bit nr m addr) = length m"
  "length (c_clear_bit nr m addr) = length m"
  "length (c_change_bit nr m addr) = length m"
  "length (snd (test_and_set_bit nr m addr)) = length m"
  "length (snd (test_and_clear_bit nr m addr)) = length m"
  "length (snd (test_and_change_bit nr m addr)) = length m"
  by (simp_all add: c_set_bit_def c_clear_bit_def c_change_bit_def test_and_set_bit_def
      test_and_clear_bit_def test_and_change_bit_def Let_def st64_def)

lemma mbit_set_bit:
  assumes "long_at addr nr + 8 \<le> length m" and "i < 8 * length m"
  shows "mbit (c_set_bit nr m addr) i \<longleftrightarrow> i = 8 * addr + nr \<or> mbit m i"
  using assms by (simp add: c_set_bit_def Let_def mbit_word_update [where b = True] bit_simps bit_BIT_MASK)

lemma mbit_clear_bit:
  assumes "long_at addr nr + 8 \<le> length m" and "i < 8 * length m"
  shows "mbit (c_clear_bit nr m addr) i \<longleftrightarrow> i \<noteq> 8 * addr + nr \<and> mbit m i"
  using assms by (simp add: c_clear_bit_def Let_def mbit_word_update [where b = False] bit_simps bit_BIT_MASK)

lemma mbit_change_bit:
  assumes "long_at addr nr + 8 \<le> length m" and "i < 8 * length m"
  shows "mbit (c_change_bit nr m addr) i \<longleftrightarrow> (if i = 8 * addr + nr then \<not> mbit m i else mbit m i)"
proof -
  have "mbit (c_change_bit nr m addr) i \<longleftrightarrow>
    (if i = 8 * addr + nr then \<not> bit (ld64 m (long_at addr nr)) (nr mod 64) else mbit m i)"
    unfolding c_change_bit_def Let_def
    by (rule mbit_word_update [OF assms]) (auto simp: bit_simps bit_BIT_MASK)
  then show ?thesis by (simp add: mbit_ld64_long_at add.assoc)
qed

lemma test_and_bit_eq:
  "test_and_set_bit nr m addr = (mbit m (8 * addr + nr), c_set_bit nr m addr)"
  "test_and_clear_bit nr m addr = (mbit m (8 * addr + nr), c_clear_bit nr m addr)"
  "test_and_change_bit nr m addr = (mbit m (8 * addr + nr), c_change_bit nr m addr)"
  by (simp_all add: test_and_set_bit_def test_and_clear_bit_def test_and_change_bit_def
      c_set_bit_def c_clear_bit_def c_change_bit_def Let_def mask_test)

lemma test_bit_eq: "test_bit nr m addr \<longleftrightarrow> mbit m (8 * addr + nr)"
proof -
  have "test_bit nr m addr \<longleftrightarrow> bit (ld64 m (long_at addr nr)) (nr mod 64)"
    unfolding test_bit_def by (simp add: one_and_eq odd_iff_mod_2_eq_one [symmetric] bit_iff_odd_drop_bit [symmetric])
  then show ?thesis by (simp add: mbit_ld64_long_at add.assoc)
qed


subsection \<open>Searches\<close>

lemma first_from_ffs:
  assumes "w \<noteq> 0"
    and "\<And>j. j < 64 \<Longrightarrow> bit w j \<longleftrightarrow> off \<le> j \<and> res + j < n \<and> P (res + j)"
  shows "first_from P (res + off) n = res + ffs w"
proof (rule first_from_eqI)
  have f: "off \<le> ffs w \<and> res + ffs w < n \<and> P (res + ffs w)"
    using assms(2) [of "ffs w"] bit_ffs [OF assms(1)] ffs_less [OF assms(1)] by simp
  then show "res + off \<le> res + ffs w" "res + ffs w \<le> n" "P (res + ffs w)" by simp_all
  fix i assume i: "res + off \<le> i" "i < res + ffs w"
  then obtain j where j: "i = res + j" "j < ffs w" "off \<le> j" by (auto simp: le_iff_add)
  with f show "\<not> P i"
    using assms(2) [of j] bit_before_ffs [OF assms(1), of j] ffs_less [OF assms(1)] by simp
qed

lemma found_first_zero_eq:
  assumes "sz < 64" and "off \<le> sz"
    and "\<And>j. j < sz \<Longrightarrow> bit tmp j \<longleftrightarrow> j < off \<or> \<not> P (res + j)"
  shows "found_first_zero tmp res sz = first_from P (res + off) (res + sz)"
proof -
  let ?t = "NOT (tmp OR push_bit sz (NOT 0))"
  have b: "bit ?t j \<longleftrightarrow> off \<le> j \<and> res + j < res + sz \<and> P (res + j)" if "j < 64" for j
    using that assms by (auto simp: bit_simps not_le)
  show ?thesis
  proof (cases "?t = 0")
    case True
    then have "\<not> P (res + j)" if "off \<le> j" "j < sz" for j
      using b [of j] that assms(1) by simp
    then have "first_from P (res + off) (res + sz) = res + sz"
      using assms(2) by (intro first_from_none_shift)
    moreover have "tmp OR push_bit sz (NOT 0) = NOT 0"
      using True by (metis bit.compl_zero bit.double_compl)
    ultimately show ?thesis by (simp add: found_first_zero_def)
  next
    case False
    then have "tmp OR push_bit sz (NOT 0) \<noteq> NOT 0" by (metis bit.double_compl)
    then show ?thesis
      using first_from_ffs [OF False b] by (simp add: found_first_zero_def ffz_def)
  qed
qed

lemma found_first_bit_eq:
  assumes "sz < 64" and "off \<le> sz"
    and "\<And>j. j < sz \<Longrightarrow> bit tmp j \<longleftrightarrow> off \<le> j \<and> P (res + j)"
  shows "found_first_bit tmp res sz = first_from P (res + off) (res + sz)"
proof -
  let ?t = "tmp AND drop_bit (64 - sz) (NOT 0)"
  have b: "bit ?t j \<longleftrightarrow> off \<le> j \<and> res + j < res + sz \<and> P (res + j)" if "j < 64" for j
    using that assms by (cases "j < sz") (auto simp: bit_simps)
  show ?thesis
  proof (cases "?t = 0")
    case True
    then have "\<not> P (res + j)" if "off \<le> j" "j < sz" for j
      using b [of j] that assms(1) by simp
    then have "first_from P (res + off) (res + sz) = res + sz"
      using assms(2) by (intro first_from_none_shift)
    with True show ?thesis by (simp add: found_first_bit_def)
  next
    case False
    then show ?thesis
      using first_from_ffs [OF False b] by (simp add: found_first_bit_def)
  qed
qed

lemma find_next_zero_loop_eq:
  "8 * p = b + res \<Longrightarrow>
    find_next_zero_loop m p sz res = first_from (\<lambda>i. \<not> mbit m (b + i)) res (res + sz)"
proof (induction m p sz res rule: find_next_zero_loop.induct)
  case (1 m p sz res)
  let ?P = "\<lambda>i. \<not> mbit m (b + i)"
  have bits: "bit (ld64 m p) j \<longleftrightarrow> \<not> ?P (res + j)" if "j < 64" for j
    using that "1.prems" by (simp add: ld64_def bit_ld add.assoc)
  consider "64 \<le> sz" "NOT (ld64 m p) \<noteq> 0" | "64 \<le> sz" "NOT (ld64 m p) = 0" | "sz < 64"
    by linarith
  then show ?case
  proof cases
    case 1
    then have "first_from ?P (res + 0) (res + sz) = res + ffs (NOT (ld64 m p))"
      by (intro first_from_ffs) (auto simp: bit_simps bits)
    with 1 show ?thesis
      by (simp add: find_next_zero_loop.simps [of m p sz res] Let_def ffz_def)
  next
    case 2
    then have "first_from ?P (res + 0) (res + sz) = first_from ?P (res + 64) (res + sz)"
      by (intro first_from_skip_shift) (use bits not_zero_bits in auto)
    also have "\<dots> = find_next_zero_loop m (p + 8) (sz - 64) (res + 64)"
      using "1.IH" [of "ld64 m p"] 2 "1.prems" by simp
    finally show ?thesis
      using 2 by (simp add: find_next_zero_loop.simps [of m p sz res] Let_def)
  next
    case 3
    then have "found_first_zero (ld64 m p) res sz = first_from ?P (res + 0) (res + sz)"
      by (intro found_first_zero_eq) (auto simp: bits)
    with 3 show ?thesis
      by (simp add: find_next_zero_loop.simps [of m p sz res] first_from.simps)
  qed
qed

lemma find_next_bit_loop_eq:
  "8 * p = b + res \<Longrightarrow>
    find_next_bit_loop m p sz res = first_from (\<lambda>i. mbit m (b + i)) res (res + sz)"
proof (induction m p sz res rule: find_next_bit_loop.induct)
  case (1 m p sz res)
  let ?P = "\<lambda>i. mbit m (b + i)"
  have bits: "bit (ld64 m p) j \<longleftrightarrow> ?P (res + j)" if "j < 64" for j
    using that "1.prems" by (simp add: ld64_def bit_ld add.assoc)
  consider "64 \<le> sz" "ld64 m p \<noteq> 0" | "64 \<le> sz" "ld64 m p = 0" | "sz < 64"
    by linarith
  then show ?case
  proof cases
    case 1
    then have "first_from ?P (res + 0) (res + sz) = res + ffs (ld64 m p)"
      by (intro first_from_ffs) (auto simp: bits)
    with 1 show ?thesis
      by (simp add: find_next_bit_loop.simps [of m p sz res] Let_def)
  next
    case 2
    then have "first_from ?P (res + 0) (res + sz) = first_from ?P (res + 64) (res + sz)"
      by (intro first_from_skip_shift) (use bits in auto)
    also have "\<dots> = find_next_bit_loop m (p + 8) (sz - 64) (res + 64)"
      using "1.IH" [of "ld64 m p"] 2 "1.prems" by simp
    finally show ?thesis
      using 2 by (simp add: find_next_bit_loop.simps [of m p sz res] Let_def)
  next
    case 3
    then have "found_first_bit (ld64 m p) res sz = first_from ?P (res + 0) (res + sz)"
      by (intro found_first_bit_eq) (auto simp: bits)
    with 3 show ?thesis
      by (simp add: find_next_bit_loop.simps [of m p sz res] first_from.simps)
  qed
qed

text \<open>Both searches return the first position the naive scan over single bits finds.\<close>

lemma find_next_zero_bit_first_from:
  "find_next_zero_bit m addr sz offset =
    (if sz \<le> offset then sz else first_from (\<lambda>i. \<not> mbit m (8 * addr + i)) offset sz)"
proof (cases "sz \<le> offset")
  case False
  let ?P = "\<lambda>i. \<not> mbit m (8 * addr + i)" and ?r = "64 * (offset div 64)" and ?o = "offset mod 64"
  let ?p = "long_at addr offset"
  have ro: "?r + ?o = offset" by simp
  have p8: "8 * ?p = 8 * addr + ?r" by (simp add: long_at_def BIT_WORD_def)
  define s where "s = sz - ?r"
  have s: "?r + s = sz" "?o < s" using False ro unfolding s_def by linarith+
  let ?t = "ld64 m ?p OR drop_bit (64 - ?o) (NOT 0)"
  have bits: "bit ?t j \<longleftrightarrow> j < ?o \<or> \<not> ?P (?r + j)" if "j < 64" for j
    using that by (auto simp: bit_simps mbit_ld64_long_at add.assoc)
  have nbits: "bit (NOT ?t) j \<longleftrightarrow> ?o \<le> j \<and> ?P (?r + j)" if "j < 64" for j
    using that by (auto simp: bit_simps mbit_ld64_long_at add.assoc)
  have "find_next_zero_bit m addr sz offset = first_from ?P (?r + ?o) (?r + s)"
  proof -
    consider "?o = 0" | "?o \<noteq> 0" "s < 64" | "?o \<noteq> 0" "64 \<le> s" "NOT ?t \<noteq> 0" | "?o \<noteq> 0" "64 \<le> s" "NOT ?t = 0"
      by linarith
    then show ?thesis
    proof cases
      case 1
      then show ?thesis using False s p8
        by (simp add: find_next_zero_bit_def Let_def s_def [symmetric] find_next_zero_loop_eq [where b = "8 * addr"])
    next
      case 2
      moreover have "found_first_zero ?t ?r s = first_from ?P (?r + ?o) (?r + s)"
        using 2 s bits by (intro found_first_zero_eq) auto
      ultimately show ?thesis using False
        by (simp add: find_next_zero_bit_def Let_def s_def [symmetric])
    next
      case 3
      have "first_from ?P (?r + ?o) (?r + s) = ?r + ffs (NOT ?t)"
        by (rule first_from_ffs [OF 3(3)], unfold nbits) (use 3(2) in auto)
      with 3 False show ?thesis
        by (simp add: find_next_zero_bit_def Let_def s_def [symmetric] ffz_def)
    next
      case 4
      have "first_from ?P (?r + ?o) (?r + s) = first_from ?P (?r + 64) (?r + s)"
      proof (rule first_from_skip_shift)
        show "\<not> ?P (?r + j)" if "?o \<le> j" "j < 64" for j
          using nbits [OF that(2)] 4(3) that(1) by simp
      qed (use 4 in simp_all)
      with 4 False s p8 show ?thesis
        by (simp add: find_next_zero_bit_def Let_def s_def [symmetric] find_next_zero_loop_eq [where b = "8 * addr"])
    qed
  qed
  with False show ?thesis unfolding s(1) ro by simp
qed (simp add: find_next_zero_bit_def)

lemma find_next_bit_first_from:
  "find_next_bit m addr sz offset =
    (if sz \<le> offset then sz else first_from (\<lambda>i. mbit m (8 * addr + i)) offset sz)"
proof (cases "sz \<le> offset")
  case False
  let ?P = "\<lambda>i. mbit m (8 * addr + i)" and ?r = "64 * (offset div 64)" and ?o = "offset mod 64"
  let ?p = "long_at addr offset"
  have ro: "?r + ?o = offset" by simp
  have p8: "8 * ?p = 8 * addr + ?r" by (simp add: long_at_def BIT_WORD_def)
  define s where "s = sz - ?r"
  have s: "?r + s = sz" "?o < s" using False ro unfolding s_def by linarith+
  let ?t = "ld64 m ?p AND push_bit ?o (NOT 0)"
  have bits: "bit ?t j \<longleftrightarrow> ?o \<le> j \<and> ?P (?r + j)" if "j < 64" for j
    using that by (auto simp: bit_simps mbit_ld64_long_at add.assoc)
  have "find_next_bit m addr sz offset = first_from ?P (?r + ?o) (?r + s)"
  proof -
    consider "?o = 0" | "?o \<noteq> 0" "s < 64" | "?o \<noteq> 0" "64 \<le> s" "?t \<noteq> 0" | "?o \<noteq> 0" "64 \<le> s" "?t = 0"
      by linarith
    then show ?thesis
    proof cases
      case 1
      then show ?thesis using False s p8
        by (simp add: find_next_bit_def Let_def s_def [symmetric] find_next_bit_loop_eq [where b = "8 * addr"])
    next
      case 2
      moreover have "found_first_bit ?t ?r s = first_from ?P (?r + ?o) (?r + s)"
        using 2 s bits by (intro found_first_bit_eq) auto
      ultimately show ?thesis using False
        by (simp add: find_next_bit_def Let_def s_def [symmetric])
    next
      case 3
      have "first_from ?P (?r + ?o) (?r + s) = ?r + ffs (?t)"
        using 3 bits by (intro first_from_ffs) (auto simp: bit_simps)
      with 3 False show ?thesis
        by (simp add: find_next_bit_def Let_def s_def [symmetric])
    next
      case 4
      have "first_from ?P (?r + ?o) (?r + s) = first_from ?P (?r + 64) (?r + s)"
        using 4 bits by (intro first_from_skip_shift) (auto simp del: bit_and_iff)
      with 4 False s p8 show ?thesis
        by (simp add: find_next_bit_def Let_def s_def [symmetric] find_next_bit_loop_eq [where b = "8 * addr"])
    qed
  qed
  with False show ?thesis unfolding s(1) ro by simp
qed (simp add: find_next_bit_def)

end
