(* ===== verification/E4F_Bitmap.thy ===== *)
theory E4F_Bitmap
  imports E4F_Bitops
begin

text \<open>
  The block bitmap operations of src/bitmap.c on a byte memory \<open>m\<close> whose first byte is 8-byte
  aligned; \<open>addr\<close> and \<open>bm\<close> are byte offsets into it, so \<open>addr & 7\<close> is the misalignment that
  mb_correct_addr_and_bit folds into the bit number. The word-at-a-time loops are shown to be the
  bit-by-bit updates of a range, and the interface that the allocator relies on is the locale
  \<open>bitmap_ops\<close>.
\<close>

section \<open>Definitions\<close>

definition mb_correct_addr_and_bit :: "nat \<Rightarrow> nat \<Rightarrow> nat \<times> nat" where
  "mb_correct_addr_and_bit b addr = (b + push_bit 3 (addr AND 7), 8 * (addr div 8))"

definition mb_test_bit :: "nat \<Rightarrow> bytes \<Rightarrow> nat \<Rightarrow> bool" where
  "mb_test_bit b m addr = (let (b, addr) = mb_correct_addr_and_bit b addr in test_bit b m addr)"

definition mb_set_bit :: "nat \<Rightarrow> bytes \<Rightarrow> nat \<Rightarrow> bytes" where
  "mb_set_bit b m addr = (let (b, addr) = mb_correct_addr_and_bit b addr in c_set_bit b m addr)"

definition mb_clear_bit :: "nat \<Rightarrow> bytes \<Rightarrow> nat \<Rightarrow> bytes" where
  "mb_clear_bit b m addr = (let (b, addr) = mb_correct_addr_and_bit b addr in c_clear_bit b m addr)"

definition mb_test_and_clear_bit :: "nat \<Rightarrow> bytes \<Rightarrow> nat \<Rightarrow> bool \<times> bytes" where
  "mb_test_and_clear_bit b m addr =
     (let (b, addr) = mb_correct_addr_and_bit b addr in test_and_clear_bit b m addr)"

definition mb_find_next_zero_bit :: "bytes \<Rightarrow> nat \<Rightarrow> nat \<Rightarrow> nat \<Rightarrow> nat" where
  "mb_find_next_zero_bit m addr mx start =
     (let (fix, addr) = mb_correct_addr_and_bit 0 addr;
          tmpmax = mx + fix;
          start = start + fix;
          ret = find_next_zero_bit m addr tmpmax start - fix
      in if ret > mx then mx else ret)"

definition mb_find_next_bit :: "bytes \<Rightarrow> nat \<Rightarrow> nat \<Rightarrow> nat \<Rightarrow> nat" where
  "mb_find_next_bit m addr mx start =
     (let (fix, addr) = mb_correct_addr_and_bit 0 addr;
          tmpmax = mx + fix;
          start = start + fix;
          ret = find_next_bit m addr tmpmax start - fix
      in if ret > mx then mx else ret)"

function mb_clear_bits_loop :: "bytes \<Rightarrow> nat \<Rightarrow> nat \<Rightarrow> nat \<Rightarrow> bytes" where
  "mb_clear_bits_loop m bm cur len =
     (if cur < len then
        if cur mod 32 = 0 \<and> 32 \<le> len - cur
        then mb_clear_bits_loop (st32 m (bm + cur div 8) 0) bm (cur + 32) len
        else mb_clear_bits_loop (mb_clear_bit cur m bm) bm (cur + 1) len
      else m)"
  by pat_completeness auto
termination
  by (relation "measure (\<lambda>(m, bm, cur, len). len - cur)") auto

definition mb_clear_bits :: "bytes \<Rightarrow> nat \<Rightarrow> nat \<Rightarrow> nat \<Rightarrow> bytes" where
  "mb_clear_bits m bm cur len = mb_clear_bits_loop m bm cur (cur + len)"

function mb_test_and_clear_loop ::
    "bytes \<Rightarrow> nat \<Rightarrow> nat \<Rightarrow> nat \<Rightarrow> int \<Rightarrow> int \<times> bytes" where
  "mb_test_and_clear_loop m bm cur len zero_bit =
     (if cur < len then
        if cur mod 32 = 0 \<and> 32 \<le> len - cur
        then
          (let addr = bm + cur div 8;
               zero_bit =
                 (if ld32 m addr \<noteq> NOT 0 \<and> zero_bit = -1
                  then int cur + int (mb_find_next_zero_bit m addr 32 0)
                  else zero_bit)
           in mb_test_and_clear_loop (st32 m addr 0) bm (cur + 32) len zero_bit)
        else
          (let (old, m) = mb_test_and_clear_bit cur m bm;
               zero_bit = (if \<not> old \<and> zero_bit = -1 then int cur else zero_bit)
           in mb_test_and_clear_loop m bm (cur + 1) len zero_bit)
      else (zero_bit, m))"
  by pat_completeness auto
termination
  by (relation "measure (\<lambda>(m, bm, cur, len, z). len - cur)") auto

definition mb_test_and_clear_bits :: "bytes \<Rightarrow> nat \<Rightarrow> nat \<Rightarrow> nat \<Rightarrow> int \<times> bytes" where
  "mb_test_and_clear_bits m bm cur len = mb_test_and_clear_loop m bm cur (cur + len) (-1)"

function mb_set_bits_loop :: "bytes \<Rightarrow> nat \<Rightarrow> nat \<Rightarrow> nat \<Rightarrow> bytes" where
  "mb_set_bits_loop m bm cur len =
     (if cur < len then
        if cur mod 32 = 0 \<and> 32 \<le> len - cur
        then mb_set_bits_loop (st32 m (bm + cur div 8) 0xffffffff) bm (cur + 32) len
        else mb_set_bits_loop (mb_set_bit cur m bm) bm (cur + 1) len
      else m)"
  by pat_completeness auto
termination
  by (relation "measure (\<lambda>(m, bm, cur, len). len - cur)") auto

definition mb_set_bits :: "bytes \<Rightarrow> nat \<Rightarrow> nat \<Rightarrow> nat \<Rightarrow> bytes" where
  "mb_set_bits m bm cur len = mb_set_bits_loop m bm cur (cur + len)"

definition mb_find_zero_run_len :: "bytes \<Rightarrow> nat \<Rightarrow> nat \<Rightarrow> nat \<Rightarrow> int" where
  "mb_find_zero_run_len m addr mx start =
     int start + 1 - int (mb_find_next_zero_bit m addr mx start)"

declare mb_clear_bits_loop.simps [simp del] mb_set_bits_loop.simps [simp del]
  mb_test_and_clear_loop.simps [simp del]

section \<open>Facts\<close>

text \<open>The range \<open>[bm * 8, bm * 8 + n)\<close> lies in the memory, which is a whole number of longs.\<close>

definition in_mem :: "bytes \<Rightarrow> nat \<Rightarrow> nat \<Rightarrow> bool" where
  "in_mem m bm n \<longleftrightarrow> 8 * bm + n \<le> 8 * length m \<and> 8 dvd length m"

lemma and_7: "(addr::nat) AND 7 = addr mod 8"
proof -
  have "(7::nat) = mask 3" by (simp add: mask_eq_exp_minus_1)
  then have "addr AND 7 = take_bit 3 addr" by (simp only: take_bit_eq_mask)
  then show ?thesis by (simp add: take_bit_eq_mod)
qed

lemma correct_eq: "mb_correct_addr_and_bit b addr = (b + 8 * (addr mod 8), 8 * (addr div 8))"
  by (simp add: mb_correct_addr_and_bit_def push_bit_eq_mult and_7)

lemma correct_sum: "64 * (addr div 8) + (b + 8 * (addr mod 8)) = 8 * addr + (b::nat)"
  using mult_div_mod_eq [of 8 addr] by linarith

lemma long_in_mem:
  assumes "in_mem m bm n" and "b < n"
  shows "long_at (8 * (bm div 8)) (b + 8 * (bm mod 8)) + 8 \<le> length m"
proof -
  obtain k where k: "length m = 8 * k" using assms(1) by (auto simp: in_mem_def)
  have "8 * bm + b < 64 * k" using assms k by (simp add: in_mem_def)
  then have "(64 * (bm div 8) + (b + 8 * (bm mod 8))) div 64 < k"
    using correct_sum [of bm b] by (simp add: div_less_iff_less_mult mult.commute)
  then show ?thesis using k by (simp add: long_at_def BIT_WORD_def)
qed

lemma mb_bitops_eq:
  "mb_test_bit b m bm = mbit m (8 * bm + b)"
  "mb_test_and_clear_bit b m bm = (mbit m (8 * bm + b), mb_clear_bit b m bm)"
  by (simp_all add: mb_test_bit_def mb_test_and_clear_bit_def mb_clear_bit_def correct_eq test_bit_eq
      test_and_bit_eq correct_sum)

lemma length_mb_bit [simp]:
  "length (mb_set_bit b m bm) = length m" "length (mb_clear_bit b m bm) = length m"
  by (simp_all add: mb_set_bit_def mb_clear_bit_def correct_eq)

lemma mbit_mb_set_bit:
  assumes "in_mem m bm n" and "b < n" and "i < 8 * length m"
  shows "mbit (mb_set_bit b m bm) i \<longleftrightarrow> i = 8 * bm + b \<or> mbit m i"
  using mbit_set_bit [OF long_in_mem [OF assms(1,2)] assms(3)]
  by (simp add: mb_set_bit_def correct_eq correct_sum)

lemma mbit_mb_clear_bit:
  assumes "in_mem m bm n" and "b < n" and "i < 8 * length m"
  shows "mbit (mb_clear_bit b m bm) i \<longleftrightarrow> i \<noteq> 8 * bm + b \<and> mbit m i"
  using mbit_clear_bit [OF long_in_mem [OF assms(1,2)] assms(3)]
  by (simp add: mb_clear_bit_def correct_eq correct_sum)

lemma mbit_st32:
  assumes "i < 8 * length m" and "cur mod 32 = 0"
  shows "mbit (st32 m (bm + cur div 8) w) i \<longleftrightarrow>
    (if 8 * bm + cur \<le> i \<and> i < 8 * bm + cur + 32 then bit w (i - (8 * bm + cur)) else mbit m i)"
proof -
  have "8 * (cur div 8) = cur" using assms(2) by (auto simp: mod_eq_0_iff_dvd)
  then have "8 * (bm + cur div 8) = 8 * bm + cur" by simp
  moreover have "8 * (bm + cur div 8 + 4) = 8 * bm + cur + 32" using calculation by simp
  ultimately show ?thesis using assms(1) by (simp add: st32_def mbit_st)
qed

lemma length_mb_set_bits_loop [simp]: "length (mb_set_bits_loop m bm cur len) = length m"
proof (induction m bm cur len rule: mb_set_bits_loop.induct)
  case (1 m bm cur len)
  then show ?case by (simp add: mb_set_bits_loop.simps [of m bm cur len])
qed

lemma length_mb_clear_bits_loop [simp]: "length (mb_clear_bits_loop m bm cur len) = length m"
proof (induction m bm cur len rule: mb_clear_bits_loop.induct)
  case (1 m bm cur len)
  then show ?case by (simp add: mb_clear_bits_loop.simps [of m bm cur len])
qed

lemma bit_ffffffff: "bit (0xffffffff :: u32) j \<longleftrightarrow> j < 32"
proof -
  have "(0xffffffff :: u32) = mask 32" by (simp add: mask_eq_exp_minus_1)
  then show ?thesis by (simp only: bit_mask_iff) simp
qed

lemma mbit_st32_ones:
  assumes "i < 8 * length m" and "cur mod 32 = 0"
  shows "mbit (st32 m (bm + cur div 8) 0xffffffff) i \<longleftrightarrow>
    (if 8 * bm + cur \<le> i \<and> i < 8 * bm + cur + 32 then True else mbit m i)"
  unfolding mbit_st32 [OF assms] bit_ffffffff by auto

lemma range_split_set1:
  "(lo::nat) < hi \<Longrightarrow> lo + 1 \<le> i \<and> i < hi \<or> (i = lo \<or> q) \<longleftrightarrow> lo \<le> i \<and> i < hi \<or> q"
  by auto

lemma range_split_clear1:
  "(lo::nat) < hi \<Longrightarrow>
    \<not> (lo + 1 \<le> i \<and> i < hi) \<and> (i \<noteq> lo \<and> q) \<longleftrightarrow> \<not> (lo \<le> i \<and> i < hi) \<and> q"
  by auto

lemma range_split_set:
  "(lo::nat) + 32 \<le> hi \<Longrightarrow>
    lo + 32 \<le> i \<and> i < hi \<or> (if lo \<le> i \<and> i < lo + 32 then True else q) \<longleftrightarrow> lo \<le> i \<and> i < hi \<or> q"
  by auto

lemma range_split_clear:
  "(lo::nat) + 32 \<le> hi \<Longrightarrow>
    \<not> (lo + 32 \<le> i \<and> i < hi) \<and> (if lo \<le> i \<and> i < lo + 32 then False else q) \<longleftrightarrow>
    \<not> (lo \<le> i \<and> i < hi) \<and> q"
  by auto

lemma mb_set_bits_loop_mbit:
  "in_mem m bm len \<Longrightarrow> i < 8 * length m \<Longrightarrow>
    mbit (mb_set_bits_loop m bm cur len) i \<longleftrightarrow> 8 * bm + cur \<le> i \<and> i < 8 * bm + len \<or> mbit m i"
proof (induction m bm cur len rule: mb_set_bits_loop.induct)
  case (1 m bm cur len)
  consider "len \<le> cur" | "cur < len" "cur mod 32 = 0 \<and> 32 \<le> len - cur"
    | "cur < len" "\<not> (cur mod 32 = 0 \<and> 32 \<le> len - cur)" by linarith
  then show ?case
  proof cases
    case 1
    then show ?thesis by (auto simp: mb_set_bits_loop.simps [of m bm cur len])
  next
    case 2
    let ?m = "st32 m (bm + cur div 8) 0xffffffff" and ?lo = "8 * bm + cur"
    have "mbit ?m i \<longleftrightarrow> (if ?lo \<le> i \<and> i < ?lo + 32 then True else mbit m i)"
      using 2 "1.prems" by (intro mbit_st32_ones) simp_all
    moreover have "mbit (mb_set_bits_loop m bm cur len) i = mbit (mb_set_bits_loop ?m bm (cur + 32) len) i"
      using 2 by (simp add: mb_set_bits_loop.simps [of m bm cur len])
    moreover have "?lo + 32 \<le> 8 * bm + len" using 2 by linarith
    ultimately show ?thesis
      using "1.IH"(1) [OF 2] "1.prems"
      by (simp only: in_mem_def length_st_widths add.assoc [symmetric] range_split_set)
  next
    case 3
    have "mbit (mb_set_bits_loop m bm cur len) i = mbit (mb_set_bits_loop (mb_set_bit cur m bm) bm (cur + 1) len) i"
      using 3 by (auto simp: mb_set_bits_loop.simps [of m bm cur len])
    moreover have "8 * bm + cur < 8 * bm + len" using 3 by linarith
    ultimately show ?thesis
      using "1.IH"(2) [OF 3] "1.prems" mbit_mb_set_bit [OF "1.prems"(1) 3(1) "1.prems"(2)]
      by (simp only: in_mem_def length_mb_bit add.assoc [symmetric] range_split_set1)
  qed
qed

lemma mb_clear_bits_loop_mbit:
  "in_mem m bm len \<Longrightarrow> i < 8 * length m \<Longrightarrow>
    mbit (mb_clear_bits_loop m bm cur len) i \<longleftrightarrow> \<not> (8 * bm + cur \<le> i \<and> i < 8 * bm + len) \<and> mbit m i"
proof (induction m bm cur len rule: mb_clear_bits_loop.induct)
  case (1 m bm cur len)
  consider "len \<le> cur" | "cur < len" "cur mod 32 = 0 \<and> 32 \<le> len - cur"
    | "cur < len" "\<not> (cur mod 32 = 0 \<and> 32 \<le> len - cur)" by linarith
  then show ?case
  proof cases
    case 1
    then show ?thesis by (auto simp: mb_clear_bits_loop.simps [of m bm cur len])
  next
    case 2
    let ?m = "st32 m (bm + cur div 8) 0" and ?lo = "8 * bm + cur"
    have "mbit ?m i \<longleftrightarrow> (if ?lo \<le> i \<and> i < ?lo + 32 then False else mbit m i)"
      using 2 "1.prems" by (simp add: mbit_st32)
    moreover have "mbit (mb_clear_bits_loop m bm cur len) i = mbit (mb_clear_bits_loop ?m bm (cur + 32) len) i"
      using 2 by (simp add: mb_clear_bits_loop.simps [of m bm cur len])
    moreover have "?lo + 32 \<le> 8 * bm + len" using 2 by linarith
    ultimately show ?thesis
      using "1.IH"(1) [OF 2] "1.prems"
      by (simp only: in_mem_def length_st_widths add.assoc [symmetric] range_split_clear)
  next
    case 3
    have "mbit (mb_clear_bits_loop m bm cur len) i = mbit (mb_clear_bits_loop (mb_clear_bit cur m bm) bm (cur + 1) len) i"
      using 3 by (auto simp: mb_clear_bits_loop.simps [of m bm cur len])
    moreover have "8 * bm + cur < 8 * bm + len" using 3 by linarith
    ultimately show ?thesis
      using "1.IH"(2) [OF 3] "1.prems" mbit_mb_clear_bit [OF "1.prems"(1) 3(1) "1.prems"(2)]
      by (simp only: in_mem_def length_mb_bit add.assoc [symmetric] range_split_clear1)
  qed
qed

lemma mb_find_next_zero_bit_first_from:
  assumes "start \<le> mx"
  shows "mb_find_next_zero_bit m addr mx start = first_from (\<lambda>i. \<not> mbit m (8 * addr + i)) start mx"
proof -
  let ?f = "8 * (addr mod 8)" and ?a = "8 * (addr div 8)"
  let ?P = "\<lambda>i. \<not> mbit m (8 * addr + i)" and ?Q = "\<lambda>i. \<not> mbit m (8 * ?a + i)"
  have PQ: "?Q (i + ?f) = ?P i" for i by (simp add: correct_sum)
  have "find_next_zero_bit m ?a (mx + ?f) (start + ?f) = first_from ?Q (start + ?f) (mx + ?f)"
    using assms by (simp add: find_next_zero_bit_first_from first_from.simps)
  also have "\<dots> = first_from ?P start mx + ?f"
  proof (rule first_from_eqI)
    fix j assume j: "start + ?f \<le> j" "j < first_from ?P start mx + ?f"
    then obtain i where i: "j = i + ?f" "start \<le> i" "i < first_from ?P start mx"
      by (metis add_le_cancel_right add_less_cancel_right le_add2 le_Suc_ex add.commute order_trans)
    with first_from_bounds [OF assms] have "i < mx" by (meson less_le_trans)
    then show "\<not> ?Q j" using i PQ first_from_least [of start i ?P mx] by simp
  next
    assume "first_from ?P start mx + ?f < mx + ?f"
    then show "?Q (first_from ?P start mx + ?f)"
      using first_from_holds [of ?P start mx] by (simp add: correct_sum)
  qed (use first_from_bounds [OF assms, of ?P] in auto)
  finally show ?thesis
    using first_from_bounds [OF assms, of ?P]
    by (simp add: mb_find_next_zero_bit_def correct_eq)
qed

lemma mb_find_next_zero_bit_bounds:
  "start \<le> mx \<Longrightarrow> start \<le> mb_find_next_zero_bit m addr mx start \<and> mb_find_next_zero_bit m addr mx start \<le> mx"
  using first_from_bounds by (simp add: mb_find_next_zero_bit_first_from)

lemma mb_find_zero_run_len_at_zero:
  assumes "start \<le> mx" and "start < mx \<Longrightarrow> \<not> mbit m (8 * addr + start)"
  shows "mb_find_zero_run_len m addr mx start = 1"
proof -
  have "first_from (\<lambda>i. \<not> mbit m (8 * addr + i)) start mx = start"
    using assms by (auto simp: first_from.simps)
  then show ?thesis
    using assms(1) by (simp add: mb_find_zero_run_len_def mb_find_next_zero_bit_first_from)
qed

subsection \<open>Test and clear\<close>

text \<open>The position of the first zero bit of a range, or -1, as the C function returns it.\<close>

definition zero_or :: "int \<Rightarrow> (nat \<Rightarrow> bool) \<Rightarrow> nat \<Rightarrow> nat \<Rightarrow> int" where
  "zero_or z used cur len =
     (if z \<noteq> -1 then z
      else if first_from (\<lambda>i. \<not> used i) cur len < len then int (first_from (\<lambda>i. \<not> used i) cur len)
      else -1)"

lemma zero_or_step:
  assumes "cur < len"
  shows "zero_or z used cur len = zero_or (if \<not> used cur \<and> z = -1 then int cur else z) used (Suc cur) len"
  using assms by (auto simp: zero_or_def first_from.simps [of _ cur])

lemma zero_or_cong:
  assumes "\<And>i. cur \<le> i \<Longrightarrow> i < len \<Longrightarrow> used i = used' i"
  shows "zero_or z used cur len = zero_or z used' cur len"
  unfolding zero_or_def using first_from_cong [of cur len "\<lambda>i. \<not> used i" "\<lambda>i. \<not> used' i"] assms by simp

lemma zero_or_step32:
  assumes "cur mod 32 = 0" and "cur + 32 \<le> len"
    and used: "used = (\<lambda>i. mbit m (8 * bm + i))"
  shows "zero_or z used cur len =
    zero_or (if ld32 m (bm + cur div 8) \<noteq> NOT 0 \<and> z = -1
             then int cur + int (mb_find_next_zero_bit m (bm + cur div 8) 32 0) else z) used (cur + 32) len"
proof -
  let ?a = "bm + cur div 8"
  have "8 * (cur div 8) = cur" using assms(1) by (auto simp: mod_eq_0_iff_dvd)
  then have a: "8 * ?a + i = 8 * bm + (cur + i)" for i by simp
  have bits: "bit (ld32 m ?a) j \<longleftrightarrow> used (cur + j)" if "j < 32" for j
    using that unfolding ld32_def bit_ld a used by simp
  show ?thesis
  proof (cases "ld32 m ?a = NOT 0")
    case True
    then have "used (cur + j)" if "j < 32" for j using bits [OF that] that by (simp add: bit_simps)
    then have "first_from (\<lambda>i. \<not> used i) (cur + 0) (cur + (len - cur)) =
        first_from (\<lambda>i. \<not> used i) (cur + 32) (cur + (len - cur))"
      using assms(2) by (intro first_from_skip_shift) auto
    with True assms(2) show ?thesis by (simp add: zero_or_def)
  next
    case False
    then obtain k where k: "k < 32" "\<not> used (cur + k)"
      using bits by (auto simp: bit_eq_iff [where 'a = "32 word"] bit_simps)
    let ?f = "first_from (\<lambda>i. \<not> used (cur + i)) 0 32"
    have f: "mb_find_next_zero_bit m ?a 32 0 = ?f"
      by (simp only: mb_find_next_zero_bit_first_from [of 0 32, simplified] a used)
    have f32: "?f < 32"
      using first_from_least [of 0 k "\<lambda>i. \<not> used (cur + i)" 32] k by (meson not_le le0 less_le_trans)
    have "first_from (\<lambda>i. \<not> used i) cur len = cur + ?f"
    proof (rule first_from_eqI)
      show "\<not> \<not> used j" if "cur \<le> j" "j < cur + ?f" for j
        using first_from_least [of 0 "j - cur" "\<lambda>i. \<not> used (cur + i)" 32] that f32 by auto
      show "\<not> used (cur + ?f)" using first_from_holds [OF f32] .
    qed (use f32 assms(2) in auto)
    with False f f32 assms(2) show ?thesis by (auto simp: zero_or_def)
  qed
qed

lemma mb_test_and_clear_loop_eq:
  "in_mem m bm len \<Longrightarrow> mb_test_and_clear_loop m bm cur len z =
    (zero_or z (\<lambda>i. mbit m (8 * bm + i)) cur len, mb_clear_bits_loop m bm cur len)"
proof (induction m bm cur len z rule: mb_test_and_clear_loop.induct)
  case (1 m bm cur len z)
  let ?u = "\<lambda>m i. mbit m (8 * bm + i)"
  consider "len \<le> cur" | "cur < len" "cur mod 32 = 0 \<and> 32 \<le> len - cur"
    | "cur < len" "\<not> (cur mod 32 = 0 \<and> 32 \<le> len - cur)" by linarith
  then show ?case
  proof cases
    case 1
    then show ?thesis
      by (simp add: mb_test_and_clear_loop.simps [of m bm cur len] mb_clear_bits_loop.simps [of m bm cur len]
          zero_or_def first_from.simps)
  next
    case 2
    let ?m = "st32 m (bm + cur div 8) 0"
    let ?z = "if ld32 m (bm + cur div 8) \<noteq> NOT 0 \<and> z = -1
      then int cur + int (mb_find_next_zero_bit m (bm + cur div 8) 32 0) else z"
    have same: "?u ?m i = ?u m i" if "cur + 32 \<le> i" "i < len" for i
      using that 2 "1.prems" by (subst mbit_st32) (auto simp: in_mem_def)
    have "mb_test_and_clear_loop m bm cur len z = mb_test_and_clear_loop ?m bm (cur + 32) len ?z"
      using 2 by (simp add: mb_test_and_clear_loop.simps [of m bm cur len] Let_def)
    also have "\<dots> = (zero_or ?z (?u ?m) (cur + 32) len, mb_clear_bits_loop ?m bm (cur + 32) len)"
      using "1.IH"(1) [OF 2 refl refl] "1.prems" by (simp add: in_mem_def)
    also have "zero_or ?z (?u ?m) (cur + 32) len = zero_or ?z (?u m) (cur + 32) len"
      using same by (rule zero_or_cong)
    also have "\<dots> = zero_or z (?u m) cur len"
      using 2 by (intro zero_or_step32 [symmetric]) auto
    finally show ?thesis
      using 2 by (simp add: mb_clear_bits_loop.simps [of m bm cur len])
  next
    case 3
    let ?m = "mb_clear_bit cur m bm" and ?z = "if \<not> ?u m cur \<and> z = -1 then int cur else z"
    have same: "?u ?m i = ?u m i" if "Suc cur \<le> i" "i < len" for i
      using that mbit_mb_clear_bit [OF "1.prems" 3(1)] "1.prems" by (auto simp: in_mem_def)
    have "mb_test_and_clear_loop m bm cur len z = mb_test_and_clear_loop ?m bm (Suc cur) len ?z"
      using 3 by (auto simp: mb_test_and_clear_loop.simps [of m bm cur len] mb_bitops_eq)
    also have "\<dots> = (zero_or ?z (?u ?m) (Suc cur) len, mb_clear_bits_loop ?m bm (Suc cur) len)"
      using "1.IH"(2) [OF 3] "1.prems" by (simp add: in_mem_def mb_bitops_eq)
    also have "zero_or ?z (?u ?m) (Suc cur) len = zero_or ?z (?u m) (Suc cur) len"
      using same by (rule zero_or_cong)
    also have "\<dots> = zero_or z (?u m) cur len"
      using 3 by (simp add: zero_or_step [of cur len z])
    finally show ?thesis
      using 3 by (auto simp: mb_clear_bits_loop.simps [of m bm cur len])
  qed
qed

subsection \<open>The interface of a block bitmap\<close>

text \<open>
  What the allocator relies on: a bitmap of \<open>nbits\<close> bits that can be searched for a clear bit and
  whose ranges can be set and cleared.
\<close>

locale bitmap_ops =
  fixes invar :: "'m \<Rightarrow> bool"
    and nbits :: "'m \<Rightarrow> nat"
    and used :: "'m \<Rightarrow> nat \<Rightarrow> bool"
    and find_zero :: "'m \<Rightarrow> nat \<Rightarrow> nat \<Rightarrow> nat"
    and set_range :: "'m \<Rightarrow> nat \<Rightarrow> nat \<Rightarrow> 'm"
    and clear_range :: "'m \<Rightarrow> nat \<Rightarrow> nat \<Rightarrow> 'm"
  assumes find_zero: "start \<le> mx \<Longrightarrow> find_zero m mx start = first_from (\<lambda>i. \<not> used m i) start mx"
    and used_set: "invar m \<Longrightarrow> cur + len \<le> nbits m \<Longrightarrow> i < nbits m \<Longrightarrow>
      used (set_range m cur len) i \<longleftrightarrow> cur \<le> i \<and> i < cur + len \<or> used m i"
    and used_clear: "invar m \<Longrightarrow> cur + len \<le> nbits m \<Longrightarrow> i < nbits m \<Longrightarrow>
      used (clear_range m cur len) i \<longleftrightarrow> \<not> (cur \<le> i \<and> i < cur + len) \<and> used m i"
    and nbits_set: "nbits (set_range m cur len) = nbits m"
    and nbits_clear: "nbits (clear_range m cur len) = nbits m"
    and invar_set: "invar m \<Longrightarrow> invar (set_range m cur len)"
    and invar_clear: "invar m \<Longrightarrow> invar (clear_range m cur len)"
    and bitmap_ext: "nbits m = nbits m' \<Longrightarrow> (\<And>i. i < nbits m \<Longrightarrow> used m i = used m' i) \<Longrightarrow> m = m'"
begin

definition free_count :: "'m \<Rightarrow> nat \<Rightarrow> nat" where
  "free_count m mx = card {i. i < mx \<and> \<not> used m i}"

lemma find_zero_free:
  assumes "find_zero m mx 0 < mx"
  shows "\<not> used m (find_zero m mx 0)"
  using first_from_holds [of "\<lambda>i. \<not> used m i" 0 mx] assms by (simp add: find_zero)

lemma find_zero_full: "find_zero m mx 0 = mx \<longleftrightarrow> (\<forall>i<mx. used m i)"
proof
  assume "find_zero m mx 0 = mx"
  then show "\<forall>i<mx. used m i"
    using first_from_least [of 0 _ "\<lambda>i. \<not> used m i" mx] by (auto simp: find_zero)
next
  assume "\<forall>i<mx. used m i"
  then show "find_zero m mx 0 = mx" by (auto simp: find_zero intro: first_from_none)
qed

lemma find_zero_less: "0 < free_count m mx \<Longrightarrow> find_zero m mx 0 < mx"
proof (rule ccontr)
  assume "0 < free_count m mx" and "\<not> find_zero m mx 0 < mx"
  then have "find_zero m mx 0 = mx"
    using first_from_bounds [of 0 mx "\<lambda>i. \<not> used m i"] by (simp add: find_zero)
  then have "{i. i < mx \<and> \<not> used m i} = {}" by (auto simp: find_zero_full)
  with \<open>0 < free_count m mx\<close> show False by (simp add: free_count_def)
qed

lemma clear_set_range:
  assumes "invar m" and "cur + len \<le> nbits m"
    and "\<And>i. cur \<le> i \<Longrightarrow> i < cur + len \<Longrightarrow> \<not> used m i"
  shows "clear_range (set_range m cur len) cur len = m"
  by (rule bitmap_ext)
    (use assms in \<open>auto simp: nbits_set nbits_clear used_set used_clear invar_set\<close>)

lemma free_count_set:
  assumes "invar m" and "mx \<le> nbits m" and "b < mx" and "\<not> used m b"
  shows "Suc (free_count (set_range m b 1) mx) = free_count m mx"
proof -
  have "{i. i < mx \<and> \<not> used m i} = insert b {i. i < mx \<and> \<not> used (set_range m b 1) i}"
    using assms by (auto simp: used_set)
  moreover have "b \<notin> {i. i < mx \<and> \<not> used (set_range m b 1) i}"
    using assms by (simp add: used_set)
  ultimately show ?thesis by (simp add: free_count_def)
qed

end

text \<open>A block buffer is a bitmap: \<open>mb_*\<close> with the bitmap at the start of the buffer's data.\<close>

definition bm_invar :: "bytes \<Rightarrow> bool" where
  "bm_invar m \<longleftrightarrow> 8 dvd length m"

definition bm_bits :: "bytes \<Rightarrow> nat" where
  "bm_bits m = 8 * length m"

lemma length_mb_bits [simp]:
  "length (mb_set_bits m bm cur len) = length m" "length (mb_clear_bits m bm cur len) = length m"
  by (simp_all add: mb_set_bits_def mb_clear_bits_def)

lemma mb_set_bits_mbit:
  "in_mem m bm (cur + len) \<Longrightarrow> i < 8 * length m \<Longrightarrow>
    mbit (mb_set_bits m bm cur len) i \<longleftrightarrow> 8 * bm + cur \<le> i \<and> i < 8 * bm + cur + len \<or> mbit m i"
  by (simp add: mb_set_bits_def mb_set_bits_loop_mbit add.assoc)

lemma mb_clear_bits_mbit:
  "in_mem m bm (cur + len) \<Longrightarrow> i < 8 * length m \<Longrightarrow>
    mbit (mb_clear_bits m bm cur len) i \<longleftrightarrow>
      \<not> (8 * bm + cur \<le> i \<and> i < 8 * bm + cur + len) \<and> mbit m i"
  by (simp add: mb_clear_bits_def mb_clear_bits_loop_mbit add.assoc)

interpretation blk_bitmap: bitmap_ops bm_invar bm_bits mbit "\<lambda>m. mb_find_next_zero_bit m 0"
  "\<lambda>m. mb_set_bits m 0" "\<lambda>m. mb_clear_bits m 0"
proof (unfold_locales, goal_cases)
  case (1 start mx m)
  then show ?case by (simp add: mb_find_next_zero_bit_first_from)
next
  case (2 m cur len i)
  then show ?case by (subst mb_set_bits_mbit) (auto simp: in_mem_def bm_invar_def bm_bits_def)
next
  case (3 m cur len i)
  then show ?case by (subst mb_clear_bits_mbit) (auto simp: in_mem_def bm_invar_def bm_bits_def)
next
  case (8 m m')
  then show ?case by (simp add: bytes_eq_iff_mbit bm_bits_def)
qed (simp_all add: bm_invar_def bm_bits_def)

section \<open>Properties\<close>

text \<open>mb_set_bits() sets exactly the bits \<open>cur .. cur + len - 1\<close> of the bitmap at \<open>bm\<close>, with its
  32-bit fast path and its bit by bit path, and leaves every other bit of the memory alone.\<close>

theorem mb_set_bits_spec:
  assumes "in_mem m bm (cur + len)"
  shows "length (mb_set_bits m bm cur len) = length m \<and>
    (\<forall>i < 8 * length m. mbit (mb_set_bits m bm cur len) i =
       (8 * bm + cur \<le> i \<and> i < 8 * bm + cur + len \<or> mbit m i))"
  using mb_set_bits_mbit [OF assms] by simp

theorem mb_set_bits_spec_witness:
  "in_mem (replicate 16 0) 0 (3 + 70) \<and> mbit (mb_set_bits (replicate 16 0) 0 3 70) 40"
  using mb_set_bits_spec [of "replicate 16 0" 0 3 70] by (simp add: in_mem_def)

text \<open>Freeing a range of blocks that was free before it was allocated gives back the bitmap.\<close>

theorem mb_clear_set_bits_round_trip:
  assumes "8 dvd length m" "cur + len \<le> 8 * length m"
    and "\<forall>i. cur \<le> i \<and> i < cur + len \<longrightarrow> \<not> mbit m i"
  shows "mb_clear_bits (mb_set_bits m 0 cur len) 0 cur len = m"
  by (rule blk_bitmap.clear_set_range) (use assms in \<open>auto simp: bm_invar_def bm_bits_def\<close>)

theorem mb_clear_set_bits_round_trip_witness:
  "mb_clear_bits (mb_set_bits (replicate 16 0) 0 3 70) 0 3 70 = replicate 16 0"
proof (rule mb_clear_set_bits_round_trip, goal_cases)
  case 3
  show ?case by (auto simp: mbit_def)
qed simp_all

text \<open>C34: mb_find_next_zero_bit() returns the first clear bit at or after \<open>start\<close>, or \<open>mx\<close> when there
  is none, for every byte alignment of the bitmap.\<close>

theorem mb_find_next_zero_bit_spec:
  assumes "start \<le> mx"
  shows "(let r = mb_find_next_zero_bit m addr mx start in
     start \<le> r \<and> r \<le> mx \<and> (r < mx \<longrightarrow> \<not> mbit m (8 * addr + r)) \<and>
     (\<forall>i. start \<le> i \<and> i < r \<longrightarrow> mbit m (8 * addr + i)))"
  using first_from_bounds [OF assms, of "\<lambda>i. \<not> mbit m (8 * addr + i)"]
    first_from_holds [of "\<lambda>i. \<not> mbit m (8 * addr + i)" start mx]
    first_from_least [of start _ "\<lambda>i. \<not> mbit m (8 * addr + i)" mx]
  by (auto simp: Let_def mb_find_next_zero_bit_first_from [OF assms])

theorem mb_find_next_zero_bit_spec_witness:
  "mb_find_next_zero_bit [0x07, 0, 0, 0, 0, 0, 0, 0] 0 64 0 \<le> 3"
proof -
  have "\<not> mbit [0x07, 0, 0, 0, 0, 0, 0, 0] 3" by (simp add: mbit_def bit_numeral_rec)
  then show ?thesis
    using mb_find_next_zero_bit_spec [of 0 64 "[0x07, 0, 0, 0, 0, 0, 0, 0]" 0]
    by (simp add: Let_def) (meson not_le)
qed

text \<open>mb_test_and_clear_bits() clears the range as mb_clear_bits() does and returns the first bit of
  the range that was clear before, or -1 when every bit was set.\<close>

theorem mb_test_and_clear_bits_spec:
  assumes "in_mem m bm (cur + len)"
  shows "\<exists>z. mb_test_and_clear_bits m bm cur len = (z, mb_clear_bits m bm cur len) \<and>
    (z = -1 \<and> (\<forall>i. cur \<le> i \<and> i < cur + len \<longrightarrow> mbit m (8 * bm + i)) \<or>
     (\<exists>j. z = int j \<and> cur \<le> j \<and> j < cur + len \<and> \<not> mbit m (8 * bm + j) \<and>
       (\<forall>i. cur \<le> i \<and> i < j \<longrightarrow> mbit m (8 * bm + i))))"
proof -
  let ?P = "\<lambda>i. \<not> mbit m (8 * bm + i)" and ?u = "\<lambda>i. mbit m (8 * bm + i)"
  note f = first_from_bounds [of cur "cur + len" ?P] first_from_holds [of ?P cur "cur + len"]
    first_from_least [of cur _ ?P "cur + len"]
  have "mb_test_and_clear_bits m bm cur len =
      (zero_or (-1) ?u cur (cur + len), mb_clear_bits m bm cur len)"
    using mb_test_and_clear_loop_eq [OF assms] by (simp add: mb_test_and_clear_bits_def mb_clear_bits_def)
  moreover have "zero_or (-1) ?u cur (cur + len) = -1 \<and> (\<forall>i. cur \<le> i \<and> i < cur + len \<longrightarrow> ?u i)"
    if "\<not> first_from ?P cur (cur + len) < cur + len"
    using that f by (simp add: zero_or_def)
  moreover have "zero_or (-1) ?u cur (cur + len) = int (first_from ?P cur (cur + len))"
    if "first_from ?P cur (cur + len) < cur + len"
    using that by (simp add: zero_or_def)
  ultimately show ?thesis using f by (cases "first_from ?P cur (cur + len) < cur + len") auto
qed

theorem mb_test_and_clear_bits_spec_witness:
  "in_mem (replicate 16 0) 0 (3 + 70) \<and>
   snd (mb_test_and_clear_bits (replicate 16 0) 0 3 70) = mb_clear_bits (replicate 16 0) 0 3 70"
  using mb_test_and_clear_bits_spec [of "replicate 16 0" 0 3 70] by (auto simp: in_mem_def)

text \<open>mb_find_zero_run_len() at the position mb_find_next_zero_bit() returned, which is how the
  allocator calls it, is always 1, also when the bitmap has no clear bit: it measures the distance to
  the next clear bit, which is the start itself, not the length of the run of clear bits.\<close>

theorem mb_find_zero_run_len_is_one:
  assumes "start \<le> mx"
  shows "mb_find_zero_run_len m addr mx (mb_find_next_zero_bit m addr mx start) = 1"
  using mb_find_next_zero_bit_bounds [OF assms, of m addr]
    first_from_holds [of "\<lambda>i. \<not> mbit m (8 * addr + i)" start mx]
  by (intro mb_find_zero_run_len_at_zero) (simp_all add: mb_find_next_zero_bit_first_from [OF assms])

theorem mb_find_zero_run_len_is_one_witness:
  "mb_find_zero_run_len (replicate 8 0) 0 64 (mb_find_next_zero_bit (replicate 8 0) 0 64 0) = 1"
  by (rule mb_find_zero_run_len_is_one) simp

end
