(* ===== verification/E4F_Types.thy ===== *)
theory E4F_Types
  imports E4F_Prelude
begin

text \<open>
  The on-disk structures of src/types/ext4_super.h and src/types/ext4_inode.h as records, with the
  bytes of the C object for each: the sources read and write these structures with memcpy, so
  encoding and decoding follow the layout the compiler gives them (little-endian, no padding). An
  array of bytes is a byte list, an array of integers a list of words; \<open>*_wf\<close> says that the lists
  have the lengths of the arrays. \<open>i_block\<close> is kept as its 60 bytes, since the sources use it both
  as an array of block numbers and as the root node of the extent tree; of the unions osd1 and osd2
  the Linux members name the fields.
\<close>

section \<open>Little-endian encoding\<close>

fun le :: "nat \<Rightarrow> 'a::len word \<Rightarrow> bytes" where
  "le 0 w = []"
| "le (Suc n) w = ucast w # le n (drop_bit 8 w)"

definition le_arr :: "nat \<Rightarrow> 'a::len word list \<Rightarrow> bytes" where
  "le_arr n xs = concat (map (le n) xs)"

fun ld_arr :: "nat \<Rightarrow> nat \<Rightarrow> bytes \<Rightarrow> nat \<Rightarrow> 'a::len word list" where
  "ld_arr sz 0 m a = []"
| "ld_arr sz (Suc k) m a = ld sz m a # ld_arr sz k m (a + sz)"

named_theorems codec_simps

lemma length_le [simp]: "length (le n w) = n"
  by (induction n arbitrary: w) auto

lemma length_le_arr [simp]: "length (le_arr n xs) = n * length xs"
  by (induction xs) (auto simp: le_arr_def)

lemma length_ld_arr [simp]: "length (ld_arr sz k m a) = k"
  by (induction k arbitrary: a) auto

lemma ld_append_skip [codec_simps]: "length xs \<le> a \<Longrightarrow> ld n (xs @ ys) a = ld n ys (a - length xs)"
  by (induction n arbitrary: a) (auto simp: nth_append Suc_diff_le)

lemma ld_Cons_skip [codec_simps]: "0 < a \<Longrightarrow> ld n (x # ys) a = ld n ys (a - 1)"
  using ld_append_skip [of "[x]" a n ys] by simp

lemma ld_arr_append_skip [codec_simps]:
  "length xs \<le> a \<Longrightarrow> ld_arr sz k (xs @ ys) a = ld_arr sz k ys (a - length xs)"
  by (induction k arbitrary: a) (auto simp: ld_append_skip)

lemma ld_arr_Cons_skip [codec_simps]: "0 < a \<Longrightarrow> ld_arr sz k (x # ys) a = ld_arr sz k ys (a - 1)"
  using ld_arr_append_skip [of "[x]" a sz k ys] by simp

lemma slice_Cons_skip [codec_simps]: "0 < a \<Longrightarrow> slice (x # ys) a n = slice ys (a - 1) n"
  by (cases a) (simp_all add: slice_def)

lemma slice_append_skip [codec_simps]: "length xs \<le> a \<Longrightarrow> slice (xs @ ys) a n = slice ys (a - length xs) n"
  by (simp add: slice_def)

lemma nth_append_skip [codec_simps]: "length xs \<le> a \<Longrightarrow> (xs @ ys) ! a = ys ! (a - length xs)"
  by (simp add: nth_append)

lemma slice_append_head [codec_simps]: "length xs = n \<Longrightarrow> slice (xs @ ys) 0 n = xs"
  by (simp add: slice_def)

lemma bit_ld_le:
  "bit (ld n (le n w @ ys) 0 :: 'a::len word) i \<longleftrightarrow> i < 8 * n \<and> bit (w :: 'a word) i"
proof (induction n arbitrary: w i)
  case 0
  then show ?case by simp
next
  case (Suc n)
  have "ld n (le (Suc n) w @ ys) (Suc 0) = (ld n (le n (drop_bit 8 w) @ ys) 0 :: 'a word)"
    by (simp add: ld_Cons_skip)
  then show ?case
    using Suc.IH [of "drop_bit 8 w" "i - 8"]
    by (auto simp: bit_simps bit_imp_le_length dest: bit_imp_le_length)
qed

lemma ld_le [codec_simps]: "LENGTH('a) \<le> 8 * n \<Longrightarrow> ld n (le n w @ ys) 0 = (w :: 'a::len word)"
  by (rule bit_word_eqI) (auto simp: bit_ld_le)

lemma ld_arr_le_arr [codec_simps]:
  "LENGTH('a) \<le> 8 * n \<Longrightarrow> length xs = k \<Longrightarrow> ld_arr n k (le_arr n xs @ ys) 0 = (xs :: 'a::len word list)"
  by (induction xs arbitrary: k) (auto simp: le_arr_def ld_le ld_arr_append_skip)

lemma ld_arr_le_arr_end [codec_simps]:
  "LENGTH('a) \<le> 8 * n \<Longrightarrow> length xs = k \<Longrightarrow> ld_arr n k (le_arr n xs) 0 = (xs :: 'a::len word list)"
  using ld_arr_le_arr [of n xs k "[]"] by simp

lemma ld_le_end [codec_simps]: "LENGTH('a) \<le> 8 * n \<Longrightarrow> ld n (le n w) 0 = (w :: 'a::len word)"
  using ld_le [of n w "[]"] by simp

text \<open>The other direction: encoding what was loaded gives the bytes it was loaded from.\<close>

lemma le_ld [codec_simps]:
  "a + n \<le> length m \<Longrightarrow> 8 * n \<le> LENGTH('a) \<Longrightarrow> le n (ld n m a :: 'a::len word) = slice m a n"
proof (induction n arbitrary: a)
  case 0
  then show ?case by (simp add: slice_def)
next
  case (Suc n)
  have h: "ucast (ld (Suc n) m a :: 'a word) = m ! a"
    by (rule bit_word_eqI) (use Suc.prems in \<open>auto simp: bit_simps bit_ld mbit_def\<close>)
  have t: "le n (drop_bit 8 (ld (Suc n) m a :: 'a word)) = le n (ld n m (Suc a) :: 'a word)"
  proof (rule arg_cong [of _ _ "le n"], rule bit_word_eqI)
    fix i assume "i < LENGTH('a)"
    have "8 * a + (8 + i) = 8 * Suc a + i" by simp
    then show "bit (drop_bit 8 (ld (Suc n) m a :: 'a word)) i = bit (ld n m (Suc a) :: 'a word) i"
      using Suc.prems by (auto simp: bit_drop_bit_eq bit_ld ac_simps simp del: ld.simps)
  qed
  have "slice m a (Suc n) = m ! a # slice m (Suc a) n"
    using Suc.prems by (simp add: slice_def Cons_nth_drop_Suc [symmetric])
  then show ?case using h t Suc by simp
qed

lemma slice_slice_append: "slice m a n @ slice m (a + n) k = slice m a (n + k)"
proof -
  have "drop n (drop a m) = drop (a + n) m" by (simp add: add.commute)
  then show ?thesis by (simp only: slice_def take_add)
qed

lemma slice_join: "b = a + n \<Longrightarrow> slice m a n @ slice m b k = slice m a (n + k)"
  by (simp add: slice_slice_append)

lemma slice_join_Cons: "a < length m \<Longrightarrow> b = Suc a \<Longrightarrow> m ! a # slice m b k = slice m a (Suc k)"
  by (simp add: slice_def Cons_nth_drop_Suc [symmetric])

lemma slice_full: "length m = n \<Longrightarrow> slice m 0 n = m"
  by (simp add: slice_def)

lemma le_arr_ld_arr [codec_simps]:
  "a + n * k \<le> length m \<Longrightarrow> 8 * n \<le> LENGTH('a) \<Longrightarrow>
    le_arr n (ld_arr n k m a :: 'a::len word list) = slice m a (n * k)"
proof (induction k arbitrary: a)
  case 0
  then show ?case by (simp add: le_arr_def slice_def)
next
  case (Suc k)
  then have "le_arr n (ld_arr n k m (a + n) :: 'a word list) = slice m (a + n) (n * k)" by simp
  with Suc.prems show ?case
    using slice_slice_append [of m a n "n * k"] by (simp add: le_arr_def le_ld)
qed

section \<open>Group descriptors\<close>

record ext4_group_desc =
  bg_block_bitmap_lo :: u32
  bg_inode_bitmap_lo :: u32
  bg_inode_table_lo :: u32
  bg_free_blocks_count_lo :: u16
  bg_free_inodes_count_lo :: u16
  bg_used_dirs_count_lo :: u16
  bg_flags :: u16
  bg_reserved :: "u32 list"
  bg_itable_unused_lo :: u16
  bg_checksum :: u16
  bg_block_bitmap_hi :: u32
  bg_inode_bitmap_hi :: u32
  bg_inode_table_hi :: u32
  bg_free_blocks_count_hi :: u16
  bg_free_inodes_count_hi :: u16
  bg_used_dirs_count_hi :: u16
  bg_itable_unused_hi :: u16
  bg_reserved2 :: "u32 list"

definition gdesc_bytes :: "ext4_group_desc \<Rightarrow> bytes" where
  "gdesc_bytes x =
     le 4 (bg_block_bitmap_lo x) @ le 4 (bg_inode_bitmap_lo x) @ le 4 (bg_inode_table_lo x) @
     le 2 (bg_free_blocks_count_lo x) @ le 2 (bg_free_inodes_count_lo x) @
     le 2 (bg_used_dirs_count_lo x) @ le 2 (bg_flags x) @ le_arr 4 (bg_reserved x) @
     le 2 (bg_itable_unused_lo x) @ le 2 (bg_checksum x) @ le 4 (bg_block_bitmap_hi x) @
     le 4 (bg_inode_bitmap_hi x) @ le 4 (bg_inode_table_hi x) @ le 2 (bg_free_blocks_count_hi x) @
     le 2 (bg_free_inodes_count_hi x) @ le 2 (bg_used_dirs_count_hi x) @
     le 2 (bg_itable_unused_hi x) @ le_arr 4 (bg_reserved2 x)"

definition gdesc_of :: "bytes \<Rightarrow> ext4_group_desc" where
  "gdesc_of m =
     \<lparr>bg_block_bitmap_lo = ld 4 m 0, bg_inode_bitmap_lo = ld 4 m 4, bg_inode_table_lo = ld 4 m 8,
      bg_free_blocks_count_lo = ld 2 m 12, bg_free_inodes_count_lo = ld 2 m 14,
      bg_used_dirs_count_lo = ld 2 m 16, bg_flags = ld 2 m 18, bg_reserved = ld_arr 4 2 m 20,
      bg_itable_unused_lo = ld 2 m 28, bg_checksum = ld 2 m 30, bg_block_bitmap_hi = ld 4 m 32,
      bg_inode_bitmap_hi = ld 4 m 36, bg_inode_table_hi = ld 4 m 40,
      bg_free_blocks_count_hi = ld 2 m 44, bg_free_inodes_count_hi = ld 2 m 46,
      bg_used_dirs_count_hi = ld 2 m 48, bg_itable_unused_hi = ld 2 m 50,
      bg_reserved2 = ld_arr 4 3 m 52\<rparr>"

definition gdesc_wf :: "ext4_group_desc \<Rightarrow> bool" where
  "gdesc_wf x \<longleftrightarrow> length (bg_reserved x) = 2 \<and> length (bg_reserved2 x) = 3"

section \<open>The superblock\<close>

record ext4_super_block =
  s_inodes_count :: u32
  s_blocks_count_lo :: u32
  s_r_blocks_count_lo :: u32
  s_free_blocks_count_lo :: u32
  s_free_inodes_count :: u32
  s_first_data_block :: u32
  s_log_block_size :: u32
  s_obso_log_frag_size :: u32
  s_blocks_per_group :: u32
  s_obso_frags_per_group :: u32
  s_inodes_per_group :: u32
  s_mtime :: u32
  s_wtime :: u32
  s_mnt_count :: u16
  s_max_mnt_count :: u16
  s_magic :: u16
  s_state :: u16
  s_errors :: u16
  s_minor_rev_level :: u16
  s_lastcheck :: u32
  s_checkinterval :: u32
  s_creator_os :: u32
  s_rev_level :: u32
  s_def_resuid :: u16
  s_def_resgid :: u16
  s_first_ino :: u32
  s_inode_size :: u16
  s_block_group_nr :: u16
  s_feature_compat :: u32
  s_feature_incompat :: u32
  s_feature_ro_compat :: u32
  s_uuid :: bytes
  s_volume_name :: bytes
  s_last_mounted :: bytes
  s_algorithm_usage_bitmap :: u32
  s_prealloc_blocks :: u8
  s_prealloc_dir_blocks :: u8
  s_reserved_gdt_blocks :: u16
  s_journal_uuid :: bytes
  s_journal_inum :: u32
  s_journal_dev :: u32
  s_last_orphan :: u32
  s_hash_seed :: "u32 list"
  s_def_hash_version :: u8
  s_reserved_char_pad :: u8
  s_desc_size :: u16
  s_default_mount_opts :: u32
  s_first_meta_bg :: u32
  s_mkfs_time :: u32
  s_jnl_blocks :: "u32 list"
  s_blocks_count_hi :: u32
  s_r_blocks_count_hi :: u32
  s_free_blocks_count_hi :: u32
  s_min_extra_isize :: u16
  s_want_extra_isize :: u16
  s_flags :: u32
  s_raid_stride :: u16
  s_mmp_interval :: u16
  s_mmp_block :: u64
  s_raid_stripe_width :: u32
  s_log_groups_per_flex :: u8
  s_reserved_char_pad2 :: u8
  s_reserved_pad :: u16
  s_kbytes_written :: u64
  s_reserved :: "u32 list"

definition super_bytes :: "ext4_super_block \<Rightarrow> bytes" where
  "super_bytes x =
     le 4 (s_inodes_count x) @ le 4 (s_blocks_count_lo x) @ le 4 (s_r_blocks_count_lo x) @
     le 4 (s_free_blocks_count_lo x) @ le 4 (s_free_inodes_count x) @ le 4 (s_first_data_block x) @
     le 4 (s_log_block_size x) @ le 4 (s_obso_log_frag_size x) @ le 4 (s_blocks_per_group x) @
     le 4 (s_obso_frags_per_group x) @ le 4 (s_inodes_per_group x) @ le 4 (s_mtime x) @
     le 4 (s_wtime x) @ le 2 (s_mnt_count x) @ le 2 (s_max_mnt_count x) @ le 2 (s_magic x) @
     le 2 (s_state x) @ le 2 (s_errors x) @ le 2 (s_minor_rev_level x) @ le 4 (s_lastcheck x) @
     le 4 (s_checkinterval x) @ le 4 (s_creator_os x) @ le 4 (s_rev_level x) @
     le 2 (s_def_resuid x) @ le 2 (s_def_resgid x) @ le 4 (s_first_ino x) @ le 2 (s_inode_size x) @
     le 2 (s_block_group_nr x) @ le 4 (s_feature_compat x) @ le 4 (s_feature_incompat x) @
     le 4 (s_feature_ro_compat x) @ s_uuid x @ s_volume_name x @ s_last_mounted x @
     le 4 (s_algorithm_usage_bitmap x) @ [s_prealloc_blocks x] @ [s_prealloc_dir_blocks x] @
     le 2 (s_reserved_gdt_blocks x) @ s_journal_uuid x @ le 4 (s_journal_inum x) @
     le 4 (s_journal_dev x) @ le 4 (s_last_orphan x) @ le_arr 4 (s_hash_seed x) @
     [s_def_hash_version x] @ [s_reserved_char_pad x] @ le 2 (s_desc_size x) @
     le 4 (s_default_mount_opts x) @ le 4 (s_first_meta_bg x) @ le 4 (s_mkfs_time x) @
     le_arr 4 (s_jnl_blocks x) @ le 4 (s_blocks_count_hi x) @ le 4 (s_r_blocks_count_hi x) @
     le 4 (s_free_blocks_count_hi x) @ le 2 (s_min_extra_isize x) @ le 2 (s_want_extra_isize x) @
     le 4 (s_flags x) @ le 2 (s_raid_stride x) @ le 2 (s_mmp_interval x) @ le 8 (s_mmp_block x) @
     le 4 (s_raid_stripe_width x) @ [s_log_groups_per_flex x] @ [s_reserved_char_pad2 x] @
     le 2 (s_reserved_pad x) @ le 8 (s_kbytes_written x) @ le_arr 4 (s_reserved x)"

definition super_of :: "bytes \<Rightarrow> ext4_super_block" where
  "super_of m =
     \<lparr>s_inodes_count = ld 4 m 0, s_blocks_count_lo = ld 4 m 4, s_r_blocks_count_lo = ld 4 m 8,
      s_free_blocks_count_lo = ld 4 m 12, s_free_inodes_count = ld 4 m 16,
      s_first_data_block = ld 4 m 20, s_log_block_size = ld 4 m 24, s_obso_log_frag_size = ld 4 m 28,
      s_blocks_per_group = ld 4 m 32, s_obso_frags_per_group = ld 4 m 36,
      s_inodes_per_group = ld 4 m 40, s_mtime = ld 4 m 44, s_wtime = ld 4 m 48,
      s_mnt_count = ld 2 m 52, s_max_mnt_count = ld 2 m 54, s_magic = ld 2 m 56, s_state = ld 2 m 58,
      s_errors = ld 2 m 60, s_minor_rev_level = ld 2 m 62, s_lastcheck = ld 4 m 64,
      s_checkinterval = ld 4 m 68, s_creator_os = ld 4 m 72, s_rev_level = ld 4 m 76,
      s_def_resuid = ld 2 m 80, s_def_resgid = ld 2 m 82, s_first_ino = ld 4 m 84,
      s_inode_size = ld 2 m 88, s_block_group_nr = ld 2 m 90, s_feature_compat = ld 4 m 92,
      s_feature_incompat = ld 4 m 96, s_feature_ro_compat = ld 4 m 100, s_uuid = slice m 104 16,
      s_volume_name = slice m 120 16, s_last_mounted = slice m 136 64,
      s_algorithm_usage_bitmap = ld 4 m 200, s_prealloc_blocks = m ! 204,
      s_prealloc_dir_blocks = m ! 205, s_reserved_gdt_blocks = ld 2 m 206,
      s_journal_uuid = slice m 208 16, s_journal_inum = ld 4 m 224, s_journal_dev = ld 4 m 228,
      s_last_orphan = ld 4 m 232, s_hash_seed = ld_arr 4 4 m 236, s_def_hash_version = m ! 252,
      s_reserved_char_pad = m ! 253, s_desc_size = ld 2 m 254, s_default_mount_opts = ld 4 m 256,
      s_first_meta_bg = ld 4 m 260, s_mkfs_time = ld 4 m 264, s_jnl_blocks = ld_arr 4 17 m 268,
      s_blocks_count_hi = ld 4 m 336, s_r_blocks_count_hi = ld 4 m 340,
      s_free_blocks_count_hi = ld 4 m 344, s_min_extra_isize = ld 2 m 348,
      s_want_extra_isize = ld 2 m 350, s_flags = ld 4 m 352, s_raid_stride = ld 2 m 356,
      s_mmp_interval = ld 2 m 358, s_mmp_block = ld 8 m 360, s_raid_stripe_width = ld 4 m 368,
      s_log_groups_per_flex = m ! 372, s_reserved_char_pad2 = m ! 373, s_reserved_pad = ld 2 m 374,
      s_kbytes_written = ld 8 m 376, s_reserved = ld_arr 4 160 m 384\<rparr>"

definition super_wf :: "ext4_super_block \<Rightarrow> bool" where
  "super_wf x \<longleftrightarrow> length (s_uuid x) = 16 \<and> length (s_volume_name x) = 16 \<and>
    length (s_last_mounted x) = 64 \<and> length (s_journal_uuid x) = 16 \<and>
    length (s_hash_seed x) = 4 \<and> length (s_jnl_blocks x) = 17 \<and>
    length (s_reserved x) = 160"

section \<open>Inodes\<close>

record ext4_inode =
  i_mode :: u16
  i_uid :: u16
  i_size_lo :: u32
  i_atime :: u32
  i_ctime :: u32
  i_mtime :: u32
  i_dtime :: u32
  i_gid :: u16
  i_links_count :: u16
  i_blocks_lo :: u32
  i_flags :: u32
  l_i_version :: u32
  i_block :: bytes
  i_generation :: u32
  i_file_acl_lo :: u32
  i_size_high :: u32
  i_obso_faddr :: u32
  l_i_blocks_high :: u16
  l_i_file_acl_high :: u16
  l_i_uid_high :: u16
  l_i_gid_high :: u16
  l_i_reserved2 :: u32
  i_extra_isize :: u16
  i_pad1 :: u16
  i_ctime_extra :: u32
  i_mtime_extra :: u32
  i_atime_extra :: u32
  i_crtime :: u32
  i_crtime_extra :: u32
  i_version_hi :: u32

definition inode_bytes :: "ext4_inode \<Rightarrow> bytes" where
  "inode_bytes x =
     le 2 (i_mode x) @ le 2 (i_uid x) @ le 4 (i_size_lo x) @ le 4 (i_atime x) @ le 4 (i_ctime x) @
     le 4 (i_mtime x) @ le 4 (i_dtime x) @ le 2 (i_gid x) @ le 2 (i_links_count x) @
     le 4 (i_blocks_lo x) @ le 4 (i_flags x) @ le 4 (l_i_version x) @ i_block x @
     le 4 (i_generation x) @ le 4 (i_file_acl_lo x) @ le 4 (i_size_high x) @ le 4 (i_obso_faddr x) @
     le 2 (l_i_blocks_high x) @ le 2 (l_i_file_acl_high x) @ le 2 (l_i_uid_high x) @
     le 2 (l_i_gid_high x) @ le 4 (l_i_reserved2 x) @ le 2 (i_extra_isize x) @ le 2 (i_pad1 x) @
     le 4 (i_ctime_extra x) @ le 4 (i_mtime_extra x) @ le 4 (i_atime_extra x) @ le 4 (i_crtime x) @
     le 4 (i_crtime_extra x) @ le 4 (i_version_hi x)"

definition inode_of :: "bytes \<Rightarrow> ext4_inode" where
  "inode_of m =
     \<lparr>i_mode = ld 2 m 0, i_uid = ld 2 m 2, i_size_lo = ld 4 m 4, i_atime = ld 4 m 8,
      i_ctime = ld 4 m 12, i_mtime = ld 4 m 16, i_dtime = ld 4 m 20, i_gid = ld 2 m 24,
      i_links_count = ld 2 m 26, i_blocks_lo = ld 4 m 28, i_flags = ld 4 m 32,
      l_i_version = ld 4 m 36, i_block = slice m 40 60, i_generation = ld 4 m 100,
      i_file_acl_lo = ld 4 m 104, i_size_high = ld 4 m 108, i_obso_faddr = ld 4 m 112,
      l_i_blocks_high = ld 2 m 116, l_i_file_acl_high = ld 2 m 118, l_i_uid_high = ld 2 m 120,
      l_i_gid_high = ld 2 m 122, l_i_reserved2 = ld 4 m 124, i_extra_isize = ld 2 m 128,
      i_pad1 = ld 2 m 130, i_ctime_extra = ld 4 m 132, i_mtime_extra = ld 4 m 136,
      i_atime_extra = ld 4 m 140, i_crtime = ld 4 m 144, i_crtime_extra = ld 4 m 148,
      i_version_hi = ld 4 m 152\<rparr>"

definition inode_wf :: "ext4_inode \<Rightarrow> bool" where
  "inode_wf x \<longleftrightarrow> length (i_block x) = 60"

section \<open>Round trips\<close>

lemma length_gdesc_bytes: "gdesc_wf g \<Longrightarrow> length (gdesc_bytes g) = 64"
  by (simp add: gdesc_bytes_def gdesc_wf_def)

lemma length_inode_bytes: "inode_wf i \<Longrightarrow> length (inode_bytes i) = 156"
  by (simp add: inode_bytes_def inode_wf_def)

lemma length_super_bytes: "super_wf s \<Longrightarrow> length (super_bytes s) = 1024"
  by (simp add: super_bytes_def super_wf_def)

lemma gdesc_of_bytes: "gdesc_wf g \<Longrightarrow> gdesc_of (gdesc_bytes g) = g"
  by (simp add: gdesc_of_def gdesc_bytes_def gdesc_wf_def codec_simps)

lemma inode_of_bytes: "inode_wf i \<Longrightarrow> inode_of (inode_bytes i) = i"
  by (simp add: inode_of_def inode_bytes_def inode_wf_def codec_simps)

lemma super_of_bytes: "super_wf s \<Longrightarrow> super_of (super_bytes s) = s"
  by (simp add: super_of_def super_bytes_def super_wf_def codec_simps)

text \<open>The bytes of the structures as blocks of the device hold them.\<close>

lemma gdesc_bytes_of: "length m = 64 \<Longrightarrow> gdesc_bytes (gdesc_of m) = m"
  by (simp add: gdesc_of_def gdesc_bytes_def codec_simps slice_join slice_full)

lemma inode_bytes_of: "length m = 156 \<Longrightarrow> inode_bytes (inode_of m) = m"
  by (simp add: inode_of_def inode_bytes_def codec_simps slice_join slice_full)

lemma super_bytes_of: "length m = 1024 \<Longrightarrow> super_bytes (super_of m) = m"
  by (simp add: super_of_def super_bytes_def codec_simps slice_join slice_full slice_join_Cons)

lemma gdesc_wf_of: "length m = 64 \<Longrightarrow> gdesc_wf (gdesc_of m)"
  by (simp add: gdesc_wf_def gdesc_of_def)

lemma inode_wf_of: "length m = 156 \<Longrightarrow> inode_wf (inode_of m)"
  by (simp add: inode_wf_def inode_of_def slice_def)

lemma super_wf_of: "length m = 1024 \<Longrightarrow> super_wf (super_of m)"
  by (simp add: super_wf_def super_of_def slice_def)

section \<open>Inodes in memory\<close>

text \<open>
  struct inode of inode_in-memory.h. Its raw_inode points to an object of the caller that no one
  else changes while the inode is in use, so it is part of the record.
\<close>

record inode =
  i_data_dirty :: bool
  i_ino :: u32
  raw_inode :: ext4_inode

definition inode_mark_dirty :: "inode \<Rightarrow> inode" where
  "inode_mark_dirty inode = inode\<lparr>i_data_dirty := True\<rparr>"

definition inode_set_size :: "inode \<Rightarrow> u64 \<Rightarrow> inode" where
  "inode_set_size inode sz =
     inode_mark_dirty (inode\<lparr>raw_inode := (raw_inode inode)
       \<lparr>i_size_lo := ucast sz, i_size_high := ucast (drop_bit 32 sz)\<rparr>\<rparr>)"

definition inode_get_size :: "inode \<Rightarrow> u64" where
  "inode_get_size inode =
     push_bit 32 (ucast (i_size_high (raw_inode inode))) OR ucast (i_size_lo (raw_inode inode))"

text \<open>A 64-bit value split into two 32-bit halves, and a 32-bit value into two 16-bit halves.\<close>

lemma hi_lo_64: "push_bit 32 (ucast (ucast (drop_bit 32 w) :: u32)) OR ucast (ucast w :: u32) = (w :: u64)"
  by (rule bit_word_eqI) (auto simp: bit_simps)

lemma lo_hi_64: "ucast (ucast w :: u32) OR push_bit 32 (ucast (ucast (drop_bit 32 w) :: u32)) = (w :: u64)"
  by (rule bit_word_eqI) (auto simp: bit_simps)

lemma lo_hi_32: "ucast (ucast w :: u16) OR push_bit 16 (ucast (ucast (drop_bit 16 w) :: u16)) = (w :: u32)"
  by (rule bit_word_eqI) (auto simp: bit_simps)

end
