(* ===== verification/E4F_Buffer.thy ===== *)
theory E4F_Buffer
  imports E4F_Bitops
begin

text \<open>
  The buffer cache: src/buffer.c, src/buffer.h and src/bufops.c as built with USE_AIO (buffer.h
  defines it). A buffer head is named by its block number, the key of the tree bd_bh_root, which
  is a map here. The POSIX services the cache calls are part of the state: \<open>disk\<close> is the content
  of the device, \<open>aio\<close> the outstanding asynchronous request of each buffer (True for a write),
  \<open>io_error\<close> what aio_error() returns for a request on a block, \<open>malloc_fails\<close> and \<open>heap_junk\<close> the
  outcome of malloc() and the content of fresh memory. A request completes when a thread waits for the
  semaphore b_event or for the lock of its buffer; a wait that no request can end is the outcome
  \<open>Diverge\<close>. Counters and references are integers: they count buffers in memory and calls, and the model
  ends before the C int does. An offset is \<open>b_blocknr * b_size\<close>; block numbers for which it wraps around are
  behind the end of every device, and the model gives them a content of their own. The tree compares block numbers by the
  sign of their difference; for numbers below 2 ^ 63 that is their order, and the tree implements the map (E4F_Index).
\<close>

section \<open>Definitions\<close>

datatype bh_state_bits =
    BH_Uptodate | BH_Dirty | BH_Verified | BH_Lock | BH_Req | BH_Uptodate_Lock | BH_Mapped | BH_New
  | BH_Async_Read | BH_Async_Write | BH_Delay | BH_Boundary | BH_Write_EIO | BH_Unwritten | BH_Quiet
  | BH_Meta | BH_Prio | BH_Defer_Completion | BH_PrivateStart | BH_Ordered | BH_Eopnotsupp

fun bh_bit :: "bh_state_bits \<Rightarrow> nat" where
  "bh_bit BH_Uptodate = 0" | "bh_bit BH_Dirty = 1" | "bh_bit BH_Verified = 2" | "bh_bit BH_Lock = 3"
| "bh_bit BH_Req = 4" | "bh_bit BH_Uptodate_Lock = 5" | "bh_bit BH_Mapped = 6" | "bh_bit BH_New = 7"
| "bh_bit BH_Async_Read = 8" | "bh_bit BH_Async_Write = 9" | "bh_bit BH_Delay = 10"
| "bh_bit BH_Boundary = 11" | "bh_bit BH_Write_EIO = 12" | "bh_bit BH_Unwritten = 13"
| "bh_bit BH_Quiet = 14" | "bh_bit BH_Meta = 15" | "bh_bit BH_Prio = 16"
| "bh_bit BH_Defer_Completion = 17" | "bh_bit BH_PrivateStart = 18" | "bh_bit BH_Ordered = 19"
| "bh_bit BH_Eopnotsupp = 20"

datatype bh_end_io_t = No_end_io | After_buffer_sync | After_submit_read

record buffer_head =
  b_state :: u64
  b_blocknr :: u64
  b_data :: bytes
  b_event :: int
  b_end_io :: bh_end_io_t
  b_count :: int
  b_locked :: bool

record block_device =
  s_blocksize :: nat
  bd_nr_free :: int
  bd_bh_free :: "u64 list"
  bd_bh_dirty :: "u64 list"
  bd_bh_root :: "u64 \<rightharpoonup> buffer_head"
  buffer_dirty_count :: int
  writeback_pipe :: "int list"
  fs_bh_alloc :: int
  fs_bh_freed :: int
  disk :: "u64 \<Rightarrow> bytes"
  aio :: "u64 \<rightharpoonup> bool"
  io_error :: "u64 \<Rightarrow> int"
  malloc_fails :: bool
  heap_junk :: "u64 \<Rightarrow> bytes"

definition buffer_free_threshold :: int where "buffer_free_threshold = 90000"
definition buffer_dirty_threshold :: int where "buffer_dirty_threshold = 9"

subsection \<open>State bits, reference count and lock of one buffer\<close>

definition set_buffer :: "bh_state_bits \<Rightarrow> buffer_head \<Rightarrow> buffer_head" where
  "set_buffer f bh = bh\<lparr>b_state := b_state bh OR BIT_MASK (bh_bit f)\<rparr>"

definition clear_buffer :: "bh_state_bits \<Rightarrow> buffer_head \<Rightarrow> buffer_head" where
  "clear_buffer f bh = bh\<lparr>b_state := b_state bh AND NOT (BIT_MASK (bh_bit f))\<rparr>"

definition buffer_flag :: "bh_state_bits \<Rightarrow> buffer_head \<Rightarrow> bool" where
  "buffer_flag f bh \<longleftrightarrow> 1 AND drop_bit (bh_bit f mod 64) (b_state bh) \<noteq> 0"

definition get_bh :: "buffer_head \<Rightarrow> buffer_head" where
  "get_bh bh = bh\<lparr>b_count := b_count bh + 1\<rparr>"

definition put_bh :: "buffer_head \<Rightarrow> buffer_head" where
  "put_bh bh = bh\<lparr>b_count := b_count bh - 1\<rparr>"

definition unlock_buffer :: "buffer_head \<Rightarrow> buffer_head" where
  "unlock_buffer bh = bh\<lparr>b_locked := False\<rparr>"

text \<open>sem_post() on b_event, and what sem_wait() does once it may go on.\<close>

definition post_event :: "buffer_head \<Rightarrow> buffer_head" where
  "post_event bh = bh\<lparr>b_event := b_event bh + 1\<rparr>"

definition take_event :: "buffer_head \<Rightarrow> buffer_head" where
  "take_event bh = bh\<lparr>b_event := b_event bh - 1\<rparr>"

text \<open>Apply a change to the buffer head of block \<open>b\<close>.\<close>

definition upd_bh :: "u64 \<Rightarrow> (buffer_head \<Rightarrow> buffer_head) \<Rightarrow> block_device \<Rightarrow> block_device" where
  "upd_bh b f d = d\<lparr>bd_bh_root := (bd_bh_root d)(b := map_option f (bd_bh_root d b))\<rparr>"

subsection \<open>The lists of the device\<close>

definition buffer_search :: "block_device \<Rightarrow> u64 \<Rightarrow> buffer_head option" where
  "buffer_search d b = bd_bh_root d b"

definition buffer_insert :: "buffer_head \<Rightarrow> block_device \<Rightarrow> block_device" where
  "buffer_insert bh d =
     (case bd_bh_root d (b_blocknr bh) of
        None \<Rightarrow> d\<lparr>bd_bh_root := (bd_bh_root d)(b_blocknr bh \<mapsto> bh)\<rparr>
      | Some _ \<Rightarrow> d)"

definition buffer_remove :: "u64 \<Rightarrow> block_device \<Rightarrow> block_device" where
  "buffer_remove b d = d\<lparr>bd_bh_root := (bd_bh_root d)(b := None)\<rparr>"

definition bdev_alloc :: "nat \<Rightarrow> (u64 \<Rightarrow> bytes) \<Rightarrow> (u64 \<Rightarrow> int) \<Rightarrow> (u64 \<Rightarrow> bytes) \<Rightarrow> block_device" where
  "bdev_alloc blocksize_bits dsk ioe junk =
     \<lparr>s_blocksize = push_bit blocksize_bits 1, bd_nr_free = 0, bd_bh_free = [], bd_bh_dirty = [],
      bd_bh_root = Map.empty, buffer_dirty_count = 0, writeback_pipe = [], fs_bh_alloc = 0, fs_bh_freed = 0,
      disk = dsk, aio = Map.empty, io_error = ioe, malloc_fails = False, heap_junk = junk\<rparr>"

definition bdev_writeback_thread_notify :: "block_device \<Rightarrow> block_device" where
  "bdev_writeback_thread_notify d = d\<lparr>writeback_pipe := writeback_pipe d @ [1]\<rparr>"

definition bdev_writeback_thread_read_notify :: "block_device \<Rightarrow> int \<times> block_device" where
  "bdev_writeback_thread_read_notify d =
     (case writeback_pipe d of
        [] \<Rightarrow> (0, d)
      | c # cs \<Rightarrow> (c, d\<lparr>writeback_pipe := cs\<rparr>))"

definition bdev_is_notify_exiting :: "int \<Rightarrow> bool" where
  "bdev_is_notify_exiting byte \<longleftrightarrow> byte < 0"

definition bdev_writeback_thread_notify_exit :: "block_device \<Rightarrow> block_device" where
  "bdev_writeback_thread_notify_exit d = d\<lparr>writeback_pipe := writeback_pipe d @ [-1]\<rparr>"

definition sync_writeback_buffers :: "block_device \<Rightarrow> block_device" where
  "sync_writeback_buffers d =
     (if buffer_dirty_count d > buffer_dirty_threshold then bdev_writeback_thread_notify d else d)"

definition buffer_alloc :: "u64 \<Rightarrow> nat \<Rightarrow> block_device \<Rightarrow> buffer_head option \<times> block_device" where
  "buffer_alloc block page_size d =
     (if malloc_fails d then (None, d)
      else
       (Some \<lparr>b_state = 0, b_blocknr = block, b_data = take page_size (heap_junk d block), b_event = 1,
              b_end_io = No_end_io, b_count = 0, b_locked = False\<rparr>,
        sync_writeback_buffers d))"

definition attach_bh_to_freelist :: "u64 \<Rightarrow> block_device \<Rightarrow> block_device" where
  "attach_bh_to_freelist b d =
     (if b \<notin> set (bd_bh_free d)
      then d\<lparr>bd_bh_free := bd_bh_free d @ [b], bd_nr_free := bd_nr_free d + 1\<rparr> else d)"

definition detach_bh_from_freelist :: "u64 \<Rightarrow> block_device \<Rightarrow> block_device" where
  "detach_bh_from_freelist b d =
     (if b \<in> set (bd_bh_free d)
      then d\<lparr>bd_bh_free := remove1 b (bd_bh_free d), bd_nr_free := bd_nr_free d - 1\<rparr> else d)"

definition remove_first_bh_from_freelist :: "block_device \<Rightarrow> block_device" where
  "remove_first_bh_from_freelist d =
     (case bd_bh_free d of
        [] \<Rightarrow> d
      | b # bs \<Rightarrow> buffer_remove b (d\<lparr>bd_bh_free := bs, bd_nr_free := bd_nr_free d - 1\<rparr>))"

definition move_buffer_to_writeback :: "u64 \<Rightarrow> block_device \<Rightarrow> block_device" where
  "move_buffer_to_writeback b d =
     (if b \<notin> set (bd_bh_dirty d)
      then d\<lparr>bd_bh_dirty := bd_bh_dirty d @ [b], buffer_dirty_count := buffer_dirty_count d + 1\<rparr> else d)"

definition remove_first_buffer_from_writeback :: "block_device \<Rightarrow> u64 option \<times> block_device" where
  "remove_first_buffer_from_writeback d =
     (case bd_bh_dirty d of
        [] \<Rightarrow> (None, d)
      | b # bs \<Rightarrow> (Some b, d\<lparr>bd_bh_dirty := bs, buffer_dirty_count := buffer_dirty_count d - 1\<rparr>))"

definition remove_buffer_from_writeback :: "u64 \<Rightarrow> block_device \<Rightarrow> block_device" where
  "remove_buffer_from_writeback b d =
     (if b \<in> set (bd_bh_dirty d)
      then d\<lparr>bd_bh_dirty := remove1 b (bd_bh_dirty d), buffer_dirty_count := buffer_dirty_count d - 1\<rparr>
      else d)"

text \<open>
  try_to_drop_buffers loops while the free counter is above the threshold; with an empty free
  list its body changes nothing and the loop never ends.
\<close>

function try_to_drop_buffers :: "block_device \<Rightarrow> block_device res" where
  "try_to_drop_buffers d =
     (if bd_nr_free d > buffer_free_threshold then
        if bd_bh_free d = [] then Inl Diverge
        else try_to_drop_buffers (remove_first_bh_from_freelist d)
      else Inr d)"
  by pat_completeness auto
termination
  by (relation "measure (\<lambda>d. length (bd_bh_free d))")
    (auto simp: remove_first_bh_from_freelist_def buffer_remove_def neq_Nil_conv)

declare try_to_drop_buffers.simps [simp del]

definition reclaim_buffer :: "u64 \<Rightarrow> block_device \<Rightarrow> block_device res" where
  "reclaim_buffer b d =
     res_bind (try_to_drop_buffers d) (\<lambda>d. Inr (attach_bh_to_freelist b d))"

subsection \<open>Asynchronous requests\<close>

definition after_buffer_sync :: "u64 \<Rightarrow> bool \<Rightarrow> block_device \<Rightarrow> block_device" where
  "after_buffer_sync b uptodate d =
     (let d = (if uptodate then upd_bh b (set_buffer BH_Uptodate) d else d);
          d = upd_bh b put_bh d;
          d = remove_buffer_from_writeback b d;
          d = upd_bh b (clear_buffer BH_Dirty) d;
          d = attach_bh_to_freelist b d;
          d = upd_bh b unlock_buffer d
      in upd_bh b post_event d)"

definition after_submit_read :: "u64 \<Rightarrow> bool \<Rightarrow> block_device \<Rightarrow> block_device" where
  "after_submit_read b uptodate d =
     (let d = (if uptodate then upd_bh b (set_buffer BH_Uptodate) d else d);
          d = upd_bh b put_bh d;
          d = upd_bh b unlock_buffer d
      in upd_bh b post_event d)"

definition call_end_io :: "u64 \<Rightarrow> bool \<Rightarrow> block_device \<Rightarrow> block_device" where
  "call_end_io b uptodate d =
     (case bd_bh_root d b of
        None \<Rightarrow> d
      | Some bh \<Rightarrow>
         (case b_end_io bh of
            No_end_io \<Rightarrow> d
          | After_buffer_sync \<Rightarrow> after_buffer_sync b uptodate d
          | After_submit_read \<Rightarrow> after_submit_read b uptodate d))"

text \<open>
  The transfer of the kernel followed by the notification function iocb_dispatch: the data moves
  when the request succeeds (aio_error() is 0), and the completion is reported as a failure only
  for a negative error.
\<close>

definition aio_transfer :: "u64 \<Rightarrow> bool \<Rightarrow> block_device \<Rightarrow> block_device" where
  "aio_transfer b is_write d =
     (if io_error d b \<noteq> 0 then d
      else if is_write then
        (case bd_bh_root d b of None \<Rightarrow> d | Some bh \<Rightarrow> d\<lparr>disk := (disk d)(b := b_data bh)\<rparr>)
      else upd_bh b (\<lambda>bh. bh\<lparr>b_data := disk d b\<rparr>) d)"

definition iocb_dispatch :: "u64 \<Rightarrow> block_device \<Rightarrow> block_device" where
  "iocb_dispatch b d =
     (if io_error d b < 0 then call_end_io b False d else call_end_io b True d)"

definition aio_complete :: "u64 \<Rightarrow> block_device \<Rightarrow> block_device" where
  "aio_complete b d =
     (case aio d b of
        None \<Rightarrow> d
      | Some is_write \<Rightarrow> iocb_dispatch b ((aio_transfer b is_write d)\<lparr>aio := (aio d)(b := None)\<rparr>))"

text \<open>
  sem_wait() goes on when the event is positive. Otherwise it blocks, and only the completion of the request of
  the buffer can post the event.
\<close>

definition signalled :: "u64 \<Rightarrow> block_device \<Rightarrow> bool" where
  "signalled b d \<longleftrightarrow> (case bd_bh_root d b of None \<Rightarrow> False | Some bh \<Rightarrow> b_event bh > 0)"

definition sem_wait :: "u64 \<Rightarrow> block_device \<Rightarrow> block_device res" where
  "sem_wait b d =
     res_bind (c_defined (bd_bh_root d b \<noteq> None)) (\<lambda>_.
     (let d = (if signalled b d then d else aio_complete b d)
      in if signalled b d then Inr (upd_bh b take_event d) else Inl Diverge))"

definition wait_on_buffer :: "u64 \<Rightarrow> block_device \<Rightarrow> block_device res" where
  "wait_on_buffer b d = res_bind (sem_wait b d) (\<lambda>d. Inr (upd_bh b post_event d))"

text \<open>The lock of a buffer. A thread that holds it while a request is outstanding lets the completion unlock it.\<close>

definition trylock_buffer :: "u64 \<Rightarrow> block_device \<Rightarrow> bool \<times> block_device" where
  "trylock_buffer b d =
     (if (case bd_bh_root d b of Some bh \<Rightarrow> b_locked bh | None \<Rightarrow> False) then (False, d)
      else (True, upd_bh b (\<lambda>bh. bh\<lparr>b_locked := True\<rparr>) d))"

definition lock_buffer :: "u64 \<Rightarrow> block_device \<Rightarrow> block_device res" where
  "lock_buffer b d =
     res_bind (c_defined (bd_bh_root d b \<noteq> None)) (\<lambda>_.
       case trylock_buffer b d of
         (True, d) \<Rightarrow> Inr d
       | (False, d) \<Rightarrow>
          (case trylock_buffer b (aio_complete b d) of
             (True, d) \<Rightarrow> Inr d
           | (False, d) \<Rightarrow> Inl Diverge))"

definition submit_bh :: "bool \<Rightarrow> u64 \<Rightarrow> block_device \<Rightarrow> block_device res" where
  "submit_bh is_write b d = res_bind (sem_wait b d) (\<lambda>d. Inr (d\<lparr>aio := (aio d)(b \<mapsto> is_write)\<rparr>))"

definition bh_submit_read :: "u64 \<Rightarrow> block_device \<Rightarrow> block_device res" where
  "bh_submit_read b d =
     res_bind (lock_buffer b d) (\<lambda>d.
       if (case bd_bh_root d b of Some bh \<Rightarrow> buffer_flag BH_Uptodate bh | None \<Rightarrow> True)
       then Inr (upd_bh b unlock_buffer d)
       else
        (let d = upd_bh b get_bh d;
             d = upd_bh b (clear_buffer BH_Dirty) d;
             d = remove_buffer_from_writeback b d;
             d = upd_bh b (\<lambda>bh. bh\<lparr>b_end_io := After_submit_read\<rparr>) d
         in submit_bh False b d))"

definition sync_dirty_buffer :: "u64 \<Rightarrow> block_device \<Rightarrow> block_device res" where
  "sync_dirty_buffer b d =
     (case bd_bh_root d b of
        None \<Rightarrow> Inl Undefined
      | Some bh \<Rightarrow>
         (case trylock_buffer b d of
            (False, d) \<Rightarrow> Inr d
          | (True, d) \<Rightarrow>
             if b_count bh < 1 \<and> buffer_flag BH_Dirty bh
             then
              (let d = upd_bh b get_bh d;
                   d = upd_bh b (\<lambda>bh. bh\<lparr>b_end_io := After_buffer_sync\<rparr>) d
               in submit_bh True b d)
             else Inr (upd_bh b unlock_buffer d)))"

subsection \<open>Getting and releasing buffers\<close>

definition getblk :: "u64 \<Rightarrow> nat \<Rightarrow> block_device \<Rightarrow> u64 option \<times> block_device" where
  "getblk block bsize d =
     (case buffer_search d block of
        Some _ \<Rightarrow>
          (Some block,
           upd_bh block get_bh (remove_buffer_from_writeback block (detach_bh_from_freelist block d)))
      | None \<Rightarrow>
         (case buffer_alloc block bsize d of
            (None, d) \<Rightarrow> (None, d)
          | (Some bh, d) \<Rightarrow> (Some block, upd_bh block get_bh (buffer_insert bh d))))"

definition sb_getblk :: "u64 \<Rightarrow> block_device \<Rightarrow> u64 option \<times> block_device" where
  "sb_getblk block d = getblk block (s_blocksize d) d"

definition brelse :: "u64 \<Rightarrow> block_device \<Rightarrow> block_device res" where
  "brelse b d =
     (case bd_bh_root d b of
        None \<Rightarrow> Inl Undefined
      | Some bh \<Rightarrow>
         (let refcount = b_count bh - 1; d = upd_bh b put_bh d
          in if refcount \<ge> 1 then Inr d
             else res_bind (c_assert (refcount = 0)) (\<lambda>_.
               if \<not> buffer_flag BH_Dirty bh then reclaim_buffer b d
               else Inr (move_buffer_to_writeback b d))))"

lemma upd_bh_fields [simp]:
  "s_blocksize (upd_bh b f d) = s_blocksize d" "bd_nr_free (upd_bh b f d) = bd_nr_free d"
  "bd_bh_free (upd_bh b f d) = bd_bh_free d" "bd_bh_dirty (upd_bh b f d) = bd_bh_dirty d"
  "buffer_dirty_count (upd_bh b f d) = buffer_dirty_count d" "disk (upd_bh b f d) = disk d"
  "aio (upd_bh b f d) = aio d" "io_error (upd_bh b f d) = io_error d"
  "malloc_fails (upd_bh b f d) = malloc_fails d" "heap_junk (upd_bh b f d) = heap_junk d"
  by (simp_all add: upd_bh_def)

text \<open>Nothing that happens during a turn of the writeback thread adds to the dirty list.\<close>

lemma length_dirty_aio_complete: "length (bd_bh_dirty (aio_complete b d)) \<le> length (bd_bh_dirty d)"
  by (auto simp: aio_complete_def iocb_dispatch_def aio_transfer_def call_end_io_def after_buffer_sync_def
      after_submit_read_def Let_def remove_buffer_from_writeback_def attach_bh_to_freelist_def length_remove1
      split: option.splits bh_end_io_t.splits)

lemma length_dirty_sem_wait: "sem_wait b d = Inr d' \<Longrightarrow> length (bd_bh_dirty d') \<le> length (bd_bh_dirty d)"
  using length_dirty_aio_complete [of b d] by (auto simp: sem_wait_def Let_def res_simps split: if_splits)

lemma length_dirty_wait_on_buffer:
  "wait_on_buffer b d = Inr d' \<Longrightarrow> length (bd_bh_dirty d') \<le> length (bd_bh_dirty d)"
  by (auto simp: wait_on_buffer_def res_simps dest: length_dirty_sem_wait)

lemma length_dirty_sync_dirty_buffer:
  "sync_dirty_buffer b d = Inr d' \<Longrightarrow> length (bd_bh_dirty d') \<le> length (bd_bh_dirty d)"
  by (auto simp: sync_dirty_buffer_def trylock_buffer_def submit_bh_def res_simps Let_def
      dest!: length_dirty_sem_wait split: option.splits if_splits)

subsection \<open>The writeback thread\<close>

text \<open>Every turn of the loop of try_to_sync_buffers takes one buffer off the dirty list.\<close>

definition sync_turn :: "u64 \<Rightarrow> block_device \<Rightarrow> block_device res" where
  "sync_turn cur d = res_bind (sync_dirty_buffer cur d) (wait_on_buffer cur)"

function try_to_sync_buffers :: "block_device \<Rightarrow> block_device res" where
  "try_to_sync_buffers d =
     (case remove_first_buffer_from_writeback d of
        (Some cur, d') \<Rightarrow>
          (case sync_turn cur d' of Inl e \<Rightarrow> Inl e | Inr d'' \<Rightarrow> try_to_sync_buffers d'')
      | (None, d') \<Rightarrow> Inr d')"
  by pat_completeness auto
termination
proof (relation "measure (\<lambda>d. length (bd_bh_dirty d))", goal_cases)
  case 1
  then show ?case by simp
next
  case (2 d x d' cur d'')
  then have "length (bd_bh_dirty d') < length (bd_bh_dirty d)"
    by (auto simp: remove_first_buffer_from_writeback_def split: list.splits)
  moreover have "length (bd_bh_dirty d'') \<le> length (bd_bh_dirty d')"
    using 2 by (auto simp: sync_turn_def res_simps dest!: length_dirty_sync_dirty_buffer length_dirty_wait_on_buffer)
  ultimately show ?case by simp
qed

declare try_to_sync_buffers.simps [simp del]

text \<open>What epoll_wait() returns: a positive value, 0, -1 with EINTR, -1 with another errno.\<close>

datatype epoll_result = Ready | Timeout | Interrupted | Failed

fun buffer_writeback_thread :: "epoll_result list \<Rightarrow> block_device \<Rightarrow> block_device res" where
  "buffer_writeback_thread [] d = Inr d"
| "buffer_writeback_thread (Ready # evs) d =
     (let (command, d) = bdev_writeback_thread_read_notify d
      in res_bind (try_to_sync_buffers d) (\<lambda>d.
           if bdev_is_notify_exiting command then Inr d else buffer_writeback_thread evs d))"
| "buffer_writeback_thread (Timeout # evs) d = res_bind (try_to_sync_buffers d) (buffer_writeback_thread evs)"
| "buffer_writeback_thread (Interrupted # evs) d = buffer_writeback_thread evs d"
| "buffer_writeback_thread (Failed # evs) d = Inr d"

text \<open>
  The final loop of bdev_free takes the buffers in the order of the tree; \<open>keys\<close> is that order, and the
  numbers in it without a buffer are skipped. pthread_join() returns when the thread has read the exit byte, so
  the thread runs over every byte in the pipe.
\<close>

fun bdev_free_loop :: "u64 list \<Rightarrow> block_device \<Rightarrow> block_device res" where
  "bdev_free_loop [] d = Inr d"
| "bdev_free_loop (b # bs) d =
     (if bd_bh_root d b = None then bdev_free_loop bs d
      else res_bind (wait_on_buffer b d) (\<lambda>d. bdev_free_loop bs (buffer_remove b (detach_bh_from_freelist b d))))"

definition bdev_free :: "u64 list \<Rightarrow> block_device \<Rightarrow> block_device res" where
  "bdev_free keys d =
     (let d = bdev_writeback_thread_notify_exit d
      in res_bind (buffer_writeback_thread (replicate (length (writeback_pipe d)) Ready) d) (bdev_free_loop keys))"

subsection \<open>bufops.c\<close>

definition fs_cache_init :: "nat \<Rightarrow> (u64 \<Rightarrow> bytes) \<Rightarrow> (u64 \<Rightarrow> int) \<Rightarrow> (u64 \<Rightarrow> bytes) \<Rightarrow> block_device" where
  "fs_cache_init super_block_size_bits dsk ioe junk = bdev_alloc super_block_size_bits dsk ioe junk"

definition fs_cache_cleanup :: "u64 list \<Rightarrow> block_device \<Rightarrow> block_device res" where
  "fs_cache_cleanup keys d = bdev_free keys d"

text \<open>
  The handle a client gets is the block number. bh_submit_read() dereferences the buffer before
  fs_bread() tests it, so a failed allocation is an access through NULL.
\<close>

definition fs_bread :: "u64 \<Rightarrow> block_device \<Rightarrow> (u64 option \<times> block_device) res" where
  "fs_bread block d =
     (case sb_getblk block d of
        (None, d) \<Rightarrow> Inl Undefined
      | (Some bh, d) \<Rightarrow>
          res_bind (bh_submit_read bh d) (\<lambda>d.
          res_bind (wait_on_buffer bh d) (\<lambda>d.
            Inr (Some bh, d\<lparr>fs_bh_alloc := fs_bh_alloc d + 1\<rparr>))))"

definition fs_bwrite :: "u64 \<Rightarrow> block_device \<Rightarrow> u64 option \<times> block_device" where
  "fs_bwrite block d =
     (case sb_getblk block d of
        (None, d) \<Rightarrow> (None, d)
      | (Some bh, d) \<Rightarrow> (Some bh, d\<lparr>fs_bh_alloc := fs_bh_alloc d + 1\<rparr>))"

definition fs_brelse :: "u64 \<Rightarrow> block_device \<Rightarrow> block_device res" where
  "fs_brelse bh d = brelse bh (d\<lparr>fs_bh_freed := fs_bh_freed d + 1\<rparr>)"

definition fs_mark_buffer_dirty :: "u64 \<Rightarrow> block_device \<Rightarrow> block_device" where
  "fs_mark_buffer_dirty b d = upd_bh b (set_buffer BH_Dirty) (upd_bh b (set_buffer BH_Uptodate) d)"

definition fs_bforget :: "u64 \<Rightarrow> block_device \<Rightarrow> block_device res" where
  "fs_bforget b d =
     fs_brelse b (upd_bh b (clear_buffer BH_Dirty) (upd_bh b (clear_buffer BH_Uptodate) d))"

text \<open>The loads and stores of clients through b_data.\<close>

definition bh_data :: "u64 \<Rightarrow> block_device \<Rightarrow> bytes" where
  "bh_data b d = (case bd_bh_root d b of Some bh \<Rightarrow> b_data bh | None \<Rightarrow> [])"

definition bh_store :: "u64 \<Rightarrow> bytes \<Rightarrow> block_device \<Rightarrow> block_device" where
  "bh_store b xs d = upd_bh b (\<lambda>bh. bh\<lparr>b_data := xs\<rparr>) d"

end
