(* ===== verification/E4F_Cache.thy ===== *)
theory E4F_Cache
  imports E4F_Buffer
begin

text \<open>
  The contract of the buffer cache of E4F_Buffer between two operations of its clients (no request
  is outstanding): \<open>view d b\<close> is the content of block \<open>b\<close> that the cache presents, \<open>refs d b\<close> its
  reference count. \<open>cache_inv\<close> ties the buffer heads, the free list, the dirty list and their
  counters together; the operations of bufops.c keep it, change the view only where a client
  stores, and the writeback thread brings the device in line with the view.
\<close>

section \<open>The invariant and the abstraction\<close>

definition refs :: "block_device \<Rightarrow> u64 \<Rightarrow> int" where
  "refs d b = (case bd_bh_root d b of Some bh \<Rightarrow> b_count bh | None \<Rightarrow> 0)"

definition view :: "block_device \<Rightarrow> u64 \<Rightarrow> bytes" where
  "view d b =
     (case bd_bh_root d b of
        Some bh \<Rightarrow> if buffer_flag BH_Uptodate bh then b_data bh else disk d b
      | None \<Rightarrow> disk d b)"

text \<open>No failing request, no failing malloc(), blocks of the size of the device.\<close>

definition healthy :: "block_device \<Rightarrow> bool" where
  "healthy d \<longleftrightarrow>
     \<not> malloc_fails d \<and> (\<forall>b. io_error d b = 0) \<and>
     (\<forall>b. length (heap_junk d b) = s_blocksize d) \<and> (\<forall>b. length (disk d b) = s_blocksize d)"

definition bh_inv :: "block_device \<Rightarrow> u64 \<Rightarrow> buffer_head \<Rightarrow> bool" where
  "bh_inv d b bh \<longleftrightarrow>
     b_blocknr bh = b \<and> length (b_data bh) = s_blocksize d \<and> 0 \<le> b_count bh \<and>
     \<not> b_locked bh \<and> b_event bh = 1 \<and>
     (buffer_flag BH_Dirty bh \<longrightarrow> buffer_flag BH_Uptodate bh) \<and>
     (buffer_flag BH_Uptodate bh \<and> \<not> buffer_flag BH_Dirty bh \<longrightarrow> b_data bh = disk d b) \<and>
     (b \<in> set (bd_bh_free d) \<longrightarrow> b_count bh = 0 \<and> \<not> buffer_flag BH_Dirty bh) \<and>
     (b \<in> set (bd_bh_dirty d) \<longleftrightarrow> b_count bh = 0 \<and> buffer_flag BH_Dirty bh)"

definition cache_inv :: "block_device \<Rightarrow> bool" where
  "cache_inv d \<longleftrightarrow>
     healthy d \<and> aio d = Map.empty \<and> distinct (bd_bh_free d) \<and> distinct (bd_bh_dirty d) \<and>
     bd_nr_free d = int (length (bd_bh_free d)) \<and>
     buffer_dirty_count d = int (length (bd_bh_dirty d)) \<and>
     set (bd_bh_free d) \<union> set (bd_bh_dirty d) \<subseteq> dom (bd_bh_root d) \<and>
     (\<forall>b bh. bd_bh_root d b = Some bh \<longrightarrow> bh_inv d b bh)"

section \<open>Flags\<close>

lemma inj_bh_bit: "bh_bit f = bh_bit g \<longleftrightarrow> f = g"
  by (cases f; cases g) simp_all

lemma bh_bit_less: "bh_bit f < 64"
  by (cases f) simp_all

lemma bit_BIT_MASK_small: "n < 64 \<Longrightarrow> bit (BIT_MASK n) i \<longleftrightarrow> i = n"
  by (simp add: bit_BIT_MASK)

lemma buffer_flag_bit: "buffer_flag f bh \<longleftrightarrow> bit (b_state bh) (bh_bit f)"
  using bh_bit_less [of f]
  by (simp add: buffer_flag_def bit_iff_and_drop_bit_eq_1 and.commute one_and_eq odd_iff_mod_2_eq_one
      flip: bit_0)

lemma buffer_flag_set [simp]: "buffer_flag f (set_buffer g bh) \<longleftrightarrow> f = g \<or> buffer_flag f bh"
  using inj_bh_bit [of f g] bh_bit_less [of g]
  by (auto simp: buffer_flag_bit set_buffer_def bit_simps bit_BIT_MASK_small)

lemma buffer_flag_clear [simp]: "buffer_flag f (clear_buffer g bh) \<longleftrightarrow> f \<noteq> g \<and> buffer_flag f bh"
  using inj_bh_bit [of f g] bh_bit_less [of g] bh_bit_less [of f]
  by (auto simp: buffer_flag_bit clear_buffer_def bit_simps bit_BIT_MASK_small)

lemma buffer_fields [simp]:
  "b_blocknr (set_buffer f bh) = b_blocknr bh" "b_blocknr (clear_buffer f bh) = b_blocknr bh"
  "b_data (set_buffer f bh) = b_data bh" "b_data (clear_buffer f bh) = b_data bh"
  "b_event (set_buffer f bh) = b_event bh" "b_event (clear_buffer f bh) = b_event bh"
  "b_end_io (set_buffer f bh) = b_end_io bh" "b_end_io (clear_buffer f bh) = b_end_io bh"
  "b_count (set_buffer f bh) = b_count bh" "b_count (clear_buffer f bh) = b_count bh"
  "b_locked (set_buffer f bh) = b_locked bh" "b_locked (clear_buffer f bh) = b_locked bh"
  by (simp_all add: set_buffer_def clear_buffer_def)

lemma buffer_flag_update [simp]:
  "buffer_flag f (bh\<lparr>b_data := x\<rparr>) = buffer_flag f bh"
  "buffer_flag f (bh\<lparr>b_count := c\<rparr>) = buffer_flag f bh"
  "buffer_flag f (bh\<lparr>b_locked := l\<rparr>) = buffer_flag f bh"
  "buffer_flag f (bh\<lparr>b_event := e\<rparr>) = buffer_flag f bh"
  "buffer_flag f (bh\<lparr>b_end_io := io\<rparr>) = buffer_flag f bh"
  by (simp_all add: buffer_flag_def)

lemma upd_bh_Some: "bd_bh_root d b = Some bh \<Longrightarrow> upd_bh b f d = d\<lparr>bd_bh_root := (bd_bh_root d)(b \<mapsto> f bh)\<rparr>"
  by (simp add: upd_bh_def)

lemma root_upd_bh [simp]:
  "bd_bh_root (upd_bh b f d) = (bd_bh_root d)(b := map_option f (bd_bh_root d b))"
  by (simp add: upd_bh_def)

lemmas bh_ops = get_bh_def put_bh_def unlock_buffer_def post_event_def take_event_def

lemmas wait_ops = wait_on_buffer_def sem_wait_def signalled_def trylock_buffer_def lock_buffer_def submit_bh_def
  aio_complete_def iocb_dispatch_def aio_transfer_def call_end_io_def

section \<open>Frame lemmas for the invariant\<close>

lemma int_length_remove1: "x \<in> set xs \<Longrightarrow> int (length (remove1 x xs)) = int (length xs) - 1"
  by (induction xs) auto

lemma cache_invD:
  "cache_inv d \<Longrightarrow> bd_bh_root d b = Some bh \<Longrightarrow> bh_inv d b bh"
  by (simp add: cache_inv_def)

lemma bh_inv_cong:
  "s_blocksize d' = s_blocksize d \<Longrightarrow> disk d' b = disk d b \<Longrightarrow>
   (b \<in> set (bd_bh_free d') \<longleftrightarrow> b \<in> set (bd_bh_free d)) \<Longrightarrow>
   (b \<in> set (bd_bh_dirty d') \<longleftrightarrow> b \<in> set (bd_bh_dirty d)) \<Longrightarrow> bh_inv d' b bh = bh_inv d b bh"
  by (simp add: bh_inv_def)

text \<open>Replacing one buffer head, in the same lists, by one that satisfies its invariant.\<close>

lemma cache_inv_upd:
  assumes "cache_inv d" "bh_inv d b bh'" "bd_bh_root d b \<noteq> None"
  shows "cache_inv (d\<lparr>bd_bh_root := (bd_bh_root d)(b \<mapsto> bh')\<rparr>)"
  using assms by (auto simp: cache_inv_def bh_inv_def healthy_def)

lemma cache_inv_counters [simp]:
  "cache_inv (d\<lparr>fs_bh_alloc := x\<rparr>) = cache_inv d" "cache_inv (d\<lparr>fs_bh_freed := x\<rparr>) = cache_inv d"
  "cache_inv (d\<lparr>writeback_pipe := p\<rparr>) = cache_inv d"
  by (simp_all add: cache_inv_def bh_inv_def healthy_def)

lemma view_counters [simp]:
  "view (d\<lparr>fs_bh_alloc := x\<rparr>) = view d" "view (d\<lparr>fs_bh_freed := x\<rparr>) = view d"
  "view (d\<lparr>writeback_pipe := p\<rparr>) = view d"
  "refs (d\<lparr>fs_bh_alloc := x\<rparr>) = refs d" "refs (d\<lparr>fs_bh_freed := x\<rparr>) = refs d"
  "refs (d\<lparr>writeback_pipe := p\<rparr>) = refs d"
  by (simp_all add: view_def refs_def fun_eq_iff split: option.split)

lemma view_cong: "bd_bh_root d' = bd_bh_root d \<Longrightarrow> disk d' = disk d \<Longrightarrow> view d' = view d"
  by (rule ext) (simp add: view_def split: option.split)

lemma refs_cong: "bd_bh_root d' = bd_bh_root d \<Longrightarrow> refs d' = refs d"
  by (rule ext) (simp add: refs_def)

lemma view_upd_eq:
  assumes "bd_bh_root d b = Some bh"
    and "(if buffer_flag BH_Uptodate bh' then b_data bh' else disk d b) = view d b"
  shows "view (d\<lparr>bd_bh_root := (bd_bh_root d)(b \<mapsto> bh')\<rparr>) = view d"
  using assms by (auto simp: view_def fun_eq_iff split: option.split)

lemma refs_upd:
  "refs (d\<lparr>bd_bh_root := (bd_bh_root d)(b \<mapsto> bh)\<rparr>) = (refs d)(b := b_count bh)"
  by (auto simp: refs_def fun_eq_iff)

section \<open>Getting a buffer\<close>

lemma sync_writeback_buffers_pipe:
  "\<exists>p. sync_writeback_buffers d = d\<lparr>writeback_pipe := p\<rparr>"
proof (cases "buffer_dirty_count d > buffer_dirty_threshold")
  case True
  then show ?thesis by (auto simp: sync_writeback_buffers_def bdev_writeback_thread_notify_def)
next
  case False
  then have "sync_writeback_buffers d = d\<lparr>writeback_pipe := writeback_pipe d\<rparr>"
    by (simp add: sync_writeback_buffers_def)
  then show ?thesis by blast
qed

lemma getblk_present:
  assumes inv: "cache_inv d" and bh: "bd_bh_root d b = Some bh"
  shows "\<exists>d'. sb_getblk b d = (Some b, d') \<and> cache_inv d' \<and> view d' = view d \<and>
    refs d' = (refs d)(b := refs d b + 1) \<and> disk d' = disk d"
proof -
  let ?d = "remove_buffer_from_writeback b (detach_bh_from_freelist b d)"
  have g: "sb_getblk b d = (Some b, ?d\<lparr>bd_bh_root := (bd_bh_root d)(b \<mapsto> get_bh bh)\<rparr>)"
    using bh by (simp add: sb_getblk_def getblk_def buffer_search_def upd_bh_def
        remove_buffer_from_writeback_def detach_bh_from_freelist_def)
  have "b_count bh + 1 \<noteq> 0" using cache_invD [OF inv bh] by (simp add: bh_inv_def)
  then have "cache_inv (?d\<lparr>bd_bh_root := (bd_bh_root d)(b \<mapsto> get_bh bh)\<rparr>)"
    using inv bh
    by (auto simp: cache_inv_def bh_inv_def healthy_def get_bh_def remove_buffer_from_writeback_def
        detach_bh_from_freelist_def int_length_remove1)
  moreover have "view (?d\<lparr>bd_bh_root := (bd_bh_root d)(b \<mapsto> get_bh bh)\<rparr>) = view d"
    using bh by (auto simp: view_def fun_eq_iff get_bh_def remove_buffer_from_writeback_def
        detach_bh_from_freelist_def split: option.split)
  moreover have "refs (?d\<lparr>bd_bh_root := (bd_bh_root d)(b \<mapsto> get_bh bh)\<rparr>) = (refs d)(b := refs d b + 1)"
    using bh by (auto simp: refs_def fun_eq_iff get_bh_def remove_buffer_from_writeback_def
        detach_bh_from_freelist_def)
  moreover have "disk (?d\<lparr>bd_bh_root := (bd_bh_root d)(b \<mapsto> get_bh bh)\<rparr>) = disk d"
    by (simp add: remove_buffer_from_writeback_def detach_bh_from_freelist_def)
  ultimately show ?thesis using g by blast
qed

lemma getblk_absent:
  assumes inv: "cache_inv d" and bh: "bd_bh_root d b = None"
  shows "\<exists>d'. sb_getblk b d = (Some b, d') \<and> cache_inv d' \<and> view d' = view d \<and>
    refs d' = (refs d)(b := refs d b + 1) \<and> disk d' = disk d"
proof -
  obtain p where p: "sync_writeback_buffers d = d\<lparr>writeback_pipe := p\<rparr>"
    using sync_writeback_buffers_pipe by blast
  let ?bh = "\<lparr>b_state = 0, b_blocknr = b, b_data = take (s_blocksize d) (heap_junk d b), b_event = 1,
              b_end_io = No_end_io, b_count = 1, b_locked = False\<rparr>"
  let ?d = "d\<lparr>writeback_pipe := p, bd_bh_root := (bd_bh_root d)(b \<mapsto> ?bh)\<rparr>"
  have fl: "\<not> buffer_flag f ?bh" for f by (simp add: buffer_flag_bit)
  have "sb_getblk b d = (Some b, ?d)"
    using bh p inv by (simp add: sb_getblk_def getblk_def buffer_search_def buffer_alloc_def
        buffer_insert_def get_bh_def upd_bh_def cache_inv_def healthy_def)
  moreover have "b \<notin> set (bd_bh_free d) \<union> set (bd_bh_dirty d)"
    using inv bh by (auto simp: cache_inv_def)
  then have "cache_inv ?d"
    using inv fl by (auto simp: cache_inv_def bh_inv_def healthy_def)
  moreover have "view ?d = view d" "refs ?d = (refs d)(b := refs d b + 1)" "disk ?d = disk d"
    using bh fl by (auto simp: view_def refs_def fun_eq_iff split: option.split)
  ultimately show ?thesis by blast
qed

lemma sb_getblk_ok:
  assumes "cache_inv d"
  shows "\<exists>d'. sb_getblk b d = (Some b, d') \<and> cache_inv d' \<and> view d' = view d \<and>
    refs d' = (refs d)(b := refs d b + 1) \<and> disk d' = disk d"
  using assms getblk_present getblk_absent by (cases "bd_bh_root d b") auto

lemma refs_nonneg: "cache_inv d \<Longrightarrow> 0 \<le> refs d b"
  by (auto simp: refs_def bh_inv_def dest: cache_invD split: option.splits)

lemma refs_pos_present:
  "0 < refs d b \<Longrightarrow> \<exists>bh. bd_bh_root d b = Some bh \<and> 0 < b_count bh"
  by (auto simp: refs_def split: option.splits)

section \<open>Reading\<close>

text \<open>What bh_submit_read() followed by wait_on_buffer() leaves in the buffer head.\<close>

definition read_bh :: "bytes \<Rightarrow> buffer_head \<Rightarrow> buffer_head" where
  "read_bh xs bh =
     (if buffer_flag BH_Uptodate bh then bh
      else set_buffer BH_Uptodate (clear_buffer BH_Dirty (bh\<lparr>b_data := xs, b_end_io := After_submit_read\<rparr>)))"

lemma submit_read_effect:
  assumes inv: "cache_inv d" and bh: "bd_bh_root d b = Some bh"
  shows "res_bind (bh_submit_read b d) (wait_on_buffer b) =
    Inr (d\<lparr>bd_bh_root := (bd_bh_root d)(b \<mapsto> read_bh (disk d b) bh)\<rparr>)"
proof (cases "buffer_flag BH_Uptodate bh")
  case True
  have "\<not> b_locked bh" "aio d = Map.empty" "b_event bh = 1"
    using inv cache_invD [OF inv bh] by (auto simp: bh_inv_def cache_inv_def)
  with True bh show ?thesis
    by (simp add: bh_submit_read_def read_bh_def upd_bh_def bh_ops wait_ops Let_def fun_upd_idem)
next
  case False
  have l: "\<not> b_locked bh" "aio d = Map.empty" "io_error d b = 0" "b_event bh = 1"
    using inv cache_invD [OF inv bh] by (auto simp: bh_inv_def cache_inv_def healthy_def)
  have nd: "b \<notin> set (bd_bh_dirty d)"
    using cache_invD [OF inv bh] False by (auto simp: bh_inv_def)
  show ?thesis using False bh l nd
    by (simp add: bh_submit_read_def Let_def upd_bh_def bh_ops wait_ops remove_buffer_from_writeback_def
        after_submit_read_def clear_buffer_def read_bh_def set_buffer_def) (cases d, cases bh, simp)
qed

lemma read_bh_inv:
  assumes "cache_inv d" "bd_bh_root d b = Some bh"
  shows "bh_inv d b (read_bh (disk d b) bh)" "b_data (read_bh (disk d b) bh) = view d b"
    "buffer_flag BH_Uptodate (read_bh (disk d b) bh)" "b_count (read_bh (disk d b) bh) = b_count bh"
  using assms cache_invD [OF assms]
  by (auto simp: read_bh_def bh_inv_def view_def cache_inv_def healthy_def)

lemma fs_bread_ok:
  assumes inv: "cache_inv d"
  shows "\<exists>d'. fs_bread b d = Inr (Some b, d') \<and> cache_inv d' \<and> view d' = view d \<and>
    refs d' = (refs d)(b := refs d b + 1) \<and> disk d' = disk d \<and> bh_data b d' = view d b"
proof -
  obtain d1 where d1: "sb_getblk b d = (Some b, d1)" "cache_inv d1" "view d1 = view d"
    "refs d1 = (refs d)(b := refs d b + 1)" "disk d1 = disk d"
    using sb_getblk_ok [OF inv] by blast
  have "0 < refs d1 b" using d1(4) refs_nonneg [OF inv, of b] by simp
  then obtain bh where bh: "bd_bh_root d1 b = Some bh" "0 < b_count bh"
    using refs_pos_present by blast
  let ?bh = "read_bh (disk d1 b) bh"
  let ?d = "d1\<lparr>bd_bh_root := (bd_bh_root d1)(b \<mapsto> ?bh)\<rparr>"
  note r = read_bh_inv [OF d1(2) bh(1)]
  have "fs_bread b d = Inr (Some b, ?d\<lparr>fs_bh_alloc := fs_bh_alloc d1 + 1\<rparr>)"
    using d1(1) submit_read_effect [OF d1(2) bh(1)] by (auto simp: fs_bread_def res_simps)
  moreover have "cache_inv ?d" using cache_inv_upd [OF d1(2) r(1)] bh by simp
  moreover have "view ?d = view d1" by (rule view_upd_eq [OF bh(1)]) (simp add: r)
  moreover have "refs ?d = refs d1"
    using bh(1) by (simp add: refs_upd r(4) fun_eq_iff) (simp add: refs_def)
  moreover have "bh_data b ?d = view d b" using r(2) d1(3) by (simp add: bh_data_def)
  ultimately show ?thesis using d1 by (simp add: bh_data_def)
qed

lemma fs_bwrite_ok:
  assumes inv: "cache_inv d"
  shows "\<exists>d'. fs_bwrite b d = (Some b, d') \<and> cache_inv d' \<and> view d' = view d \<and>
    refs d' = (refs d)(b := refs d b + 1) \<and> disk d' = disk d"
  using sb_getblk_ok [OF inv, of b] by (auto simp: fs_bwrite_def)

lemma bh_data_length: "cache_inv d \<Longrightarrow> 0 < refs d b \<Longrightarrow> length (bh_data b d) = s_blocksize d"
  using refs_pos_present [of d b] cache_invD [of d b] by (auto simp: bh_data_def bh_inv_def)

section \<open>Storing\<close>

lemma store_dirty_ok:
  assumes inv: "cache_inv d" and held: "0 < refs d b" and len: "length xs = s_blocksize d"
  shows "cache_inv (fs_mark_buffer_dirty b (bh_store b xs d))"
    "view (fs_mark_buffer_dirty b (bh_store b xs d)) = (view d)(b := xs)"
    "refs (fs_mark_buffer_dirty b (bh_store b xs d)) = refs d"
    "disk (fs_mark_buffer_dirty b (bh_store b xs d)) = disk d"
proof -
  obtain bh where bh: "bd_bh_root d b = Some bh" "0 < b_count bh"
    using refs_pos_present [OF held] by blast
  let ?bh = "set_buffer BH_Dirty (set_buffer BH_Uptodate (bh\<lparr>b_data := xs\<rparr>))"
  have e: "fs_mark_buffer_dirty b (bh_store b xs d) = d\<lparr>bd_bh_root := (bd_bh_root d)(b \<mapsto> ?bh)\<rparr>"
    using bh by (simp add: fs_mark_buffer_dirty_def bh_store_def upd_bh_def)
  have "bh_inv d b ?bh"
    using cache_invD [OF inv bh(1)] bh(2) len by (auto simp: bh_inv_def)
  then show "cache_inv (fs_mark_buffer_dirty b (bh_store b xs d))"
    using cache_inv_upd [OF inv] bh e by simp
  show "view (fs_mark_buffer_dirty b (bh_store b xs d)) = (view d)(b := xs)"
    unfolding e by (auto simp: view_def fun_eq_iff split: option.split)
  show "refs (fs_mark_buffer_dirty b (bh_store b xs d)) = refs d"
    using bh(1) by (simp add: e refs_upd fun_eq_iff) (simp add: refs_def)
  show "disk (fs_mark_buffer_dirty b (bh_store b xs d)) = disk d" by (simp add: e)
qed

section \<open>Releasing\<close>

lemma remove_first_ok:
  assumes inv: "cache_inv d" and ne: "bd_bh_free d \<noteq> []"
  shows "cache_inv (remove_first_bh_from_freelist d)"
    "view (remove_first_bh_from_freelist d) = view d"
    "refs (remove_first_bh_from_freelist d) = refs d"
    "disk (remove_first_bh_from_freelist d) = disk d"
    "\<And>b. b \<notin> set (bd_bh_free d) \<Longrightarrow> bd_bh_root (remove_first_bh_from_freelist d) b = bd_bh_root d b"
    "set (bd_bh_free (remove_first_bh_from_freelist d)) \<subseteq> set (bd_bh_free d)"
proof -
  obtain x xs where x: "bd_bh_free d = x # xs" using ne by (cases "bd_bh_free d") auto
  have e: "remove_first_bh_from_freelist d =
      d\<lparr>bd_bh_free := xs, bd_nr_free := bd_nr_free d - 1, bd_bh_root := (bd_bh_root d)(x := None)\<rparr>"
    by (simp add: remove_first_bh_from_freelist_def x buffer_remove_def)
  obtain bh where bh: "bd_bh_root d x = Some bh" using inv x by (auto simp: cache_inv_def)
  have i: "b_count bh = 0" "\<not> buffer_flag BH_Dirty bh" "buffer_flag BH_Uptodate bh \<longrightarrow> b_data bh = disk d x"
    "x \<notin> set (bd_bh_dirty d)"
    using cache_invD [OF inv bh] x by (auto simp: bh_inv_def)
  show "cache_inv (remove_first_bh_from_freelist d)"
    using inv i x by (auto simp: e cache_inv_def bh_inv_def healthy_def)
  show "view (remove_first_bh_from_freelist d) = view d"
    using bh i unfolding e by (auto simp: view_def fun_eq_iff split: option.split)
  show "refs (remove_first_bh_from_freelist d) = refs d"
    using bh i unfolding e by (auto simp: refs_def fun_eq_iff)
  show "disk (remove_first_bh_from_freelist d) = disk d" by (simp add: e)
  show "bd_bh_root (remove_first_bh_from_freelist d) b = bd_bh_root d b" if "b \<notin> set (bd_bh_free d)" for b
    using that x by (auto simp: e)
  show "set (bd_bh_free (remove_first_bh_from_freelist d)) \<subseteq> set (bd_bh_free d)"
    using x by (auto simp: e)
qed

lemma try_to_drop_buffers_ok:
  "cache_inv d \<Longrightarrow> \<exists>d'. try_to_drop_buffers d = Inr d' \<and> cache_inv d' \<and> view d' = view d \<and>
     refs d' = refs d \<and> disk d' = disk d \<and> bd_nr_free d' \<le> buffer_free_threshold \<and>
     (\<forall>b. b \<notin> set (bd_bh_free d) \<longrightarrow> bd_bh_root d' b = bd_bh_root d b \<and> b \<notin> set (bd_bh_free d'))"
proof (induction d rule: try_to_drop_buffers.induct)
  case (1 d)
  show ?case
  proof (cases "bd_nr_free d > buffer_free_threshold")
    case True
    then have ne: "bd_bh_free d \<noteq> []"
      using "1.prems" by (auto simp: cache_inv_def buffer_free_threshold_def)
    note f = remove_first_ok [OF "1.prems" ne]
    have "try_to_drop_buffers d = try_to_drop_buffers (remove_first_bh_from_freelist d)"
      using True ne by (simp add: try_to_drop_buffers.simps [of d])
    with "1.IH" [OF True ne f(1)] f show ?thesis by fastforce
  next
    case False
    then show ?thesis using "1.prems" by (simp add: try_to_drop_buffers.simps [of d])
  qed
qed

lemma put_bh_inv:
  assumes inv: "cache_inv d" and bh: "bd_bh_root d b = Some bh" "0 < b_count bh"
    and "b_count bh > 1 \<or> \<not> buffer_flag BH_Dirty bh"
  shows "cache_inv (upd_bh b put_bh d)"
proof -
  have "bh_inv d b (put_bh bh)"
    using cache_invD [OF inv bh(1)] assms(3,4) by (auto simp: bh_inv_def put_bh_def)
  then show ?thesis using cache_inv_upd [OF inv] bh by (simp add: upd_bh_Some)
qed

lemma put_bh_view:
  "view (upd_bh b put_bh d) = view d"
  by (auto simp: view_def fun_eq_iff put_bh_def upd_bh_def split: option.split)

lemma put_bh_refs:
  "bd_bh_root d b = Some bh \<Longrightarrow> refs (upd_bh b put_bh d) = (refs d)(b := refs d b - 1)"
  by (auto simp: refs_def fun_eq_iff put_bh_def upd_bh_def)

lemma attach_ok:
  assumes inv: "cache_inv d" and bh: "bd_bh_root d b = Some bh" "b_count bh = 0" "\<not> buffer_flag BH_Dirty bh"
  shows "cache_inv (attach_bh_to_freelist b d)" "view (attach_bh_to_freelist b d) = view d"
    "refs (attach_bh_to_freelist b d) = refs d" "disk (attach_bh_to_freelist b d) = disk d"
proof -
  show "cache_inv (attach_bh_to_freelist b d)"
  proof (cases "b \<in> set (bd_bh_free d)")
    case True
    with inv show ?thesis by (simp add: attach_bh_to_freelist_def)
  next
    case False
    with inv bh show ?thesis
      by (auto simp: attach_bh_to_freelist_def cache_inv_def bh_inv_def healthy_def)
  qed
  show "view (attach_bh_to_freelist b d) = view d" "refs (attach_bh_to_freelist b d) = refs d"
    "disk (attach_bh_to_freelist b d) = disk d"
    by (auto intro!: view_cong refs_cong simp: attach_bh_to_freelist_def)
qed

lemma reclaim_ok:
  assumes inv: "cache_inv d" and bh: "bd_bh_root d b = Some bh" "b_count bh = 0" "\<not> buffer_flag BH_Dirty bh"
    and nf: "b \<notin> set (bd_bh_free d)"
  shows "\<exists>d'. reclaim_buffer b d = Inr d' \<and> cache_inv d' \<and> view d' = view d \<and> refs d' = refs d \<and>
    disk d' = disk d"
proof -
  obtain d1 where d1: "try_to_drop_buffers d = Inr d1" "cache_inv d1" "view d1 = view d" "refs d1 = refs d"
    "disk d1 = disk d" "bd_bh_root d1 b = Some bh"
    using try_to_drop_buffers_ok [OF inv] nf bh by auto
  then show ?thesis
    using attach_ok [OF d1(2,6) bh(2,3)] by (simp add: reclaim_buffer_def)
qed

text \<open>A dirty buffer whose last user leaves goes to the dirty list.\<close>

lemma release_dirty_ok:
  assumes inv: "cache_inv d" and bh: "bd_bh_root d b = Some bh" "b_count bh = 1" "buffer_flag BH_Dirty bh"
  shows "cache_inv (move_buffer_to_writeback b (upd_bh b put_bh d))"
    "view (move_buffer_to_writeback b (upd_bh b put_bh d)) = view d"
    "refs (move_buffer_to_writeback b (upd_bh b put_bh d)) = (refs d)(b := refs d b - 1)"
    "disk (move_buffer_to_writeback b (upd_bh b put_bh d)) = disk d"
proof -
  have n: "b \<notin> set (bd_bh_dirty d)" "b \<notin> set (bd_bh_free d)"
    using cache_invD [OF inv bh(1)] bh(2) by (auto simp: bh_inv_def)
  have e: "move_buffer_to_writeback b (upd_bh b put_bh d) =
    d\<lparr>bd_bh_root := (bd_bh_root d)(b \<mapsto> bh\<lparr>b_count := 0\<rparr>), bd_bh_dirty := bd_bh_dirty d @ [b],
      buffer_dirty_count := buffer_dirty_count d + 1\<rparr>"
    using n bh by (simp add: move_buffer_to_writeback_def upd_bh_def put_bh_def)
  show "cache_inv (move_buffer_to_writeback b (upd_bh b put_bh d))"
    using inv bh n by (auto simp: e cache_inv_def bh_inv_def healthy_def)
  show "view (move_buffer_to_writeback b (upd_bh b put_bh d)) = view d"
    using bh unfolding e by (auto simp: view_def fun_eq_iff split: option.split)
  show "refs (move_buffer_to_writeback b (upd_bh b put_bh d)) = (refs d)(b := refs d b - 1)"
    using bh unfolding e by (auto simp: refs_def fun_eq_iff)
  show "disk (move_buffer_to_writeback b (upd_bh b put_bh d)) = disk d" by (simp add: e)
qed

lemma brelse_ok:
  assumes inv: "cache_inv d" and held: "0 < refs d b"
  shows "\<exists>d'. brelse b d = Inr d' \<and> cache_inv d' \<and> view d' = view d \<and>
    refs d' = (refs d)(b := refs d b - 1) \<and> disk d' = disk d"
proof -
  obtain bh where bh: "bd_bh_root d b = Some bh" "0 < b_count bh"
    using refs_pos_present [OF held] by blast
  consider "b_count bh > 1" | "b_count bh = 1" "buffer_flag BH_Dirty bh"
    | "b_count bh = 1" "\<not> buffer_flag BH_Dirty bh"
    using bh(2) by fastforce
  then show ?thesis
  proof cases
    case 1
    then show ?thesis using bh put_bh_inv [OF inv bh] put_bh_view put_bh_refs [OF bh(1)]
      by (simp add: brelse_def Let_def)
  next
    case 2
    then show ?thesis using release_dirty_ok [OF inv bh(1) 2] bh by (simp add: brelse_def Let_def)
  next
    case 3
    let ?d = "upd_bh b put_bh d"
    have nf: "b \<notin> set (bd_bh_free d)" using cache_invD [OF inv bh(1)] 3 by (auto simp: bh_inv_def)
    have "\<exists>d'. reclaim_buffer b ?d = Inr d' \<and> cache_inv d' \<and> view d' = view ?d \<and> refs d' = refs ?d \<and>
      disk d' = disk ?d"
      by (rule reclaim_ok [where bh = "put_bh bh"]) (use put_bh_inv [OF inv bh] 3 bh nf in \<open>simp_all add: put_bh_def\<close>)
    then show ?thesis using 3 bh put_bh_view put_bh_refs [OF bh(1)]
      by (simp add: brelse_def Let_def)
  qed
qed

lemma fs_brelse_ok:
  assumes inv: "cache_inv d" and held: "0 < refs d b"
  shows "\<exists>d'. fs_brelse b d = Inr d' \<and> cache_inv d' \<and> view d' = view d \<and>
    refs d' = (refs d)(b := refs d b - 1) \<and> disk d' = disk d"
  using brelse_ok [of "d\<lparr>fs_bh_freed := fs_bh_freed d + 1\<rparr>" b] assms by (simp add: fs_brelse_def)

lemma fs_bforget_ok:
  assumes inv: "cache_inv d" and held: "0 < refs d b"
  shows "\<exists>d'. fs_bforget b d = Inr d' \<and> cache_inv d' \<and> view d' = (view d)(b := disk d b) \<and>
    refs d' = (refs d)(b := refs d b - 1) \<and> disk d' = disk d"
proof -
  obtain bh where bh: "bd_bh_root d b = Some bh" "0 < b_count bh"
    using refs_pos_present [OF held] by blast
  let ?bh = "clear_buffer BH_Dirty (clear_buffer BH_Uptodate bh)"
  let ?d = "d\<lparr>bd_bh_root := (bd_bh_root d)(b \<mapsto> ?bh)\<rparr>"
  have "bh_inv d b ?bh" using cache_invD [OF inv bh(1)] bh(2) by (auto simp: bh_inv_def)
  then have "cache_inv ?d" using cache_inv_upd [OF inv] bh by simp
  moreover have "view ?d = (view d)(b := disk d b)"
    by (auto simp: view_def fun_eq_iff split: option.split)
  moreover have "refs ?d = refs d"
    using bh(1) by (simp add: refs_upd fun_eq_iff) (simp add: refs_def)
  moreover have "fs_bforget b d = fs_brelse b ?d"
    using bh by (simp add: fs_bforget_def upd_bh_def)
  ultimately show ?thesis using fs_brelse_ok [of ?d b] held by (simp add: fun_upd_def)
qed

section \<open>Writeback\<close>

text \<open>One turn of the loop of try_to_sync_buffers on the head of the dirty list.\<close>

lemma sync_turn_effect:
  assumes inv: "cache_inv d" and x: "bd_bh_dirty d = x # xs" and bh: "bd_bh_root d x = Some bh"
  shows "sync_turn x (d\<lparr>bd_bh_dirty := xs, buffer_dirty_count := buffer_dirty_count d - 1\<rparr>) =
    Inr (d\<lparr>bd_bh_dirty := xs, buffer_dirty_count := buffer_dirty_count d - 1, disk := (disk d)(x := b_data bh),
      bd_bh_free := bd_bh_free d @ [x], bd_nr_free := bd_nr_free d + 1,
      bd_bh_root := (bd_bh_root d)(x \<mapsto>
        clear_buffer BH_Dirty (set_buffer BH_Uptodate (bh\<lparr>b_end_io := After_buffer_sync\<rparr>)))\<rparr>)"
proof -
  have i: "b_count bh = 0" "buffer_flag BH_Dirty bh" "\<not> b_locked bh" "b_event bh = 1"
    "x \<notin> set (bd_bh_free d)" "x \<notin> set xs" "io_error d x = 0" "aio d = Map.empty"
    using cache_invD [OF inv bh] inv x by (auto simp: bh_inv_def cache_inv_def healthy_def)
  show ?thesis using bh i
    by (simp add: sync_turn_def sync_dirty_buffer_def Let_def upd_bh_def bh_ops wait_ops after_buffer_sync_def
        remove_buffer_from_writeback_def clear_buffer_def set_buffer_def attach_bh_to_freelist_def)
      (cases d, cases bh, simp)
qed

lemma sync_turn_ok:
  assumes inv: "cache_inv d" and x: "bd_bh_dirty d = x # xs"
  shows "\<exists>d'. sync_turn x (d\<lparr>bd_bh_dirty := xs, buffer_dirty_count := buffer_dirty_count d - 1\<rparr>) = Inr d' \<and>
    cache_inv d' \<and> view d' = view d \<and> refs d' = refs d \<and> bd_bh_dirty d' = xs \<and> writeback_pipe d' = writeback_pipe d \<and>
    (\<forall>b. refs d b \<noteq> 0 \<longrightarrow> disk d' b = disk d b)"
proof -
  obtain bh where bh: "bd_bh_root d x = Some bh" using inv x by (auto simp: cache_inv_def)
  have i: "b_count bh = 0" "buffer_flag BH_Dirty bh" "buffer_flag BH_Uptodate bh" "x \<notin> set (bd_bh_free d)" "x \<notin> set xs"
    "length (b_data bh) = s_blocksize d"
    using cache_invD [OF inv bh] inv x by (auto simp: bh_inv_def cache_inv_def healthy_def)
  note e = sync_turn_effect [OF inv x bh]
  let ?d = "d\<lparr>bd_bh_dirty := xs, buffer_dirty_count := buffer_dirty_count d - 1, disk := (disk d)(x := b_data bh),
      bd_bh_free := bd_bh_free d @ [x], bd_nr_free := bd_nr_free d + 1,
      bd_bh_root := (bd_bh_root d)(x \<mapsto>
        clear_buffer BH_Dirty (set_buffer BH_Uptodate (bh\<lparr>b_end_io := After_buffer_sync\<rparr>)))\<rparr>"
  have "cache_inv ?d" using inv i x bh by (auto simp: cache_inv_def bh_inv_def healthy_def)
  moreover have "view ?d = view d" using bh i by (intro ext) (simp add: view_def split: option.split)
  moreover have "refs ?d = refs d" using bh i by (intro ext) (simp add: refs_def)
  moreover have "disk ?d b = disk d b" if "refs d b \<noteq> 0" for b using that bh i by (auto simp: refs_def)
  ultimately show ?thesis unfolding e by simp
qed

lemma try_to_sync_buffers_ok:
  "cache_inv d \<Longrightarrow> \<exists>d'. try_to_sync_buffers d = Inr d' \<and> cache_inv d' \<and> view d' = view d \<and>
     refs d' = refs d \<and> bd_bh_dirty d' = [] \<and> writeback_pipe d' = writeback_pipe d \<and>
     (\<forall>b. refs d b \<noteq> 0 \<longrightarrow> disk d' b = disk d b)"
proof (induction d rule: try_to_sync_buffers.induct)
  case (1 d)
  show ?case
  proof (cases "bd_bh_dirty d")
    case Nil
    then show ?thesis using "1.prems"
      by (simp add: try_to_sync_buffers.simps [of d] remove_first_buffer_from_writeback_def)
  next
    case (Cons x xs)
    then have r: "remove_first_buffer_from_writeback d =
        (Some x, d\<lparr>bd_bh_dirty := xs, buffer_dirty_count := buffer_dirty_count d - 1\<rparr>)"
      by (simp add: remove_first_buffer_from_writeback_def)
    obtain d1 where t: "sync_turn x (d\<lparr>bd_bh_dirty := xs, buffer_dirty_count := buffer_dirty_count d - 1\<rparr>) = Inr d1"
      "cache_inv d1" "view d1 = view d" "refs d1 = refs d" "writeback_pipe d1 = writeback_pipe d"
      "\<forall>b. refs d b \<noteq> 0 \<longrightarrow> disk d1 b = disk d b"
      using sync_turn_ok [OF "1.prems" Cons] by blast
    have "try_to_sync_buffers d = try_to_sync_buffers d1"
      using t(1) by (simp add: try_to_sync_buffers.simps [of d] r)
    then show ?thesis
      using "1.IH" [OF r [symmetric] refl t(1,2)] t(3-6) by auto
  qed
qed

lemma clean_disk_view:
  assumes "cache_inv d" "bd_bh_dirty d = []" "refs d b = 0"
  shows "disk d b = view d b"
proof (cases "bd_bh_root d b")
  case None
  then show ?thesis by (simp add: view_def)
next
  case (Some bh)
  with assms cache_invD [OF assms(1) Some] show ?thesis
    by (auto simp: view_def bh_inv_def refs_def)
qed

lemma buffer_writeback_thread_ok:
  "cache_inv d \<Longrightarrow> \<exists>d'. buffer_writeback_thread evs d = Inr d' \<and> cache_inv d' \<and> view d' = view d \<and> refs d' = refs d \<and>
     (bd_bh_dirty d = [] \<or> evs \<noteq> [] \<and> hd evs = Ready \<longrightarrow> bd_bh_dirty d' = [])"
proof (induction evs d rule: buffer_writeback_thread.induct)
  case (2 evs d)
  obtain c d1 where r: "bdev_writeback_thread_read_notify d = (c, d1)" by fastforce
  then have d1: "cache_inv d1" "view d1 = view d" "refs d1 = refs d"
    using 2(2) by (auto simp: bdev_writeback_thread_read_notify_def split: list.splits)
  obtain d2 where t: "try_to_sync_buffers d1 = Inr d2" "cache_inv d2" "view d2 = view d1" "refs d2 = refs d1" "bd_bh_dirty d2 = []"
    using try_to_sync_buffers_ok [OF d1(1)] by blast
  show ?case
  proof (cases "bdev_is_notify_exiting c")
    case True
    then show ?thesis using t d1 by (simp add: r)
  next
    case False
    then show ?thesis using "2.IH" [OF r [symmetric] refl False t(2)] t d1 by (auto simp: r)
  qed
next
  case (3 evs d)
  obtain d1 where t: "try_to_sync_buffers d = Inr d1" "cache_inv d1" "view d1 = view d" "refs d1 = refs d" "bd_bh_dirty d1 = []"
    using try_to_sync_buffers_ok [OF 3(2)] by blast
  obtain d2 where "buffer_writeback_thread evs d1 = Inr d2" "cache_inv d2" "view d2 = view d1" "refs d2 = refs d1" "bd_bh_dirty d2 = []"
    using "3.IH" [OF t(2)] t(5) by blast
  then show ?case using t by simp
qed auto

text \<open>No buffer is locked or waits for a request, so the final loop only takes them away.\<close>

lemma wait_idle:
  assumes bh: "bd_bh_root d b = Some bh" "b_event bh = 1"
  shows "wait_on_buffer b d = Inr d"
proof -
  have m: "(bd_bh_root d)(b \<mapsto> bh) = bd_bh_root d" using bh(1) by auto
  have e: "bh\<lparr>b_event := 1\<rparr> = bh" using bh(2) by (cases bh) simp
  have "d\<lparr>bd_bh_root := (bd_bh_root d)(b \<mapsto> bh\<lparr>b_event := 1\<rparr>)\<rparr> = d" unfolding e m by simp
  then show ?thesis using bh by (simp add: wait_on_buffer_def sem_wait_def signalled_def upd_bh_def bh_ops)
qed

lemma bdev_free_loop_run:
  "(\<And>b bh. bd_bh_root d b = Some bh \<Longrightarrow> b_event bh = 1) \<Longrightarrow> \<exists>d'. bdev_free_loop keys d = Inr d' \<and> disk d' = disk d"
proof (induction keys arbitrary: d)
  case (Cons b bs)
  show ?case
  proof (cases "bd_bh_root d b")
    case None
    obtain d' where "bdev_free_loop bs d = Inr d'" "disk d' = disk d" using Cons.IH [of d] Cons.prems by blast
    then show ?thesis using None by simp
  next
    case (Some bh)
    let ?d = "buffer_remove b (detach_bh_from_freelist b d)"
    have e: "bd_bh_root ?d = (bd_bh_root d)(b := None)" "disk ?d = disk d"
      by (simp_all add: buffer_remove_def detach_bh_from_freelist_def)
    have "\<And>b bh. bd_bh_root ?d b = Some bh \<Longrightarrow> b_event bh = 1"
      using Cons.prems e(1) by (metis fun_upd_apply option.distinct(1))
    then obtain d' where "bdev_free_loop bs ?d = Inr d' \<and> disk d' = disk ?d"
      using Cons.IH [of ?d] by blast
    then show ?thesis using Some wait_idle [OF Some Cons.prems [OF Some]] e by auto
  qed
qed simp

section \<open>The contract as an interface\<close>

text \<open>
  What the rest of the program (disk.c, alloc.c, super.c, extents.c) relies on: a store of blocks
  with reference counted handles. \<open>bread\<close> pins a block and gives its content, \<open>bwrite\<close> pins it
  without reading, \<open>store\<close> replaces the content of a pinned block, \<open>rel\<close> drops one reference.
\<close>

locale block_store =
  fixes inv :: "'s \<Rightarrow> bool"
    and vw :: "'s \<Rightarrow> u64 \<Rightarrow> bytes"
    and rf :: "'s \<Rightarrow> u64 \<Rightarrow> int"
    and bsize :: "'s \<Rightarrow> nat"
    and bread :: "u64 \<Rightarrow> 's \<Rightarrow> (u64 option \<times> 's) res"
    and bwrite :: "u64 \<Rightarrow> 's \<Rightarrow> u64 option \<times> 's"
    and data :: "u64 \<Rightarrow> 's \<Rightarrow> bytes"
    and store :: "u64 \<Rightarrow> bytes \<Rightarrow> 's \<Rightarrow> 's"
    and rel :: "u64 \<Rightarrow> 's \<Rightarrow> 's res"
  assumes vw_length: "inv d \<Longrightarrow> length (vw d b) = bsize d"
    and rf_nonneg: "inv d \<Longrightarrow> 0 \<le> rf d b"
    and bread_law: "inv d \<Longrightarrow> \<exists>d'. bread b d = Inr (Some b, d') \<and> inv d' \<and> vw d' = vw d \<and>
      rf d' = (rf d)(b := rf d b + 1) \<and> data b d' = vw d b"
    and bwrite_law: "inv d \<Longrightarrow> \<exists>d'. bwrite b d = (Some b, d') \<and> inv d' \<and> vw d' = vw d \<and>
      rf d' = (rf d)(b := rf d b + 1)"
    and store_law: "inv d \<Longrightarrow> 0 < rf d b \<Longrightarrow> length xs = bsize d \<Longrightarrow>
      inv (store b xs d) \<and> vw (store b xs d) = (vw d)(b := xs) \<and> rf (store b xs d) = rf d"
    and rel_law: "inv d \<Longrightarrow> 0 < rf d b \<Longrightarrow> \<exists>d'. rel b d = Inr d' \<and> inv d' \<and> vw d' = vw d \<and>
      rf d' = (rf d)(b := rf d b - 1)"
begin

lemma bsize_vw: "inv d \<Longrightarrow> inv d' \<Longrightarrow> vw d' = vw d \<Longrightarrow> bsize d' = bsize d"
  using vw_length by metis

text \<open>Pin, look, unpin: the content is the view and nothing changes.\<close>

lemma read_cycle:
  assumes "inv d"
  obtains d1 d2 where "bread b d = Inr (Some b, d1)" "inv d1" "data b d1 = vw d b" "vw d1 = vw d"
    "rf d1 = (rf d)(b := rf d b + 1)" "rel b d1 = Inr d2" "inv d2" "vw d2 = vw d" "rf d2 = rf d"
    "bsize d2 = bsize d"
proof -
  obtain d1 where d1: "bread b d = Inr (Some b, d1)" "inv d1" "vw d1 = vw d"
    "rf d1 = (rf d)(b := rf d b + 1)" "data b d1 = vw d b"
    using bread_law [OF assms] by blast
  have "0 < rf d1 b" using d1(4) rf_nonneg [OF assms, of b] by simp
  then obtain d2 where d2: "rel b d1 = Inr d2" "inv d2" "vw d2 = vw d1" "rf d2 = (rf d1)(b := rf d1 b - 1)"
    using rel_law [OF d1(2)] by blast
  show thesis
    by (rule that [OF d1(1,2,5,3,4) d2(1,2)]) (use d1 d2 bsize_vw [OF assms d2(2)] in auto)
qed

text \<open>Pin, replace the content, unpin: the view changes at that block only.\<close>

lemma store_cycle:
  assumes "inv d1" "vw d1 = vw d" "inv d" "rf d1 = (rf d)(b := rf d b + 1)" "length xs = bsize d"
  obtains d2 where "rel b (store b xs d1) = Inr d2" "inv d2" "vw d2 = (vw d)(b := xs)" "rf d2 = rf d"
    "bsize d2 = bsize d"
proof -
  have p: "0 < rf d1 b" using assms(4) rf_nonneg [OF assms(3), of b] by simp
  have l: "length xs = bsize d1" using assms bsize_vw by metis
  note st = store_law [OF assms(1) p l]
  obtain d2 where d2: "rel b (store b xs d1) = Inr d2" "inv d2" "vw d2 = vw (store b xs d1)"
    "rf d2 = (rf (store b xs d1))(b := rf (store b xs d1) b - 1)"
    using rel_law [of "store b xs d1" b] st p by auto
  have "vw d2 b = xs" using d2 st assms by simp
  then have "bsize d2 = bsize d" using vw_length [OF d2(2), of b] assms(5) by simp
  then show thesis using that [OF d2(1,2)] d2 st assms by auto
qed

lemma update_cycle:
  assumes "inv d" "length (f (vw d b)) = bsize d"
  obtains d1 d2 where "bread b d = Inr (Some b, d1)" "data b d1 = vw d b"
    "rel b (store b (f (data b d1)) d1) = Inr d2" "inv d2" "vw d2 = (vw d)(b := f (vw d b))"
    "rf d2 = rf d" "bsize d2 = bsize d"
proof -
  obtain d1 where d1: "bread b d = Inr (Some b, d1)" "inv d1" "data b d1 = vw d b" "vw d1 = vw d"
    "rf d1 = (rf d)(b := rf d b + 1)"
    using read_cycle [OF assms(1)] by metis
  obtain d2 where "rel b (store b (f (vw d b)) d1) = Inr d2" "inv d2" "vw d2 = (vw d)(b := f (vw d b))"
    "rf d2 = rf d" "bsize d2 = bsize d"
    using store_cycle [OF d1(2,4) assms(1) d1(5) assms(2)] by metis
  then show thesis using that [OF d1(1,3)] d1(3) by simp
qed

lemma overwrite_cycle:
  assumes "inv d" "length xs = bsize d"
  obtains d1 d2 where "bwrite b d = (Some b, d1)" "rel b (store b xs d1) = Inr d2" "inv d2"
    "vw d2 = (vw d)(b := xs)" "rf d2 = rf d" "bsize d2 = bsize d"
proof -
  obtain d1 where d1: "bwrite b d = (Some b, d1)" "inv d1" "vw d1 = vw d" "rf d1 = (rf d)(b := rf d b + 1)"
    using bwrite_law [OF assms(1)] by blast
  from store_cycle [OF d1(2,3) assms(1) d1(4) assms(2)] show thesis
    using that [OF d1(1)] by metis
qed

end

text \<open>A client's store: assign through b_data, then fs_mark_buffer_dirty.\<close>

definition dirty_store :: "u64 \<Rightarrow> bytes \<Rightarrow> block_device \<Rightarrow> block_device" where
  "dirty_store b xs d = fs_mark_buffer_dirty b (bh_store b xs d)"

interpretation bs: block_store cache_inv view refs s_blocksize fs_bread fs_bwrite bh_data dirty_store fs_brelse
proof unfold_locales
  fix d b assume inv: "cache_inv d"
  show "length (view d b) = s_blocksize d"
    using inv cache_invD [OF inv, of b]
    by (auto simp: view_def bh_inv_def cache_inv_def healthy_def split: option.split)
  show "0 \<le> refs d b" by (rule refs_nonneg [OF inv])
  show "\<exists>d'. fs_bread b d = Inr (Some b, d') \<and> cache_inv d' \<and> view d' = view d \<and>
      refs d' = (refs d)(b := refs d b + 1) \<and> bh_data b d' = view d b"
    using fs_bread_ok [OF inv] by blast
  show "\<exists>d'. fs_bwrite b d = (Some b, d') \<and> cache_inv d' \<and> view d' = view d \<and>
      refs d' = (refs d)(b := refs d b + 1)"
    using fs_bwrite_ok [OF inv] by blast
  show "\<exists>d'. fs_brelse b d = Inr d' \<and> cache_inv d' \<and> view d' = view d \<and>
      refs d' = (refs d)(b := refs d b - 1)" if "0 < refs d b"
    using fs_brelse_ok [OF inv that] by blast
  show "cache_inv (dirty_store b xs d) \<and> view (dirty_store b xs d) = (view d)(b := xs) \<and>
      refs (dirty_store b xs d) = refs d" if "0 < refs d b" "length xs = s_blocksize d" for xs
    using store_dirty_ok [OF inv that] by (simp add: dirty_store_def)
qed

section \<open>Sequences of operations\<close>

text \<open>
  The operations of the clients and the writeback thread, interleaved at the granularity of whole
  calls. The result of a read is the content of the buffer that it returns. A store needs a reference and a
  buffer of the size of a block.
\<close>

datatype cache_op = Op_bread u64 | Op_bwrite u64 | Op_store u64 bytes | Op_brelse u64 | Op_bforget u64 | Op_sync

inductive cache_step :: "block_device \<Rightarrow> cache_op \<Rightarrow> bytes option \<Rightarrow> block_device \<Rightarrow> bool" where
  step_bread: "fs_bread b d = Inr (Some b, d') \<Longrightarrow> cache_step d (Op_bread b) (Some (bh_data b d')) d'"
| step_bwrite: "fs_bwrite b d = (Some b, d') \<Longrightarrow> cache_step d (Op_bwrite b) None d'"
| step_store: "0 < refs d b \<Longrightarrow> length xs = s_blocksize d \<Longrightarrow> cache_step d (Op_store b xs) None (dirty_store b xs d)"
| step_brelse: "0 < refs d b \<Longrightarrow> fs_brelse b d = Inr d' \<Longrightarrow> cache_step d (Op_brelse b) None d'"
| step_bforget: "0 < refs d b \<Longrightarrow> fs_bforget b d = Inr d' \<Longrightarrow> cache_step d (Op_bforget b) None d'"
| step_sync: "try_to_sync_buffers d = Inr d' \<Longrightarrow> cache_step d Op_sync None d'"

inductive cache_run :: "block_device \<Rightarrow> cache_op list \<Rightarrow> bytes option list \<Rightarrow> block_device \<Rightarrow> bool" where
  run_nil: "cache_run d [] [] d"
| run_cons: "cache_step d op out d1 \<Longrightarrow> cache_run d1 ops outs d' \<Longrightarrow> cache_run d (op # ops) (out # outs) d'"

inductive_cases cache_stepE: "cache_step d op out d'"

text \<open>
  The specification: a device content, a current content and a reference count per block, with no
  cache. A read returns the current content. Storing changes the current content, forgetting returns to the
  device content, a sync makes the device agree with the current content of every block that nobody holds.
\<close>

type_synonym store_spec = "(u64 \<Rightarrow> bytes) \<times> (u64 \<Rightarrow> bytes) \<times> (u64 \<Rightarrow> int)"

fun spec_step :: "store_spec \<Rightarrow> cache_op \<Rightarrow> bytes option \<Rightarrow> store_spec \<Rightarrow> bool" where
  "spec_step (dk, vw, rf) (Op_bread b) out s' \<longleftrightarrow> out = Some (vw b) \<and> s' = (dk, vw, rf(b := rf b + 1))"
| "spec_step (dk, vw, rf) (Op_bwrite b) out s' \<longleftrightarrow> out = None \<and> s' = (dk, vw, rf(b := rf b + 1))"
| "spec_step (dk, vw, rf) (Op_store b xs) out s' \<longleftrightarrow> out = None \<and> s' = (dk, vw(b := xs), rf)"
| "spec_step (dk, vw, rf) (Op_brelse b) out s' \<longleftrightarrow> out = None \<and> s' = (dk, vw, rf(b := rf b - 1))"
| "spec_step (dk, vw, rf) (Op_bforget b) out s' \<longleftrightarrow> out = None \<and> s' = (dk, vw(b := dk b), rf(b := rf b - 1))"
| "spec_step (dk, vw, rf) Op_sync out s' \<longleftrightarrow> out = None \<and>
     (\<exists>dk'. s' = (dk', vw, rf) \<and> (\<forall>b. dk' b = (if rf b = 0 then vw b else dk b)))"

inductive spec_run :: "store_spec \<Rightarrow> cache_op list \<Rightarrow> bytes option list \<Rightarrow> store_spec \<Rightarrow> bool" where
  "spec_run s [] [] s"
| "spec_step s op out s1 \<Longrightarrow> spec_run s1 ops outs s' \<Longrightarrow> spec_run s (op # ops) (out # outs) s'"

definition store_abs :: "block_device \<Rightarrow> store_spec" where
  "store_abs d = (disk d, view d, refs d)"

text \<open>Programs of clients that release and store only what they hold, from the counts \<open>rf\<close> on.\<close>

fun legal_ops :: "nat \<Rightarrow> (u64 \<Rightarrow> int) \<Rightarrow> cache_op list \<Rightarrow> bool" where
  "legal_ops bs rf [] = True"
| "legal_ops bs rf (Op_bread b # ops) = legal_ops bs (rf(b := rf b + 1)) ops"
| "legal_ops bs rf (Op_bwrite b # ops) = legal_ops bs (rf(b := rf b + 1)) ops"
| "legal_ops bs rf (Op_store b xs # ops) = (0 < rf b \<and> length xs = bs \<and> legal_ops bs rf ops)"
| "legal_ops bs rf (Op_brelse b # ops) = (0 < rf b \<and> legal_ops bs (rf(b := rf b - 1)) ops)"
| "legal_ops bs rf (Op_bforget b # ops) = (0 < rf b \<and> legal_ops bs (rf(b := rf b - 1)) ops)"
| "legal_ops bs rf (Op_sync # ops) = legal_ops bs rf ops"

lemma sync_step:
  assumes inv: "cache_inv d"
  shows "\<exists>d'. try_to_sync_buffers d = Inr d' \<and> cache_inv d' \<and> spec_step (store_abs d) Op_sync None (store_abs d')"
proof -
  obtain d' where d': "try_to_sync_buffers d = Inr d'" "cache_inv d'" "view d' = view d" "refs d' = refs d" "bd_bh_dirty d' = []"
    "\<forall>b. refs d b \<noteq> 0 \<longrightarrow> disk d' b = disk d b"
    using try_to_sync_buffers_ok [OF inv] by blast
  then show ?thesis using clean_disk_view [OF d'(2,5)] by (simp add: store_abs_def)
qed

lemma cache_step_refines:
  assumes inv: "cache_inv d" and step: "cache_step d op out d'"
  shows "cache_inv d' \<and> spec_step (store_abs d) op out (store_abs d')"
  using step
proof cases
  case (step_bread b)
  then show ?thesis using fs_bread_ok [OF inv, of b] by (auto simp: store_abs_def)
next
  case (step_bwrite b)
  then show ?thesis using fs_bwrite_ok [OF inv, of b] by (auto simp: store_abs_def)
next
  case (step_store b xs)
  then show ?thesis using store_dirty_ok [OF inv, of b xs] by (auto simp: store_abs_def dirty_store_def)
next
  case (step_brelse b)
  then show ?thesis using fs_brelse_ok [OF inv, of b] by (auto simp: store_abs_def)
next
  case (step_bforget b)
  then show ?thesis using fs_bforget_ok [OF inv, of b] by (auto simp: store_abs_def)
next
  case step_sync
  then show ?thesis using sync_step [OF inv] by auto
qed

lemma bsize_of_inv: "cache_inv d \<Longrightarrow> length (view d b) = s_blocksize d"
  by (rule bs.vw_length)

lemma cache_step_size: "cache_inv d \<Longrightarrow> cache_step d op out d' \<Longrightarrow> s_blocksize d' = s_blocksize d"
proof -
  assume inv: "cache_inv d" and step: "cache_step d op out d'"
  have r: "cache_inv d'" "spec_step (store_abs d) op out (store_abs d')" using cache_step_refines [OF inv step] by simp_all
  have "\<exists>b. length (view d' b) = s_blocksize d"
    using step
  proof cases
    case (step_store b xs)
    then show ?thesis using store_dirty_ok(2) [OF inv step_store(4,5)] by (auto simp: dirty_store_def)
  next
    case (step_bforget b)
    have "length (disk d b) = s_blocksize d" using inv by (simp add: cache_inv_def healthy_def)
    then show ?thesis using r(2) step_bforget by (intro exI [of _ b]) (simp add: store_abs_def)
  qed (use r(2) bsize_of_inv [OF inv] in \<open>auto simp: store_abs_def\<close>)
  then show ?thesis using bsize_of_inv [OF r(1)] by metis
qed

lemma cache_step_enabled:
  assumes inv: "cache_inv d" and legal: "legal_ops (s_blocksize d) (refs d) (op # ops)"
  shows "\<exists>out d'. cache_step d op out d' \<and> legal_ops (s_blocksize d') (refs d') ops"
proof -
  have "\<exists>out d'. cache_step d op out d'"
  proof (cases op)
    case (Op_bread b)
    then show ?thesis using fs_bread_ok [OF inv, of b] by (blast intro: cache_step.intros)
  next
    case (Op_bwrite b)
    then show ?thesis using fs_bwrite_ok [OF inv, of b] by (blast intro: cache_step.intros)
  next
    case (Op_store b xs)
    then show ?thesis using legal step_store [of d b xs] by auto
  next
    case (Op_brelse b)
    then show ?thesis using legal fs_brelse_ok [OF inv, of b] by (auto intro: cache_step.intros)
  next
    case (Op_bforget b)
    then show ?thesis using legal fs_bforget_ok [OF inv, of b] by (auto intro: cache_step.intros)
  next
    case Op_sync
    then show ?thesis using sync_step [OF inv] by (blast intro: cache_step.intros)
  qed
  then obtain out d' where step: "cache_step d op out d'" by blast
  have "legal_ops (s_blocksize d) (refs d') ops"
    using cache_step_refines [OF inv step] legal by (cases op) (auto simp: store_abs_def)
  then have "legal_ops (s_blocksize d') (refs d') ops" using cache_step_size [OF inv step] by simp
  with step show ?thesis by blast
qed

lemma cache_run_exists:
  "cache_inv d \<Longrightarrow> legal_ops (s_blocksize d) (refs d) ops \<Longrightarrow> \<exists>outs d'. cache_run d ops outs d' \<and> cache_inv d'"
proof (induction ops arbitrary: d)
  case Nil
  then show ?case by (blast intro: cache_run.intros)
next
  case (Cons op ops)
  obtain out d1 where step: "cache_step d op out d1" "legal_ops (s_blocksize d1) (refs d1) ops"
    using cache_step_enabled [OF Cons.prems] by blast
  have "cache_inv d1" using cache_step_refines [OF Cons.prems(1) step(1)] by simp
  from Cons.IH [OF this step(2)] show ?case using step(1) by (blast intro: cache_run.intros)
qed

lemma cache_init_inv:
  assumes "\<forall>b. length (dsk b) = 2 ^ bits" "\<forall>b. length (junk b) = 2 ^ bits"
  shows "cache_inv (fs_cache_init bits dsk (\<lambda>_. 0) junk)"
    "view (fs_cache_init bits dsk (\<lambda>_. 0) junk) = dsk"
    "refs (fs_cache_init bits dsk (\<lambda>_. 0) junk) = (\<lambda>_. 0)"
    "disk (fs_cache_init bits dsk (\<lambda>_. 0) junk) = dsk"
    "s_blocksize (fs_cache_init bits dsk (\<lambda>_. 0) junk) = 2 ^ bits"
  using assms
  by (simp_all add: cache_inv_def healthy_def fs_cache_init_def bdev_alloc_def view_def refs_def
      push_bit_eq_mult fun_eq_iff)

section \<open>Properties\<close>

text \<open>C1: Every sequence of calls on the buffer cache refines the specification without a cache: started in a
  state that satisfies the invariant, the run keeps the invariant, its effect on device content, current
  content and reference counts is a run of the specification, and every read returns the bytes that the
  specification has for the block at that point.\<close>

theorem cache_run_refines:
  assumes "cache_inv d" "cache_run d ops outs d'"
  shows "cache_inv d' \<and> spec_run (store_abs d) ops outs (store_abs d')"
  using assms(2,1)
proof induction
  case (run_nil d)
  then show ?case by (simp add: spec_run.intros)
next
  case (run_cons d op out d1 ops outs d')
  then show ?case using cache_step_refines [OF run_cons.prems run_cons.hyps(1)]
    by (blast intro: spec_run.intros)
qed

text \<open>A cache on a device of one-byte blocks, used by the witnesses below.\<close>

definition tiny_cache :: block_device where
  "tiny_cache = fs_cache_init 0 (\<lambda>b. [ucast b]) (\<lambda>_. 0) (\<lambda>_. [0])"

lemma tiny_cache_inv: "cache_inv tiny_cache" "s_blocksize tiny_cache = 1"
  "refs tiny_cache = (\<lambda>_. 0)" "view tiny_cache = (\<lambda>b. [ucast b])"
  using cache_init_inv [of "\<lambda>b. [ucast b]" 0 "\<lambda>_. [0]"] by (simp_all add: tiny_cache_def)

lemma tiny_run:
  obtains d out where "cache_run tiny_cache [Op_bread 5, Op_store 5 [7], Op_brelse 5] [out, None, None] d" "cache_inv d"
    "view d = (view tiny_cache)(5 := [7])" "refs d = (\<lambda>_. 0)" "bd_bh_dirty d \<noteq> []" "s_blocksize d = 1"
proof -
  obtain d1 where d1: "fs_bread 5 tiny_cache = Inr (Some 5, d1)" "cache_inv d1" "view d1 = view tiny_cache"
    "refs d1 = (\<lambda>_. 0)(5 := 1)" "disk d1 = disk tiny_cache"
    using fs_bread_ok [OF tiny_cache_inv(1), of 5] by (auto simp: tiny_cache_inv)
  have s: "s_blocksize d1 = 1" using bs.bsize_vw [OF tiny_cache_inv(1) d1(2,3)] tiny_cache_inv(2) by simp
  let ?d = "dirty_store 5 [7] d1"
  have d: "cache_inv ?d" "view ?d = (view tiny_cache)(5 := [7])" "refs ?d = refs d1" "disk ?d = disk tiny_cache"
    using store_dirty_ok [OF d1(2), of 5 "[7]"] d1 s by (simp_all add: dirty_store_def)
  obtain d2 where d2: "fs_brelse 5 ?d = Inr d2" "cache_inv d2" "view d2 = view ?d" "refs d2 = (\<lambda>_. 0)"
    "disk d2 = disk tiny_cache"
    using fs_brelse_ok [OF d(1), of 5] d d1 by (auto simp: fun_upd_idem)
  have run: "cache_run tiny_cache [Op_bread 5, Op_store 5 [7], Op_brelse 5] [Some (bh_data 5 d1), None, None] d2"
    using d d1 d2 s by (auto intro!: cache_run.intros cache_step.intros)
  have "disk d2 5 \<noteq> view d2 5" using d2 d by (simp add: tiny_cache_def fs_cache_init_def bdev_alloc_def)
  then have "bd_bh_dirty d2 \<noteq> []" using clean_disk_view [OF d2(2), of 5] d2(4) by auto
  moreover have "s_blocksize d2 = 1" using bsize_of_inv [OF d2(2), of 5] d2(3) d(2) by simp
  ultimately show thesis using that [OF run d2(2)] d2(3,4) d(2) by simp
qed

theorem cache_run_refines_witness:
  "\<exists>d. cache_run tiny_cache [Op_bread 5, Op_store 5 [7], Op_brelse 5, Op_sync, Op_bread 5] [Some [5], None, None, None, Some [7]] d"
proof -
  let ?ops = "[Op_bread 5, Op_store 5 [7], Op_brelse 5, Op_sync, Op_bread 5]"
  obtain outs d where run: "cache_run tiny_cache ?ops outs d"
    using cache_run_exists [OF tiny_cache_inv(1), of ?ops] tiny_cache_inv by auto
  then have "spec_run (store_abs tiny_cache) ?ops outs (store_abs d)"
    using cache_run_refines [OF tiny_cache_inv(1)] by blast
  then have "outs = [Some [5], None, None, None, Some [7]]"
    by (auto simp: store_abs_def tiny_cache_inv elim!: spec_run.cases [of _ "_ # _"] spec_run.cases [of _ "[]"])
  with run show ?thesis by blast
qed

text \<open>C2: No call on the cache fails or blocks for ever while the invariant holds: every program of clients and
  of the writeback thread that releases and stores only blocks it holds runs to its end, no assertion
  fails, every wait for a lock or a semaphore is ended by a completion, and afterwards the loop of
  try_to_drop_buffers() ends with at most the threshold of free buffers and without changing a content.\<close>

theorem cache_operations_total:
  assumes "cache_inv d" "legal_ops (s_blocksize d) (refs d) ops"
  shows "\<exists>outs d1 d2. cache_run d ops outs d1 \<and> try_to_drop_buffers d1 = Inr d2 \<and>
    bd_nr_free d2 \<le> buffer_free_threshold \<and> view d2 = view d1"
proof -
  obtain outs d1 where run: "cache_run d ops outs d1" "cache_inv d1" using cache_run_exists [OF assms] by blast
  then show ?thesis using try_to_drop_buffers_ok [OF run(2)] by blast
qed

theorem cache_operations_total_witness:
  "\<exists>outs d1 d2. cache_run tiny_cache [Op_bread 5, Op_bwrite 9, Op_store 9 [1], Op_brelse 5, Op_brelse 9, Op_sync, Op_bread 9, Op_bforget 9]
     outs d1 \<and> try_to_drop_buffers d1 = Inr d2"
  using cache_operations_total [OF tiny_cache_inv(1), of "[Op_bread 5, Op_bwrite 9, Op_store 9 [1], Op_brelse 5, Op_brelse 9, Op_sync, Op_bread 9, Op_bforget 9]"]
  by (auto simp: tiny_cache_inv)

lemma cleanup_run:
  assumes inv: "cache_inv d" and free: "\<forall>b. refs d b = 0"
  shows "\<exists>d'. fs_cache_cleanup keys d = Inr d' \<and> disk d' = view d"
proof -
  let ?d = "bdev_writeback_thread_notify_exit d"
  let ?evs = "replicate (length (writeback_pipe ?d)) Ready"
  have d: "cache_inv ?d" "view ?d = view d" "refs ?d = refs d" "?evs \<noteq> [] \<and> hd ?evs = Ready"
    using inv by (simp_all add: bdev_writeback_thread_notify_exit_def)
  obtain e where e: "buffer_writeback_thread ?evs ?d = Inr e" "cache_inv e" "view e = view d" "refs e = refs d" "bd_bh_dirty e = []"
    using buffer_writeback_thread_ok [OF d(1), of ?evs] d by auto
  have "disk e = view d"
    using clean_disk_view [OF e(2,5)] e free by (auto simp: fun_eq_iff)
  moreover have "b_event bh = 1" if "bd_bh_root e b = Some bh" for b bh
    using cache_invD [OF e(2) that] by (simp add: bh_inv_def)
  then obtain d' where "bdev_free_loop keys e = Inr d'" "disk d' = disk e" using bdev_free_loop_run [of e keys] by blast
  ultimately show ?thesis using e(1) by (simp add: fs_cache_cleanup_def bdev_free_def Let_def)
qed

text \<open>C13: Unmounting loses nothing: when no buffer is held, fs_cache_cleanup() ends and leaves on the device
  exactly the content that the cache presented, whatever the order in which the buffers are freed.\<close>

theorem cache_cleanup_flushes:
  assumes inv: "cache_inv d" and free: "\<forall>b. refs d b = 0"
  shows "\<exists>d'. fs_cache_cleanup keys d = Inr d' \<and> disk d' = view d"
  by (rule cleanup_run [OF assms])

theorem cache_cleanup_flushes_witness:
  "\<exists>d d' outs. cache_run tiny_cache [Op_bread 5, Op_store 5 [7], Op_brelse 5] outs d \<and>
     fs_cache_cleanup [5] d = Inr d' \<and> disk d' 5 = [7]"
proof -
  obtain d out where d: "cache_run tiny_cache [Op_bread 5, Op_store 5 [7], Op_brelse 5] [out, None, None] d" "cache_inv d"
    "view d = (view tiny_cache)(5 := [7])" "refs d = (\<lambda>_. 0)"
    by (rule tiny_run)
  obtain d' where "fs_cache_cleanup [5] d = Inr d'" "disk d' = view d"
    using cache_cleanup_flushes [OF d(2), of "[5]"] d(4) by auto
  then show ?thesis using d(1,3) by auto
qed

lemma race_effect:
  assumes inv: "cache_inv d" and x: "bd_bh_dirty d = x # xs"
  shows "\<exists>d'. res_bind (sync_dirty_buffer x (snd (remove_first_buffer_from_writeback d))) (fs_bread x) = Inr (Some x, d') \<and>
    x \<in> set (bd_bh_free d') \<and> refs d' x = 1"
proof -
  obtain bh where bh: "bd_bh_root d x = Some bh" using inv x by (auto simp: cache_inv_def)
  have i: "b_count bh = 0" "buffer_flag BH_Dirty bh" "buffer_flag BH_Uptodate bh" "\<not> b_locked bh" "x \<notin> set (bd_bh_free d)" "x \<notin> set xs"
    "io_error d x = 0" "b_event bh = 1" "aio d = Map.empty"
    using cache_invD [OF inv bh] inv x by (auto simp: bh_inv_def cache_inv_def healthy_def)
  show ?thesis using bh i x
    by (simp add: remove_first_buffer_from_writeback_def sync_dirty_buffer_def Let_def upd_bh_def bh_ops wait_ops
        fs_bread_def sb_getblk_def getblk_def buffer_search_def detach_bh_from_freelist_def remove_buffer_from_writeback_def
        bh_submit_read_def after_buffer_sync_def attach_bh_to_freelist_def refs_def)
qed

text \<open>C14: A read that overlaps a writeback leaves a held buffer on the free list: when the writeback
  thread has taken block \<open>x\<close> off the dirty list and submitted its write, fs_bread() of \<open>x\<close> waits for
  the buffer lock, and the completion handler after_buffer_sync() puts the buffer, which the reader
  already holds, on the list from which try_to_drop_buffers() frees buffers.\<close>

theorem read_during_writeback_on_freelist:
  assumes "cache_inv d" "bd_bh_dirty d = x # xs"
  shows "\<exists>d'. res_bind (sync_dirty_buffer x (snd (remove_first_buffer_from_writeback d))) (fs_bread x) = Inr (Some x, d') \<and>
    x \<in> set (bd_bh_free d') \<and> 0 < refs d' x \<and> \<not> cache_inv d'"
proof -
  obtain d' where d': "res_bind (sync_dirty_buffer x (snd (remove_first_buffer_from_writeback d))) (fs_bread x) = Inr (Some x, d')"
    "x \<in> set (bd_bh_free d')" "refs d' x = 1"
    using race_effect [OF assms] by blast
  then have "\<not> cache_inv d'"
    using refs_pos_present [of d' x] cache_invD [of d' x] by (force simp: bh_inv_def)
  with d' show ?thesis by auto
qed

theorem read_during_writeback_on_freelist_witness:
  "\<exists>d x outs. cache_run tiny_cache [Op_bread 5, Op_store 5 [7], Op_brelse 5] outs d \<and>
     (\<exists>d'. res_bind (sync_dirty_buffer x (snd (remove_first_buffer_from_writeback d))) (fs_bread x) = Inr (Some x, d') \<and>
        x \<in> set (bd_bh_free d') \<and> 0 < refs d' x)"
proof -
  obtain d x xs outs where d: "cache_run tiny_cache [Op_bread 5, Op_store 5 [7], Op_brelse 5] outs d" "cache_inv d"
    "bd_bh_dirty d = x # xs" using tiny_run by (metis neq_Nil_conv)
  then show ?thesis using read_during_writeback_on_freelist [OF d(2,3)] by blast
qed

end
