(* ===== verification/E4F_Super.thy ===== *)
theory E4F_Super
  imports E4F_Types E4F_Crc E4F_Bitmap E4F_Cache
begin

text \<open>
  The superblock and the group descriptors in memory: src/super.c up to descriptor_loc(). The
  global variables super_block, super_block_dirty and gdesc_table are the record \<open>super_state\<close>.
  Integers keep the width C computes in; a shift or a division by an amount the C standard leaves
  undefined gives what HOL gives. Access to a group descriptor outside gdesc_table is a fault at the
  operations that choose the group.
\<close>

section \<open>Definitions\<close>

record group_desc_info =
  gdesc :: ext4_group_desc
  dirty :: bool

record super_state =
  super_block :: ext4_super_block
  super_block_dirty :: bool
  gdesc_table :: "group_desc_info list"

abbreviation (input) EXT4_BG_BLOCK_UNINIT :: u16 where "EXT4_BG_BLOCK_UNINIT \<equiv> 0x0002"
abbreviation (input) EXT4_MIN_BLOCK_SIZE :: u32 where "EXT4_MIN_BLOCK_SIZE \<equiv> 1024"
abbreviation (input) EXT4_MIN_DESC_SIZE :: u32 where "EXT4_MIN_DESC_SIZE \<equiv> 32"
abbreviation (input) EXT4_MIN_DESC_SIZE_64BIT :: u32 where "EXT4_MIN_DESC_SIZE_64BIT \<equiv> 64"
abbreviation (input) EXT4_FEATURE_RO_COMPAT_SPARSE_SUPER :: u32 where "EXT4_FEATURE_RO_COMPAT_SPARSE_SUPER \<equiv> 0x0001"
abbreviation (input) EXT4_FEATURE_RO_COMPAT_HUGE_FILE :: u32 where "EXT4_FEATURE_RO_COMPAT_HUGE_FILE \<equiv> 0x0008"
abbreviation (input) EXT4_FEATURE_RO_COMPAT_GDT_CSUM :: u32 where "EXT4_FEATURE_RO_COMPAT_GDT_CSUM \<equiv> 0x0010"
abbreviation (input) EXT4_FEATURE_INCOMPAT_META_BG :: u32 where "EXT4_FEATURE_INCOMPAT_META_BG \<equiv> 0x0010"
abbreviation (input) EXT4_FEATURE_INCOMPAT_64BIT :: u32 where "EXT4_FEATURE_INCOMPAT_64BIT \<equiv> 0x0080"
abbreviation (input) EXT4_FEATURE_INCOMPAT_FLEX_BG :: u32 where "EXT4_FEATURE_INCOMPAT_FLEX_BG \<equiv> 0x0200"
abbreviation (input) EXT4_HUGE_FILE_FL :: u32 where "EXT4_HUGE_FILE_FL \<equiv> 0x00040000"

definition EXT4_HAS_RO_COMPAT_FEATURE :: "super_state \<Rightarrow> u32 \<Rightarrow> bool" where
  "EXT4_HAS_RO_COMPAT_FEATURE s msk \<longleftrightarrow> s_feature_ro_compat (super_block s) AND msk \<noteq> 0"

definition EXT4_HAS_INCOMPAT_FEATURE :: "super_state \<Rightarrow> u32 \<Rightarrow> bool" where
  "EXT4_HAS_INCOMPAT_FEATURE s msk \<longleftrightarrow> s_feature_incompat (super_block s) AND msk \<noteq> 0"

subsection \<open>Counters and geometry of the file system\<close>

definition ext4_blocks_count :: "super_state \<Rightarrow> u64" where
  "ext4_blocks_count s =
     push_bit 32 (ucast (s_blocks_count_hi (super_block s))) OR ucast (s_blocks_count_lo (super_block s))"

definition ext4_r_blocks_count :: "super_state \<Rightarrow> u64" where
  "ext4_r_blocks_count s =
     push_bit 32 (ucast (s_r_blocks_count_hi (super_block s))) OR ucast (s_r_blocks_count_lo (super_block s))"

definition ext4_free_blocks_count :: "super_state \<Rightarrow> u64" where
  "ext4_free_blocks_count s =
     push_bit 32 (ucast (s_free_blocks_count_hi (super_block s))) OR
     ucast (s_free_blocks_count_lo (super_block s))"

definition ext4_blocks_count_set :: "u64 \<Rightarrow> super_state \<Rightarrow> super_state" where
  "ext4_blocks_count_set blk s =
     s\<lparr>super_block := (super_block s)\<lparr>s_blocks_count_lo := ucast blk,
         s_blocks_count_hi := ucast (drop_bit 32 blk)\<rparr>,
       super_block_dirty := True\<rparr>"

definition ext4_free_blocks_count_set :: "u64 \<Rightarrow> super_state \<Rightarrow> super_state" where
  "ext4_free_blocks_count_set blk s =
     s\<lparr>super_block := (super_block s)\<lparr>s_free_blocks_count_lo := ucast blk,
         s_free_blocks_count_hi := ucast (drop_bit 32 blk)\<rparr>,
       super_block_dirty := True\<rparr>"

definition ext4_r_blocks_count_set :: "u64 \<Rightarrow> super_state \<Rightarrow> super_state" where
  "ext4_r_blocks_count_set blk s =
     s\<lparr>super_block := (super_block s)\<lparr>s_r_blocks_count_lo := ucast blk,
         s_r_blocks_count_hi := ucast (drop_bit 32 blk)\<rparr>,
       super_block_dirty := True\<rparr>"

definition super_blocks_per_group :: "super_state \<Rightarrow> u64" where
  "super_blocks_per_group s = ucast (s_blocks_per_group (super_block s))"

definition super_first_data_block :: "super_state \<Rightarrow> u64" where
  "super_first_data_block s = ucast (s_first_data_block (super_block s))"

definition ext4_group_first_block_no :: "u32 \<Rightarrow> super_state \<Rightarrow> u64" where
  "ext4_group_first_block_no group_no s =
     ucast group_no * super_blocks_per_group s + ucast (s_first_data_block (super_block s))"

definition super_block_size :: "super_state \<Rightarrow> u32" where
  "super_block_size s = ucast (push_bit (unat (s_log_block_size (super_block s) + 10)) (1 :: u64))"

definition super_block_size_bits :: "super_state \<Rightarrow> nat" where
  "super_block_size_bits s = unat (s_log_block_size (super_block s) + 10)"

definition BLOCKS2BYTES :: "u64 \<Rightarrow> super_state \<Rightarrow> u64" where
  "BLOCKS2BYTES blks s = blks * ucast (super_block_size s)"

definition BYTES2BLOCKS :: "u64 \<Rightarrow> super_state \<Rightarrow> u64" where
  "BYTES2BLOCKS bs s =
     bs div ucast (super_block_size s) + (if bs mod ucast (super_block_size s) \<noteq> 0 then 1 else 0)"

definition super_block_group_size :: "super_state \<Rightarrow> u64" where
  "super_block_group_size s = BLOCKS2BYTES (ucast (s_blocks_per_group (super_block s))) s"

definition super_n_block_groups :: "super_state \<Rightarrow> u32" where
  "super_n_block_groups s =
     ucast ((ext4_blocks_count s + super_blocks_per_group s - 1) div super_blocks_per_group s)"

definition super_group_desc_size :: "super_state \<Rightarrow> u32" where
  "super_group_desc_size s = (if s_desc_size (super_block s) = 0 then EXT4_MIN_DESC_SIZE else 64)"

definition EXT4_DESC_PER_BLOCK :: "super_state \<Rightarrow> u32" where
  "EXT4_DESC_PER_BLOCK s = super_block_size s div super_group_desc_size s"

definition super_inodes_per_group :: "super_state \<Rightarrow> u32" where
  "super_inodes_per_group s = s_inodes_per_group (super_block s)"

definition super_inode_size :: "super_state \<Rightarrow> u32" where
  "super_inode_size s = ucast (s_inode_size (super_block s))"

definition super_inodes_per_block :: "super_state \<Rightarrow> u32" where
  "super_inodes_per_block s = super_block_size s div super_inode_size s"

definition super_itb_per_group :: "super_state \<Rightarrow> u32" where
  "super_itb_per_group s = super_inodes_per_group s div super_inodes_per_block s"

definition super_n_gdb :: "super_state \<Rightarrow> u32" where
  "super_n_gdb s = (super_n_block_groups s + EXT4_DESC_PER_BLOCK s - 1) div EXT4_DESC_PER_BLOCK s"

subsection \<open>Group descriptors\<close>

definition bg :: "u32 \<Rightarrow> super_state \<Rightarrow> ext4_group_desc" where
  "bg block_group s = gdesc (gdesc_table s ! unat block_group)"

definition bg_upd :: "u32 \<Rightarrow> (ext4_group_desc \<Rightarrow> ext4_group_desc) \<Rightarrow> super_state \<Rightarrow> super_state" where
  "bg_upd block_group f s =
     s\<lparr>gdesc_table := (gdesc_table s)[unat block_group :=
        (gdesc_table s ! unat block_group)\<lparr>gdesc := f (bg block_group s), dirty := True\<rparr>]\<rparr>"

definition has_hi :: "super_state \<Rightarrow> bool" where
  "has_hi s \<longleftrightarrow> super_group_desc_size s \<ge> EXT4_MIN_DESC_SIZE_64BIT"

definition ext4_block_bitmap :: "u32 \<Rightarrow> super_state \<Rightarrow> u64" where
  "ext4_block_bitmap g s = ucast (bg_block_bitmap_lo (bg g s)) OR
     (if has_hi s then push_bit 32 (ucast (bg_block_bitmap_hi (bg g s))) else 0)"

definition ext4_inode_bitmap :: "u32 \<Rightarrow> super_state \<Rightarrow> u64" where
  "ext4_inode_bitmap g s = ucast (bg_inode_bitmap_lo (bg g s)) OR
     (if has_hi s then push_bit 32 (ucast (bg_inode_bitmap_hi (bg g s))) else 0)"

definition ext4_inode_table :: "u32 \<Rightarrow> super_state \<Rightarrow> u64" where
  "ext4_inode_table g s = ucast (bg_inode_table_lo (bg g s)) OR
     (if has_hi s then push_bit 32 (ucast (bg_inode_table_hi (bg g s))) else 0)"

definition ext4_free_blks_count :: "u32 \<Rightarrow> super_state \<Rightarrow> u32" where
  "ext4_free_blks_count g s = ucast (bg_free_blocks_count_lo (bg g s)) OR
     (if has_hi s then push_bit 16 (ucast (bg_free_blocks_count_hi (bg g s))) else 0)"

definition ext4_free_inodes_count :: "u32 \<Rightarrow> super_state \<Rightarrow> u32" where
  "ext4_free_inodes_count g s = ucast (bg_free_inodes_count_lo (bg g s)) OR
     (if has_hi s then push_bit 16 (ucast (bg_free_inodes_count_hi (bg g s))) else 0)"

definition ext4_used_dirs_count :: "u32 \<Rightarrow> super_state \<Rightarrow> u32" where
  "ext4_used_dirs_count g s = ucast (bg_used_dirs_count_lo (bg g s)) OR
     (if has_hi s then push_bit 16 (ucast (bg_used_dirs_count_hi (bg g s))) else 0)"

definition ext4_itable_unused_count :: "u32 \<Rightarrow> super_state \<Rightarrow> u32" where
  "ext4_itable_unused_count g s = ucast (bg_itable_unused_lo (bg g s)) OR
     (if has_hi s then push_bit 16 (ucast (bg_itable_unused_hi (bg g s))) else 0)"

definition ext4_block_bitmap_set :: "u32 \<Rightarrow> u64 \<Rightarrow> super_state \<Rightarrow> super_state" where
  "ext4_block_bitmap_set g blk s = bg_upd g (\<lambda>b.
     let b = b\<lparr>bg_block_bitmap_lo := ucast blk\<rparr>
     in if has_hi s then b\<lparr>bg_block_bitmap_hi := ucast (drop_bit 32 blk)\<rparr> else b) s"

definition ext4_inode_bitmap_set :: "u32 \<Rightarrow> u64 \<Rightarrow> super_state \<Rightarrow> super_state" where
  "ext4_inode_bitmap_set g blk s = bg_upd g (\<lambda>b.
     let b = b\<lparr>bg_inode_bitmap_lo := ucast blk\<rparr>
     in if has_hi s then b\<lparr>bg_inode_bitmap_hi := ucast (drop_bit 32 blk)\<rparr> else b) s"

definition ext4_inode_table_set :: "u32 \<Rightarrow> u64 \<Rightarrow> super_state \<Rightarrow> super_state" where
  "ext4_inode_table_set g blk s = bg_upd g (\<lambda>b.
     let b = b\<lparr>bg_inode_table_lo := ucast blk\<rparr>
     in if has_hi s then b\<lparr>bg_inode_table_hi := ucast (drop_bit 32 blk)\<rparr> else b) s"

definition ext4_free_blks_set :: "u32 \<Rightarrow> u32 \<Rightarrow> super_state \<Rightarrow> super_state" where
  "ext4_free_blks_set g cnt s = bg_upd g (\<lambda>b.
     let b = b\<lparr>bg_free_blocks_count_lo := ucast cnt\<rparr>
     in if has_hi s then b\<lparr>bg_free_blocks_count_hi := ucast (drop_bit 16 cnt)\<rparr> else b) s"

definition ext4_free_inodes_set :: "u32 \<Rightarrow> u32 \<Rightarrow> super_state \<Rightarrow> super_state" where
  "ext4_free_inodes_set g cnt s = bg_upd g (\<lambda>b.
     let b = b\<lparr>bg_free_inodes_count_lo := ucast cnt\<rparr>
     in if has_hi s then b\<lparr>bg_free_inodes_count_hi := ucast (drop_bit 16 cnt)\<rparr> else b) s"

definition ext4_used_dirs_set :: "u32 \<Rightarrow> u32 \<Rightarrow> super_state \<Rightarrow> super_state" where
  "ext4_used_dirs_set g cnt s = bg_upd g (\<lambda>b.
     let b = b\<lparr>bg_used_dirs_count_lo := ucast cnt\<rparr>
     in if has_hi s then b\<lparr>bg_used_dirs_count_hi := ucast (drop_bit 16 cnt)\<rparr> else b) s"

definition ext4_itable_unused_set :: "u32 \<Rightarrow> u32 \<Rightarrow> super_state \<Rightarrow> super_state" where
  "ext4_itable_unused_set g cnt s = bg_upd g (\<lambda>b.
     let b = b\<lparr>bg_itable_unused_lo := ucast cnt\<rparr>
     in if has_hi s then b\<lparr>bg_itable_unused_hi := ucast (drop_bit 16 cnt)\<rparr> else b) s"

text \<open>
  ext4_get_group_no_and_offset stores through two pointers; the result is the pair
  (what *blockgrpp gets, what *offsetp gets).
\<close>

definition ext4_get_group_no_and_offset :: "u64 \<Rightarrow> super_state \<Rightarrow> u32 \<times> u64" where
  "ext4_get_group_no_and_offset blocknr s =
     (let blocknr = blocknr - ucast (s_first_data_block (super_block s));
          offset = blocknr div super_blocks_per_group s
      in (ucast blocknr, offset))"

definition ext4_block_in_group :: "u64 \<Rightarrow> u32 \<Rightarrow> super_state \<Rightarrow> bool" where
  "ext4_block_in_group block block_group s \<longleftrightarrow>
     fst (ext4_get_group_no_and_offset block s) = block_group"

text \<open>The loop of test_root multiplies in 32 bits and may miss its bound forever.\<close>

partial_function (option) test_root_loop :: "u32 \<Rightarrow> u32 \<Rightarrow> u32 \<Rightarrow> u32 option" where
  "test_root_loop a b num = (if a > num then test_root_loop a b (num * b) else Some num)"

definition test_root :: "u32 \<Rightarrow> u32 \<Rightarrow> bool res" where
  "test_root a b = (case test_root_loop a b b of None \<Rightarrow> Inl Diverge | Some num \<Rightarrow> Inr (num = a))"

definition ext4_group_sparse :: "u32 \<Rightarrow> bool res" where
  "ext4_group_sparse grp =
     (if grp \<le> 1 then Inr True
      else if grp AND 1 = 0 then Inr False
      else res_bind (test_root grp 7) (\<lambda>r7.
        if r7 then Inr True
        else res_bind (test_root grp 5) (\<lambda>r5.
          if r5 then Inr True else test_root grp 3)))"

definition ext4_bg_has_super :: "u32 \<Rightarrow> super_state \<Rightarrow> u32 res" where
  "ext4_bg_has_super grp s =
     (if EXT4_HAS_RO_COMPAT_FEATURE s EXT4_FEATURE_RO_COMPAT_SPARSE_SUPER
      then res_bind (ext4_group_sparse grp) (\<lambda>sparse. Inr (if \<not> sparse then 0 else 1))
      else Inr 1)"

definition ext4_bg_num_gdb_meta :: "u32 \<Rightarrow> super_state \<Rightarrow> u64" where
  "ext4_bg_num_gdb_meta grp s =
     (let metagroup = grp div EXT4_DESC_PER_BLOCK s;
          first = metagroup * EXT4_DESC_PER_BLOCK s;
          last = first + EXT4_DESC_PER_BLOCK s - 1
      in if grp = first \<or> grp = first + 1 \<or> grp = last then 1 else 0)"

definition ext4_bg_num_gdb_nometa :: "u32 \<Rightarrow> super_state \<Rightarrow> u64 res" where
  "ext4_bg_num_gdb_nometa grp s =
     res_bind (ext4_bg_has_super grp s) (\<lambda>h. Inr (if h \<noteq> 0 then ucast (super_n_gdb s) else 0))"

definition ext4_bg_num_gdb :: "u32 \<Rightarrow> super_state \<Rightarrow> u64 res" where
  "ext4_bg_num_gdb grp s =
     (let first_meta_bg = s_first_meta_bg (super_block s);
          metagroup = grp div EXT4_DESC_PER_BLOCK s
      in if \<not> EXT4_HAS_INCOMPAT_FEATURE s EXT4_FEATURE_INCOMPAT_META_BG \<or> metagroup < first_meta_bg
         then ext4_bg_num_gdb_nometa grp s
         else Inr (ext4_bg_num_gdb_meta grp s))"

text \<open>
  The loops over the blocks of an inode table, from \<open>tmp\<close> up to \<open>fin\<close>. The int used_blocks is
  subtracted from an unsigned int, so it is kept modulo 2 ^ 32.
\<close>

lemma unat_Suc_less: "(w :: 'a::len word) < v \<Longrightarrow> unat (w + 1) = Suc (unat w)"
proof -
  assume "w < v"
  then have "Suc (unat w) \<le> unat v" by (simp add: word_less_nat_alt)
  also have "unat v < 2 ^ LENGTH('a)" by simp
  finally show ?thesis by (simp add: unat_word_ariths)
qed

lemma word_Suc_measure: "tmp < fin \<Longrightarrow> unat fin - unat (tmp + 1) < unat fin - unat (tmp :: u64)"
  by (simp add: unat_Suc_less word_less_nat_alt)

function used_itable_loop :: "u64 \<Rightarrow> u64 \<Rightarrow> u32 \<Rightarrow> super_state \<Rightarrow> u32 \<Rightarrow> u32" where
  "used_itable_loop tmp fin block_group s used_blocks =
     (if tmp < fin
      then used_itable_loop (tmp + 1) fin block_group s
             (if \<not> ext4_block_in_group tmp block_group s then used_blocks - 1 else used_blocks)
      else used_blocks)"
  by pat_completeness auto
termination
  by (relation "measure (\<lambda>(tmp, fin, g, s, u). unat fin - unat tmp)") (auto simp: word_Suc_measure)

definition ext4_group_used_meta_blocks :: "u32 \<Rightarrow> super_state \<Rightarrow> u32" where
  "ext4_group_used_meta_blocks block_group s =
     (let used_blocks = super_itb_per_group s + 2
      in if EXT4_HAS_INCOMPAT_FEATURE s EXT4_FEATURE_INCOMPAT_FLEX_BG then
           (let used_blocks = (if \<not> ext4_block_in_group (ext4_block_bitmap block_group s) block_group s
                               then used_blocks - 1 else used_blocks);
                used_blocks = (if \<not> ext4_block_in_group (ext4_inode_bitmap block_group s) block_group s
                               then used_blocks - 1 else used_blocks);
                tmp = ext4_inode_table block_group s
            in used_itable_loop tmp (tmp + ucast (super_itb_per_group s)) block_group s used_blocks)
         else used_blocks)"

text \<open>
  ext4_set_bit() on the data of a buffer with the int that its argument converts to. A bit outside
  the buffer is an access outside the object.
\<close>

definition buf_set_bit :: "u64 \<Rightarrow> bytes \<Rightarrow> bytes res" where
  "buf_set_bit nr m =
     (let i = sint (ucast nr :: u32)
      in if 0 \<le> i \<and> nat i < 8 * length m then Inr (c_set_bit (nat i) m 0) else Inl Undefined)"

fun buf_set_bits :: "nat list \<Rightarrow> bytes \<Rightarrow> bytes res" where
  "buf_set_bits [] m = Inr m"
| "buf_set_bits (i # is) m =
     (if i < 8 * length m then buf_set_bits is (c_set_bit i m 0) else Inl Undefined)"

definition mark_bitmap_end :: "nat \<Rightarrow> nat \<Rightarrow> bytes \<Rightarrow> bytes res" where
  "mark_bitmap_end start_bit end_bit m =
     (if start_bit \<ge> end_bit then Inr m
      else
       (let i = (start_bit + 7) div 8 * 8
        in res_bind (buf_set_bits [start_bit..<i] m) (\<lambda>m.
           if i < end_bit
           then res_bind (c_defined (i div 8 + (end_bit - i) div 8 \<le> length m)) (\<lambda>_.
                  Inr (splice m (i div 8) (replicate ((end_bit - i) div 8) 0xff)))
           else Inr m)))"

definition ext4_is_block_bitmap_inited :: "u32 \<Rightarrow> super_state \<Rightarrow> bool" where
  "ext4_is_block_bitmap_inited block_group s \<longleftrightarrow>
     \<not> (bg_flags (bg block_group s) AND EXT4_BG_BLOCK_UNINIT \<noteq> 0)"

function init_itable_loop :: "u64 \<Rightarrow> u64 \<Rightarrow> u64 \<Rightarrow> bool \<Rightarrow> u32 \<Rightarrow> super_state \<Rightarrow> bytes \<Rightarrow> bytes res" where
  "init_itable_loop tmp fin start flex_bg block_group s m =
     (if tmp < fin
      then res_bind (if \<not> flex_bg \<or> ext4_block_in_group tmp block_group s
                     then buf_set_bit (tmp - start) m else Inr m)
             (\<lambda>m. init_itable_loop (tmp + 1) fin start flex_bg block_group s m)
      else Inr m)"
  by pat_completeness auto
termination
  by (relation "measure (\<lambda>(tmp, fin, _). unat fin - unat tmp)") (auto simp: word_Suc_measure)

declare used_itable_loop.simps [simp del] init_itable_loop.simps [simp del]

text \<open>The number of blocks at the start of a group that hold the superblock and descriptors.\<close>

definition init_bit_max :: "u32 \<Rightarrow> super_state \<Rightarrow> u32 res" where
  "init_bit_max block_group s =
     res_bind (ext4_bg_has_super block_group s) (\<lambda>bit_max.
       if \<not> EXT4_HAS_INCOMPAT_FEATURE s EXT4_FEATURE_INCOMPAT_META_BG \<or>
          block_group < s_first_meta_bg (super_block s) * EXT4_DESC_PER_BLOCK s
       then if bit_max \<noteq> 0
            then res_bind (ext4_bg_num_gdb block_group s) (\<lambda>gdb.
                   Inr (bit_max + ucast gdb + ucast (s_reserved_gdt_blocks (super_block s))))
            else Inr bit_max
       else res_bind (ext4_bg_num_gdb block_group s) (\<lambda>gdb. Inr (bit_max + ucast gdb)))"

definition group_blocks :: "u32 \<Rightarrow> super_state \<Rightarrow> u32" where
  "group_blocks block_group s =
     (if block_group = super_n_block_groups s - 1
      then ucast (ext4_blocks_count s - ucast (s_first_data_block (super_block s)) -
                  super_blocks_per_group s * ucast (super_n_block_groups s - 1))
      else ucast (super_blocks_per_group s))"

text \<open>What ext4_init_block_bitmap() does to the data of the buffer, when there is one.\<close>

definition init_bitmap_data :: "u32 \<Rightarrow> u32 \<Rightarrow> super_state \<Rightarrow> bytes \<Rightarrow> bytes res" where
  "init_bitmap_data block_group bit_max s m =
     res_bind (c_defined (unat (super_block_size s) \<le> length m)) (\<lambda>_.
     (let m = splice m 0 (replicate (unat (super_block_size s)) 0);
          start = ext4_group_first_block_no block_group s;
          flex_bg = EXT4_HAS_INCOMPAT_FEATURE s EXT4_FEATURE_INCOMPAT_FLEX_BG;
          mark = (\<lambda>tmp m. if \<not> flex_bg \<or> ext4_block_in_group tmp block_group s
                           then buf_set_bit (tmp - start) m else Inr m);
          table = ext4_inode_table block_group s
      in res_bind (buf_set_bits [0..<nat (sint bit_max)] m) (\<lambda>m.
         res_bind (mark (ext4_block_bitmap block_group s) m) (\<lambda>m.
         res_bind (mark (ext4_inode_bitmap block_group s) m) (\<lambda>m.
         res_bind (init_itable_loop table (table + ucast (super_itb_per_group s)) start flex_bg block_group s m) (\<lambda>m.
         res_bind (c_defined (0 \<le> sint (group_blocks block_group s))) (\<lambda>_.
           mark_bitmap_end (unat (group_blocks block_group s)) (unat (super_block_size s * 8)) m)))))))"

definition ext4_init_block_bitmap ::
  "bytes option \<Rightarrow> u32 \<Rightarrow> super_state \<Rightarrow> (u64 \<times> bytes option \<times> super_state) res" where
  "ext4_init_block_bitmap bh block_group s =
     res_bind (init_bit_max block_group s) (\<lambda>bit_max.
     (let free_blocks = group_blocks block_group s - bit_max
      in res_bind (case bh of None \<Rightarrow> Inr None
                   | Some m \<Rightarrow> res_bind (init_bitmap_data block_group bit_max s m) (\<lambda>m. Inr (Some m))) (\<lambda>bh.
         (let s = bg_upd block_group (\<lambda>b. b\<lparr>bg_flags := bg_flags b AND NOT EXT4_BG_BLOCK_UNINIT\<rparr>) s
          in Inr (ucast (free_blocks - ext4_group_used_meta_blocks block_group s), bh, s)))))"

text \<open>The file system: superblock and descriptors in memory, and the buffer cache.\<close>

record fs =
  sup :: super_state
  bdev :: block_device

definition ext4_try_to_init_block_bitmap :: "u32 \<Rightarrow> fs \<Rightarrow> (int \<times> fs) res" where
  "ext4_try_to_init_block_bitmap block_group fs =
     res_bind (c_defined (unat block_group < length (gdesc_table (sup fs)))) (\<lambda>_.
     if bg_flags (bg block_group (sup fs)) AND EXT4_BG_BLOCK_UNINIT \<noteq> 0
     then (case fs_bwrite (ext4_block_bitmap block_group (sup fs)) (bdev fs) of
             (None, d) \<Rightarrow> Inr (0, fs\<lparr>bdev := d\<rparr>)
           | (Some bh, d) \<Rightarrow>
               res_bind (ext4_init_block_bitmap (Some (bh_data bh d)) block_group (sup fs)) (\<lambda>(_, m, s).
               res_bind (fs_brelse bh (dirty_store bh (the m) d)) (\<lambda>d.
               Inr (0, fs\<lparr>sup := s, bdev := d\<rparr>))))
     else Inr (0, fs))"

subsection \<open>Block counts of inodes, checksums, location of descriptors\<close>

definition ext4_inode_blocks :: "ext4_inode \<Rightarrow> super_state \<Rightarrow> u64" where
  "ext4_inode_blocks inode s =
     (if EXT4_HAS_RO_COMPAT_FEATURE s EXT4_FEATURE_RO_COMPAT_HUGE_FILE then
        (let i_blocks = push_bit 32 (ucast (l_i_blocks_high inode)) OR ucast (i_blocks_lo inode)
         in if i_flags inode AND EXT4_HUGE_FILE_FL \<noteq> 0 then i_blocks
            else drop_bit (super_block_size_bits s - 9) i_blocks)
      else ucast (drop_bit (super_block_size_bits s - 9) (i_blocks_lo inode)))"

definition ext4_set_inode_blocks :: "inode \<Rightarrow> u64 \<Rightarrow> super_state \<Rightarrow> inode" where
  "ext4_set_inode_blocks inode blocks s =
     inode_mark_dirty (inode\<lparr>raw_inode :=
      (let raw = raw_inode inode
       in if EXT4_HAS_RO_COMPAT_FEATURE s EXT4_FEATURE_RO_COMPAT_HUGE_FILE then
            (let blocks = (if i_flags raw AND EXT4_HUGE_FILE_FL \<noteq> 0 then blocks
                           else push_bit (super_block_size_bits s - 9) blocks)
             in raw\<lparr>i_blocks_lo := ucast blocks, l_i_blocks_high := ucast (drop_bit 32 blocks)\<rparr>)
          else raw\<lparr>i_blocks_lo := ucast (push_bit (super_block_size_bits s - 9) blocks)\<rparr>)\<rparr>)"

definition ext4_gdesc_checksum :: "u32 \<Rightarrow> super_state \<Rightarrow> u16" where
  "ext4_gdesc_checksum block_group s =
     (if EXT4_HAS_RO_COMPAT_FEATURE s EXT4_FEATURE_RO_COMPAT_GDT_CSUM then
        (let gd = gdesc_bytes (bg block_group s);
             crc = ext4_crc16 (NOT 0) (s_uuid (super_block s));
             crc = ext4_crc16 crc (le 4 block_group);
             crc = ext4_crc16 crc (take 30 gd)
         in if EXT4_HAS_INCOMPAT_FEATURE s EXT4_FEATURE_INCOMPAT_64BIT
            then ext4_crc16 crc (take (64 - 32) (drop 32 gd)) else crc)
      else 0)"

definition super_group_inode_table_offset :: "u32 \<Rightarrow> super_state \<Rightarrow> u64 res" where
  "super_group_inode_table_offset inode_num s =
     res_bind (c_defined (super_inodes_per_group s \<noteq> 0 \<and> super_blocks_per_group s \<noteq> 0)) (\<lambda>_.
     (let n_group = inode_num div super_inodes_per_group s
      in res_bind (c_assert (n_group < super_n_block_groups s)) (\<lambda>_.
         res_bind (c_defined (unat n_group < length (gdesc_table s))) (\<lambda>_.
           Inr (BLOCKS2BYTES (ext4_inode_table n_group s) s)))))"

definition descriptor_loc :: "u64 \<Rightarrow> u32 \<Rightarrow> super_state \<Rightarrow> u64 res" where
  "descriptor_loc logical_sb_block nr s =
     (let first_meta_bg = s_first_meta_bg (super_block s)
      in if \<not> EXT4_HAS_INCOMPAT_FEATURE s EXT4_FEATURE_INCOMPAT_META_BG \<or> nr < first_meta_bg
         then Inr (logical_sb_block + ucast nr + 1)
         else
          (let bg = EXT4_DESC_PER_BLOCK s * nr
           in res_bind (ext4_bg_has_super bg s) (\<lambda>h.
                Inr ((if h \<noteq> 0 then 1 else 0) + ext4_group_first_block_no bg s))))"

section \<open>Fields of the group descriptors\<close>

text \<open>
  The contract of a pair of accessors for one logical field of the group descriptors: what is set is
  read back, cut to the bits that the descriptor size has room for; other groups, the superblock and
  the number of groups stay; the descriptor becomes dirty.
\<close>

lemma super_block_bg_upd [simp]: "super_block (bg_upd g f s) = super_block s"
  "super_block_dirty (bg_upd g f s) = super_block_dirty s"
  "length (gdesc_table (bg_upd g f s)) = length (gdesc_table s)"
  by (simp_all add: bg_upd_def)

lemma has_hi_bg_upd [simp]: "has_hi (bg_upd g f s) = has_hi s"
  by (simp add: has_hi_def super_group_desc_size_def)

lemma bg_bg_upd:
  "unat g < length (gdesc_table s) \<Longrightarrow> bg h (bg_upd g f s) = (if h = g then f (bg g s) else bg h s)"
  by (auto simp: bg_def bg_upd_def nth_list_update word_unat_eq_iff)

lemma dirty_bg_upd:
  "unat g < length (gdesc_table s) \<Longrightarrow> dirty (gdesc_table (bg_upd g f s) ! unat g)"
  by (simp add: bg_upd_def)

locale gdesc_field =
  fixes get :: "u32 \<Rightarrow> super_state \<Rightarrow> 'v"
    and put :: "u32 \<Rightarrow> 'v \<Rightarrow> super_state \<Rightarrow> super_state"
    and cut :: "super_state \<Rightarrow> 'v \<Rightarrow> 'v"
  assumes get_put: "unat g < length (gdesc_table s) \<Longrightarrow> get h (put g v s) = (if h = g then cut s v else get h s)"
    and put_super: "super_block (put g v s) = super_block s"
    and put_length: "length (gdesc_table (put g v s)) = length (gdesc_table s)"
    and put_dirty: "unat g < length (gdesc_table s) \<Longrightarrow> dirty (gdesc_table (put g v s) ! unat g)"
    and cut_cut: "super_block s' = super_block s \<Longrightarrow> cut s' (cut s v) = cut s v"
    and cut_super: "super_block s' = super_block s \<Longrightarrow> cut s' v = cut s v"
begin

text \<open>The last value wins.\<close>

lemma get_put_put:
  assumes "unat g < length (gdesc_table s)"
  shows "get g (put g w (put g v s)) = cut s w"
  using assms by (simp add: get_put put_length cut_super [OF put_super])

text \<open>Writing back a value that was read does not change what any group shows.\<close>

lemma get_put_get:
  assumes "unat g < length (gdesc_table s)" "get g s = cut s v"
  shows "get h (put g (get g s) s) = get h s"
  using assms by (simp add: get_put cut_cut)

end

definition cut64 :: "super_state \<Rightarrow> u64 \<Rightarrow> u64" where
  "cut64 s v = (if has_hi s then v else v AND mask 32)"

definition cut32 :: "super_state \<Rightarrow> u32 \<Rightarrow> u32" where
  "cut32 s v = (if has_hi s then v else v AND mask 16)"

lemma ucast_mask: "ucast (ucast v :: u32) = v AND mask 32" for v :: u64
  by (rule bit_word_eqI) (auto simp: bit_simps)

lemma ucast_mask16: "ucast (ucast v :: u16) = v AND mask 16" for v :: u32
  by (rule bit_word_eqI) (auto simp: bit_simps)

lemma join_masks_64: "v AND mask 32 OR push_bit 32 (drop_bit 32 v) AND push_bit 32 (mask 32) = (v :: u64)"
  by (rule bit_word_eqI) (auto simp: bit_simps)

lemma join_masks_32: "v AND mask 16 OR push_bit 16 (drop_bit 16 v) AND push_bit 16 (mask 16) = (v :: u32)"
  by (rule bit_word_eqI) (auto simp: bit_simps)

lemma has_hi_cong: "super_block s' = super_block s \<Longrightarrow> has_hi s' = has_hi s"
  by (simp add: has_hi_def super_group_desc_size_def)

lemmas gd_simps = Let_def bg_bg_upd dirty_bg_upd cut64_def cut32_def join_masks_64 join_masks_32 ucast_mask
  ucast_mask16 and.assoc

interpretation f_block_bitmap: gdesc_field ext4_block_bitmap ext4_block_bitmap_set cut64
  by unfold_locales (auto simp: ext4_block_bitmap_def ext4_block_bitmap_set_def gd_simps dest: has_hi_cong)

interpretation f_inode_bitmap: gdesc_field ext4_inode_bitmap ext4_inode_bitmap_set cut64
  by unfold_locales (auto simp: ext4_inode_bitmap_def ext4_inode_bitmap_set_def gd_simps dest: has_hi_cong)

interpretation f_inode_table: gdesc_field ext4_inode_table ext4_inode_table_set cut64
  by unfold_locales (auto simp: ext4_inode_table_def ext4_inode_table_set_def gd_simps dest: has_hi_cong)

interpretation f_free_blks: gdesc_field ext4_free_blks_count ext4_free_blks_set cut32
  by unfold_locales (auto simp: ext4_free_blks_count_def ext4_free_blks_set_def gd_simps dest: has_hi_cong)

interpretation f_free_inodes: gdesc_field ext4_free_inodes_count ext4_free_inodes_set cut32
  by unfold_locales (auto simp: ext4_free_inodes_count_def ext4_free_inodes_set_def gd_simps dest: has_hi_cong)

interpretation f_used_dirs: gdesc_field ext4_used_dirs_count ext4_used_dirs_set cut32
  by unfold_locales (auto simp: ext4_used_dirs_count_def ext4_used_dirs_set_def gd_simps dest: has_hi_cong)

interpretation f_itable_unused: gdesc_field ext4_itable_unused_count ext4_itable_unused_set cut32
  by unfold_locales (auto simp: ext4_itable_unused_count_def ext4_itable_unused_set_def gd_simps dest: has_hi_cong)

section \<open>Backup groups\<close>

text \<open>Without overflow the loop of test_root finds the first power of \<open>b\<close> that reaches \<open>a\<close>.\<close>

lemma test_root_loop_powers:
  assumes "unat num = unat b ^ k" "unat a * unat b < 2 ^ 32" "2 \<le> unat b" "\<forall>j. 0 < j \<and> j < k \<longrightarrow> unat b ^ j < unat a" "0 < k"
  shows "\<exists>m. test_root_loop a b num = Some m \<and>
    (\<exists>k'>0. unat m = unat b ^ k' \<and> unat a \<le> unat b ^ k' \<and> (\<forall>j. 0 < j \<and> j < k' \<longrightarrow> unat b ^ j < unat a))"
  using assms
proof (induction "unat a - unat num" arbitrary: num k rule: less_induct)
  case less
  show ?case
  proof (cases "a > num")
    case True
    then have lt: "unat num < unat a" by (simp add: word_less_nat_alt)
    have "unat num * unat b < 2 ^ 32"
      using lt less.prems(2) by (metis le_less_trans less_imp_le mult_le_mono1)
    then have u: "unat (num * b) = unat num * unat b" by (simp add: unat_word_ariths)
    have "unat num < unat num * unat b"
      using less.prems(1,3) by (cases "unat num") (auto simp: word_less_nat_alt)
    then have d: "unat a - unat (num * b) < unat a - unat num" using u lt by linarith
    have p: "unat (num * b) = unat b ^ Suc k" using u less.prems(1) by simp
    have q: "\<forall>j. 0 < j \<and> j < Suc k \<longrightarrow> unat b ^ j < unat a"
      using less.prems(1,4) lt by (auto simp: less_Suc_eq)
    show ?thesis
      using less.hyps [OF d p less.prems(2,3) q] True by (simp add: test_root_loop.simps [of a b num])
  next
    case False
    then have "unat a \<le> unat num" by (simp add: word_less_nat_alt)
    then show ?thesis
      using False less.prems by (auto simp: test_root_loop.simps [of a b num] intro!: exI [of _ k])
  qed
qed

lemma test_root_powers:
  assumes "unat a * unat b < 2 ^ 32" "2 \<le> unat b"
  shows "test_root a b = Inr (\<exists>k>0. unat a = unat b ^ k)"
proof -
  obtain m k where m: "test_root_loop a b b = Some m" "k > 0" "unat m = unat b ^ k" "unat a \<le> unat b ^ k"
    "\<forall>j. 0 < j \<and> j < k \<longrightarrow> unat b ^ j < unat a"
    using test_root_loop_powers [of b b 1 a] assms by auto
  have "m = a \<longleftrightarrow> (\<exists>k>0. unat a = unat b ^ k)"
  proof
    assume "\<exists>k>0. unat a = unat b ^ k"
    then obtain j where j: "j > 0" "unat a = unat b ^ j" by blast
    have "\<not> j < k" using m(5) j by auto
    moreover have "\<not> k < j" using m(4) j assms(2) by (simp add: leD)
    ultimately have "j = k" by simp
    then show "m = a" using j m(3) by (simp add: word_unat_eq_iff)
  qed (use m in auto)
  with m(1) show ?thesis by (simp add: test_root_def)
qed

lemma times_5_mod_4:
  assumes "unat (num :: u32) mod 4 = 1"
  shows "unat (num * 5) mod 4 = 1"
proof -
  have "unat (num * 5) mod 4 = unat num * 5 mod 2 ^ 32 mod 4" by (simp add: unat_word_ariths)
  also have "\<dots> = unat num * 5 mod 4" by (rule mod_mod_cancel) simp
  also have "\<dots> = (unat num mod 4) * 5 mod 4" by (simp only: mod_mult_left_eq)
  finally show ?thesis using assms by simp
qed

lemma test_root_loop_inv:
  assumes "test_root_loop a b num = Some m"
  shows "b = 5 \<longrightarrow> unat num mod 4 = 1 \<longrightarrow> unat m mod 4 = 1 \<and> \<not> a > m"
proof (rule test_root_loop.raw_induct [where P = "\<lambda>a b num m. b = 5 \<longrightarrow> unat num mod 4 = 1 \<longrightarrow>
    unat m mod 4 = 1 \<and> \<not> a > m", OF _ assms])
  fix f :: "u32 \<Rightarrow> u32 \<Rightarrow> u32 \<Rightarrow> u32 option" and a b num m
  assume "\<And>a b num m. f a b num = Some m \<Longrightarrow> b = 5 \<longrightarrow> unat num mod 4 = 1 \<longrightarrow> unat m mod 4 = 1 \<and> \<not> a > m"
    and "(if a > num then f a b (num * b) else Some num) = Some m"
  then show "b = 5 \<longrightarrow> unat num mod 4 = 1 \<longrightarrow> unat m mod 4 = 1 \<and> \<not> a > m"
    using times_5_mod_4 [of num] by (metis option.inject)
qed

section \<open>Properties\<close>

text \<open>The 64-bit counters of the superblock are stored in two halves and read back unchanged; setting
  one leaves the other two alone and marks the superblock dirty.\<close>

theorem super_counters_round_trip:
  "ext4_blocks_count (ext4_blocks_count_set n s) = n \<and>
   ext4_r_blocks_count (ext4_r_blocks_count_set n s) = n \<and>
   ext4_free_blocks_count (ext4_free_blocks_count_set n s) = n \<and>
   ext4_blocks_count (ext4_free_blocks_count_set n s) = ext4_blocks_count s \<and>
   ext4_r_blocks_count (ext4_free_blocks_count_set n s) = ext4_r_blocks_count s \<and>
   ext4_free_blocks_count (ext4_blocks_count_set n s) = ext4_free_blocks_count s \<and>
   super_block_dirty (ext4_free_blocks_count_set n s)"
  by (simp add: ext4_blocks_count_def ext4_blocks_count_set_def ext4_r_blocks_count_def
      ext4_r_blocks_count_set_def ext4_free_blocks_count_def ext4_free_blocks_count_set_def hi_lo_64)

text \<open>The free block counter of a group is read back as it was set when the descriptors have their
  64-byte form, and modulo 2 ^ 16 otherwise; no other group changes, and the descriptor becomes dirty.\<close>

theorem free_blks_set_get:
  assumes "unat g < length (gdesc_table s)"
  shows "ext4_free_blks_count h (ext4_free_blks_set g n s) =
      (if h = g then if has_hi s then n else n AND mask 16 else ext4_free_blks_count h s) \<and>
    dirty (gdesc_table (ext4_free_blks_set g n s) ! unat g)"
  using f_free_blks.get_put [OF assms] f_free_blks.put_dirty [OF assms] by (simp add: cut32_def)

text \<open>
  A file system with one group of 8192 blocks of 1024 bytes and 64 inodes of 128 bytes, used by the
  witnesses: block bitmap in block 3, inode bitmap in block 4, inode table in blocks 5 to 12.
\<close>

definition demo_super :: super_state where
  "demo_super = \<lparr>super_block = (super_of (replicate 1024 0))
       \<lparr>s_blocks_count_lo := 8192, s_first_data_block := 1, s_blocks_per_group := 8192,
        s_inodes_per_group := 64, s_inode_size := 128, s_free_blocks_count_lo := 8000\<rparr>,
     super_block_dirty = False,
     gdesc_table = [\<lparr>gdesc = (gdesc_of (replicate 64 0))
       \<lparr>bg_block_bitmap_lo := 3, bg_inode_bitmap_lo := 4, bg_inode_table_lo := 5,
        bg_free_blocks_count_lo := 8000\<rparr>, dirty = False\<rparr>]\<rparr>"

theorem free_blks_set_get_witness:
  "unat (0 :: u32) < length (gdesc_table demo_super) \<and>
   dirty (gdesc_table (ext4_free_blks_set 0 7 demo_super) ! 0)"
  using free_blks_set_get [of 0 demo_super 0 7] by (simp add: demo_super_def)

text \<open>ext4_group_sparse() says that a group holds a backup superblock exactly for the groups 0 and 1
  and the powers of 3, 5 and 7, for every group number that is at most a seventh of the 32-bit range.\<close>

theorem ext4_group_sparse_powers:
  assumes "unat g * 7 < 2 ^ 32"
  shows "ext4_group_sparse g =
    Inr (unat g \<le> 1 \<or> (\<exists>k>0. unat g = 3 ^ k \<or> unat g = 5 ^ k \<or> unat g = 7 ^ k))"
proof -
  define P where "P b \<longleftrightarrow> (\<exists>k>0. unat g = b ^ k)" for b :: nat
  have t: "test_root g 7 = Inr (P 7)" "test_root g 5 = Inr (P 5)" "test_root g 3 = Inr (P 3)"
    using test_root_powers [of g 7] test_root_powers [of g 5] test_root_powers [of g 3] assms
    by (simp_all add: P_def)
  have one: "g \<le> 1 \<longleftrightarrow> unat g \<le> 1" by (simp add: word_le_nat_alt)
  have even: "g AND 1 = 0 \<longleftrightarrow> even (unat g)"
  proof -
    have "odd (unat g) \<longleftrightarrow> bit (unat g) 0" by (simp only: bit_0)
    also have "\<dots> \<longleftrightarrow> bit g 0" by (simp only: bit_unsigned_iff possible_bit_nat) simp
    also have "\<dots> \<longleftrightarrow> odd g" by (simp only: bit_0)
    finally show ?thesis by (metis and_one_eq even_iff_mod_2_eq_zero)
  qed
  have odd_pow: "\<not> P 3 \<and> \<not> P 5 \<and> \<not> P 7" if "even (unat g)"
    using that by (auto simp: P_def)
  have "ext4_group_sparse g = Inr (unat g \<le> 1 \<or> P 3 \<or> P 5 \<or> P 7)"
    using t one even odd_pow by (auto simp: ext4_group_sparse_def)
  then show ?thesis by (auto simp: P_def)
qed

theorem ext4_group_sparse_powers_witness:
  "unat (49 :: u32) * 7 < 2 ^ 32 \<and> ext4_group_sparse 49 =
    Inr (unat (49 :: u32) \<le> 1 \<or> (\<exists>k>0. unat (49 :: u32) = 3 ^ k \<or> unat (49 :: u32) = 5 ^ k \<or> unat (49 :: u32) = 7 ^ k))"
  using ext4_group_sparse_powers [of 49] by simp

text \<open>C33: For the largest group number the loop of test_root() with base 5 never ends: the products wrap
  around and stay 1 modulo 4, so they never reach 2 ^ 32 - 1.\<close>

theorem test_root_diverges: "test_root 0xffffffff 5 = Inl Diverge"
proof -
  have "test_root_loop 0xffffffff 5 5 = None"
  proof (rule ccontr)
    assume "test_root_loop 0xffffffff 5 5 \<noteq> None"
    then obtain m where m: "test_root_loop 0xffffffff 5 5 = Some m" by blast
    have "unat m mod 4 = 1" "\<not> 0xffffffff > m" using test_root_loop_inv [OF m] by simp_all
    moreover have "unat m < 2 ^ LENGTH(32)" by (rule unsigned_less)
    then have "m \<le> 0xffffffff" by (simp add: word_le_nat_alt del: unsigned_less)
    ultimately show False by (auto simp: not_less dest: antisym)
  qed
  then show ?thesis by (simp add: test_root_def)
qed

text \<open>ext4_block_in_group() compares the group with the block number relative to the first data
  block, not with its group: of the blocks that do belong to group \<open>g\<close> it accepts only the very first
  block of the file system.\<close>

theorem ext4_block_in_group_swapped:
  assumes "unat (block - super_first_data_block s) div unat (super_blocks_per_group s) = unat g"
    and "unat (block - super_first_data_block s) < 2 ^ 32" "1 < unat (super_blocks_per_group s)"
  shows "ext4_block_in_group block g s \<longleftrightarrow> block = super_first_data_block s"
proof -
  let ?r = "block - super_first_data_block s"
  have u: "unat (ucast ?r :: u32) = unat ?r"
    using assms(2) by (simp add: unsigned_ucast_eq take_bit_nat_eq_self)
  have "ext4_block_in_group block g s \<longleftrightarrow> unat ?r = unat g"
    by (simp add: ext4_block_in_group_def ext4_get_group_no_and_offset_def super_first_data_block_def
        Let_def word_unat_eq_iff u [unfolded super_first_data_block_def])
  also have "\<dots> \<longleftrightarrow> unat ?r = 0"
    using assms(1,3) by (metis div_0 div_less_dividend neq0_conv nat_neq_iff)
  also have "\<dots> \<longleftrightarrow> block = super_first_data_block s" by (simp add: unat_eq_0)
  finally show ?thesis .
qed

theorem ext4_block_in_group_swapped_witness:
  "unat ((6 :: u64) - super_first_data_block demo_super) div unat (super_blocks_per_group demo_super) = unat (0 :: u32) \<and>
   \<not> ext4_block_in_group 6 0 demo_super"
  using ext4_block_in_group_swapped [of 6 demo_super 0]
  by (simp add: demo_super_def super_first_data_block_def super_blocks_per_group_def)

lemma ld_zeros: "a + n \<le> m \<Longrightarrow> ld n (replicate m 0) a = 0"
  by (induction n arbitrary: a) auto

lemma bit_less_exp:
  assumes "unat (n :: 'a::len word) < 2 ^ m" "bit n i"
  shows "i < m"
proof -
  have "take_bit m n = n"
    using assms(1) by (simp add: word_unat_eq_iff unsigned_take_bit_eq take_bit_nat_eq_self)
  with assms(2) show ?thesis by (metis bit_take_bit_iff)
qed

text \<open>A count of file system blocks, kept in units of 512 bytes in 48 or 32 bits.\<close>

lemma blocks48:
  assumes "unat (n :: u64) < 2 ^ (48 - k)" "k < 48"
  shows "drop_bit k (push_bit 32 (ucast (ucast (drop_bit 32 (push_bit k n)) :: u16)) OR
    ucast (ucast (push_bit k n) :: u32)) = n"
proof (rule bit_word_eqI)
  fix i assume "i < LENGTH(64)"
  then show "bit (drop_bit k (push_bit 32 (ucast (ucast (drop_bit 32 (push_bit k n)) :: u16)) OR
      ucast (ucast (push_bit k n) :: u32)) :: u64) i = bit n i"
    using bit_less_exp [OF assms(1), of i] assms(2) by (auto simp: bit_simps)
qed

lemma blocks32:
  assumes "unat (n :: u64) < 2 ^ (32 - k)" "k < 32"
  shows "ucast (drop_bit k (ucast (push_bit k n) :: u32)) = n"
proof (rule bit_word_eqI)
  fix i assume "i < LENGTH(64)"
  then show "bit (ucast (drop_bit k (ucast (push_bit k n) :: u32)) :: u64) i = bit n i"
    using bit_less_exp [OF assms(1), of i] assms(2) by (auto simp: bit_simps)
qed

text \<open>The block count of an inode is read back as ext4_set_inode_blocks() stored it, in each of the
  three encodings, as long as the count fits the field of that encoding.\<close>

theorem ext4_inode_blocks_round_trip:
  assumes "9 \<le> super_block_size_bits s" "super_block_size_bits s < 9 + 32"
    and "unat n < 2 ^ ((if EXT4_HAS_RO_COMPAT_FEATURE s EXT4_FEATURE_RO_COMPAT_HUGE_FILE then 48 else 32) -
      (if EXT4_HAS_RO_COMPAT_FEATURE s EXT4_FEATURE_RO_COMPAT_HUGE_FILE \<and>
          i_flags (raw_inode inode) AND EXT4_HUGE_FILE_FL \<noteq> 0 then 0 else super_block_size_bits s - 9))"
  shows "ext4_inode_blocks (raw_inode (ext4_set_inode_blocks inode n s)) s = n \<and>
    i_data_dirty (ext4_set_inode_blocks inode n s)"
  using assms blocks48 [of n 0] blocks48 [of n "super_block_size_bits s - 9"]
    blocks32 [of n "super_block_size_bits s - 9"]
  by (auto simp: ext4_inode_blocks_def ext4_set_inode_blocks_def inode_mark_dirty_def Let_def)

definition demo_inode :: inode where
  "demo_inode = \<lparr>i_data_dirty = False, i_ino = 12, raw_inode = inode_of (replicate 156 0)\<rparr>"

theorem ext4_inode_blocks_round_trip_witness:
  "ext4_inode_blocks (raw_inode (ext4_set_inode_blocks demo_inode 1000 demo_super)) demo_super = 1000"
proof -
  have "super_block_size_bits demo_super = 10" "\<not> EXT4_HAS_RO_COMPAT_FEATURE demo_super 8"
    by (simp_all add: demo_super_def super_block_size_bits_def EXT4_HAS_RO_COMPAT_FEATURE_def super_of_def
        ld_zeros)
  then show ?thesis using ext4_inode_blocks_round_trip [of demo_super 1000 demo_inode] by simp
qed

text \<open>The checksum of a group descriptor does not depend on the checksum field, so that the checksum
  stored by super_group_writeback() is the one a reader of the descriptor computes.\<close>

theorem ext4_gdesc_checksum_self:
  assumes "unat g < length (gdesc_table s)" "gdesc_wf (bg g s)"
  shows "ext4_gdesc_checksum g (bg_upd g (\<lambda>b. b\<lparr>bg_checksum := c\<rparr>) s) = ext4_gdesc_checksum g s"
proof -
  have f: "EXT4_HAS_RO_COMPAT_FEATURE (bg_upd g f s) m = EXT4_HAS_RO_COMPAT_FEATURE s m"
    "EXT4_HAS_INCOMPAT_FEATURE (bg_upd g f s) m = EXT4_HAS_INCOMPAT_FEATURE s m" for f m
    by (simp_all add: EXT4_HAS_RO_COMPAT_FEATURE_def EXT4_HAS_INCOMPAT_FEATURE_def)
  have "take 30 (gdesc_bytes (b\<lparr>bg_checksum := c\<rparr>)) = take 30 (gdesc_bytes b)"
    "drop 32 (gdesc_bytes (b\<lparr>bg_checksum := c\<rparr>)) = drop 32 (gdesc_bytes b)"
    if "length (bg_reserved b) = 2" for b
    using that by (simp_all add: gdesc_bytes_def)
  then show ?thesis
    using assms by (simp add: ext4_gdesc_checksum_def f bg_bg_upd gdesc_wf_def Let_def)
qed

theorem ext4_gdesc_checksum_self_witness:
  "ext4_gdesc_checksum 0 (bg_upd 0 (\<lambda>b. b\<lparr>bg_checksum := 7\<rparr>) demo_super) = ext4_gdesc_checksum 0 demo_super"
  by (rule ext4_gdesc_checksum_self) (simp_all add: demo_super_def bg_def gdesc_wf_def gdesc_of_def)

section \<open>Initialisation of a block bitmap\<close>

text \<open>\<open>marked m S m'\<close>: \<open>m'\<close> is \<open>m\<close> with the bits in \<open>S\<close> set.\<close>

definition marked :: "bytes \<Rightarrow> nat set \<Rightarrow> bytes \<Rightarrow> bool" where
  "marked m S m' \<longleftrightarrow> length m' = length m \<and> (\<forall>i < 8 * length m. mbit m' i \<longleftrightarrow> i \<in> S \<or> mbit m i)"

lemma marked_refl: "marked m {} m"
  by (simp add: marked_def)

lemma marked_trans: "marked m S m' \<Longrightarrow> marked m' T m'' \<Longrightarrow> marked m (S \<union> T) m''"
  by (auto simp: marked_def)

lemma marked_eq: "marked m S m' \<Longrightarrow> S = T \<Longrightarrow> marked m T m'"
  by simp

lemma marked_set_bit:
  assumes "8 dvd length m" "i < 8 * length m"
  shows "marked m {i} (c_set_bit i m 0)"
proof -
  obtain k where k: "length m = 8 * k" using assms(1) by (rule dvdE)
  have "i div 64 < k" using assms(2) k by (simp add: less_mult_imp_div_less)
  then have "long_at 0 i + 8 \<le> length m" by (simp add: long_at_def BIT_WORD_def k)
  then show ?thesis by (simp add: marked_def mbit_set_bit)
qed

lemma buf_set_bits_marked:
  assumes "8 dvd length m" "\<forall>i \<in> set is. i < 8 * length m"
  shows "\<exists>m'. buf_set_bits is m = Inr m' \<and> marked m (set is) m'"
  using assms
proof (induction "is" arbitrary: m)
  case Nil
  then show ?case by (simp add: marked_refl)
next
  case (Cons i "is")
  obtain m' where m': "buf_set_bits is (c_set_bit i m 0) = Inr m'" "marked (c_set_bit i m 0) (set is) m'"
    using Cons.IH [of "c_set_bit i m 0"] Cons.prems by auto
  have "marked m {i} (c_set_bit i m 0)" using Cons.prems by (simp add: marked_set_bit)
  from marked_trans [OF this m'(2)] m'(1) Cons.prems(2) show ?case by simp
qed

lemma sint_small:
  assumes "unat (w :: u32) < 2 ^ 31"
  shows "sint w = int (unat w)"
proof -
  have "sint w = signed_take_bit 31 (int (unat w))" by (simp add: sint_uint)
  also have "\<dots> = int (unat w)"
  proof (rule signed_take_bit_int_eq_self)
    have "int (unat w) < int (2 ^ 31)" using assms by (simp only: of_nat_less_iff)
    then show "int (unat w) < 2 ^ 31" by simp
    show "- (2 ^ 31) \<le> int (unat w)" by (rule order_trans [of _ 0]) simp_all
  qed
  finally show ?thesis .
qed

lemma unat_ucast_up: "unat (ucast (w :: u32) :: u64) = unat w"
proof -
  have "unat w < 2 ^ LENGTH(32)" by (rule unsigned_less)
  then have "unat w < 2 ^ 64" by (rule order_less_trans) simp
  then show ?thesis by (simp add: unsigned_ucast_eq take_bit_nat_eq_self del: unsigned_less)
qed

lemma sint_ucast_small:
  assumes "unat (x :: u64) < 2 ^ 31"
  shows "sint (ucast x :: u32) = int (unat x)"
proof -
  have "unat (ucast x :: u32) = unat x"
    using assms by (simp add: unsigned_ucast_eq take_bit_nat_eq_self)
  then show ?thesis using sint_small [of "ucast x"] assms by metis
qed

lemma buf_set_bit_marked:
  assumes "8 dvd length m" "unat x < 8 * length m" "8 * length m \<le> 2 ^ 31"
  shows "buf_set_bit x m = Inr (c_set_bit (unat x) m 0) \<and> marked m {unat x} (c_set_bit (unat x) m 0)"
  using assms marked_set_bit [OF assms(1,2)] by (simp add: buf_set_bit_def sint_ucast_small)

lemma init_itable_loop_marked:
  assumes "8 dvd length m" "8 * length m \<le> 2 ^ 31" "tmp \<le> fin"
    "unat (tmp - start) + (unat fin - unat tmp) \<le> 8 * length m"
  shows "\<exists>m'. init_itable_loop tmp fin start False g s m = Inr m' \<and>
    marked m {unat (tmp - start) ..< unat (tmp - start) + (unat fin - unat tmp)} m'"
  using assms
proof (induction "unat fin - unat tmp" arbitrary: tmp m)
  case 0
  then have "\<not> tmp < fin" by (simp add: word_less_nat_alt)
  then show ?case by (simp add: init_itable_loop.simps [of tmp] marked_refl 0(1) [symmetric])
next
  case (Suc n)
  then have lt: "tmp < fin" by (simp add: word_less_nat_alt)
  let ?x = "tmp - start" and ?m = "c_set_bit (unat (tmp - start)) m 0"
  have lt': "unat tmp < unat fin" using lt by (simp add: word_less_nat_alt)
  have b: "buf_set_bit ?x m = Inr ?m" "marked m {unat ?x} ?m"
    using buf_set_bit_marked [of m ?x] Suc.prems lt' by auto
  have t: "unat (tmp + 1) = Suc (unat tmp)" by (rule unat_Suc_less [OF lt])
  have x: "unat (tmp + 1 - start) = Suc (unat ?x)"
  proof -
    have e: "tmp + 1 - start = ?x + 1" by simp
    have "unat ?x < 2 ^ 31" using Suc.prems lt' by linarith
    then have "?x < 2 ^ 31" by (simp add: word_less_nat_alt)
    then show ?thesis unfolding e by (rule unat_Suc_less)
  qed
  have le: "tmp + 1 \<le> fin" using t lt' by (simp add: word_le_nat_alt)
  have n: "n = unat fin - unat (tmp + 1)" using Suc.hyps(2) t by simp
  have bd: "unat (tmp + 1 - start) + (unat fin - unat (tmp + 1)) \<le> 8 * length ?m"
    using x t lt' Suc.prems(4) by simp
  obtain m' where m': "init_itable_loop (tmp + 1) fin start False g s ?m = Inr m'"
    "marked ?m {unat (tmp + 1 - start) ..< unat (tmp + 1 - start) + (unat fin - unat (tmp + 1))} m'"
    using Suc.hyps(1) [OF n _ _ le, of ?m] bd Suc.prems(1,2) by auto
  have "{unat ?x} \<union> {unat (tmp + 1 - start) ..< unat (tmp + 1 - start) + (unat fin - unat (tmp + 1))} =
      {unat ?x ..< unat ?x + (unat fin - unat tmp)}"
    using x t lt' by auto
  with marked_trans [OF b(2) m'(2)] m'(1) b(1) lt show ?case
    by (simp add: init_itable_loop.simps [of tmp])
qed

lemma splice_ones_marked:
  assumes "a \<le> length m"
  shows "marked m {8 * a ..< 8 * length m} (splice m a (replicate (length m - a) 0xff))"
proof -
  have ff: "bit (0xff :: u8) j \<longleftrightarrow> j < 8" for j
  proof -
    have "(0xff :: u8) = mask 8" by (simp add: mask_eq_exp_minus_1)
    then show ?thesis by (simp only: bit_mask_iff possible_bit_word) auto
  qed
  define c :: u8 where "c = 0xff"
  have "bit c j \<longleftrightarrow> j < 8" for j unfolding c_def by (rule ff)
  then show ?thesis
    unfolding c_def [symmetric] using assms
    by (auto simp: marked_def mbit_def nth_splice less_mult_imp_div_less div_less_iff_less_mult
        less_eq_div_iff_mult_less_eq mult.commute)
qed

lemma mark_bitmap_end_marked:
  assumes "8 dvd length m" "b \<le> 8 * length m"
  shows "\<exists>m'. mark_bitmap_end b (8 * length m) m = Inr m' \<and> marked m {b ..< 8 * length m} m'"
proof (cases "b = 8 * length m")
  case True
  then show ?thesis by (simp add: mark_bitmap_end_def marked_refl)
next
  case False
  define a where "a = (b + 7) div 8"
  have a: "a \<le> length m" "b \<le> 8 * a" using assms(2) by (simp_all add: a_def)
  obtain m1 where m1: "buf_set_bits [b..<a * 8] m = Inr m1" "marked m {b..<a * 8} m1"
    using buf_set_bits_marked [OF assms(1), of "[b..<a * 8]"] a by auto
  have l: "length m1 = length m" using m1(2) by (simp add: marked_def)
  have "marked m1 {8 * a ..< 8 * length m1} (splice m1 a (replicate (length m1 - a) 0xff))"
    by (rule splice_ones_marked) (use a l in simp)
  note u = marked_trans [OF m1(2) this]
  have S: "{b..<a * 8} \<union> {8 * a..<8 * length m1} = {b ..< 8 * length m}" using a l by auto
  show ?thesis
  proof (cases "a * 8 < 8 * length m")
    case True
    have "(8 * length m - a * 8) div 8 = length m - a" by (simp add: diff_mult_distrib2 [symmetric] mult.commute)
    then show ?thesis
      using False True assms m1 u S a l by (simp add: mark_bitmap_end_def a_def [symmetric])
  next
    case eq: False
    then show ?thesis
      using False assms m1 a by (auto simp: mark_bitmap_end_def a_def [symmetric])
  qed
qed

lemma mbit_zeros: "length m = n \<Longrightarrow> \<not> mbit (splice m 0 (replicate n 0)) i" if "i < 8 * n"
  using that by (simp add: mbit_def nth_splice less_mult_imp_div_less mult.commute)

text \<open>
  The layout of a group: the position of a block in its bitmap, and that the metadata of the group
  lies within the bitmap.
\<close>

definition block_pos :: "u32 \<Rightarrow> super_state \<Rightarrow> u64 \<Rightarrow> nat" where
  "block_pos g s b = unat (b - ext4_group_first_block_no g s)"

definition layout_ok :: "u32 \<Rightarrow> super_state \<Rightarrow> u32 \<Rightarrow> nat \<Rightarrow> bool" where
  "layout_ok g s bit_max n \<longleftrightarrow>
     n = unat (super_block_size s) \<and> 8 dvd n \<and> 8 * n < 2 ^ 31 \<and> nat (sint bit_max) \<le> 8 * n \<and>
     block_pos g s (ext4_block_bitmap g s) < 8 * n \<and> block_pos g s (ext4_inode_bitmap g s) < 8 * n \<and>
     unat (ext4_inode_table g s) + unat (super_itb_per_group s) < 2 ^ 64 \<and>
     block_pos g s (ext4_inode_table g s) + unat (super_itb_per_group s) \<le> 8 * n \<and>
     unat (group_blocks g s) \<le> 8 * n"

definition meta_bits :: "u32 \<Rightarrow> super_state \<Rightarrow> u32 \<Rightarrow> nat \<Rightarrow> nat set" where
  "meta_bits g s bit_max n =
     {0 ..< nat (sint bit_max)} \<union> {block_pos g s (ext4_block_bitmap g s)} \<union>
     {block_pos g s (ext4_inode_bitmap g s)} \<union>
     {block_pos g s (ext4_inode_table g s) ..<
      block_pos g s (ext4_inode_table g s) + unat (super_itb_per_group s)} \<union>
     {unat (group_blocks g s) ..< 8 * n}"

lemma marked_length: "marked m S m' \<Longrightarrow> length m' = length m"
  by (simp add: marked_def)

lemma init_bitmap_data_marked:
  assumes flex: "\<not> EXT4_HAS_INCOMPAT_FEATURE s EXT4_FEATURE_INCOMPAT_FLEX_BG"
    and ok: "layout_ok g s bm (length m)"
  shows "\<exists>m'. init_bitmap_data g bm s m = Inr m' \<and>
    marked (splice m 0 (replicate (length m) 0)) (meta_bits g s bm (length m)) m'"
proof -
  note ok = ok [unfolded layout_ok_def block_pos_def]
  let ?n = "8 * length m" and ?t = "ext4_inode_table g s" and ?st = "ext4_group_first_block_no g s"
  let ?z = "splice m 0 (replicate (length m) 0)" and ?f = "?t + ucast (super_itb_per_group s)"
  have z: "length ?z = length m" by simp
  obtain m1 where m1: "buf_set_bits [0..<nat (sint bm)] ?z = Inr m1" "marked ?z {0..<nat (sint bm)} m1"
    using buf_set_bits_marked [of ?z "[0..<nat (sint bm)]"] ok by auto
  note l1 = marked_length [OF m1(2), unfolded z]
  obtain m2 where m2: "buf_set_bit (ext4_block_bitmap g s - ?st) m1 = Inr m2"
      "marked m1 {unat (ext4_block_bitmap g s - ?st)} m2"
    using buf_set_bit_marked [of m1 "ext4_block_bitmap g s - ?st"] ok l1 by auto
  note l2 = marked_length [OF m2(2), unfolded l1]
  obtain m3 where m3: "buf_set_bit (ext4_inode_bitmap g s - ?st) m2 = Inr m3"
      "marked m2 {unat (ext4_inode_bitmap g s - ?st)} m3"
    using buf_set_bit_marked [of m2 "ext4_inode_bitmap g s - ?st"] ok l2 by auto
  note l3 = marked_length [OF m3(2), unfolded l2]
  have f: "unat ?f = unat ?t + unat (super_itb_per_group s)"
    using ok by (simp add: unat_word_ariths unat_ucast_up)
  obtain m4 where m4: "init_itable_loop ?t ?f ?st False g s m3 = Inr m4"
      "marked m3 {unat (?t - ?st) ..< unat (?t - ?st) + unat (super_itb_per_group s)} m4"
    using init_itable_loop_marked [of m3 ?t ?f ?st g s] ok l3 f by (auto simp: word_le_nat_alt)
  note l4 = marked_length [OF m4(2), unfolded l3]
  obtain m5 where m5: "mark_bitmap_end (unat (group_blocks g s)) ?n m4 = Inr m5"
      "marked m4 {unat (group_blocks g s) ..< ?n} m5"
    using mark_bitmap_end_marked [of m4 "unat (group_blocks g s)"] ok l4 by auto
  have e: "unat (super_block_size s * 8) = ?n" using ok by (simp add: unat_word_ariths)
  have "0 \<le> sint (group_blocks g s)" using sint_small [of "group_blocks g s"] ok by simp
  then have "init_bitmap_data g bm s m = Inr m5"
    using flex m1(1) m2(1) m3(1) m4(1) m5(1) e ok by (simp add: init_bitmap_data_def Let_def)
  with marked_trans [OF marked_trans [OF marked_trans [OF marked_trans [OF m1(2) m2(2)] m3(2)] m4(2)] m5(2)]
  show ?thesis by (simp add: meta_bits_def block_pos_def)
qed

lemma u32_less: "unat (w :: u32) < 2 ^ 32"
proof -
  have "unat w < 2 ^ LENGTH(32)" by (rule unsigned_less)
  then show ?thesis by simp
qed

lemma unat_hi_lo:
  "unat (push_bit 32 (ucast (h :: u32)) OR ucast (l :: u32) :: u64) = unat l + 2 ^ 32 * unat h"
  "unat (ucast (l :: u32) OR push_bit 32 (ucast (h :: u32)) :: u64) = unat l + 2 ^ 32 * unat h"
proof -
  have u: "unat h < 2 ^ 32" "unat l < 2 ^ 32"
    by (rule u32_less)+
  then have b: "unat l + 2 ^ 32 * unat h < 2 ^ 64" by simp
  have p: "(ucast l :: u64) + push_bit 32 (ucast h) = ucast l OR push_bit 32 (ucast h)"
    by (rule disjunctive_add) (auto simp: bit_simps dest: bit_imp_le_length)
  have "unat ((ucast l :: u64) + push_bit 32 (ucast h)) = unat l + 2 ^ 32 * unat h"
    using b u by (simp add: unat_word_ariths unsigned_push_bit_eq unat_ucast_up push_bit_nat_def take_bit_nat_eq_self)
  then show "unat (ucast l OR push_bit 32 (ucast h) :: u64) = unat l + 2 ^ 32 * unat h" by (simp only: p)
  then show "unat (push_bit 32 (ucast h) OR ucast l :: u64) = unat l + 2 ^ 32 * unat h" by (simp only: or.commute)
qed

section \<open>The layout of a block group\<close>

text \<open>
  Where the format puts the metadata of block group \<open>g\<close>, over natural numbers and the fields of the superblock
  and of the descriptor: a group that holds a backup starts with the superblock, the blocks of the descriptor table and the
  blocks that are reserved for its growth; in a meta block group the first, the second and the last group hold
  one block of descriptors instead. The last group may be shorter than the others.
\<close>

definition lay_block :: "super_state \<Rightarrow> nat" where
  "lay_block s = 2 ^ (10 + unat (s_log_block_size (super_block s)))"

definition lay_desc :: "super_state \<Rightarrow> nat" where
  "lay_desc s = (if s_desc_size (super_block s) = 0 then 32 else unat (s_desc_size (super_block s)))"

definition lay_count :: "super_state \<Rightarrow> nat" where
  "lay_count s = unat (s_blocks_count_lo (super_block s)) + 2 ^ 32 * unat (s_blocks_count_hi (super_block s)) -
     unat (s_first_data_block (super_block s))"

definition ceil_div :: "nat \<Rightarrow> nat \<Rightarrow> nat" where
  "ceil_div a b = (a + b - 1) div b"

definition lay_groups :: "super_state \<Rightarrow> nat" where
  "lay_groups s = ceil_div (lay_count s) (unat (s_blocks_per_group (super_block s)))"

definition lay_start :: "nat \<Rightarrow> super_state \<Rightarrow> nat" where
  "lay_start g s = unat (s_first_data_block (super_block s)) + g * unat (s_blocks_per_group (super_block s))"

definition lay_length :: "nat \<Rightarrow> super_state \<Rightarrow> nat" where
  "lay_length g s = min (unat (s_blocks_per_group (super_block s)))
     (lay_count s - g * unat (s_blocks_per_group (super_block s)))"

definition lay_backup :: "nat \<Rightarrow> super_state \<Rightarrow> bool" where
  "lay_backup g s \<longleftrightarrow> s_feature_ro_compat (super_block s) AND 1 = 0 \<or> g \<le> 1 \<or>
     (\<exists>k \<in> {1..g}. g = 3 ^ k \<or> g = 5 ^ k \<or> g = 7 ^ k)"

definition lay_meta_bg :: "super_state \<Rightarrow> bool" where
  "lay_meta_bg s \<longleftrightarrow> s_feature_incompat (super_block s) AND 0x10 \<noteq> 0"

definition lay_head :: "nat \<Rightarrow> super_state \<Rightarrow> nat" where
  "lay_head g s =
     (let per = lay_block s div lay_desc s
      in if lay_meta_bg s
         then (if lay_backup g s then 1 else 0) + (if g mod per \<in> {0, 1, per - 1} then 1 else 0)
         else if lay_backup g s
              then 1 + ceil_div (lay_groups s) per + unat (s_reserved_gdt_blocks (super_block s)) else 0)"

definition lay_number :: "super_state \<Rightarrow> u32 \<Rightarrow> u32 \<Rightarrow> nat" where
  "lay_number s lo hi = unat lo + (if lay_desc s = 64 then 2 ^ 32 * unat hi else 0)"

definition lay_table :: "super_state \<Rightarrow> nat" where
  "lay_table s = ceil_div (unat (s_inodes_per_group (super_block s)) * unat (s_inode_size (super_block s))) (lay_block s)"

definition lay_meta :: "nat \<Rightarrow> super_state \<Rightarrow> nat set" where
  "lay_meta g s =
     (let d = gdesc (gdesc_table s ! g); t = lay_number s (bg_inode_table_lo d) (bg_inode_table_hi d)
      in {lay_start g s ..< lay_start g s + lay_head g s} \<union>
         {lay_number s (bg_block_bitmap_lo d) (bg_block_bitmap_hi d),
          lay_number s (bg_inode_bitmap_lo d) (bg_inode_bitmap_hi d)} \<union>
         {t ..< t + lay_table s})"

text \<open>
  Geometries that the format allows and that the arithmetic of the code is right for: a group number that test_root()
  takes, the table of inodes made of whole blocks, the metadata inside its group and without an overlap, no mix of the two ways to
  store descriptors, and a size for which super_n_block_groups(), which does not subtract the first data block,
  counts the groups there are.
\<close>

definition lay_ok :: "nat \<Rightarrow> super_state \<Rightarrow> bool" where
  "lay_ok g s \<longleftrightarrow>
     unat (s_log_block_size (super_block s)) \<le> 6 \<and> unat (s_desc_size (super_block s)) \<in> {0, 64} \<and>
     lay_count s < 2 ^ 62 \<and> 0 < unat (s_blocks_per_group (super_block s)) \<and>
     unat (s_blocks_per_group (super_block s)) \<le> 8 * lay_block s \<and>
     lay_groups s = ceil_div (lay_count s + unat (s_first_data_block (super_block s))) (unat (s_blocks_per_group (super_block s))) \<and>
     g < lay_groups s \<and> lay_groups s * 7 < 2 ^ 32 \<and> length (gdesc_table s) = lay_groups s \<and>
     (lay_meta_bg s \<longrightarrow> s_first_meta_bg (super_block s) = 0) \<and>
     0 < unat (s_inode_size (super_block s)) \<and> unat (s_inode_size (super_block s)) dvd lay_block s \<and>
     lay_block s div unat (s_inode_size (super_block s)) dvd unat (s_inodes_per_group (super_block s)) \<and>
     0 < unat (s_inodes_per_group (super_block s)) \<and>
     lay_meta g s \<subseteq> {lay_start g s ..< lay_start g s + lay_length g s} \<and>
     card (lay_meta g s) = lay_head g s + 2 + lay_table s"

lemma block_size_lay:
  assumes "unat (s_log_block_size (super_block s)) \<le> 6"
  shows "unat (super_block_size s) = lay_block s" "lay_block s \<in> {1024, 2048, 4096, 8192, 16384, 32768, 65536}"
proof -
  let ?l = "s_log_block_size (super_block s)"
  have c: "unat ?l \<in> {0, 1, 2, 3, 4, 5, 6}" using assms by auto
  then show "lay_block s \<in> {1024, 2048, 4096, 8192, 16384, 32768, 65536}" by (auto simp: lay_block_def)
  have "unat (?l + 10) = unat ?l + 10" using assms by (simp add: unat_word_ariths)
  then show "unat (super_block_size s) = lay_block s" using c by (auto simp: super_block_size_def lay_block_def)
qed

lemma desc_size_lay:
  assumes "unat (s_desc_size (super_block s)) \<in> {0, 64}"
  shows "unat (super_group_desc_size s) = lay_desc s" "lay_desc s \<in> {32, 64}" "has_hi s \<longleftrightarrow> lay_desc s = 64"
  using assms
  by (auto simp: super_group_desc_size_def lay_desc_def has_hi_def word_le_nat_alt unat_eq_0 split: if_splits)


lemma ceil_div_words:
  assumes "unat a + unat b \<le> 2 ^ LENGTH('a)" "0 < unat b"
  shows "unat ((a + b - 1) div b) = ceil_div (unat a) (unat (b :: 'a::len word))"
proof -
  have e: "a + b - 1 = a + (b - 1)" by simp
  have b1: "unat (b - 1) = unat b - 1" using assms(2) by (simp add: unat_minus_one word_neq_0_conv unat_gt_0)
  have "unat (a + (b - 1)) = unat a + (unat b - 1)"
    using assms by (subst unat_add_lem [THEN iffD1]) (auto simp: b1)
  then have "unat (a + b - 1) = unat a + unat b - 1" unfolding e using assms(2) by simp
  then show ?thesis by (simp add: ceil_div_def unat_div)
qed

lemma count_lay:
  assumes "0 < lay_count s"
  shows "unat (ext4_blocks_count s) = lay_count s + unat (s_first_data_block (super_block s))"
  using assms by (simp add: ext4_blocks_count_def unat_hi_lo lay_count_def)

lemma groups_pos_count: "g < lay_groups s \<Longrightarrow> 0 < lay_count s"
  by (cases "lay_count s") (auto simp: lay_groups_def ceil_div_def div_if split: if_splits)

lemma groups_lay:
  assumes "lay_ok g s"
  shows "unat (super_n_block_groups s) = lay_groups s"
proof -
  let ?b = "super_blocks_per_group s" and ?f = "unat (s_first_data_block (super_block s))"
  have b: "unat ?b = unat (s_blocks_per_group (super_block s))" by (simp add: super_blocks_per_group_def unat_ucast_up)
  have c: "unat (ext4_blocks_count s) = lay_count s + ?f"
    using count_lay [OF groups_pos_count, of g] assms by (simp add: lay_ok_def)
  have f: "?f < 2 ^ 32" "unat ?b < 2 ^ 32"
    unfolding b by (rule u32_less)+
  have "unat ((ext4_blocks_count s + ?b - 1) div ?b) = ceil_div (lay_count s + ?f) (unat ?b)"
    using assms f c b by (subst ceil_div_words) (auto simp: lay_ok_def)
  also have "\<dots> = lay_groups s" using assms b by (simp add: lay_ok_def)
  finally have "unat ((ext4_blocks_count s + ?b - 1) div ?b) = lay_groups s" .
  moreover have "lay_groups s < 2 ^ 32" using assms by (simp add: lay_ok_def)
  ultimately show ?thesis by (simp add: super_n_block_groups_def unsigned_ucast_eq take_bit_nat_eq_self)
qed

lemma per_block_lay:
  assumes "lay_ok g s"
  shows "unat (EXT4_DESC_PER_BLOCK s) = lay_block s div lay_desc s" "16 \<le> lay_block s div lay_desc s"
    "lay_block s div lay_desc s \<le> 2048"
proof -
  have l: "unat (s_log_block_size (super_block s)) \<le> 6" "unat (s_desc_size (super_block s)) \<in> {0, 64}" using assms by (simp_all add: lay_ok_def)
  then show "unat (EXT4_DESC_PER_BLOCK s) = lay_block s div lay_desc s"
    by (simp add: EXT4_DESC_PER_BLOCK_def unat_div block_size_lay desc_size_lay)
  show "16 \<le> lay_block s div lay_desc s" "lay_block s div lay_desc s \<le> 2048"
    using block_size_lay(2) [OF l(1)] desc_size_lay(2) [OF l(2)] by auto
qed

lemma backup_lay:
  assumes "lay_ok (unat g) s"
  shows "ext4_bg_has_super g s = Inr (if lay_backup (unat g) s then 1 else 0)"
proof -
  have g: "unat g * 7 < 2 ^ 32" using assms by (simp add: lay_ok_def)
  have k: "k \<in> {1..unat g}" if "0 < k" "unat g = b ^ k" "1 < b" for b k :: nat
    using that self_le_ge2_pow [of b k] by simp
  have "(\<exists>k>0. unat g = 3 ^ k \<or> unat g = 5 ^ k \<or> unat g = 7 ^ k) \<longleftrightarrow>
      (\<exists>k \<in> {1..unat g}. unat g = 3 ^ k \<or> unat g = 5 ^ k \<or> unat g = 7 ^ k)"
    using k [of _ 3] k [of _ 5] k [of _ 7] by (auto simp: Suc_le_eq)
  then show ?thesis
    using ext4_group_sparse_powers [OF g] by (auto simp: ext4_bg_has_super_def EXT4_HAS_RO_COMPAT_FEATURE_def lay_backup_def)
qed


lemma head_lay:
  assumes ok: "lay_ok (unat g) s" and len: "lay_head (unat g) s < 2 ^ 32"
  shows "\<exists>bm. init_bit_max g s = Inr bm \<and> unat bm = lay_head (unat g) s"
proof -
  let ?per = "lay_block s div lay_desc s" and ?P = "EXT4_DESC_PER_BLOCK s"
  note per = per_block_lay [OF ok]
  have gl: "unat g < lay_groups s" "lay_groups s * 7 < 2 ^ 32" using ok by (simp_all add: lay_ok_def)
  have gdb: "unat (super_n_gdb s) = ceil_div (lay_groups s) ?per"
    using groups_lay [OF ok] per gl by (simp add: super_n_gdb_def ceil_div_words)
  have up: "ucast (ucast (super_n_gdb s) :: u64) = super_n_gdb s"
    by (rule ucast_up_ucast_id) (simp add: is_up)
  show ?thesis
  proof (cases "lay_meta_bg s")
    case False
    then show ?thesis
      using up backup_lay [OF ok] gdb len per(1) u32_less [of "super_n_gdb s"]
      by (auto simp: init_bit_max_def ext4_bg_num_gdb_def ext4_bg_num_gdb_nometa_def lay_head_def Let_def
          EXT4_HAS_INCOMPAT_FEATURE_def lay_meta_bg_def unat_word_ariths unsigned_ucast_eq take_bit_nat_eq_self)
  next
    case True
    let ?first = "g div ?P * ?P"
    have m: "s_first_meta_bg (super_block s) = 0" using ok True by (simp add: lay_ok_def)
    have q: "unat g div ?per * ?per \<le> unat g" by simp
    then have f: "unat ?first = unat g div ?per * ?per"
      using per(1) le_less_trans [OF q u32_less] by (simp add: unat_word_ariths(2) unat_div)
    have f1: "unat (?first + 1) = unat ?first + 1" "unat (?first + ?P - 1) = unat ?first + ?per - 1"
    proof -
      have "unat ?first \<le> unat g" using f q by simp
      moreover have "unat g + 2048 < 2 ^ 32" using gl by simp
      ultimately have b: "unat ?first + ?per < 2 ^ 32" using per(3) by (meson add_mono le_less_trans)
      then show "unat (?first + 1) = unat ?first + 1" using per by (simp add: unat_word_ariths)
      have e: "?first + ?P - 1 = ?first + (?P - 1)" by simp
      have "unat (?P - 1) = ?per - 1" using per by (subst unat_minus_one) auto
      then show "unat (?first + ?P - 1) = unat ?first + ?per - 1"
        unfolding e using b per by (simp add: unat_word_ariths)
    qed
    have r: "unat g = unat ?first + unat g mod ?per" unfolding f by (rule div_mult_mod_eq [symmetric])
    have "unat (ext4_bg_num_gdb_meta g s) = (if unat g mod ?per \<in> {0, 1, ?per - 1} then 1 else 0)"
    proof -
      have "g = ?first \<or> g = ?first + 1 \<or> g = ?first + ?P - 1 \<longleftrightarrow> unat g mod ?per \<in> {0, 1, ?per - 1}"
        using r f1 per by (auto simp: word_unat_eq_iff)
      then show ?thesis by (simp add: ext4_bg_num_gdb_meta_def Let_def)
    qed
    then show ?thesis
      using backup_lay [OF ok] True m
      by (auto simp: init_bit_max_def ext4_bg_num_gdb_def lay_head_def Let_def
          EXT4_HAS_INCOMPAT_FEATURE_def lay_meta_bg_def unat_word_ariths unsigned_ucast_eq take_bit_nat_eq_self)
  qed
qed

lemma start_lay: "unat (ext4_group_first_block_no g s) = lay_start (unat g) s"
proof -
  let ?b = "unat (s_blocks_per_group (super_block s))" and ?f = "unat (s_first_data_block (super_block s))"
  have b: "unat g \<le> 2 ^ 32 - 1" "?b \<le> 2 ^ 32 - 1" "?f < 2 ^ 32"
    using u32_less [of g] u32_less [of "s_blocks_per_group (super_block s)"] u32_less [of "s_first_data_block (super_block s)"]
    by simp_all
  have "unat g * ?b \<le> (2 ^ 32 - 1) * (2 ^ 32 - 1)" by (rule mult_le_mono [OF b(1,2)])
  then have "unat g * ?b + ?f < 2 ^ 64" using b(3) by simp
  then show ?thesis
    by (simp add: ext4_group_first_block_no_def super_blocks_per_group_def lay_start_def unat_word_ariths unat_ucast_up)
qed

lemma length_lay:
  assumes ok: "lay_ok (unat g) s"
  shows "unat (group_blocks g s) = lay_length (unat g) s"
proof -
  let ?n = "super_n_block_groups s" and ?b = "unat (s_blocks_per_group (super_block s))"
    and ?f = "unat (s_first_data_block (super_block s))"
  have n: "unat ?n = lay_groups s" "unat g < lay_groups s" and b: "0 < ?b" "?b < 2 ^ 32"
    using groups_lay [OF ok] ok u32_less by (auto simp: lay_ok_def)
  have c: "unat (ext4_blocks_count s) = lay_count s + ?f" using count_lay groups_pos_count [OF n(2)] by simp
  have n1: "unat (?n - 1) = lay_groups s - 1" using n by (subst unat_minus_one) auto
  have last: "g = ?n - 1 \<longleftrightarrow> unat g = lay_groups s - 1" by (simp add: word_unat_eq_iff n1)
  have G: "lay_groups s = (lay_count s - 1) div ?b + 1"
  proof -
    have e: "lay_count s + ?b - 1 = lay_count s - 1 + ?b" using groups_pos_count [OF n(2)] by simp
    show ?thesis unfolding lay_groups_def ceil_div_def e using b(1) by (simp only: div_add_self2 neq0_conv)
  qed
  show ?thesis
  proof (cases "unat g = lay_groups s - 1")
    case True
    let ?k = "(lay_count s - 1) div ?b * ?b"
    have k: "?k \<le> lay_count s - 1" "lay_count s - 1 < ?k + ?b"
      using dividend_less_div_times [OF b(1), of "lay_count s - 1"] by simp_all
    have "lay_count s < 2 ^ 62" using ok by (simp add: lay_ok_def)
    then have big: "?k < 2 ^ 64" by (intro le_less_trans [OF k(1)]) simp
    have "unat (super_blocks_per_group s * ucast (?n - 1)) = ?k"
      using G n1 k(1) c big by (simp add: unat_word_ariths super_blocks_per_group_def unat_ucast_up mult.commute)
    moreover have c1: "unat (ext4_blocks_count s - ucast (s_first_data_block (super_block s))) = lay_count s"
      using c by (subst unat_sub) (simp_all add: word_le_nat_alt unat_ucast_up)
    ultimately have "unat (ext4_blocks_count s - ucast (s_first_data_block (super_block s)) -
        super_blocks_per_group s * ucast (?n - 1)) = lay_count s - ?k"
      using le_trans [OF k(1) diff_le_self] by (subst unat_sub) (simp_all only: word_le_nat_alt)
    then have "unat (group_blocks g s) = lay_count s - ?k"
      using True last k b(2) by (simp add: group_blocks_def unsigned_ucast_eq take_bit_nat_eq_self)
    moreover have "lay_length (unat g) s = lay_count s - ?k" using True G k by (simp add: lay_length_def)
    ultimately show ?thesis by simp
  next
    case False
    then have "unat g + 1 \<le> (lay_count s - 1) div ?b" using n(2) G by simp
    then have "(unat g + 1) * ?b \<le> lay_count s - 1" using b(1) by (simp add: less_eq_div_iff_mult_less_eq)
    then have "lay_length (unat g) s = ?b" by (simp add: lay_length_def)
    then show ?thesis using False last
      by (simp add: group_blocks_def super_blocks_per_group_def ucast_up_ucast_id is_up)
  qed
qed


lemma desc_number_lay:
  assumes "lay_ok g s"
  shows "unat (ucast (lo :: u32) OR (if has_hi s then push_bit 32 (ucast (hi :: u32)) else 0) :: u64) = lay_number s lo hi"
  using desc_size_lay(3) [of s] assms by (simp add: lay_ok_def lay_number_def unat_hi_lo unat_ucast_up)

lemma numbers_lay:
  assumes "lay_ok (unat g) s"
  shows "unat (ext4_block_bitmap g s) = lay_number s (bg_block_bitmap_lo (bg g s)) (bg_block_bitmap_hi (bg g s))"
    "unat (ext4_inode_bitmap g s) = lay_number s (bg_inode_bitmap_lo (bg g s)) (bg_inode_bitmap_hi (bg g s))"
    "unat (ext4_inode_table g s) = lay_number s (bg_inode_table_lo (bg g s)) (bg_inode_table_hi (bg g s))"
  unfolding ext4_block_bitmap_def ext4_inode_bitmap_def ext4_inode_table_def desc_number_lay [OF assms] by (rule refl)+

lemma ceil_div_mult: "0 < b \<Longrightarrow> ceil_div (q * b) b = q"
proof -
  assume b: "0 < b"
  then have "q * b + b - 1 = (b - 1) + q * b" by simp
  then show ?thesis using b by (simp only: ceil_div_def div_mult_self1) simp
qed

lemma table_lay:
  assumes ok: "lay_ok (unat g) s"
  shows "unat (super_itb_per_group s) = lay_table s"
proof -
  let ?i = "unat (s_inode_size (super_block s))" and ?n = "unat (s_inodes_per_group (super_block s))"
  have i: "0 < ?i" "?i dvd lay_block s" "lay_block s div ?i dvd ?n" and b: "unat (super_block_size s) = lay_block s" "0 < lay_block s"
    using ok block_size_lay [of s] by (auto simp: lay_ok_def)
  have "?i < 2 ^ LENGTH(16)" by (rule unsigned_less)
  then have u: "unat (super_inode_size s) = ?i"
    by (simp add: super_inode_size_def unsigned_ucast_eq take_bit_nat_eq_self)
  obtain p where p: "lay_block s = ?i * p" using i(2) by (rule dvdE)
  have pp: "lay_block s div ?i = p" "0 < p" using p i(1) b(2) by auto
  obtain q where q: "?n = p * q" using i(3) pp(1) by (auto elim: dvdE)
  have "?n * ?i = q * lay_block s" by (simp add: p q)
  then have "lay_table s = q" using b(2) by (simp add: lay_table_def ceil_div_mult)
  moreover have "unat (super_itb_per_group s) = ?n div (lay_block s div ?i)"
    by (simp add: super_itb_per_group_def super_inodes_per_group_def super_inodes_per_block_def unat_div b u)
  ultimately show ?thesis using pp q by simp
qed


text \<open>The position in the bitmap of a block of the group is its distance from the start of the group.\<close>

lemma position_lay:
  assumes "lay_start (unat g) s \<le> unat b"
  shows "block_pos g s b = unat b - lay_start (unat g) s"
  using assms by (simp add: block_pos_def unat_sub word_le_nat_alt start_lay)

lemma layout_lay:
  assumes ok: "lay_ok (unat g) s" and bm: "unat bm = lay_head (unat g) s"
  shows "layout_ok g s bm (lay_block s)"
    "i < 8 * lay_block s \<Longrightarrow> i \<in> meta_bits g s bm (lay_block s) \<longleftrightarrow>
       lay_length (unat g) s \<le> i \<or> lay_start (unat g) s + i \<in> lay_meta (unat g) s"
proof -
  let ?st = "lay_start (unat g) s" and ?len = "lay_length (unat g) s"
  note n = numbers_lay [OF ok, unfolded bg_def]
  have blk: "unat (super_block_size s) = lay_block s" "lay_block s \<in> {1024, 2048, 4096, 8192, 16384, 32768, 65536}"
    using block_size_lay ok by (simp_all add: lay_ok_def)
  have dvd: "8 dvd lay_block s" "lay_block s \<le> 65536" using blk(2) by auto
  have len: "?len \<le> 8 * lay_block s" using ok by (auto simp: lay_ok_def lay_length_def)
  have sub: "lay_meta (unat g) s \<subseteq> {?st ..< ?st + ?len}" using ok by (simp add: lay_ok_def)
  have pos: "0 < lay_table s"
    using ok blk(2) by (auto simp: lay_ok_def lay_table_def ceil_div_def div_greater_zero_iff)
  have bb: "?st \<le> unat (ext4_block_bitmap g s)" "unat (ext4_block_bitmap g s) < ?st + ?len"
    and ib: "?st \<le> unat (ext4_inode_bitmap g s)" "unat (ext4_inode_bitmap g s) < ?st + ?len"
    and tb: "?st \<le> unat (ext4_inode_table g s)" "unat (ext4_inode_table g s) + lay_table s \<le> ?st + ?len"
    and hd: "lay_head (unat g) s \<le> ?len"
    using sub pos unfolding lay_meta_def Let_def n [symmetric] by auto
  have small: "?st + ?len < 2 ^ 63"
  proof -
    let ?q = "unat g * unat (s_blocks_per_group (super_block s))" and ?f = "unat (s_first_data_block (super_block s))"
    have c: "lay_count s < 2 ^ 62" "?f < 2 ^ 32" using ok u32_less by (auto simp: lay_ok_def)
    have "?len \<le> lay_count s - ?q" by (simp add: lay_length_def)
    moreover have "0 < ?len" using bb by linarith
    ultimately have "?q + ?len \<le> lay_count s" by linarith
    then have "?st + ?len \<le> ?f + lay_count s" by (simp add: lay_start_def)
    also have "\<dots> < 2 ^ 63" using c by simp
    finally show ?thesis .
  qed
  have h: "nat (sint bm) = lay_head (unat g) s"
    using sint_small [of bm] bm hd len dvd by simp
  note p = position_lay [OF bb(1)] position_lay [OF ib(1)] position_lay [OF tb(1)]
  show "layout_ok g s bm (lay_block s)"
    unfolding layout_ok_def p h table_lay [OF ok] length_lay [OF ok]
    using bb ib tb hd len dvd blk(1) small by auto
  show "i \<in> meta_bits g s bm (lay_block s) \<longleftrightarrow> ?len \<le> i \<or> ?st + i \<in> lay_meta (unat g) s" if "i < 8 * lay_block s"
    unfolding meta_bits_def p h table_lay [OF ok] length_lay [OF ok] lay_meta_def Let_def n [symmetric]
    using bb ib tb hd that by auto
qed

lemma room_lay:
  assumes "lay_ok g s"
  shows "lay_head g s + 2 + lay_table s \<le> lay_length g s"
proof -
  have "card (lay_meta g s) \<le> card {lay_start g s ..< lay_start g s + lay_length g s}"
    using assms by (intro card_mono) (simp_all add: lay_ok_def)
  then show ?thesis using assms by (simp add: lay_ok_def)
qed

lemma free_result_lay:
  assumes ok: "lay_ok (unat g) s" and bm: "unat bm = lay_head (unat g) s"
    and flex: "\<not> EXT4_HAS_INCOMPAT_FEATURE s EXT4_FEATURE_INCOMPAT_FLEX_BG"
    and same: "super_block s' = super_block s"
  shows "unat (ucast (group_blocks g s - bm - ext4_group_used_meta_blocks g s') :: u64) =
    lay_length (unat g) s - card (lay_meta (unat g) s)"
proof -
  note le = room_lay [OF ok]
  have "super_itb_per_group s' = super_itb_per_group s" "\<not> EXT4_HAS_INCOMPAT_FEATURE s' EXT4_FEATURE_INCOMPAT_FLEX_BG"
    using same flex by (simp_all add: super_itb_per_group_def super_inodes_per_group_def super_inodes_per_block_def super_block_size_def
        super_inode_size_def EXT4_HAS_INCOMPAT_FEATURE_def)
  then have u: "ext4_group_used_meta_blocks g s' = super_itb_per_group s + 2" by (simp add: ext4_group_used_meta_blocks_def Let_def)
  have a: "unat (super_itb_per_group s + 2) = lay_table s + 2"
    using le length_lay [OF ok] u32_less [of "group_blocks g s"] table_lay [OF ok] by (simp add: unat_word_ariths)
  have b: "unat (group_blocks g s - bm) = lay_length (unat g) s - lay_head (unat g) s"
    using le bm length_lay [OF ok] by (subst unat_sub) (simp_all add: word_le_nat_alt)
  have "super_itb_per_group s + 2 \<le> group_blocks g s - bm" unfolding word_le_nat_alt a b using le by linarith
  then have "unat (group_blocks g s - bm - (super_itb_per_group s + 2)) = lay_length (unat g) s - lay_head (unat g) s - (lay_table s + 2)"
    by (simp only: unat_sub a b)
  then show ?thesis using ok unfolding u unat_ucast_up by (simp add: lay_ok_def)
qed

text \<open>C16: Initialising an uninitialised block bitmap without FLEX_BG marks exactly the blocks in use: the
  superblock, descriptor and reserved blocks at the start of a group that the format gives a backup, the two bitmaps, the inode
  table, and the bits past the end of the group. The positions are those of the format, computed from the fields of the superblock and
  of the descriptor, for every geometry in \<open>lay_ok\<close>. The descriptor is marked initialised, and the result is the number of
  the other blocks of the group.\<close>

theorem ext4_init_block_bitmap_spec:
  assumes flex: "\<not> EXT4_HAS_INCOMPAT_FEATURE s EXT4_FEATURE_INCOMPAT_FLEX_BG"
    and ok: "lay_ok (unat g) s" and m: "length m = lay_block s"
  shows "\<exists>r m' s'. ext4_init_block_bitmap (Some m) g s = Inr (r, Some m', s') \<and> length m' = lay_block s \<and>
    ext4_is_block_bitmap_inited g s' \<and>
    (\<forall>i < 8 * lay_block s. mbit m' i \<longleftrightarrow>
       lay_length (unat g) s \<le> i \<or> lay_start (unat g) s + i \<in> lay_meta (unat g) s) \<and>
    unat r = lay_length (unat g) s - card (lay_meta (unat g) s)"
proof -
  have g: "unat g < length (gdesc_table s)" using ok by (simp add: lay_ok_def)
  have "lay_head (unat g) s \<le> unat (group_blocks g s)" using room_lay [OF ok] length_lay [OF ok] by simp
  then obtain bm where bm: "init_bit_max g s = Inr bm" "unat bm = lay_head (unat g) s"
    using head_lay [OF ok] le_less_trans [OF _ u32_less] by blast
  obtain m' where m': "init_bitmap_data g bm s m = Inr m'"
    "marked (splice m 0 (replicate (length m) 0)) (meta_bits g s bm (length m)) m'"
    using init_bitmap_data_marked [OF flex, of g bm m] layout_lay(1) [OF ok bm(2)] m by auto
  let ?s = "bg_upd g (\<lambda>b. b\<lparr>bg_flags := bg_flags b AND NOT EXT4_BG_BLOCK_UNINIT\<rparr>) s"
  have "(b AND NOT 2) AND 2 = (0 :: u16)" for b by (simp add: and.assoc)
  then have i: "ext4_is_block_bitmap_inited g ?s" using g by (simp add: ext4_is_block_bitmap_inited_def bg_bg_upd)
  have "mbit m' i \<longleftrightarrow> i \<in> meta_bits g s bm (lay_block s)" if "i < 8 * lay_block s" for i
    using m'(2) mbit_zeros [of i "length m" m] that m by (simp add: marked_def)
  moreover have "length m' = lay_block s" using m'(2) m by (simp add: marked_def)
  ultimately show ?thesis
    using m'(1) bm(1) i layout_lay(2) [OF ok bm(2)] free_result_lay [OF ok bm(2) flex, of ?s]
    by (simp add: ext4_init_block_bitmap_def Let_def)
qed

lemma demo_super_eval:
  "super_block_size demo_super = 1024" "ext4_block_bitmap 0 demo_super = 3"
  "ext4_inode_bitmap 0 demo_super = 4" "ext4_inode_table 0 demo_super = 5"
  "super_itb_per_group demo_super = 8" "ext4_group_first_block_no 0 demo_super = 1"
  "group_blocks 0 demo_super = 8191" "super_n_block_groups demo_super = 1"
  "\<not> EXT4_HAS_INCOMPAT_FEATURE demo_super EXT4_FEATURE_INCOMPAT_FLEX_BG"
  "length (gdesc_table demo_super) = 1" "init_bit_max 0 demo_super = Inr 2"
  by (simp_all add: demo_super_def super_of_def gdesc_of_def ld_zeros super_block_size_def bg_def
      ext4_block_bitmap_def ext4_inode_bitmap_def ext4_inode_table_def has_hi_def super_group_desc_size_def
      super_itb_per_group_def super_inodes_per_group_def super_inodes_per_block_def super_inode_size_def
      ext4_group_first_block_no_def super_blocks_per_group_def group_blocks_def super_n_block_groups_def
      ext4_blocks_count_def EXT4_HAS_INCOMPAT_FEATURE_def EXT4_HAS_RO_COMPAT_FEATURE_def init_bit_max_def
      ext4_bg_has_super_def ext4_bg_num_gdb_def ext4_bg_num_gdb_nometa_def super_n_gdb_def
      EXT4_DESC_PER_BLOCK_def)

lemma demo_layout:
  "lay_block demo_super = 1024" "lay_start 0 demo_super = 1" "lay_length 0 demo_super = 8191"
  "lay_meta 0 demo_super = {1 ..< 13}" "lay_ok 0 demo_super"
proof -
  note d = demo_super_def super_of_def gdesc_of_def ld_zeros
  have f: "lay_block demo_super = 1024" "lay_desc demo_super = 32" "lay_count demo_super = 8191" "lay_start 0 demo_super = 1"
    "lay_table demo_super = 8" "lay_groups demo_super = 1" "\<not> lay_meta_bg demo_super" "lay_backup 0 demo_super"
    by (simp_all add: d lay_block_def lay_desc_def lay_count_def lay_start_def lay_table_def lay_groups_def ceil_div_def
        lay_meta_bg_def lay_backup_def)
  have h: "lay_head 0 demo_super = 2" by (simp add: lay_head_def f ceil_div_def Let_def) (simp add: d)
  have l: "lay_length 0 demo_super = 8191" by (simp add: lay_length_def f) (simp add: d)
  have m: "lay_meta 0 demo_super = {1 ..< 13}"
    unfolding lay_meta_def Let_def f h by (simp add: d lay_number_def f) auto
  show "lay_block demo_super = 1024" "lay_start 0 demo_super = 1" "lay_length 0 demo_super = 8191"
    "lay_meta 0 demo_super = {1 ..< 13}" by (rule f l m)+
  show "lay_ok 0 demo_super"
    unfolding lay_ok_def m f h l by (simp add: d ceil_div_def)
qed

theorem ext4_init_block_bitmap_spec_witness:
  "\<exists>r m' s'. ext4_init_block_bitmap (Some (replicate 1024 0xaa)) 0 demo_super = Inr (r, Some m', s') \<and>
     (\<forall>i < 8192. mbit m' i \<longleftrightarrow> i < 12 \<or> i = 8191) \<and> r = 8179"
proof -
  obtain r m' s' where r: "ext4_init_block_bitmap (Some (replicate 1024 0xaa)) 0 demo_super = Inr (r, Some m', s')"
    "\<forall>i < 8192. mbit m' i \<longleftrightarrow> 8191 \<le> i \<or> Suc i \<in> {1 ..< 13}" "unat r = 8179"
    using ext4_init_block_bitmap_spec [of demo_super 0 "replicate 1024 0xaa"] demo_layout demo_super_eval(9) by auto
  then have "r = 8179" by (simp add: word_unat_eq_iff)
  with r show ?thesis by auto
qed

end
