(* ===== verification/E4F_Disk.thy ===== *)
theory E4F_Disk
  imports E4F_Super
begin

text \<open>
  Byte access to the device through the buffer cache: src/disk.c. Offsets (off_t) and sizes are
  natural numbers; the buffer that a caller passes is a byte list, the result of a read is the list
  of the bytes that were stored in it. A memcpy() beyond the data of a buffer head is a fault. The
  device is open (disk_fd is not negative) and the mutexes serialise the calls.
\<close>

section \<open>Definitions\<close>

text \<open>fs_bread() a block, copy \<open>n\<close> bytes from offset \<open>off\<close>, fs_brelse() it. None is a NULL buffer.\<close>

definition bread_copy :: "nat \<Rightarrow> nat \<Rightarrow> nat \<Rightarrow> block_device \<Rightarrow> (bytes option \<times> block_device) res" where
  "bread_copy blk off n d =
     res_bind (fs_bread (of_nat blk) d) (\<lambda>(bh, d).
       case bh of
         None \<Rightarrow> Inr (None, d)
       | Some b \<Rightarrow>
          (let data = bh_data b d
           in res_bind (c_defined (off + n \<le> length data)) (\<lambda>_.
              res_bind (fs_brelse b d) (\<lambda>d. Inr (Some (slice data off n), d)))))"

definition pread_last :: "nat \<Rightarrow> nat \<Rightarrow> nat \<Rightarrow> block_device \<Rightarrow> (nat \<times> bytes \<times> block_device) res" where
  "pread_last bs n w d =
     res_bind (c_assert (n < bs)) (\<lambda>_.
     res_bind (bread_copy (w div bs) 0 n d) (\<lambda>(r, d).
       case r of None \<Rightarrow> Inr (0, [], d) | Some xs \<Rightarrow> Inr (n, xs, d)))"

definition pread_mid :: "nat \<Rightarrow> nat \<Rightarrow> nat \<Rightarrow> block_device \<Rightarrow> (nat \<times> bytes \<times> block_device) res" where
  "pread_mid bs n w d =
     res_bind (c_assert (w mod bs = 0)) (\<lambda>_.
     (let mid_read_size = n div bs * bs
      in if mid_read_size \<noteq> 0 then
           res_bind (bread_copy (w div bs) 0 mid_read_size d) (\<lambda>(r, d).
             case r of
               None \<Rightarrow> Inr (0, [], d)
             | Some xs \<Rightarrow>
                if n - mid_read_size = 0 then Inr (mid_read_size, xs, d)
                else res_bind (pread_last bs (n - mid_read_size) (w + mid_read_size) d)
                       (\<lambda>(k, ys, d). Inr (mid_read_size + k, xs @ ys, d)))
         else pread_last bs n w d))"

definition pread_buffered :: "nat \<Rightarrow> nat \<Rightarrow> fs \<Rightarrow> (nat \<times> bytes \<times> fs) res" where
  "pread_buffered n w fs =
     (let bs = unat (super_block_size (sup fs)); first_offset = w mod bs
      in res_bind
          (if first_offset \<noteq> 0 then
             (let first_size = min n (bs - first_offset)
              in res_bind (bread_copy ((w - first_offset) div bs) first_offset first_size (bdev fs)) (\<lambda>(r, d).
                   case r of
                     None \<Rightarrow> Inr (0, [], d)
                   | Some xs \<Rightarrow>
                      if n - first_size = 0 then Inr (first_size, xs, d)
                      else res_bind (pread_mid bs (n - first_size) (w + first_size) d)
                             (\<lambda>(k, ys, d). Inr (first_size + k, xs @ ys, d))))
           else pread_mid bs n w (bdev fs))
          (\<lambda>(k, xs, d). Inr (k, xs, fs\<lparr>bdev := d\<rparr>)))"

text \<open>Pin a block with fs_bread() or fs_bwrite(), store at offset \<open>off\<close>, mark it dirty, fs_brelse() it.\<close>

definition store_release :: "u64 \<Rightarrow> nat \<Rightarrow> bytes \<Rightarrow> block_device \<Rightarrow> block_device res" where
  "store_release b off xs d =
     res_bind (c_defined (off + length xs \<le> length (bh_data b d))) (\<lambda>_.
       fs_brelse b (dirty_store b (splice (bh_data b d) off xs) d))"

definition bread_store :: "nat \<Rightarrow> nat \<Rightarrow> bytes \<Rightarrow> block_device \<Rightarrow> (bool \<times> block_device) res" where
  "bread_store blk off xs d =
     res_bind (fs_bread (of_nat blk) d) (\<lambda>(bh, d).
       case bh of
         None \<Rightarrow> Inr (False, d)
       | Some b \<Rightarrow> res_bind (store_release b off xs d) (\<lambda>d. Inr (True, d)))"

definition bwrite_store :: "nat \<Rightarrow> bytes \<Rightarrow> block_device \<Rightarrow> (bool \<times> block_device) res" where
  "bwrite_store blk xs d =
     (case fs_bwrite (of_nat blk) d of
        (None, d) \<Rightarrow> Inr (False, d)
      | (Some b, d) \<Rightarrow> res_bind (store_release b 0 xs d) (\<lambda>d. Inr (True, d)))"

definition pwrite_last :: "nat \<Rightarrow> bytes \<Rightarrow> nat \<Rightarrow> block_device \<Rightarrow> (nat \<times> block_device) res" where
  "pwrite_last bs p w d =
     res_bind (c_assert (length p < bs)) (\<lambda>_.
     res_bind (bread_store (w div bs) 0 p d) (\<lambda>(ok, d). Inr (if ok then length p else 0, d)))"

definition pwrite_mid :: "nat \<Rightarrow> bytes \<Rightarrow> nat \<Rightarrow> block_device \<Rightarrow> (nat \<times> block_device) res" where
  "pwrite_mid bs p w d =
     res_bind (c_assert (w mod bs = 0)) (\<lambda>_.
     (let mid_write_size = length p div bs * bs
      in if mid_write_size \<noteq> 0 then
           res_bind (bwrite_store (w div bs) (take mid_write_size p) d) (\<lambda>(ok, d).
             if \<not> ok then Inr (0, d)
             else if length p - mid_write_size = 0 then Inr (mid_write_size, d)
             else res_bind (pwrite_last bs (drop mid_write_size p) (w + mid_write_size) d)
                    (\<lambda>(k, d). Inr (mid_write_size + k, d)))
         else pwrite_last bs p w d))"

definition pwrite_buffered :: "bytes \<Rightarrow> nat \<Rightarrow> fs \<Rightarrow> (nat \<times> fs) res" where
  "pwrite_buffered p w fs =
     (let bs = unat (super_block_size (sup fs)); first_offset = w mod bs
      in res_bind
          (if first_offset \<noteq> 0 then
             (let first_size = min (length p) (bs - first_offset)
              in res_bind (bread_store ((w - first_offset) div bs) first_offset (take first_size p) (bdev fs))
                   (\<lambda>(ok, d).
                      if \<not> ok then Inr (0, d)
                      else if length p - first_size = 0 then Inr (first_size, d)
                      else res_bind (pwrite_mid bs (drop first_size p) (w + first_size) d)
                             (\<lambda>(k, d). Inr (first_size + k, d))))
           else pwrite_mid bs p w (bdev fs))
          (\<lambda>(k, d). Inr (k, fs\<lparr>bdev := d\<rparr>)))"

definition disk_read :: "nat \<Rightarrow> nat \<Rightarrow> fs \<Rightarrow> (bytes \<times> fs) res" where
  "disk_read w n fs =
     res_bind (pread_buffered n w fs) (\<lambda>(pread_ret, xs, fs).
     res_bind (c_assert (pread_ret = n)) (\<lambda>_. Inr (xs, fs)))"

definition disk_write :: "nat \<Rightarrow> bytes \<Rightarrow> fs \<Rightarrow> fs res" where
  "disk_write w p fs =
     res_bind (pwrite_buffered p w fs) (\<lambda>(pwrite_ret, fs).
     res_bind (c_assert (pwrite_ret = length p)) (\<lambda>_. Inr fs))"

definition disk_read_block :: "u64 \<Rightarrow> fs \<Rightarrow> (bytes \<times> fs) res" where
  "disk_read_block blk fs =
     disk_read (unat (BLOCKS2BYTES blk (sup fs))) (unat (super_block_size (sup fs))) fs"

definition disk_write_block :: "u64 \<Rightarrow> bytes \<Rightarrow> fs \<Rightarrow> fs res" where
  "disk_write_block blk p fs =
     disk_write (unat (BLOCKS2BYTES blk (sup fs))) (take (unat (super_block_size (sup fs))) p) fs"

definition disk_read_u32 :: "nat \<Rightarrow> fs \<Rightarrow> (u32 \<times> fs) res" where
  "disk_read_u32 w fs = res_bind (disk_read w 4 fs) (\<lambda>(xs, fs). Inr (ld32 xs 0, fs))"

record disk_ctx =
  ctx_cur :: nat
  ctx_size :: nat

definition disk_ctx_create :: "nat \<Rightarrow> nat \<Rightarrow> u32 \<Rightarrow> disk_ctx res" where
  "disk_ctx_create w sz len =
     res_bind (c_assert (sz \<noteq> 0)) (\<lambda>_. Inr \<lparr>ctx_cur = w, ctx_size = sz * unat len mod 2 ^ 64\<rparr>)"

definition disk_ctx_read :: "disk_ctx \<Rightarrow> nat \<Rightarrow> fs \<Rightarrow> (disk_ctx \<times> bytes \<times> fs) res" where
  "disk_ctx_read ctx sz fs =
     res_bind (c_assert (ctx_size ctx \<noteq> 0)) (\<lambda>_.
     (let sz = (if sz > ctx_size ctx then ctx_size ctx else sz)
      in res_bind (disk_read (ctx_cur ctx) sz fs) (\<lambda>(xs, fs).
           Inr (ctx\<lparr>ctx_size := ctx_size ctx - sz, ctx_cur := ctx_cur ctx + sz\<rparr>, xs, fs))))"

definition disk_ctx_write :: "disk_ctx \<Rightarrow> nat \<Rightarrow> bytes \<Rightarrow> fs \<Rightarrow> (disk_ctx \<times> fs) res" where
  "disk_ctx_write ctx sz p fs =
     res_bind (c_assert (ctx_size ctx \<noteq> 0)) (\<lambda>_.
     (let sz = (if sz > ctx_size ctx then ctx_size ctx else sz)
      in res_bind (disk_write (ctx_cur ctx) (take sz p) fs) (\<lambda>fs.
           Inr (ctx\<lparr>ctx_size := ctx_size ctx - sz, ctx_cur := ctx_cur ctx + sz\<rparr>, fs))))"

section \<open>The device as a sequence of bytes\<close>

text \<open>\<open>flat v bs i\<close> is byte \<open>i\<close> of a device with blocks \<open>v\<close> of \<open>bs\<close> bytes.\<close>

definition flat :: "(u64 \<Rightarrow> bytes) \<Rightarrow> nat \<Rightarrow> nat \<Rightarrow> u8" where
  "flat v bs i = v (of_nat (i div bs)) ! (i mod bs)"

definition flat_slice :: "(u64 \<Rightarrow> bytes) \<Rightarrow> nat \<Rightarrow> nat \<Rightarrow> nat \<Rightarrow> bytes" where
  "flat_slice v bs w n = map (flat v bs) [w ..< w + n]"

text \<open>The states between the calls on the disk: the cache invariant, with the block size of the superblock.\<close>

definition fs_ok :: "fs \<Rightarrow> bool" where
  "fs_ok fs \<longleftrightarrow> cache_inv (bdev fs) \<and> s_blocksize (bdev fs) = unat (super_block_size (sup fs)) \<and>
     0 < unat (super_block_size (sup fs))"

lemma flat_slice_append: "flat_slice v bs w m @ flat_slice v bs (w + m) n = flat_slice v bs w (m + n)"
  by (simp add: flat_slice_def upt_add_eq_append [of w "w + m" n] add.assoc [symmetric])

lemma length_flat_slice [simp]: "length (flat_slice v bs w n) = n"
  by (simp add: flat_slice_def)

text \<open>A slice of one block.\<close>

lemma flat_slice_block:
  assumes "off + n \<le> bs" "length (v (of_nat blk)) = bs" "0 < bs"
  shows "flat_slice v bs (blk * bs + off) n = slice (v (of_nat blk)) off n"
proof (rule nth_equalityI)
  fix i assume i: "i < length (flat_slice v bs (blk * bs + off) n)"
  then have "off + i < bs" using assms(1) by simp
  then have "(blk * bs + off + i) div bs = blk" "(blk * bs + off + i) mod bs = off + i"
    by (simp_all add: add.assoc)
  then show "flat_slice v bs (blk * bs + off) n ! i = slice (v (of_nat blk)) off n ! i"
    using i assms by (simp add: flat_slice_def flat_def nth_slice)
qed (use assms in simp)

text \<open>The states of the cache that a read may move between.\<close>

definition same_view :: "block_device \<Rightarrow> block_device \<Rightarrow> bool" where
  "same_view d d' \<longleftrightarrow> cache_inv d' \<and> view d' = view d \<and> refs d' = refs d \<and> s_blocksize d' = s_blocksize d"

lemma same_view_trans: "same_view d d' \<Longrightarrow> same_view d' d'' \<Longrightarrow> same_view d d''"
  by (simp add: same_view_def)

lemma bread_copy_ok:
  assumes "cache_inv d" "off + n \<le> s_blocksize d" "0 < s_blocksize d"
  shows "\<exists>d'. bread_copy blk off n d = Inr (Some (flat_slice (view d) (s_blocksize d) (blk * s_blocksize d + off) n), d') \<and>
    same_view d d'"
proof -
  obtain d1 d2 where c: "fs_bread (of_nat blk) d = Inr (Some (of_nat blk), d1)" "bh_data (of_nat blk) d1 = view d (of_nat blk)"
    "fs_brelse (of_nat blk) d1 = Inr d2" "cache_inv d2" "view d2 = view d" "refs d2 = refs d" "s_blocksize d2 = s_blocksize d"
    using bs.read_cycle [OF assms(1), of "of_nat blk"] by metis
  have l: "length (view d (of_nat blk)) = s_blocksize d" by (rule bs.vw_length [OF assms(1)])
  show ?thesis
    using c l assms by (simp add: bread_copy_def Let_def flat_slice_block same_view_def)
qed

lemma pread_last_ok:
  assumes "cache_inv d" "n < s_blocksize d" "w mod s_blocksize d = 0"
  shows "\<exists>d'. pread_last (s_blocksize d) n w d = Inr (n, flat_slice (view d) (s_blocksize d) w n, d') \<and> same_view d d'"
proof -
  have "w div s_blocksize d * s_blocksize d + 0 = w" using assms(3) by auto
  with bread_copy_ok [OF assms(1), of 0 n "w div s_blocksize d"] assms(2) show ?thesis
    by (auto simp: pread_last_def)
qed

lemma pread_mid_ok:
  assumes "cache_inv d" "n < 2 * s_blocksize d" "w mod s_blocksize d = 0"
  shows "\<exists>d'. pread_mid (s_blocksize d) n w d = Inr (n, flat_slice (view d) (s_blocksize d) w n, d') \<and> same_view d d'"
proof (cases "n < s_blocksize d")
  case True
  then show ?thesis using pread_last_ok [OF assms(1) True assms(3)] assms(3) by (simp add: pread_mid_def)
next
  case False
  let ?bs = "s_blocksize d"
  have one: "n div ?bs = 1" using False assms(2) by (simp add: div_nat_eqI)
  have p: "0 < ?bs" using assms(2) by simp
  have w: "w div ?bs * ?bs + 0 = w" using assms(3) by auto
  obtain d1 where d1: "bread_copy (w div ?bs) 0 ?bs d = Inr (Some (flat_slice (view d) ?bs w ?bs), d1)" "same_view d d1"
    using bread_copy_ok [OF assms(1), of 0 ?bs "w div ?bs"] p w by auto
  show ?thesis
  proof (cases "n = ?bs")
    case True
    then show ?thesis using d1 p assms(3) by (auto simp: pread_mid_def Let_def)
  next
    case neq: False
    have v: "cache_inv d1" "s_blocksize d1 = ?bs" "view d1 = view d" using d1(2) by (simp_all add: same_view_def)
    have r: "n - ?bs < ?bs" using assms(2) False by linarith
    obtain d2 where d2: "pread_last ?bs (n - ?bs) (w + ?bs) d1 =
        Inr (n - ?bs, flat_slice (view d) ?bs (w + ?bs) (n - ?bs), d2)" "same_view d1 d2"
      using pread_last_ok [OF v(1), unfolded v(2,3), OF r, of "w + ?bs"] assms(3) by auto
    show ?thesis
      using d1 d2 one p assms(3) False neq same_view_trans [OF d1(2) d2(2)]
        flat_slice_append [of "view d" ?bs w ?bs "n - ?bs"] by (simp add: pread_mid_def)
  qed
qed

text \<open>The number of bytes that are left after the part of the first block.\<close>

definition after_first :: "nat \<Rightarrow> nat \<Rightarrow> nat \<Rightarrow> nat" where
  "after_first bs w n = (if w mod bs = 0 then n else n - (bs - w mod bs))"

lemma pread_buffered_ok:
  assumes ok: "fs_ok fs" and n: "after_first (unat (super_block_size (sup fs))) w n < 2 * unat (super_block_size (sup fs))"
  shows "\<exists>d'. pread_buffered n w fs =
    Inr (n, flat_slice (view (bdev fs)) (unat (super_block_size (sup fs))) w n, fs\<lparr>bdev := d'\<rparr>) \<and> same_view (bdev fs) d'"
proof -
  define bs where "bs = unat (super_block_size (sup fs))"
  define d where "d = bdev fs"
  have d: "cache_inv d" "s_blocksize d = bs" "0 < bs" using ok by (simp_all add: fs_ok_def d_def bs_def)
  note n = n [folded bs_def, unfolded after_first_def]
  show ?thesis unfolding bs_def [symmetric] d_def [symmetric]
  proof (cases "w mod bs = 0")
    case True
    then show "\<exists>d'. pread_buffered n w fs = Inr (n, flat_slice (view d) bs w n, fs\<lparr>bdev := d'\<rparr>) \<and> same_view d d'"
      using pread_mid_ok [OF d(1), of n w] d n by (auto simp: pread_buffered_def bs_def [symmetric] d_def [symmetric])
  next
    case False
    let ?o = "w mod bs" let ?f = "min n (bs - ?o)"
    have o: "?o < bs" "(w - ?o) div bs * bs + ?o = w" using d(3) by (simp_all add: minus_mod_eq_div_mult)
    have f: "?o + ?f \<le> bs" using o(1) by linarith
    obtain d1 where d1: "bread_copy ((w - ?o) div bs) ?o ?f d = Inr (Some (flat_slice (view d) bs w ?f), d1)" "same_view d d1"
      using bread_copy_ok [OF d(1), of ?o ?f "(w - ?o) div bs"] d o f by auto
    show "\<exists>d'. pread_buffered n w fs = Inr (n, flat_slice (view d) bs w n, fs\<lparr>bdev := d'\<rparr>) \<and> same_view d d'"
    proof (cases "n \<le> bs - ?o")
      case True
      then show ?thesis using d1 False by (auto simp: pread_buffered_def bs_def [symmetric] d_def [symmetric])
    next
      case gt: False
      have v: "cache_inv d1" "s_blocksize d1 = bs" "view d1 = view d" using d1(2) d by (simp_all add: same_view_def)
      have r: "n - (bs - ?o) < 2 * bs" using n False by (simp only: if_False)
      have al: "(w + (bs - ?o)) mod bs = 0"
      proof -
        have "w + (bs - ?o) = (w - ?o) + bs" using o(1) mod_less_eq_dividend [of w bs] by linarith
        then show ?thesis by (simp add: minus_mod_eq_div_mult)
      qed
      obtain d2 where d2: "pread_mid bs (n - (bs - ?o)) (w + (bs - ?o)) d1 =
          Inr (n - (bs - ?o), flat_slice (view d) bs (w + (bs - ?o)) (n - (bs - ?o)), d2)" "same_view d1 d2"
        using pread_mid_ok [OF v(1), unfolded v(2,3), OF r al] by auto
      show ?thesis
        using d1 d2 False gt same_view_trans [OF d1(2) d2(2)]
          flat_slice_append [of "view d" bs w "bs - ?o" "n - (bs - ?o)"]
        by (auto simp: pread_buffered_def bs_def [symmetric] d_def [symmetric])
    qed
  qed
qed

section \<open>Writing\<close>

text \<open>\<open>v'\<close> is \<open>v\<close> with the bytes \<open>xs\<close> from byte \<open>w\<close> on.\<close>

definition flat_update :: "(u64 \<Rightarrow> bytes) \<Rightarrow> nat \<Rightarrow> nat \<Rightarrow> bytes \<Rightarrow> (u64 \<Rightarrow> bytes) \<Rightarrow> bool" where
  "flat_update v bs w xs v' \<longleftrightarrow>
     (\<forall>i < 2 ^ 64 * bs. flat v' bs i = (if w \<le> i \<and> i < w + length xs then xs ! (i - w) else flat v bs i))"

lemma flat_update_append:
  assumes "flat_update v bs w xs v'" "flat_update v' bs (w + length xs) ys v''"
  shows "flat_update v bs w (xs @ ys) v''"
  using assms by (auto simp: flat_update_def nth_append)

lemma of_nat_u64_eq: "i < 2 ^ 64 \<Longrightarrow> j < 2 ^ 64 \<Longrightarrow> (of_nat i :: u64) = of_nat j \<longleftrightarrow> i = j"
  by (simp add: word_unat_eq_iff unsigned_of_nat take_bit_nat_eq_self)

lemma flat_update_block:
  assumes "off + length xs \<le> bs" "length (v (of_nat blk)) = bs" "0 < bs" "blk < 2 ^ 64"
  shows "flat_update v bs (blk * bs + off) xs (v(of_nat blk := splice (v (of_nat blk)) off xs))"
  unfolding flat_update_def
proof (intro allI impI)
  fix i assume i: "i < 2 ^ 64 * bs"
  define j k where "j = i div bs" and "k = i mod bs"
  have ij: "i = j * bs + k" "k < bs" "i div bs = j" "i mod bs = k" using assms(3) by (simp_all add: j_def k_def)
  have "j < 2 ^ 64" using i by (simp add: j_def less_mult_imp_div_less)
  then have e: "(of_nat j :: u64) = of_nat blk \<longleftrightarrow> j = blk" using of_nat_u64_eq assms(4) by blast
  show "flat (v(of_nat blk := splice (v (of_nat blk)) off xs)) bs i =
      (if blk * bs + off \<le> i \<and> i < blk * bs + off + length xs then xs ! (i - (blk * bs + off)) else flat v bs i)"
  proof (cases "j = blk")
    case True
    then have "blk * bs + off \<le> i \<and> i < blk * bs + off + length xs \<longleftrightarrow> off \<le> k \<and> k < off + length xs"
      "i - (blk * bs + off) = k - off"
      using ij(1) by auto
    then show ?thesis using True e ij assms by (simp add: flat_def nth_splice)
  next
    case False
    then have "Suc j * bs \<le> blk * bs \<or> Suc blk * bs \<le> j * bs"
      using mult_le_mono1 [of "Suc j" blk bs] mult_le_mono1 [of "Suc blk" j bs] by linarith
    then have "\<not> (blk * bs + off \<le> i \<and> i < blk * bs + off + length xs)"
      using ij(1,2) assms(1) by auto
    then have c: "(blk * bs + off \<le> i \<and> i < blk * bs + off + length xs) = False" by blast
    show ?thesis unfolding c using False e by (simp add: flat_def ij(3))
  qed
qed

definition updated :: "block_device \<Rightarrow> nat \<Rightarrow> bytes \<Rightarrow> block_device \<Rightarrow> bool" where
  "updated d w xs d' \<longleftrightarrow> cache_inv d' \<and> refs d' = refs d \<and> s_blocksize d' = s_blocksize d \<and>
     flat_update (view d) (s_blocksize d) w xs (view d')"

lemma updated_append:
  "updated d w xs d' \<Longrightarrow> updated d' (w + length xs) ys d'' \<Longrightarrow> updated d w (xs @ ys) d''"
  using flat_update_append by (auto simp: updated_def)

lemma bread_store_ok:
  assumes "cache_inv d" "off + length xs \<le> s_blocksize d" "0 < s_blocksize d" "blk < 2 ^ 64"
  shows "\<exists>d'. bread_store blk off xs d = Inr (True, d') \<and> updated d (blk * s_blocksize d + off) xs d'"
proof -
  have l: "length (view d (of_nat blk)) = s_blocksize d" by (rule bs.vw_length [OF assms(1)])
  have l': "length (splice (view d (of_nat blk)) off xs) = s_blocksize d" using l assms(2) by simp
  obtain d1 d2 where c: "fs_bread (of_nat blk) d = Inr (Some (of_nat blk), d1)" "bh_data (of_nat blk) d1 = view d (of_nat blk)"
    "fs_brelse (of_nat blk) (dirty_store (of_nat blk) (splice (bh_data (of_nat blk) d1) off xs) d1) = Inr d2"
    "cache_inv d2" "view d2 = (view d)(of_nat blk := splice (view d (of_nat blk)) off xs)" "refs d2 = refs d"
    "s_blocksize d2 = s_blocksize d"
    using bs.update_cycle [OF assms(1), of "\<lambda>m. splice m off xs", OF l'] by metis
  then show ?thesis
    using l assms flat_update_block [of off xs "s_blocksize d" "view d" blk]
    by (simp add: bread_store_def store_release_def updated_def)
qed

lemma bwrite_store_ok:
  assumes "cache_inv d" "length xs = s_blocksize d" "0 < s_blocksize d" "blk < 2 ^ 64"
  shows "\<exists>d'. bwrite_store blk xs d = Inr (True, d') \<and> updated d (blk * s_blocksize d) xs d'"
proof -
  have l: "length (view d (of_nat blk)) = s_blocksize d" by (rule bs.vw_length [OF assms(1)])
  obtain d1 d2 where c: "fs_bwrite (of_nat blk) d = (Some (of_nat blk), d1)"
    "fs_brelse (of_nat blk) (dirty_store (of_nat blk) xs d1) = Inr d2"
    "cache_inv d2" "view d2 = (view d)(of_nat blk := xs)" "refs d2 = refs d" "s_blocksize d2 = s_blocksize d"
    using bs.overwrite_cycle [OF assms(1,2)] by metis
  have "cache_inv d1" "refs d1 = (refs d)(of_nat blk := refs d (of_nat blk) + 1)" "view d1 = view d"
    using fs_bwrite_ok [OF assms(1), of "of_nat blk"] c(1) by auto
  then have ld: "length (bh_data (of_nat blk) d1) = s_blocksize d"
    using bh_data_length [of d1 "of_nat blk"] bs.bsize_vw [OF assms(1), of d1] refs_nonneg [OF assms(1), of "of_nat blk"]
    by simp
  have sp: "splice m 0 xs = xs" if "length m = length xs" for m using that by (simp add: splice_def)
  show ?thesis
    using c ld assms flat_update_block [of 0 xs "s_blocksize d" "view d" blk] l
    by (simp add: bwrite_store_def store_release_def sp updated_def)
qed

lemma div_u64: "w < 2 ^ 63 \<Longrightarrow> w div bs < 2 ^ 64" for w bs :: nat
  by (rule le_less_trans [OF div_le_dividend]) simp

lemma pwrite_last_ok:
  assumes "cache_inv d" "length p < s_blocksize d" "w mod s_blocksize d = 0" "w < 2 ^ 63"
  shows "\<exists>d'. pwrite_last (s_blocksize d) p w d = Inr (length p, d') \<and> updated d w p d'"
proof -
  have "w div s_blocksize d * s_blocksize d + 0 = w" using assms(3) by auto
  moreover have "w div s_blocksize d < 2 ^ 64" by (rule div_u64 [OF assms(4)])
  ultimately show ?thesis
    using bread_store_ok [OF assms(1), of 0 p "w div s_blocksize d"] assms(2) by (auto simp: pwrite_last_def)
qed

lemma pwrite_mid_ok:
  assumes "cache_inv d" "length p < 2 * s_blocksize d" "w mod s_blocksize d = 0" "w + length p < 2 ^ 63"
  shows "\<exists>d'. pwrite_mid (s_blocksize d) p w d = Inr (length p, d') \<and> updated d w p d'"
proof (cases "length p < s_blocksize d")
  case True
  then show ?thesis using pwrite_last_ok [OF assms(1) True assms(3)] assms(3,4) by (simp add: pwrite_mid_def)
next
  case False
  let ?bs = "s_blocksize d"
  have one: "length p div ?bs = 1" using False assms(2) by (simp add: div_nat_eqI)
  have pos: "0 < ?bs" using assms(2) by simp
  have w: "w div ?bs * ?bs = w" "w div ?bs < 2 ^ 64"
    using assms(3,4) div_u64 [of w ?bs] by auto
  have tk: "length (take ?bs p) = ?bs" using False by simp
  obtain d1 where d1: "bwrite_store (w div ?bs) (take ?bs p) d = Inr (True, d1)" "updated d w (take ?bs p) d1"
    using bwrite_store_ok [OF assms(1) tk pos w(2)] w(1) by auto
  show ?thesis
  proof (cases "length p = ?bs")
    case True
    then show ?thesis using d1 pos assms(3) by (auto simp: pwrite_mid_def Let_def)
  next
    case neq: False
    have v: "cache_inv d1" "s_blocksize d1 = ?bs" using d1(2) by (simp_all add: updated_def)
    have r: "length (drop ?bs p) < ?bs" "(w + ?bs) mod ?bs = 0" "w + ?bs < 2 ^ 63"
      using assms(2,3,4) False by auto
    obtain d2 where d2: "pwrite_last ?bs (drop ?bs p) (w + ?bs) d1 = Inr (length (drop ?bs p), d2)"
        "updated d1 (w + ?bs) (drop ?bs p) d2"
      using pwrite_last_ok [OF v(1), unfolded v(2), OF r] by auto
    have "updated d w p d2" using updated_append [OF d1(2), of "drop ?bs p" d2] d2(2) tk by simp
    then show ?thesis
      using d1 d2 one pos assms(3) False neq by (simp add: pwrite_mid_def)
  qed
qed

lemma pwrite_buffered_ok:
  assumes ok: "fs_ok fs" and n: "after_first (unat (super_block_size (sup fs))) w (length p) < 2 * unat (super_block_size (sup fs))"
    and b: "w + length p < 2 ^ 63"
  shows "\<exists>d'. pwrite_buffered p w fs = Inr (length p, fs\<lparr>bdev := d'\<rparr>) \<and> updated (bdev fs) w p d'"
proof -
  define bs where "bs = unat (super_block_size (sup fs))"
  define d where "d = bdev fs"
  have d: "cache_inv d" "s_blocksize d = bs" "0 < bs" using ok by (simp_all add: fs_ok_def d_def bs_def)
  note n = n [folded bs_def, unfolded after_first_def]
  note defs = pwrite_buffered_def bs_def [symmetric] d_def [symmetric]
  show ?thesis unfolding d_def [symmetric]
  proof (cases "w mod bs = 0")
    case True
    then show "\<exists>d'. pwrite_buffered p w fs = Inr (length p, fs\<lparr>bdev := d'\<rparr>) \<and> updated d w p d'"
      using pwrite_mid_ok [OF d(1), of p w] d n b by (auto simp: defs)
  next
    case False
    let ?o = "w mod bs" let ?f = "min (length p) (bs - ?o)"
    have o: "?o < bs" "(w - ?o) div bs * bs + ?o = w" using d(3) by (simp_all add: minus_mod_eq_div_mult)
    have f: "?o + length (take ?f p) \<le> bs" using o(1) by simp
    have blk: "(w - ?o) div bs < 2 ^ 64" by (rule div_u64) (use b in simp)
    obtain d1 where d1: "bread_store ((w - ?o) div bs) ?o (take ?f p) d = Inr (True, d1)" "updated d w (take ?f p) d1"
      using bread_store_ok [OF d(1), unfolded d(2), OF f d(3) blk] o(2) by auto
    show "\<exists>d'. pwrite_buffered p w fs = Inr (length p, fs\<lparr>bdev := d'\<rparr>) \<and> updated d w p d'"
    proof (cases "length p \<le> bs - ?o")
      case True
      then show ?thesis using d1 False by (auto simp: defs)
    next
      case gt: False
      have v: "cache_inv d1" "s_blocksize d1 = bs" using d1(2) d by (simp_all add: updated_def)
      have "w + (bs - ?o) = (w - ?o) + bs" using o(1) mod_less_eq_dividend [of w bs] by linarith
      then have al: "(w + (bs - ?o)) mod bs = 0" by (simp add: minus_mod_eq_div_mult)
      have r: "length (drop (bs - ?o) p) < 2 * bs" using n False by (simp only: if_False length_drop)
      have b': "w + (bs - ?o) + length (drop (bs - ?o) p) < 2 ^ 63" using b gt by simp
      obtain d2 where d2: "pwrite_mid bs (drop (bs - ?o) p) (w + (bs - ?o)) d1 = Inr (length (drop (bs - ?o) p), d2)"
          "updated d1 (w + (bs - ?o)) (drop (bs - ?o) p) d2"
        using pwrite_mid_ok [OF v(1), unfolded v(2), OF r al b'] by auto
      have mf: "?f = bs - ?o" "length (take (bs - ?o) p) = bs - ?o" using gt by simp_all
      have "updated d w p d2"
        using updated_append [OF d1(2) [unfolded mf(1)], of "drop (bs - ?o) p" d2] d2(2) mf(2) by simp
      then show ?thesis using d1(1) [unfolded mf(1)] d2(1) False gt mf(1) by (auto simp: defs)
    qed
  qed
qed

section \<open>disk_read() and disk_write()\<close>

text \<open>A request that disk.c can serve: it covers at most one full block in its middle part.\<close>

definition servable :: "fs \<Rightarrow> nat \<Rightarrow> nat \<Rightarrow> bool" where
  "servable fs w n \<longleftrightarrow>
     after_first (unat (super_block_size (sup fs))) w n < 2 * unat (super_block_size (sup fs)) \<and> w + n < 2 ^ 63"

definition fs_flat :: "fs \<Rightarrow> nat \<Rightarrow> u8" where
  "fs_flat fs = flat (view (bdev fs)) (unat (super_block_size (sup fs)))"

lemma disk_read_ok:
  assumes "fs_ok fs" "servable fs w n"
  shows "\<exists>fs'. disk_read w n fs = Inr (map (fs_flat fs) [w ..< w + n], fs') \<and> fs_ok fs' \<and>
    sup fs' = sup fs \<and> view (bdev fs') = view (bdev fs) \<and> refs (bdev fs') = refs (bdev fs)"
  using pread_buffered_ok [OF assms(1), of w n] assms
  by (auto simp: disk_read_def servable_def flat_slice_def fs_flat_def same_view_def fs_ok_def)

lemma disk_write_ok:
  assumes "fs_ok fs" "servable fs w (length p)"
  shows "\<exists>fs'. disk_write w p fs = Inr fs' \<and> fs_ok fs' \<and> sup fs' = sup fs \<and> refs (bdev fs') = refs (bdev fs) \<and>
    (\<forall>i < 2 ^ 64 * unat (super_block_size (sup fs)). fs_flat fs' i =
       (if w \<le> i \<and> i < w + length p then p ! (i - w) else fs_flat fs i))"
  using pwrite_buffered_ok [OF assms(1), of w p] assms
  by (auto simp: disk_write_def servable_def fs_flat_def updated_def flat_update_def fs_ok_def)

lemma after_first_le: "after_first bs w n \<le> n"
  by (simp add: after_first_def)

lemma servable_small:
  "n \<le> unat (super_block_size (sup fs)) \<Longrightarrow> 0 < unat (super_block_size (sup fs)) \<Longrightarrow> w + n < 2 ^ 63 \<Longrightarrow> servable fs w n"
  using after_first_le [of "unat (super_block_size (sup fs))" w n] by (simp add: servable_def)

section \<open>Properties\<close>

lemma write_then_read:
  assumes "fs_ok fs" "servable fs w (length p)"
  shows "\<exists>fs1 fs2. disk_write w p fs = Inr fs1 \<and> disk_read w (length p) fs1 = Inr (p, fs2) \<and> fs_ok fs2 \<and>
    (\<forall>i < 2 ^ 63. \<not> (w \<le> i \<and> i < w + length p) \<longrightarrow> fs_flat fs2 i = fs_flat fs i)"
proof -
  let ?bs = "unat (super_block_size (sup fs))"
  have bs: "0 < ?bs" using assms(1) by (simp add: fs_ok_def)
  then have big: "i < 2 ^ 64 * ?bs" if "i < 2 ^ 63" for i :: nat
    using that by (cases ?bs) auto
  obtain fs1 where f1: "disk_write w p fs = Inr fs1" "fs_ok fs1" "sup fs1 = sup fs"
    "\<forall>i < 2 ^ 64 * ?bs. fs_flat fs1 i = (if w \<le> i \<and> i < w + length p then p ! (i - w) else fs_flat fs i)"
    using disk_write_ok [OF assms] by blast
  have sv: "servable fs1 w (length p)" using assms(2) f1(3) by (simp add: servable_def)
  obtain fs2 where f2: "disk_read w (length p) fs1 = Inr (map (fs_flat fs1) [w ..< w + length p], fs2)"
    "fs_ok fs2" "sup fs2 = sup fs1" "view (bdev fs2) = view (bdev fs1)"
    using disk_read_ok [OF f1(2) sv] by blast
  have fl: "fs_flat fs2 = fs_flat fs1" using f2(3,4) by (simp add: fs_flat_def)
  have w: "w + length p < 2 ^ 63" using assms(2) by (simp add: servable_def)
  have "map (fs_flat fs1) [w ..< w + length p] = p"
    by (rule nth_equalityI) (use f1(4) big w in \<open>auto simp: less_trans\<close>)
  then show ?thesis using f1 f2 fl big by auto
qed

text \<open>C15: What disk_write() stored is what disk_read() of the same range returns, and every byte of the
  device outside the range still reads as before, whatever the alignment of the range, as long as the
  range has at most one whole block after the part in its first block.\<close>

theorem disk_write_read:
  assumes "fs_ok fs" "servable fs w (length p)"
  shows "\<exists>fs1 fs2. disk_write w p fs = Inr fs1 \<and> disk_read w (length p) fs1 = Inr (p, fs2) \<and> fs_ok fs2 \<and>
    (\<forall>i < 2 ^ 63. \<not> (w \<le> i \<and> i < w + length p) \<longrightarrow> fs_flat fs2 i = fs_flat fs i)"
  by (rule write_then_read [OF assms])

text \<open>C22: A read of two or more whole blocks from an aligned offset is not served: pread_buffered() copies
  all of them out of the buffer of the first block, beyond its end.\<close>

theorem disk_read_two_blocks_overflow:
  assumes "fs_ok fs" "w mod unat (super_block_size (sup fs)) = 0" "2 * unat (super_block_size (sup fs)) \<le> n"
  shows "disk_read w n fs = Inl Undefined"
proof -
  define bs where "bs = unat (super_block_size (sup fs))"
  define d where "d = bdev fs"
  have d: "cache_inv d" "s_blocksize d = bs" "0 < bs" using assms(1) by (simp_all add: fs_ok_def d_def bs_def)
  obtain d1 where d1: "fs_bread (of_nat (w div bs)) d = Inr (Some (of_nat (w div bs)), d1)"
    "bh_data (of_nat (w div bs)) d1 = view d (of_nat (w div bs))"
    using fs_bread_ok [OF d(1), of "of_nat (w div bs)"] by blast
  have l: "length (view d (of_nat (w div bs))) = bs" using bs.vw_length [OF d(1)] d(2) by simp
  have "2 \<le> n div bs" using assms(3) d(3) by (simp add: bs_def less_eq_div_iff_mult_less_eq)
  then have "2 * bs \<le> n div bs * bs" by (rule mult_le_mono1)
  then have m: "\<not> n div bs * bs \<le> bs" "n div bs * bs \<noteq> 0" using d(3) by linarith+
  have "bread_copy (w div bs) 0 (n div bs * bs) d = Inl Undefined"
    using d1 l m by (simp add: bread_copy_def Let_def)
  then show ?thesis
    using m assms(2) by (simp add: disk_read_def pread_buffered_def pread_mid_def Let_def bs_def [symmetric] d_def [symmetric])
qed

text \<open>A file system on the cache of a blank device, for the witnesses.\<close>

definition demo_fs :: fs where
  "demo_fs = \<lparr>sup = demo_super, bdev = fs_cache_init 10 (\<lambda>_. replicate 1024 0) (\<lambda>_. 0) (\<lambda>_. replicate 1024 0)\<rparr>"

lemma demo_fs_ok: "fs_ok demo_fs" "super_block_size (sup demo_fs) = 1024"
  using cache_init_inv [of "\<lambda>_. replicate 1024 0" 10 "\<lambda>_. replicate 1024 0"]
  by (simp_all add: fs_ok_def demo_fs_def demo_super_eval)

theorem disk_write_read_witness:
  "\<exists>fs1 fs2. disk_write 1000 [1, 2, 3] demo_fs = Inr fs1 \<and> disk_read 1000 3 fs1 = Inr ([1, 2, 3], fs2)"
  using disk_write_read [OF demo_fs_ok(1), of 1000 "[1, 2, 3]"] demo_fs_ok(2)
  by (auto simp: servable_def after_first_def numeral_3_eq_3)

theorem disk_read_two_blocks_overflow_witness: "disk_read 1024 2048 demo_fs = Inl Undefined"
  by (rule disk_read_two_blocks_overflow) (simp_all add: demo_fs_ok)

text \<open>A disk context hands out the bytes of its range once and in order: a read of \<open>n\<close> bytes returns
  the next \<open>min n size\<close> bytes and advances, so that the end of the range stays where it was.\<close>

theorem disk_ctx_read_spec:
  assumes "fs_ok fs" "ctx_size ctx \<noteq> 0" "servable fs (ctx_cur ctx) (min n (ctx_size ctx))"
  shows "\<exists>ctx' fs'. disk_ctx_read ctx n fs =
      Inr (ctx', map (fs_flat fs) [ctx_cur ctx ..< ctx_cur ctx + min n (ctx_size ctx)], fs') \<and>
    ctx_cur ctx' = ctx_cur ctx + min n (ctx_size ctx) \<and>
    ctx_cur ctx' + ctx_size ctx' = ctx_cur ctx + ctx_size ctx \<and> fs_ok fs'"
proof -
  have e: "(if ctx_size ctx < n then ctx_size ctx else n) = min n (ctx_size ctx)" by simp
  obtain fs' where "disk_read (ctx_cur ctx) (min n (ctx_size ctx)) fs =
      Inr (map (fs_flat fs) [ctx_cur ctx ..< ctx_cur ctx + min n (ctx_size ctx)], fs')" "fs_ok fs'"
    using disk_read_ok [OF assms(1,3)] by blast
  then show ?thesis using assms(2) by (simp add: disk_ctx_read_def Let_def e)
qed

theorem disk_ctx_read_spec_witness:
  "\<exists>ctx' fs'. disk_ctx_read \<lparr>ctx_cur = 2048, ctx_size = 1024\<rparr> 5000 demo_fs =
     Inr (ctx', map (fs_flat demo_fs) [2048 ..< 3072], fs') \<and> ctx_size ctx' = 0"
  using disk_ctx_read_spec [OF demo_fs_ok(1), of "\<lparr>ctx_cur = 2048, ctx_size = 1024\<rparr>" 5000] demo_fs_ok(2)
  by (auto simp: servable_def after_first_def)

end
