(* ===== verification/E4F_Mount.thy ===== *)
theory E4F_Mount
  imports E4F_Disk
begin

text \<open>
  Mounting and write back of the superblock and of the group descriptors: the end of src/super.c. The
  image of the device is a function from byte positions to bytes; every block of the image exists.
\<close>

section \<open>Definitions\<close>

abbreviation (input) BOOT_SECTOR_SIZE :: nat where "BOOT_SECTOR_SIZE \<equiv> 0x400"

definition image_blocks :: "(nat \<Rightarrow> u8) \<Rightarrow> nat \<Rightarrow> u64 \<Rightarrow> bytes" where
  "image_blocks img bits b = map img [unat b * 2 ^ bits ..< unat b * 2 ^ bits + 2 ^ bits]"

definition super_fill :: "(nat \<Rightarrow> u8) \<Rightarrow> (u64 \<Rightarrow> int) \<Rightarrow> (u64 \<Rightarrow> bytes) \<Rightarrow> fs" where
  "super_fill img ioe junk =
     (let s = \<lparr>super_block = super_of (map img [BOOT_SECTOR_SIZE ..< BOOT_SECTOR_SIZE + 1024]),
               super_block_dirty = False, gdesc_table = []\<rparr>;
          bits = super_block_size_bits s
      in \<lparr>sup = s, bdev = fs_cache_init bits (image_blocks img bits) ioe junk\<rparr>)"

definition super_writeback :: "fs \<Rightarrow> fs res" where
  "super_writeback fs =
     res_bind (if super_block_dirty (sup fs)
               then disk_write BOOT_SECTOR_SIZE (super_bytes (super_block (sup fs))) fs else Inr fs) (\<lambda>fs.
       Inr (fs\<lparr>sup := (sup fs)\<lparr>super_block_dirty := False\<rparr>\<rparr>))"

definition super_uninit :: "fs \<Rightarrow> fs res" where
  "super_uninit fs = super_writeback fs"

text \<open>
  The block of the superblock and the position of the descriptor of a group; both loops compute
  them. The size of a descriptor is a power of two that divides the block size, so the mask is the
  remainder.
\<close>

definition sb_block :: "super_state \<Rightarrow> u64" where
  "sb_block s = (if super_block_size s \<noteq> EXT4_MIN_BLOCK_SIZE
                 then ucast (EXT4_MIN_BLOCK_SIZE div super_block_size s) else 1)"

definition bg_off :: "u32 \<Rightarrow> super_state \<Rightarrow> u64 res" where
  "bg_off i s =
     res_bind (descriptor_loc (sb_block s) (i div EXT4_DESC_PER_BLOCK s) s) (\<lambda>l.
       Inr (push_bit (super_block_size_bits s) l +
            ucast (super_group_desc_size s * (i AND (EXT4_DESC_PER_BLOCK s - 1)))))"

text \<open>disk_read() into a descriptor that memset() has cleared; a longer read leaves the structure.\<close>

definition group_read :: "u32 \<Rightarrow> fs \<Rightarrow> fs res" where
  "group_read i fs =
     res_bind (bg_off i (sup fs)) (\<lambda>off.
     res_bind (disk_read (unat off) (unat (super_group_desc_size (sup fs))) fs) (\<lambda>(xs, fs).
     res_bind (c_defined (length xs \<le> 64)) (\<lambda>_.
       Inr (fs\<lparr>sup := (sup fs)\<lparr>gdesc_table := (gdesc_table (sup fs))
         [unat i := \<lparr>gdesc = gdesc_of (xs @ replicate (64 - length xs) 0), dirty = False\<rparr>]\<rparr>\<rparr>))))"

definition group_write :: "u32 \<Rightarrow> fs \<Rightarrow> fs res" where
  "group_write i fs =
     res_bind (bg_off i (sup fs)) (\<lambda>off.
       if dirty (gdesc_table (sup fs) ! unat i) then
         (let s = bg_upd i (\<lambda>g. g\<lparr>bg_checksum := ext4_gdesc_checksum i (sup fs)\<rparr>) (sup fs)
          in res_bind (disk_write (unat off) (take (unat (super_group_desc_size s)) (gdesc_bytes (bg i s))) (fs\<lparr>sup := s\<rparr>)) (\<lambda>fs.
            Inr (fs\<lparr>sup := (sup fs)\<lparr>gdesc_table := (gdesc_table (sup fs))
               [unat i := (gdesc_table (sup fs) ! unat i)\<lparr>dirty := False\<rparr>]\<rparr>\<rparr>)))
       else Inr fs)"

text \<open>The loops over the groups from \<open>i\<close> on.\<close>

function for_groups :: "(u32 \<Rightarrow> fs \<Rightarrow> fs res) \<Rightarrow> u32 \<Rightarrow> fs \<Rightarrow> u32 \<Rightarrow> fs res" where
  "for_groups f i fs n = (if i < n then res_bind (f i fs) (\<lambda>fs. for_groups f (i + 1) fs n) else Inr fs)"
  by pat_completeness auto
termination
  by (relation "measure (\<lambda>(f, i, fs, n). unat n - unat i)")
    (use unat_Suc_less in \<open>force simp: word_less_nat_alt\<close>)+

declare for_groups.simps [simp del]

definition super_group_fill :: "fs \<Rightarrow> fs res" where
  "super_group_fill fs =
     res_bind (c_defined (super_blocks_per_group (sup fs) \<noteq> 0)) (\<lambda>_.
     (let n = super_n_block_groups (sup fs);
          zero = \<lparr>gdesc = gdesc_of (replicate 64 0), dirty = False\<rparr>
      in for_groups group_read 0 (fs\<lparr>sup := (sup fs)\<lparr>gdesc_table := replicate (unat n) zero\<rparr>\<rparr>) n))"

definition super_group_writeback :: "fs \<Rightarrow> fs res" where
  "super_group_writeback fs =
     res_bind (c_defined (super_blocks_per_group (sup fs) \<noteq> 0 \<and>
       unat (super_n_block_groups (sup fs)) \<le> length (gdesc_table (sup fs)))) (\<lambda>_.
       for_groups group_write 0 fs (super_n_block_groups (sup fs)))"

definition super_group_uninit :: "fs \<Rightarrow> fs res" where
  "super_group_uninit fs =
     res_bind (super_group_writeback fs) (\<lambda>fs. Inr (fs\<lparr>sup := (sup fs)\<lparr>gdesc_table := []\<rparr>\<rparr>))"

section \<open>The position of the descriptors\<close>

text \<open>Block sizes up to 64 KiB, groups that are not empty and a descriptor table behind the superblock, not spread over meta groups: descriptor_loc() has a case for META_BG, which the
  properties of mounting leave out.\<close>

definition plain_layout :: "super_state \<Rightarrow> bool" where
  "plain_layout s \<longleftrightarrow> s_log_block_size (super_block s) \<le> 6 \<and> super_blocks_per_group s \<noteq> 0 \<and>
     \<not> EXT4_HAS_INCOMPAT_FEATURE s EXT4_FEATURE_INCOMPAT_META_BG"

definition gd_base :: "super_state \<Rightarrow> nat" where
  "gd_base s = (if unat (super_block_size s) = 1024 then 2048 else unat (super_block_size s))"

abbreviation ds :: "super_state \<Rightarrow> nat" where "ds s \<equiv> unat (super_group_desc_size s)"

definition gd_pos :: "super_state \<Rightarrow> nat \<Rightarrow> nat" where
  "gd_pos s i = gd_base s + i * ds s"

lemma block_size_bits:
  assumes "plain_layout s"
  obtains j where "j \<le> 6" "super_block_size_bits s = 10 + j" "super_block_size s = 2 ^ (10 + j)"
    "unat (super_block_size s) = 2 ^ (10 + j)"
proof -
  define j where "j = unat (s_log_block_size (super_block s))"
  have j: "j \<le> 6" using assms by (simp add: plain_layout_def j_def word_le_nat_alt)
  have b: "unat (s_log_block_size (super_block s) + 10) = 10 + j"
    using j by (simp add: unat_word_ariths j_def)
  have "j \<in> {0, 1, 2, 3, 4, 5, 6}" using j by auto
  then have "super_block_size s = 2 ^ (10 + j)" "unat (super_block_size s) = 2 ^ (10 + j)"
    unfolding super_block_size_def b by auto
  then show thesis using that [of j] j b by (simp add: super_block_size_bits_def)
qed

lemma desc_size: "super_group_desc_size s = 32 \<or> super_group_desc_size s = 64"
  by (simp add: super_group_desc_size_def)

lemma unat_pow2: "n < LENGTH('a) \<Longrightarrow> unat (2 ^ n :: 'a::len word) = 2 ^ n"
proof -
  assume n: "n < LENGTH('a)"
  have "unat (push_bit n (1 :: 'a word)) = take_bit LENGTH('a) (push_bit n (unat (1 :: 'a word)))"
    by (rule unsigned_push_bit_eq)
  then show ?thesis using n by (simp add: push_bit_eq_mult take_bit_nat_eq_self)
qed

lemma desc_arith:
  fixes i :: u32 and sb :: u64
  assumes e: "e \<le> 11" and d: "d * 2 ^ e = 2 ^ bits" and bits: "bits \<le> 16" and sb: "unat sb \<le> 1"
  shows "unat (push_bit bits (sb + ucast (i div 2 ^ e) + 1) + ucast (of_nat d * (i AND (2 ^ e - 1)) :: u32)) =
    (unat sb + 1) * 2 ^ bits + unat i * d"
proof -
  have pe: "unat (2 ^ e :: u32) = 2 ^ e" using e by (intro unat_pow2) simp
  have q: "unat (ucast (i div 2 ^ e) :: u64) = unat i div 2 ^ e" by (simp add: unat_ucast_up unat_div pe)
  have "i AND (2 ^ e - 1) = i mod 2 ^ e"
    by (simp only: mask_eq_exp_minus_1 [symmetric] take_bit_eq_mask [symmetric] take_bit_eq_mod)
  then have r: "unat (i AND (2 ^ e - 1)) = unat i mod 2 ^ e" by (simp add: unat_mod pe)
  have d0: "0 < d" using d by (cases d) simp_all
  have "d * (unat i mod 2 ^ e) < d * 2 ^ e" by (rule mult_strict_left_mono) (simp_all add: d0)
  then have dm: "d * (unat i mod 2 ^ e) < 2 ^ bits" by (simp only: d)
  have "d * 1 \<le> d * 2 ^ e" by (rule mult_le_mono2) simp
  then have dl: "d \<le> 2 ^ bits" by (simp only: d mult_1_right)
  have "(2 :: nat) ^ bits \<le> 2 ^ 16" using bits by (intro power_increasing) simp_all
  then have b16: "(2 :: nat) ^ bits \<le> 65536" by simp
  have "d < 2 ^ 32" "d * (unat i mod 2 ^ e) < 2 ^ 32" using dl dm b16 by simp_all
  then have a: "unat (of_nat d * (i AND (2 ^ e - 1)) :: u32) = d * (unat i mod 2 ^ e)"
    by (simp add: unat_word_ariths r unat_of_nat)
  have il: "unat i div 2 ^ e \<le> unat i" by (rule div_le_dividend)
  have "unat i < 2 ^ LENGTH(32)" by (rule unsigned_less)
  then have "unat i < 4294967296" by simp
  then have "unat sb + unat i div 2 ^ e + 1 < 8589934592" using il sb by linarith
  then have "unat sb + unat i div 2 ^ e + 1 < 2 ^ 33" by simp
  then have s: "unat (sb + ucast (i div 2 ^ e) + 1) = unat sb + unat i div 2 ^ e + 1" 
    "unat sb + unat i div 2 ^ e + 1 < 2 ^ 33"
    by (simp_all add: unat_word_ariths q)
  have "(unat sb + unat i div 2 ^ e + 1) * 2 ^ bits \<le> 2 ^ 33 * 2 ^ 16"
    by (rule mult_le_mono) (use s(2) b16 in simp_all)
  then have big: "(unat sb + unat i div 2 ^ e + 1) * 2 ^ bits < 2 ^ 50" by simp
  then have p: "unat (push_bit bits (sb + ucast (i div 2 ^ e) + 1)) = (unat sb + unat i div 2 ^ e + 1) * 2 ^ bits"
    unfolding unsigned_push_bit_eq s(1) unfolding push_bit_eq_mult
    using big by (intro take_bit_nat_eq_self) simp
  have "unat (push_bit bits (sb + ucast (i div 2 ^ e) + 1) + ucast (of_nat d * (i AND (2 ^ e - 1)) :: u32)) =
    (unat sb + unat i div 2 ^ e + 1) * 2 ^ bits + d * (unat i mod 2 ^ e)"
    using big dm b16 unat_add_lem [THEN iffD1, of "push_bit bits (sb + ucast (i div 2 ^ e) + 1)"
        "ucast (of_nat d * (i AND (2 ^ e - 1)) :: u32)"]
    unfolding p unat_ucast_up a by simp
  also have "\<dots> = (unat sb + 1) * 2 ^ bits + d * (2 ^ e * (unat i div 2 ^ e) + unat i mod 2 ^ e)"
    unfolding d [symmetric] by (simp only: distrib_left distrib_right mult.assoc mult.commute mult.left_commute add.assoc add.commute add.left_commute)
  also have "2 ^ e * (unat i div 2 ^ e) + unat i mod 2 ^ e = unat i" by simp
  finally show ?thesis by (simp only: mult.commute)
qed

lemma bg_off_plain:
  assumes "plain_layout s"
  shows "\<exists>off. bg_off i s = Inr off \<and> unat off = gd_pos s (unat i)"
proof -
  obtain j where j: "j \<le> 6" "super_block_size_bits s = 10 + j" "super_block_size s = 2 ^ (10 + j)"
    "unat (super_block_size s) = 2 ^ (10 + j)"
    by (rule block_size_bits [OF assms])
  define e where "e = (if super_group_desc_size s = 32 then 5 + j else 4 + j)"
  have d: "ds s * 2 ^ e = 2 ^ (10 + j)" using desc_size [of s] by (auto simp: e_def power_add)
  have el: "e \<le> 11" using j(1) by (simp add: e_def)
  have "unat (super_block_size s div super_group_desc_size s) = 2 ^ e"
    unfolding unat_div j(4) d [symmetric] using desc_size [of s] by auto
  then have dpb: "EXT4_DESC_PER_BLOCK s = 2 ^ e"
    using unat_pow2 [of e, where 'a = 32] el by (simp add: EXT4_DESC_PER_BLOCK_def word_unat_eq_iff)
  have k: "(2 :: nat) ^ (10 + j) = 1024 \<longleftrightarrow> j = 0"
    using power_inject_exp [of "2 :: nat" "10 + j" 10] by simp
  have sb: "unat (sb_block s) \<le> 1 \<and> gd_base s = (unat (sb_block s) + 1) * 2 ^ (10 + j)"
  proof (cases "j = 0")
    case False
    then have ne: "super_block_size s \<noteq> 1024" "unat (super_block_size s) \<noteq> 1024" using k j(4) by (auto simp: word_unat_eq_iff)
    have "1024 < (2 :: nat) ^ (10 + j)" using False power_strict_increasing [of 10 "10 + j" "2 :: nat"] by simp
    then have "unat (1024 div super_block_size s) = 0" by (simp add: unat_div j(4))
    then show ?thesis using ne j(4) by (simp add: sb_block_def gd_base_def unat_ucast_up)
  qed (use j in \<open>simp add: sb_block_def gd_base_def\<close>)
  show ?thesis
    using desc_arith [of e "ds s" "10 + j" "sb_block s" i] j d el sb assms
    by (simp add: bg_off_def descriptor_loc_def dpb plain_layout_def gd_pos_def)
qed

section \<open>Reading the descriptors\<close>

lemma for_groups_rule:
  assumes "\<And>j fs. j < n \<Longrightarrow> P (unat j) fs \<Longrightarrow> \<exists>fs'. f j fs = Inr fs' \<and> P (Suc (unat j)) fs'"
  shows "i \<le> n \<Longrightarrow> P (unat i) fs \<Longrightarrow> \<exists>fs'. for_groups f i fs n = Inr fs' \<and> P (unat n) fs'"
proof (induction "unat n - unat i" arbitrary: i fs rule: less_induct)
  case less
  show ?case
  proof (cases "i < n")
    case True
    then obtain fs' where fs': "f i fs = Inr fs'" "P (Suc (unat i)) fs'" using less.prems(2) assms by blast
    note u = unat_Suc_less [OF True]
    have "i + 1 \<le> n" "P (unat (i + 1)) fs'" "unat n - unat (i + 1) < unat n - unat i"
      using u True fs'(2) by (simp_all add: word_le_nat_alt word_less_nat_alt)
    with True fs' less.hyps [of "i + 1" fs'] show ?thesis by (simp add: for_groups.simps [of f i] for_groups.simps [of f n])
  next
    case False
    then have "i = n" using less.prems(1) by simp
    with less.prems(2) show ?thesis by (simp add: for_groups.simps [of f i] for_groups.simps [of f n])
  qed
qed

lemma super_size_table [simp]:
  "super_block_size (s\<lparr>gdesc_table := t\<rparr>) = super_block_size s"
  "super_n_block_groups (s\<lparr>gdesc_table := t\<rparr>) = super_n_block_groups s"
  "super_group_desc_size (s\<lparr>gdesc_table := t\<rparr>) = super_group_desc_size s"
  "plain_layout (s\<lparr>gdesc_table := t\<rparr>) = plain_layout s"
  "gd_pos (s\<lparr>gdesc_table := t\<rparr>) = gd_pos s"
  by (simp_all add: super_block_size_def super_n_block_groups_def super_group_desc_size_def plain_layout_def
      EXT4_HAS_INCOMPAT_FEATURE_def gd_pos_def gd_base_def fun_eq_iff ext4_blocks_count_def super_blocks_per_group_def)

definition flat_at :: "fs \<Rightarrow> nat \<Rightarrow> nat \<Rightarrow> bytes" where
  "flat_at fs w n = map (fs_flat fs) [w ..< w + n]"

text \<open>The entry of the table that is read for group \<open>i\<close>.\<close>

definition entry :: "fs \<Rightarrow> nat \<Rightarrow> group_desc_info" where
  "entry fs i = \<lparr>gdesc = gdesc_of (flat_at fs (gd_pos (sup fs) i) (ds (sup fs)) @ replicate (64 - ds (sup fs)) 0), dirty = False\<rparr>"

lemma gd_servable:
  assumes "fs_ok fs" "plain_layout (sup fs)"
  shows "servable fs (gd_pos (sup fs) (unat (i :: u32))) (ds (sup fs))"
proof -
  obtain j where j: "j \<le> 6" "unat (super_block_size (sup fs)) = 2 ^ (10 + j)"
    by (rule block_size_bits [OF assms(2)])
  have d: "ds (sup fs) \<le> 64" "ds (sup fs) \<le> 2 ^ 6" using desc_size [of "sup fs"] by auto
  have "(2 :: nat) ^ (10 + j) \<le> 2 ^ 16" using j(1) by (intro power_increasing) simp_all
  then have b: "gd_base (sup fs) \<le> 2 ^ 16" using j(2) by (simp add: gd_base_def)
  have "unat i < 2 ^ LENGTH(32)" by (rule unsigned_less)
  then have "unat i * ds (sup fs) \<le> 2 ^ 32 * 64" using d by (intro mult_le_mono) simp_all
  then have "gd_pos (sup fs) (unat i) + ds (sup fs) < 2 ^ 63" using b d by (simp add: gd_pos_def)
  moreover have "ds (sup fs) \<le> unat (super_block_size (sup fs))"
    using d(2) power_increasing [of 6 "10 + j" "2 :: nat"] j(2) by simp
  ultimately show ?thesis using assms(1) by (intro servable_small) (simp_all add: fs_ok_def)
qed

lemma group_read_ok:
  assumes "fs_ok fs" "plain_layout (sup fs)"
  shows "\<exists>d. group_read i fs = Inr \<lparr>sup = (sup fs)\<lparr>gdesc_table := (gdesc_table (sup fs))[unat i := entry fs (unat i)]\<rparr>, bdev = d\<rparr> \<and>
     same_view (bdev fs) d"
proof -
  obtain off where off: "bg_off i (sup fs) = Inr off" "unat off = gd_pos (sup fs) (unat i)"
    using bg_off_plain [OF assms(2)] by blast
  obtain fs' where r: "disk_read (gd_pos (sup fs) (unat i)) (ds (sup fs)) fs =
      Inr (flat_at fs (gd_pos (sup fs) (unat i)) (ds (sup fs)), fs')" "fs_ok fs'" "sup fs' = sup fs"
      "view (bdev fs') = view (bdev fs)" "refs (bdev fs') = refs (bdev fs)"
    using disk_read_ok [OF assms(1) gd_servable [OF assms]] unfolding flat_at_def by blast
  have l: "ds (sup fs) \<le> 64" using desc_size [of "sup fs"] by auto
  show ?thesis
    using r assms(1) l
    by (intro exI [of _ "bdev fs'"]) (cases fs', simp add: group_read_def off entry_def flat_at_def same_view_def fs_ok_def)
qed

lemma super_group_fill_ok:
  assumes "fs_ok fs" "plain_layout (sup fs)"
  shows "\<exists>d. super_group_fill fs = Inr \<lparr>sup = (sup fs)\<lparr>gdesc_table := map (entry fs) [0 ..< unat (super_n_block_groups (sup fs))]\<rparr>, bdev = d\<rparr> \<and>
     same_view (bdev fs) d"
proof -
  let ?n = "super_n_block_groups (sup fs)" and ?zero = "\<lparr>gdesc = gdesc_of (replicate 64 0), dirty = False\<rparr>"
  define P where "P k fs' \<longleftrightarrow> (\<exists>d. fs' = \<lparr>sup = (sup fs)\<lparr>gdesc_table := map (entry fs) [0 ..< k] @ replicate (unat ?n - k) ?zero\<rparr>,
    bdev = d\<rparr> \<and> same_view (bdev fs) d)" for k fs'
  have "\<exists>fs'. for_groups group_read 0 (fs\<lparr>sup := (sup fs)\<lparr>gdesc_table := replicate (unat ?n) ?zero\<rparr>\<rparr>) ?n = Inr fs' \<and> P (unat ?n) fs'"
  proof (rule for_groups_rule)
    fix j fs1 assume j: "j < ?n" and p: "P (unat j) fs1"
    obtain d where d: "fs1 = \<lparr>sup = (sup fs)\<lparr>gdesc_table := map (entry fs) [0 ..< unat j] @ replicate (unat ?n - unat j) ?zero\<rparr>, bdev = d\<rparr>"
      "same_view (bdev fs) d" using p by (auto simp: P_def)
    have ok: "fs_ok fs1" "plain_layout (sup fs1)" using assms d by (simp_all add: fs_ok_def same_view_def)
    have e: "entry fs1 = entry fs" using d by (intro ext) (simp add: entry_def flat_at_def fs_flat_def same_view_def)
    obtain m where m: "unat ?n - unat j = Suc m" "unat ?n - Suc (unat j) = m"
      using j by (metis Suc_diff_Suc word_less_nat_alt)
    show "\<exists>fs'. group_read j fs1 = Inr fs' \<and> P (Suc (unat j)) fs'"
      using group_read_ok [OF ok, of j] d e m
      by (auto simp: P_def list_update_append same_view_def)
  next
    show "P (unat 0) (fs\<lparr>sup := (sup fs)\<lparr>gdesc_table := replicate (unat ?n) ?zero\<rparr>\<rparr>)"
      unfolding P_def by (intro exI [of _ "bdev fs"]) (use assms in \<open>cases fs, simp add: same_view_def fs_ok_def\<close>)
  qed simp
  then show ?thesis using assms(2) by (auto simp: super_group_fill_def Let_def P_def plain_layout_def)
qed

section \<open>Writing the descriptors\<close>

lemma gd_pos_bound:
  assumes "plain_layout s" "i < 2 ^ 32"
  shows "gd_pos s i + ds s < 2 ^ 63" "2048 \<le> gd_base s" "gd_base s \<le> gd_pos s i"
proof -
  obtain j where j: "j \<le> 6" "unat (super_block_size s) = 2 ^ (10 + j)"
    by (rule block_size_bits [OF assms(1)])
  have "(2 :: nat) ^ (10 + j) \<le> 2 ^ 16" using j(1) by (intro power_increasing) simp_all
  then have b: "gd_base s \<le> 2 ^ 16" using j(2) by (simp add: gd_base_def)
  have d: "ds s \<le> 64" using desc_size [of s] by auto
  then have "i * ds s \<le> 2 ^ 32 * 64" using assms(2) by (intro mult_le_mono) simp_all
  then show "gd_pos s i + ds s < 2 ^ 63" using b d by (simp add: gd_pos_def)
  show "gd_base s \<le> gd_pos s i" by (simp add: gd_pos_def)
  show "2048 \<le> gd_base s"
  proof (cases "j = 0")
    case False
    then have "(2 :: nat) ^ 11 \<le> 2 ^ (10 + j)" by (intro power_increasing) simp_all
    then show ?thesis using j(2) by (simp add: gd_base_def)
  qed (use j in \<open>simp add: gd_base_def\<close>)
qed

lemma gd_pos_disjoint:
  assumes "i \<noteq> j" "gd_pos s i \<le> x" "x < gd_pos s i + ds s"
  shows "\<not> (gd_pos s j \<le> x \<and> x < gd_pos s j + ds s)"
proof -
  have "Suc i * ds s \<le> j * ds s \<or> Suc j * ds s \<le> i * ds s"
    using assms(1) by (metis mult_le_mono1 Suc_leI linorder_neqE_nat)
  then show ?thesis using assms(2,3) by (auto simp: gd_pos_def)
qed

text \<open>The entry of group \<open>i\<close> after write back.\<close>

definition saved :: "super_state \<Rightarrow> nat \<Rightarrow> group_desc_info" where
  "saved s i = (let e = gdesc_table s ! i
     in if dirty e then e\<lparr>gdesc := (gdesc e)\<lparr>bg_checksum := ext4_gdesc_checksum (of_nat i) s\<rparr>, dirty := False\<rparr> else e)"

definition gd_bytes :: "super_state \<Rightarrow> group_desc_info \<Rightarrow> bytes" where
  "gd_bytes s e = take (ds s) (gdesc_bytes (gdesc e))"

lemma group_write_ok:
  assumes "fs_ok fs" "plain_layout (sup fs)" "unat i < length (gdesc_table (sup fs))"
    "gdesc_wf (gdesc (gdesc_table (sup fs) ! unat i))"
  shows "\<exists>d. group_write i fs = Inr \<lparr>sup = (sup fs)\<lparr>gdesc_table := (gdesc_table (sup fs))[unat i := saved (sup fs) (unat i)]\<rparr>, bdev = d\<rparr> \<and>
    fs_ok \<lparr>sup = sup fs, bdev = d\<rparr> \<and> refs d = refs (bdev fs) \<and>
    (\<forall>x < 2 ^ 63. fs_flat \<lparr>sup = sup fs, bdev = d\<rparr> x =
       (if dirty (gdesc_table (sup fs) ! unat i) \<and> gd_pos (sup fs) (unat i) \<le> x \<and> x < gd_pos (sup fs) (unat i) + ds (sup fs)
        then gd_bytes (sup fs) (saved (sup fs) (unat i)) ! (x - gd_pos (sup fs) (unat i)) else fs_flat fs x))"
proof (cases "dirty (gdesc_table (sup fs) ! unat i)")
  case True
  let ?s = "bg_upd i (\<lambda>g. g\<lparr>bg_checksum := ext4_gdesc_checksum i (sup fs)\<rparr>) (sup fs)"
  obtain off where off: "bg_off i (sup fs) = Inr off" "unat off = gd_pos (sup fs) (unat i)"
    using bg_off_plain [OF assms(2)] by blast
  have sz: "super_block_size ?s = super_block_size (sup fs)" "ds ?s = ds (sup fs)"
    by (simp_all add: super_block_size_def super_group_desc_size_def)
  have bgs: "bg i ?s = gdesc (saved (sup fs) (unat i))" 
    using True assms(3) by (simp add: bg_bg_upd saved_def Let_def) (simp add: bg_def)
  let ?p = "gd_bytes (sup fs) (saved (sup fs) (unat i))"
  have wf: "gdesc_wf (gdesc (saved (sup fs) (unat i)))" using assms(4) by (simp add: saved_def gdesc_wf_def Let_def)
  have len: "length ?p = ds (sup fs)"
    using desc_size [of "sup fs"] length_gdesc_bytes [OF wf] by (auto simp: gd_bytes_def)
  have ok: "fs_ok (fs\<lparr>sup := ?s\<rparr>)" using assms(1) sz by (simp add: fs_ok_def)
  have sv: "servable (fs\<lparr>sup := ?s\<rparr>) (gd_pos (sup fs) (unat i)) (length ?p)"
    using gd_servable [OF assms(1,2), of i] sz len by (simp add: servable_def)
  obtain fs' where w: "disk_write (gd_pos (sup fs) (unat i)) ?p (fs\<lparr>sup := ?s\<rparr>) = Inr fs'" "fs_ok fs'" "sup fs' = ?s"
    "refs (bdev fs') = refs (bdev fs)" "\<forall>x < 2 ^ 64 * unat (super_block_size ?s). fs_flat fs' x =
       (if gd_pos (sup fs) (unat i) \<le> x \<and> x < gd_pos (sup fs) (unat i) + ds (sup fs)
        then ?p ! (x - gd_pos (sup fs) (unat i)) else fs_flat (fs\<lparr>sup := ?s\<rparr>) x)"
    using disk_write_ok [OF ok sv] unfolding len by auto
  have t: "(gdesc_table ?s)[unat i := (gdesc_table ?s ! unat i)\<lparr>dirty := False\<rparr>] =
      (gdesc_table (sup fs))[unat i := saved (sup fs) (unat i)]"
    using True assms(3) by (simp add: bg_upd_def saved_def bg_def Let_def)
  have t': "?s\<lparr>gdesc_table := t\<rparr> = (sup fs)\<lparr>gdesc_table := t\<rparr>" for t by (simp add: bg_upd_def)
  have r: "group_write i fs = Inr \<lparr>sup = (sup fs)\<lparr>gdesc_table := (gdesc_table (sup fs))[unat i := saved (sup fs) (unat i)]\<rparr>, bdev = bdev fs'\<rparr>"
    using True w(1,3) t t' by (cases fs') (simp add: group_write_def off bgs sz gd_bytes_def Let_def)
  have big: "x < 2 ^ 64 * unat (super_block_size (sup fs))" if "x < 2 ^ 63" for x :: nat
    using that assms(1) by (cases "unat (super_block_size (sup fs))") (auto simp: fs_ok_def)
  have fl: "fs_flat \<lparr>sup = sup fs, bdev = bdev fs'\<rparr> = fs_flat fs'" "fs_flat (fs\<lparr>sup := ?s\<rparr>) = fs_flat fs"
    using w(3) sz by (simp_all add: fs_flat_def)
  show ?thesis
    by (intro exI [of _ "bdev fs'"]) (use r w(2-5) fl sz True big in \<open>simp add: fs_ok_def\<close>)
next
  case False
  obtain off where "bg_off i (sup fs) = Inr off" using bg_off_plain [OF assms(2)] by blast
  then show ?thesis
    using False assms by (intro exI [of _ "bdev fs"]) (cases fs, simp add: group_write_def saved_def)
qed

section \<open>The whole write back\<close>

text \<open>
  A mounted file system: a legal layout, one entry per group, and what is clean in memory is what the
  device holds. A descriptor of 32 bytes leaves the upper half of the structure zero.
\<close>

definition mounted :: "fs \<Rightarrow> bool" where
  "mounted fs \<longleftrightarrow> fs_ok fs \<and> plain_layout (sup fs) \<and> super_wf (super_block (sup fs)) \<and>
     length (gdesc_table (sup fs)) = unat (super_n_block_groups (sup fs)) \<and>
     (\<not> super_block_dirty (sup fs) \<longrightarrow> flat_at fs BOOT_SECTOR_SIZE 1024 = super_bytes (super_block (sup fs))) \<and>
     (\<forall>i < length (gdesc_table (sup fs)). let e = gdesc_table (sup fs) ! i in
        gdesc_wf (gdesc e) \<and> drop (ds (sup fs)) (gdesc_bytes (gdesc e)) = replicate (64 - ds (sup fs)) 0 \<and>
        (\<not> dirty e \<longrightarrow> flat_at fs (gd_pos (sup fs) i) (ds (sup fs)) = gd_bytes (sup fs) e))"

lemma saved_cong:
  "super_block s' = super_block s \<Longrightarrow> gdesc_table s' ! i = gdesc_table s ! i \<Longrightarrow> i < 2 ^ 32 \<Longrightarrow> saved s' i = saved s i"
  by (simp add: saved_def ext4_gdesc_checksum_def bg_def EXT4_HAS_RO_COMPAT_FEATURE_def EXT4_HAS_INCOMPAT_FEATURE_def
      unat_of_nat Let_def)

lemma flat_at_cong: "(\<And>x. w \<le> x \<Longrightarrow> x < w + n \<Longrightarrow> fs_flat fs x = fs_flat fs' x) \<Longrightarrow> flat_at fs w n = flat_at fs' w n"
  by (simp add: flat_at_def)

lemma flat_at_bytes: "length xs = n \<Longrightarrow> (\<And>x. w \<le> x \<Longrightarrow> x < w + n \<Longrightarrow> fs_flat fs x = xs ! (x - w)) \<Longrightarrow> flat_at fs w n = xs"
  by (rule nth_equalityI) (simp_all add: flat_at_def)

lemma length_gd_bytes: "gdesc_wf (gdesc e) \<Longrightarrow> length (gd_bytes s e) = ds s"
  using desc_size [of s] length_gdesc_bytes [of "gdesc e"] by (auto simp: gd_bytes_def)

lemma saved_wf: "gdesc_wf (gdesc (gdesc_table s ! i)) \<Longrightarrow> gdesc_wf (gdesc (saved s i))"
  by (simp add: saved_def gdesc_wf_def Let_def)

text \<open>The first \<open>k\<close> descriptors are written.\<close>

text \<open>The bytes of the first \<open>k\<close> descriptors.\<close>

definition gd_byte :: "super_state \<Rightarrow> nat \<Rightarrow> nat \<Rightarrow> bool" where
  "gd_byte s k x \<longleftrightarrow> (\<exists>i < k. gd_pos s i \<le> x \<and> x < gd_pos s i + ds s)"

definition written :: "fs \<Rightarrow> nat \<Rightarrow> fs \<Rightarrow> bool" where
  "written fs k fs' \<longleftrightarrow> fs_ok fs' \<and> refs (bdev fs') = refs (bdev fs) \<and>
     sup fs' = (sup fs)\<lparr>gdesc_table := map (saved (sup fs)) [0 ..< k] @ drop k (gdesc_table (sup fs))\<rparr> \<and>
     (\<forall>i < k. flat_at fs' (gd_pos (sup fs) i) (ds (sup fs)) = gd_bytes (sup fs) (saved (sup fs) i)) \<and>
     (\<forall>i. k \<le> i \<longrightarrow> i < length (gdesc_table (sup fs)) \<longrightarrow>
        flat_at fs' (gd_pos (sup fs) i) (ds (sup fs)) = flat_at fs (gd_pos (sup fs) i) (ds (sup fs))) \<and>
     flat_at fs' BOOT_SECTOR_SIZE 1024 = flat_at fs BOOT_SECTOR_SIZE 1024 \<and>
     (\<forall>x < 2 ^ 63. \<not> gd_byte (sup fs) k x \<longrightarrow> fs_flat fs' x = fs_flat fs x)"

lemma group_write_written:
  assumes m: "mounted fs" and j: "unat j < length (gdesc_table (sup fs))" and w: "written fs (unat j) fs1"
  shows "\<exists>fs2. group_write j fs1 = Inr fs2 \<and> written fs (Suc (unat j)) fs2"
proof -
  let ?s = "sup fs" and ?k = "unat j" and ?t = "gdesc_table (sup fs)"
  have k32: "?k < 2 ^ 32" using unat_less [of j] by simp
  have lay: "fs_ok fs" "plain_layout ?s" using m by (simp_all add: mounted_def)
  have s1: "sup fs1 = ?s\<lparr>gdesc_table := map (saved ?s) [0 ..< ?k] @ drop ?k ?t\<rparr>" and ok1: "fs_ok fs1"
    using w by (simp_all add: written_def)
  have e: "gdesc_table (sup fs1) ! ?k = ?t ! ?k" using s1 j by (simp add: nth_append)
  have sv: "saved (sup fs1) ?k = saved ?s ?k" by (rule saved_cong) (use s1 e k32 in simp_all)
  have wf: "gdesc_wf (gdesc (?t ! ?k))" using m j by (simp add: mounted_def Let_def)
  have lay1: "plain_layout (sup fs1)" "unat j < length (gdesc_table (sup fs1))" "gdesc_wf (gdesc (gdesc_table (sup fs1) ! ?k))"
    using s1 lay j e wf by simp_all
  have gb: "gd_bytes (sup fs1) x = gd_bytes ?s x" "ds (sup fs1) = ds ?s" "gd_pos (sup fs1) = gd_pos ?s" for x
    using s1 by (simp_all add: gd_bytes_def)
  obtain d where d: "group_write j fs1 = Inr \<lparr>sup = (sup fs1)\<lparr>gdesc_table := (gdesc_table (sup fs1))[?k := saved ?s ?k]\<rparr>, bdev = d\<rparr>"
    "fs_ok \<lparr>sup = sup fs1, bdev = d\<rparr>" and rf: "refs d = refs (bdev fs1)" and fd:
    "\<And>x. x < 2 ^ 63 \<Longrightarrow> fs_flat \<lparr>sup = sup fs1, bdev = d\<rparr> x =
       (if dirty (?t ! ?k) \<and> gd_pos ?s ?k \<le> x \<and> x < gd_pos ?s ?k + ds ?s
        then gd_bytes ?s (saved ?s ?k) ! (x - gd_pos ?s ?k) else fs_flat fs1 x)"
    using group_write_ok [OF ok1 lay1] unfolding sv e gb by blast
  have t: "(gdesc_table (sup fs1))[?k := saved ?s ?k] = map (saved ?s) [0 ..< Suc ?k] @ drop (Suc ?k) ?t"
    using s1 j by (simp add: list_update_append Cons_nth_drop_Suc [symmetric])
  let ?fs2 = "\<lparr>sup = (sup fs1)\<lparr>gdesc_table := (gdesc_table (sup fs1))[?k := saved ?s ?k]\<rparr>, bdev = d\<rparr>"
  have fl: "fs_flat ?fs2 = fs_flat \<lparr>sup = sup fs1, bdev = d\<rparr>" by (simp add: fs_flat_def)
  have n: "unat (super_n_block_groups ?s) < 2 ^ 32" using unat_less [of "super_n_block_groups ?s"] by simp
  then have i32: "i < 2 ^ 32" if "i < length ?t" for i using that m by (simp add: mounted_def)
  note pb = gd_pos_bound [OF lay(2)]
  have other: "flat_at ?fs2 (gd_pos ?s i) (ds ?s) = flat_at fs1 (gd_pos ?s i) (ds ?s)" if "i \<noteq> ?k" "i < length ?t" for i
  proof (rule flat_at_cong)
    fix x assume x: "gd_pos ?s i \<le> x" "x < gd_pos ?s i + ds ?s"
    show "fs_flat ?fs2 x = fs_flat fs1 x"
      using fd [of x] pb(1) [OF i32 [OF that(2)]] x gd_pos_disjoint [OF that(1) x] unfolding fl by simp
  qed
  have cur: "flat_at ?fs2 (gd_pos ?s ?k) (ds ?s) = gd_bytes ?s (saved ?s ?k)"
  proof (cases "dirty (?t ! ?k)")
    case True
    show ?thesis
      by (rule flat_at_bytes)
        (use fd pb(1) [OF i32 [OF j]] True length_gd_bytes [OF saved_wf [OF wf]] in \<open>auto simp: fl\<close>)
  next
    case False
    have "flat_at ?fs2 (gd_pos ?s ?k) (ds ?s) = flat_at fs1 (gd_pos ?s ?k) (ds ?s)"
      by (rule flat_at_cong) (use fd pb(1) [OF i32 [OF j]] False in \<open>simp add: fl\<close>)
    then show ?thesis using w m j False by (simp add: written_def mounted_def Let_def saved_def)
  qed
  have boot: "flat_at ?fs2 BOOT_SECTOR_SIZE 1024 = flat_at fs1 BOOT_SECTOR_SIZE 1024"
    by (rule flat_at_cong) (use fd pb(2) [OF k32] pb(3) [OF k32] in \<open>auto simp: fl\<close>)
  have "written fs (Suc ?k) ?fs2"
    unfolding written_def
  proof (intro conjI allI impI)
    show "fs_ok ?fs2" using d(2) by (simp add: fs_ok_def)
    show "refs (bdev ?fs2) = refs (bdev fs)" using rf w by (simp add: written_def)
    show "sup ?fs2 = ?s\<lparr>gdesc_table := map (saved ?s) [0 ..< Suc ?k] @ drop (Suc ?k) ?t\<rparr>" using s1 t by simp
    show "flat_at ?fs2 (gd_pos ?s i) (ds ?s) = gd_bytes ?s (saved ?s i)" if "i < Suc ?k" for i
      using that cur other [of i] w j by (cases "i = ?k") (simp_all add: written_def)
    show "flat_at ?fs2 (gd_pos ?s i) (ds ?s) = flat_at fs (gd_pos ?s i) (ds ?s)" if "Suc ?k \<le> i" "i < length ?t" for i
      using that other [of i] w by (simp add: written_def)
    show "flat_at ?fs2 BOOT_SECTOR_SIZE 1024 = flat_at fs BOOT_SECTOR_SIZE 1024" using boot w by (simp add: written_def)
    show "fs_flat ?fs2 x = fs_flat fs x" if "x < 2 ^ 63" "\<not> gd_byte ?s (Suc ?k) x" for x
    proof -
      have "\<not> gd_byte ?s ?k x" "\<not> (gd_pos ?s ?k \<le> x \<and> x < gd_pos ?s ?k + ds ?s)"
        using that(2) by (auto simp: gd_byte_def less_Suc_eq)
      then have "fs_flat ?fs2 x = fs_flat fs1 x" using fd [OF that(1)] unfolding fl by (metis (full_types))
      also have "\<dots> = fs_flat fs x" using that(1) w \<open>\<not> gd_byte ?s ?k x\<close> by (simp add: written_def)
      finally show ?thesis .
    qed
  qed
  with d(1) show ?thesis by blast
qed

lemma super_group_writeback_ok:
  assumes "mounted fs"
  shows "\<exists>fs'. super_group_writeback fs = Inr fs' \<and> written fs (length (gdesc_table (sup fs))) fs'"
proof -
  have n: "length (gdesc_table (sup fs)) = unat (super_n_block_groups (sup fs))" using assms by (simp add: mounted_def)
  have "\<exists>fs'. for_groups group_write 0 fs (super_n_block_groups (sup fs)) = Inr fs' \<and> written fs (unat (super_n_block_groups (sup fs))) fs'"
  proof (rule for_groups_rule [where P = "written fs"])
    show "written fs (unat (0 :: u32)) fs" using assms by (cases "sup fs") (simp add: written_def mounted_def)
    show "\<exists>fs'. group_write j fs1 = Inr fs' \<and> written fs (Suc (unat j)) fs'"
      if "j < super_n_block_groups (sup fs)" "written fs (unat j) fs1" for j fs1
      using group_write_written [OF assms _ that(2)] that(1) n by (simp add: word_less_nat_alt)
  qed simp
  then show ?thesis using n assms by (simp add: super_group_writeback_def mounted_def plain_layout_def)
qed

lemma geo_cong:
  "super_block s' = super_block s \<Longrightarrow> super_block_size s' = super_block_size s"
  "super_block s' = super_block s \<Longrightarrow> plain_layout s' = plain_layout s"
  "super_block s' = super_block s \<Longrightarrow> super_n_block_groups s' = super_n_block_groups s"
  "super_block s' = super_block s \<Longrightarrow> super_group_desc_size s' = super_group_desc_size s"
  "super_block s' = super_block s \<Longrightarrow> gd_pos s' = gd_pos s"
  by (simp_all add: super_block_size_def super_n_block_groups_def super_group_desc_size_def plain_layout_def
      EXT4_HAS_INCOMPAT_FEATURE_def gd_pos_def gd_base_def fun_eq_iff ext4_blocks_count_def super_blocks_per_group_def)

lemma super_writeback_run:
  assumes ok: "fs_ok fs" and lay: "plain_layout (sup fs)" and wf: "super_wf (super_block (sup fs))"
    and boot: "\<not> super_block_dirty (sup fs) \<longrightarrow> flat_at fs BOOT_SECTOR_SIZE 1024 = super_bytes (super_block (sup fs))"
  shows "\<exists>fs2. super_writeback fs = Inr fs2 \<and> sup fs2 = (sup fs)\<lparr>super_block_dirty := False\<rparr> \<and> fs_ok fs2 \<and>
    refs (bdev fs2) = refs (bdev fs) \<and> flat_at fs2 BOOT_SECTOR_SIZE 1024 = super_bytes (super_block (sup fs)) \<and>
    (\<forall>x < 2 ^ 63. x < BOOT_SECTOR_SIZE \<or> BOOT_SECTOR_SIZE + 1024 \<le> x \<longrightarrow> fs_flat fs2 x = fs_flat fs x)"
proof -
  have upd: "fs_flat (x\<lparr>sup := (sup x)\<lparr>super_block_dirty := False\<rparr>\<rparr>) = fs_flat x"
    "fs_ok (x\<lparr>sup := (sup x)\<lparr>super_block_dirty := False\<rparr>\<rparr>) = fs_ok x" for x
    by (simp_all add: fs_flat_def fs_ok_def super_block_size_def)
  have at: "flat_at (x\<lparr>sup := (sup x)\<lparr>super_block_dirty := False\<rparr>\<rparr>) = flat_at x" for x
    by (intro ext) (simp only: flat_at_def upd)
  show ?thesis
  proof (cases "super_block_dirty (sup fs)")
    case False
    then show ?thesis using ok boot upd [of fs] at [of fs] by (simp add: super_writeback_def)
  next
    case True
    let ?p = "super_bytes (super_block (sup fs))"
    have len: "length ?p = 1024" by (rule length_super_bytes [OF wf])
    have bs: "1024 \<le> unat (super_block_size (sup fs))"
    proof -
      obtain j where "unat (super_block_size (sup fs)) = 2 ^ (10 + j)" by (rule block_size_bits [OF lay])
      then show ?thesis using power_increasing [of 10 "10 + j" "2 :: nat"] by simp
    qed
    have sv: "servable fs BOOT_SECTOR_SIZE (length ?p)" using bs len by (intro servable_small) simp_all
    obtain fs2 where f: "disk_write BOOT_SECTOR_SIZE ?p fs = Inr fs2" "fs_ok fs2" "sup fs2 = sup fs" "refs (bdev fs2) = refs (bdev fs)"
      "\<forall>x < 2 ^ 64 * unat (super_block_size (sup fs)). fs_flat fs2 x =
        (if BOOT_SECTOR_SIZE \<le> x \<and> x < BOOT_SECTOR_SIZE + length ?p then ?p ! (x - BOOT_SECTOR_SIZE) else fs_flat fs x)"
      using disk_write_ok [OF ok sv] by blast
    have fl: "fs_flat fs2 x = (if 1024 \<le> x \<and> x < 2048 then ?p ! (x - 1024) else fs_flat fs x)" if "x < 2 ^ 63" for x
    proof -
      have "2 ^ 64 * 1 \<le> 2 ^ 64 * unat (super_block_size (sup fs))" using bs by (intro mult_le_mono2) simp
      then show ?thesis using f(5) that len by auto
    qed
    have "flat_at fs2 BOOT_SECTOR_SIZE 1024 = ?p" by (rule flat_at_bytes [OF len]) (simp add: fl)
    moreover have "\<forall>x < 2 ^ 63. x < BOOT_SECTOR_SIZE \<or> BOOT_SECTOR_SIZE + 1024 \<le> x \<longrightarrow> fs_flat fs2 x = fs_flat fs x"
      by (auto simp: fl)
    ultimately show ?thesis
      using True f(1-4) upd [of fs2] at [of fs2]
      by (intro exI [of _ "fs2\<lparr>sup := (sup fs2)\<lparr>super_block_dirty := False\<rparr>\<rparr>"]) (simp add: super_writeback_def)
  qed
qed

text \<open>The end of super_group_uninit() and super_uninit() together: what the device then holds.\<close>

lemma write_back_run:
  assumes m: "mounted fs" and w: "written fs (length (gdesc_table (sup fs))) fs1"
    and s: "fs1' = fs1\<lparr>sup := (sup fs1)\<lparr>gdesc_table := t\<rparr>\<rparr>"
  shows "\<exists>fs2. super_writeback fs1' = Inr fs2 \<and> sup fs2 = (sup fs1')\<lparr>super_block_dirty := False\<rparr> \<and> fs_ok fs2 \<and>
    refs (bdev fs2) = refs (bdev fs) \<and> flat_at fs2 BOOT_SECTOR_SIZE 1024 = super_bytes (super_block (sup fs)) \<and>
    (\<forall>i < length (gdesc_table (sup fs)). flat_at fs2 (gd_pos (sup fs) i) (ds (sup fs)) = gd_bytes (sup fs) (saved (sup fs) i)) \<and>
    (\<forall>x < 2 ^ 63. \<not> gd_byte (sup fs) (length (gdesc_table (sup fs))) x \<and> (x < BOOT_SECTOR_SIZE \<or> BOOT_SECTOR_SIZE + 1024 \<le> x) \<longrightarrow>
      fs_flat fs2 x = fs_flat fs x)"
proof -
  let ?s = "sup fs" and ?n = "length (gdesc_table (sup fs))"
  have lay: "plain_layout ?s" and wf: "super_wf (super_block ?s)" and n: "?n = unat (super_n_block_groups ?s)"
    and boot: "\<not> super_block_dirty ?s \<longrightarrow> flat_at fs BOOT_SECTOR_SIZE 1024 = super_bytes (super_block ?s)"
    using m by (simp_all add: mounted_def)
  have n32: "?n < 2 ^ 32" using unat_less [of "super_n_block_groups ?s"] n by simp
  have f1: "fs_flat fs1' = fs_flat fs1" by (simp add: fs_flat_def s super_block_size_def)
  have at1: "flat_at fs1' = flat_at fs1" by (intro ext) (simp add: flat_at_def f1)
  have s1: "super_block (sup fs1') = super_block ?s" "super_block_dirty (sup fs1') = super_block_dirty ?s"
    and ok: "fs_ok fs1'" "refs (bdev fs1') = refs (bdev fs)"
    using w by (auto simp: written_def s fs_ok_def super_block_size_def)
  note c = geo_cong [OF s1(1)]
  obtain fs2 where f: "super_writeback fs1' = Inr fs2" "sup fs2 = (sup fs1')\<lparr>super_block_dirty := False\<rparr>" "fs_ok fs2"
    "refs (bdev fs2) = refs (bdev fs)" "flat_at fs2 BOOT_SECTOR_SIZE 1024 = super_bytes (super_block ?s)"
    "\<forall>x < 2 ^ 63. x < BOOT_SECTOR_SIZE \<or> BOOT_SECTOR_SIZE + 1024 \<le> x \<longrightarrow> fs_flat fs2 x = fs_flat fs1' x"
    using super_writeback_run [OF ok(1)] lay wf boot w s1 ok(2) by (auto simp: c at1 written_def)
  have "flat_at fs2 (gd_pos ?s i) (ds ?s) = gd_bytes ?s (saved ?s i)" if i: "i < ?n" for i
  proof -
    have "flat_at fs2 (gd_pos ?s i) (ds ?s) = flat_at fs1' (gd_pos ?s i) (ds ?s)"
      by (rule flat_at_cong) (use gd_pos_bound [OF lay, of i] i n32 f(6) in \<open>simp add: not_less\<close>)
    then show ?thesis using w i by (simp add: at1 written_def)
  qed
  moreover have "\<forall>x < 2 ^ 63. \<not> gd_byte ?s ?n x \<and> (x < BOOT_SECTOR_SIZE \<or> BOOT_SECTOR_SIZE + 1024 \<le> x) \<longrightarrow> fs_flat fs2 x = fs_flat fs x"
    using f(6) w unfolding f1 written_def by metis
  ultimately show ?thesis using f(1-5) by blast
qed

section \<open>Properties\<close>

lemma drop_checksum [simp]:
  "gdesc_wf g \<Longrightarrow> 32 \<le> n \<Longrightarrow> drop n (gdesc_bytes (g\<lparr>bg_checksum := c\<rparr>)) = drop n (gdesc_bytes g)"
  by (simp add: gdesc_bytes_def gdesc_wf_def)

lemma gdesc_of_gd_bytes:
  assumes "gdesc_wf g" "drop (ds s) (gdesc_bytes g) = replicate (64 - ds s) 0"
  shows "gdesc_of (take (ds s) (gdesc_bytes g) @ replicate (64 - ds s) 0) = g"
  using gdesc_of_bytes [OF assms(1)] by (simp add: assms(2) [symmetric])

text \<open>The state right after the superblock has been read from an image.\<close>

lemma super_fill_ok:
  fixes img :: "nat \<Rightarrow> u8"
  defines "fs0 \<equiv> \<lambda>junk. super_fill img (\<lambda>_. 0) junk"
  assumes lay: "plain_layout (sup (fs0 junk))" and junk: "\<forall>b. length (junk b) = unat (super_block_size (sup (fs0 junk)))"
  shows "fs_ok (fs0 junk)" "\<And>x. x < 2 ^ 63 \<Longrightarrow> fs_flat (fs0 junk) x = img x" "super_wf (super_block (sup (fs0 junk)))"
proof -
  let ?s = "sup (fs0 junk)" and ?b = "super_block_size_bits (sup (fs0 junk))"
  have b: "unat (super_block_size ?s) = 2 ^ ?b" "?b \<le> 16"
    by (rule block_size_bits [OF lay], simp)+
  let ?v = "image_blocks img ?b"
  have fs0: "bdev (fs0 junk) = fs_cache_init ?b ?v (\<lambda>_. 0) junk"
    by (simp add: fs0_def super_fill_def Let_def)
  have l: "\<forall>x. length (?v x) = 2 ^ ?b" "\<forall>x. length (junk x) = 2 ^ ?b" using junk b by (simp_all add: image_blocks_def)
  note c = cache_init_inv [OF l]
  show "fs_ok (fs0 junk)" using c(1,5) b unfolding fs_ok_def fs0 by simp
  show "fs_flat (fs0 junk) x = img x" if "x < 2 ^ 63" for x
  proof -
    have "x div 2 ^ ?b < 2 ^ 64" by (rule le_less_trans [OF div_le_dividend]) (use that in simp)
    then have "unat (of_nat (x div 2 ^ ?b) :: u64) = x div 2 ^ ?b" by (simp add: unat_of_nat)
    then show ?thesis by (simp add: fs_flat_def fs0 c(2) b(1) flat_def image_blocks_def)
        (simp only: div_mult_mod_eq)
  qed
  show "super_wf (super_block (sup (fs0 junk)))"
    by (simp add: fs0_def super_fill_def Let_def super_wf_of)
qed

lemma super_fill_block:
  "super_block (sup (super_fill img ioe junk)) = super_of (map img [BOOT_SECTOR_SIZE ..< BOOT_SECTOR_SIZE + 1024])"
  by (simp only: super_fill_def Let_def fs.select_convs super_state.select_convs)

lemma flat_at_img:
  "(\<And>x. x < 2 ^ 63 \<Longrightarrow> fs_flat fs x = img x) \<Longrightarrow> w + n \<le> 2 ^ 63 \<Longrightarrow> flat_at fs w n = map img [w ..< w + n]"
  by (simp add: flat_at_def)

lemma length_flat_at: "length (flat_at fs w n) = n" by (simp add: flat_at_def)

lemma mount_ok:
  fixes img :: "nat \<Rightarrow> u8"
  defines "fs0 \<equiv> \<lambda>junk. super_fill img (\<lambda>_. 0) junk"
  assumes lay: "plain_layout (sup (fs0 junk))"
    and junk: "\<forall>b. length (junk b) = unat (super_block_size (sup (fs0 junk)))"
  shows "\<exists>d. super_group_fill (fs0 junk) = Inr \<lparr>sup = (sup (fs0 junk))\<lparr>gdesc_table :=
       map (entry (fs0 junk)) [0 ..< unat (super_n_block_groups (sup (fs0 junk)))]\<rparr>, bdev = d\<rparr> \<and>
    same_view (bdev (fs0 junk)) d \<and>
    mounted \<lparr>sup = (sup (fs0 junk))\<lparr>gdesc_table :=
       map (entry (fs0 junk)) [0 ..< unat (super_n_block_groups (sup (fs0 junk)))]\<rparr>, bdev = d\<rparr>"
proof -
  let ?fs0 = "fs0 junk"
  note f = super_fill_ok [OF lay [unfolded fs0_def] junk [unfolded fs0_def], folded fs0_def]
  obtain d where d: "super_group_fill ?fs0 = Inr \<lparr>sup = (sup ?fs0)\<lparr>gdesc_table := map (entry ?fs0) [0 ..< unat (super_n_block_groups (sup ?fs0))]\<rparr>, bdev = d\<rparr>"
    "same_view (bdev ?fs0) d"
    using super_group_fill_ok [OF f(1) lay] by blast
  let ?fin = "\<lparr>sup = (sup ?fs0)\<lparr>gdesc_table := map (entry ?fs0) [0 ..< unat (super_n_block_groups (sup ?fs0))]\<rparr>, bdev = d\<rparr>"
  have fl: "fs_flat ?fin = fs_flat ?fs0" using d(2) by (simp add: fs_flat_def same_view_def)
  have fa: "flat_at ?fin w n = flat_at ?fs0 w n" for w n by (rule flat_at_cong) (rule fun_cong [OF fl])
  have boot: "flat_at ?fs0 BOOT_SECTOR_SIZE 1024 = super_bytes (super_block (sup ?fs0))"
  proof -
    have "flat_at ?fs0 BOOT_SECTOR_SIZE 1024 = map img [BOOT_SECTOR_SIZE ..< BOOT_SECTOR_SIZE + 1024]"
      by (rule flat_at_img [OF f(2)]) simp_all
    moreover have "length (map img [BOOT_SECTOR_SIZE ..< BOOT_SECTOR_SIZE + 1024]) = 1024"
      unfolding length_map length_upt by simp
    moreover have "super_block (sup ?fs0) = super_of (map img [BOOT_SECTOR_SIZE ..< BOOT_SECTOR_SIZE + 1024])"
      unfolding fs0_def by (rule super_fill_block)
    ultimately show ?thesis by (simp only: super_bytes_of)
  qed
  have ent: "gdesc_wf (gdesc (entry ?fs0 i)) \<and> gdesc_bytes (gdesc (entry ?fs0 i)) =
      flat_at ?fs0 (gd_pos (sup ?fs0) i) (ds (sup ?fs0)) @ replicate (64 - ds (sup ?fs0)) 0" for i
    using desc_size [of "sup ?fs0"]
    by (auto simp: entry_def length_flat_at intro!: gdesc_wf_of gdesc_bytes_of)
  have "mounted ?fin"
    using f(1,3) lay d(2) boot ent
    by (auto simp: mounted_def fs_ok_def same_view_def fa gd_bytes_def Let_def length_flat_at)
  then show ?thesis using d by blast
qed

text \<open>C23: Mounting any image with a plain layout (blocks of at most 64 KiB, no META_BG) gives a state in which the superblock and every descriptor
  in memory agree with the image, nothing is dirty, and the device reads as the image.\<close>

theorem mount_agrees_with_image:
  fixes img :: "nat \<Rightarrow> u8"
  assumes lay: "plain_layout (sup (super_fill img (\<lambda>_. 0) junk))"
    and junk: "\<forall>b. length (junk b) = unat (super_block_size (sup (super_fill img (\<lambda>_. 0) junk)))"
  shows "\<exists>fs. super_group_fill (super_fill img (\<lambda>_. 0) junk) = Inr fs \<and> mounted fs \<and>
    \<not> super_block_dirty (sup fs) \<and> (\<forall>e \<in> set (gdesc_table (sup fs)). \<not> dirty e) \<and> (\<forall>x < 2 ^ 63. fs_flat fs x = img x)"
proof -
  let ?fs0 = "super_fill img (\<lambda>_. 0) junk"
  obtain d where d: "super_group_fill ?fs0 = Inr \<lparr>sup = (sup ?fs0)\<lparr>gdesc_table := map (entry ?fs0) [0 ..< unat (super_n_block_groups (sup ?fs0))]\<rparr>, bdev = d\<rparr>"
    "same_view (bdev ?fs0) d" "mounted \<lparr>sup = (sup ?fs0)\<lparr>gdesc_table := map (entry ?fs0) [0 ..< unat (super_n_block_groups (sup ?fs0))]\<rparr>, bdev = d\<rparr>"
    using mount_ok [OF lay junk] by blast
  have "fs_flat \<lparr>sup = (sup ?fs0)\<lparr>gdesc_table := t\<rparr>, bdev = d\<rparr> = fs_flat ?fs0" for t
    using d(2) by (simp add: fs_flat_def same_view_def)
  moreover have "\<not> super_block_dirty (sup ?fs0)" by (simp add: super_fill_def Let_def)
  moreover have "\<not> dirty (entry fs i)" for fs i by (simp add: entry_def)
  ultimately show ?thesis using d(1,3) super_fill_ok(2) [OF lay junk] by auto
qed

text \<open>The image of the one-group file system, its descriptor table zero.\<close>

definition demo_image :: "nat \<Rightarrow> u8" where
  "demo_image x = (if 1024 \<le> x \<and> x < 2048 then super_bytes (super_block demo_super) ! (x - 1024) else 0)"

lemma demo_super_wf: "super_wf (super_block demo_super)"
  using super_wf_of [of "replicate 1024 0"] by (simp add: demo_super_def super_wf_def)

lemma map_upt_nth: "length xs = n \<Longrightarrow> (\<And>i. i < n \<Longrightarrow> f (w + i) = xs ! i) \<Longrightarrow> map f [w ..< w + n] = xs"
  by (rule nth_equalityI) simp_all

lemma demo_fill: "super_block (sup (super_fill demo_image ioe junk)) = super_block demo_super"
proof -
  have "map demo_image [1024 ..< 1024 + 1024] = super_bytes (super_block demo_super)"
    by (rule map_upt_nth [OF length_super_bytes [OF demo_super_wf]]) (simp add: demo_image_def)
  then show ?thesis unfolding super_fill_block by (simp only: super_of_bytes [OF demo_super_wf])
qed

lemma demo_plain: "plain_layout demo_super"
  by (simp add: plain_layout_def demo_super_def super_of_def ld_zeros EXT4_HAS_INCOMPAT_FEATURE_def super_blocks_per_group_def)

theorem mount_agrees_with_image_witness:
  "super_n_block_groups (sup (super_fill demo_image (\<lambda>_. 0) (\<lambda>_. replicate 1024 0))) = 1 \<and>
   (\<exists>fs. super_group_fill (super_fill demo_image (\<lambda>_. 0) (\<lambda>_. replicate 1024 0)) = Inr fs \<and> mounted fs)"
  using mount_agrees_with_image [of demo_image "\<lambda>_. replicate 1024 0"] demo_plain demo_super_eval
  by (auto simp: geo_cong [OF demo_fill])

text \<open>An image that holds the superblock and the saved descriptors of a mounted file system mounts to them.\<close>

lemma remount:
  assumes m: "mounted fs" and junk: "\<forall>b. length (junk b) = unat (super_block_size (sup fs))"
    and boot: "map img [BOOT_SECTOR_SIZE ..< BOOT_SECTOR_SIZE + 1024] = super_bytes (super_block (sup fs))"
    and at: "\<And>i. i < length (gdesc_table (sup fs)) \<Longrightarrow>
      map img [gd_pos (sup fs) i ..< gd_pos (sup fs) i + ds (sup fs)] = gd_bytes (sup fs) (saved (sup fs) i)"
  shows "\<exists>fs3. super_group_fill (super_fill img (\<lambda>_. 0) junk) = Inr fs3 \<and>
    sup fs3 = \<lparr>super_block = super_block (sup fs), super_block_dirty = False,
      gdesc_table = map (saved (sup fs)) [0 ..< length (gdesc_table (sup fs))]\<rparr> \<and> mounted fs3"
proof -
  let ?s = "sup fs" and ?n = "length (gdesc_table (sup fs))"
  have lay: "plain_layout ?s" and wf: "super_wf (super_block ?s)" "\<And>i. i < ?n \<Longrightarrow> gdesc_wf (gdesc (gdesc_table ?s ! i))"
    "\<And>i. i < ?n \<Longrightarrow> drop (ds ?s) (gdesc_bytes (gdesc (gdesc_table ?s ! i))) = replicate (64 - ds ?s) 0"
    and n: "?n = unat (super_n_block_groups ?s)"
    using m by (simp_all add: mounted_def Let_def)
  have n32: "?n < 2 ^ 32" using unat_less [of "super_n_block_groups ?s"] n by simp
  let ?fs0 = "super_fill img (\<lambda>_. 0) junk"
  have sb: "super_block (sup ?fs0) = super_block ?s"
    using boot super_of_bytes [OF wf(1)] unfolding super_fill_block by metis
  then have s0: "sup ?fs0 = \<lparr>super_block = super_block ?s, super_block_dirty = False, gdesc_table = []\<rparr>"
    by (simp add: super_fill_def Let_def)
  have geo: "super_block_size (sup ?fs0) = super_block_size ?s" "plain_layout (sup ?fs0) = plain_layout ?s"
    "super_n_block_groups (sup ?fs0) = super_n_block_groups ?s" "ds (sup ?fs0) = ds ?s" "gd_pos (sup ?fs0) = gd_pos ?s"
    by (simp_all add: geo_cong [OF sb])
  have lay0: "plain_layout (sup ?fs0)" "\<forall>b. length (junk b) = unat (super_block_size (sup ?fs0))"
    using lay junk geo by simp_all
  note f = super_fill_ok [OF lay0]
  have ent: "entry ?fs0 i = saved ?s i" if i: "i < ?n" for i
  proof -
    have "flat_at ?fs0 (gd_pos ?s i) (ds ?s) = map img [gd_pos ?s i ..< gd_pos ?s i + ds ?s]"
      by (rule flat_at_img [OF f(2)]) (use gd_pos_bound(1) [OF lay, of i] i n32 in simp_all)
    also have "\<dots> = gd_bytes ?s (saved ?s i)" by (rule at [OF i])
    finally have e: "flat_at ?fs0 (gd_pos ?s i) (ds ?s) = gd_bytes ?s (saved ?s i)" .
    have "32 \<le> ds ?s" using desc_size [of ?s] by auto
    then have "drop (ds ?s) (gdesc_bytes (gdesc (saved ?s i))) = replicate (64 - ds ?s) 0"
      using wf(2,3) [OF i] by (simp add: saved_def Let_def)
    then have "gdesc_of (gd_bytes ?s (saved ?s i) @ replicate (64 - ds ?s) 0) = gdesc (saved ?s i)"
      using gdesc_of_gd_bytes [OF saved_wf [OF wf(2) [OF i]]] by (simp add: gd_bytes_def)
    then show ?thesis by (simp add: entry_def geo e saved_def Let_def)
  qed
  obtain d where d: "super_group_fill ?fs0 = Inr \<lparr>sup = (sup ?fs0)\<lparr>gdesc_table := map (entry ?fs0) [0 ..< ?n]\<rparr>, bdev = d\<rparr>"
    "mounted \<lparr>sup = (sup ?fs0)\<lparr>gdesc_table := map (entry ?fs0) [0 ..< ?n]\<rparr>, bdev = d\<rparr>"
    using mount_ok [OF lay0] unfolding geo(3) n by blast
  have t: "map (entry ?fs0) [0 ..< ?n] = map (saved ?s) [0 ..< ?n]" using ent by simp
  show ?thesis using d unfolding t by (auto simp: s0)
qed

text \<open>C25: Unmounting and mounting again loses nothing: the write back of a mounted file system (without META_BG) succeeds, and
  filling from the content it leaves on the device gives the superblock and the table of the descriptors
  that were in memory, all clean, the changed ones with their new checksum. No other byte of the device changes.\<close>

theorem unmount_mount_round_trip:
  assumes m: "mounted fs" and junk: "\<forall>b. length (junk b) = unat (super_block_size (sup fs))"
  shows "\<exists>fs1 fs2 fs3. super_group_writeback fs = Inr fs1 \<and> super_writeback fs1 = Inr fs2 \<and>
    super_group_fill (super_fill (fs_flat fs2) (\<lambda>_. 0) junk) = Inr fs3 \<and> sup fs3 = sup fs2 \<and>
    super_block (sup fs3) = super_block (sup fs) \<and>
    gdesc_table (sup fs3) = map (saved (sup fs)) [0 ..< length (gdesc_table (sup fs))] \<and> mounted fs3 \<and>
    (\<forall>x < 2 ^ 63. \<not> gd_byte (sup fs) (length (gdesc_table (sup fs))) x \<and> (x < BOOT_SECTOR_SIZE \<or> BOOT_SECTOR_SIZE + 1024 \<le> x) \<longrightarrow>
      fs_flat fs2 x = fs_flat fs x)"
proof -
  obtain fs1 where w: "super_group_writeback fs = Inr fs1" "written fs (length (gdesc_table (sup fs))) fs1"
    using super_group_writeback_ok [OF m] by blast
  have "fs1 = fs1\<lparr>sup := (sup fs1)\<lparr>gdesc_table := gdesc_table (sup fs1)\<rparr>\<rparr>" by simp
  from write_back_run [OF m w(2) this] obtain fs2 where u: "super_writeback fs1 = Inr fs2" "sup fs2 = (sup fs1)\<lparr>super_block_dirty := False\<rparr>"
    "flat_at fs2 BOOT_SECTOR_SIZE 1024 = super_bytes (super_block (sup fs))"
    "\<And>i. i < length (gdesc_table (sup fs)) \<Longrightarrow> flat_at fs2 (gd_pos (sup fs) i) (ds (sup fs)) = gd_bytes (sup fs) (saved (sup fs) i)"
    "\<forall>x < 2 ^ 63. \<not> gd_byte (sup fs) (length (gdesc_table (sup fs))) x \<and> (x < BOOT_SECTOR_SIZE \<or> BOOT_SECTOR_SIZE + 1024 \<le> x) \<longrightarrow>
      fs_flat fs2 x = fs_flat fs x"
    by blast
  have "sup fs2 = \<lparr>super_block = super_block (sup fs), super_block_dirty = False,
      gdesc_table = map (saved (sup fs)) [0 ..< length (gdesc_table (sup fs))]\<rparr>"
    using u(2) w(2) by (simp add: written_def)
  then show ?thesis using remount [OF m junk u(3,4) [unfolded flat_at_def]] w(1) u(1,5) by auto
qed

lemma demo_mounted:
  "mounted (demo_fs\<lparr>sup := demo_super\<lparr>super_block_dirty := True, gdesc_table := [(gdesc_table demo_super ! 0)\<lparr>dirty := True\<rparr>]\<rparr>\<rparr>)"
proof -
  let ?s = "demo_super\<lparr>super_block_dirty := True, gdesc_table := [(gdesc_table demo_super ! 0)\<lparr>dirty := True\<rparr>]\<rparr>"
  have geo: "super_block_size ?s = 1024" "super_n_block_groups ?s = 1" "plain_layout ?s" "ds ?s = 32" "super_wf (super_block ?s)"
    using demo_super_eval demo_plain demo_super_wf geo_cong [of ?s demo_super]
    by (simp_all add: super_group_desc_size_def demo_super_def super_of_def ld_zeros)
  have "fs_ok (demo_fs\<lparr>sup := ?s\<rparr>)" using demo_fs_ok geo by (simp add: fs_ok_def demo_fs_def demo_super_eval)
  moreover have "gdesc_wf (gdesc (gdesc_table demo_super ! 0))"
    using gdesc_wf_of [of "replicate 64 0"] by (simp add: demo_super_def gdesc_wf_def)
  moreover have "drop 32 (gdesc_bytes (gdesc (gdesc_table demo_super ! 0))) = replicate 32 0"
    by (simp add: demo_super_def gdesc_bytes_def gdesc_of_def le_arr_def ld_zeros eval_nat_numeral)
  ultimately show ?thesis using geo by (simp add: mounted_def Let_def)
qed

theorem unmount_mount_round_trip_witness:
  "\<exists>fs fs1 fs2 fs3. super_group_writeback fs = Inr fs1 \<and> super_writeback fs1 = Inr fs2 \<and>
    super_group_fill (super_fill (fs_flat fs2) (\<lambda>_. 0) (\<lambda>_. replicate 1024 0)) = Inr fs3 \<and> sup fs3 = sup fs2"
  using unmount_mount_round_trip [OF demo_mounted, of "\<lambda>_. replicate 1024 0"] demo_super_eval(1)
  by (force simp: super_block_size_def)

text \<open>An update of one descriptor that leaves the half which a 32-byte descriptor does not store.\<close>

lemma mounted_bg_upd:
  assumes m: "mounted fs" and g: "unat g < length (gdesc_table (sup fs))"
    and f: "\<And>x. gdesc_wf x \<Longrightarrow> gdesc_wf (f x) \<and> (\<not> has_hi (sup fs) \<longrightarrow> drop 32 (gdesc_bytes (f x)) = drop 32 (gdesc_bytes x))"
  shows "mounted (fs\<lparr>sup := bg_upd g f (sup fs)\<rparr>)"
proof -
  let ?s = "sup fs" and ?s' = "bg_upd g f (sup fs)" and ?fin = "fs\<lparr>sup := bg_upd g f (sup fs)\<rparr>"
  note c = geo_cong [of ?s' ?s, OF super_block_bg_upd(1)]
  have fa: "flat_at ?fin = flat_at fs" by (intro ext) (simp add: flat_at_def fs_flat_def c)
  have hi: "ds ?s = 32 \<and> \<not> has_hi ?s \<or> ds ?s = 64" using desc_size [of ?s] by (auto simp: has_hi_def)
  have e: "gdesc_wf (gdesc e') \<and> drop (ds ?s) (gdesc_bytes (gdesc e')) = replicate (64 - ds ?s) 0 \<and>
      (\<not> dirty e' \<longrightarrow> flat_at fs (gd_pos ?s i) (ds ?s) = gd_bytes ?s e')"
    if i: "i < length (gdesc_table ?s)" and e': "e' = gdesc_table ?s' ! i" for i e'
  proof (cases "i = unat g")
    case True
    have x: "gdesc e' = f (bg g ?s)" "dirty e'" using True g e' by (simp_all add: bg_upd_def)
    have "gdesc_wf (bg g ?s)" "drop (ds ?s) (gdesc_bytes (bg g ?s)) = replicate (64 - ds ?s) 0"
      using m g by (simp_all add: mounted_def Let_def bg_def)
    then show ?thesis using f [of "bg g ?s"] hi x length_gdesc_bytes [of "f (bg g ?s)"] by auto
  next
    case False
    then have "e' = gdesc_table ?s ! i" using e' by (simp add: bg_upd_def)
    then show ?thesis using m i by (simp add: mounted_def Let_def)
  qed
  have "gd_bytes ?s' = gd_bytes ?s" by (intro ext) (simp add: gd_bytes_def c)
  then show ?thesis using m e unfolding mounted_def fs_ok_def by (simp add: fa c Let_def)
qed

lemma mounted_counts:
  assumes m: "mounted fs"
    and sb: "sb = (super_block (sup fs))\<lparr>s_free_blocks_count_lo := a, s_free_blocks_count_hi := b\<rparr> \<or>
        sb = (super_block (sup fs))\<lparr>s_r_blocks_count_lo := a, s_r_blocks_count_hi := b\<rparr>"
  shows "mounted (fs\<lparr>sup := (sup fs)\<lparr>super_block := sb, super_block_dirty := True\<rparr>\<rparr>)"
proof -
  let ?s = "sup fs" and ?s' = "(sup fs)\<lparr>super_block := sb, super_block_dirty := True\<rparr>"
  have c: "super_block_size ?s' = super_block_size ?s" "plain_layout ?s' = plain_layout ?s"
    "super_n_block_groups ?s' = super_n_block_groups ?s" "super_group_desc_size ?s' = super_group_desc_size ?s"
    "gd_pos ?s' = gd_pos ?s" "super_wf (super_block ?s') = super_wf (super_block ?s)"
    using sb by (auto simp: super_block_size_def super_n_block_groups_def super_group_desc_size_def plain_layout_def
        EXT4_HAS_INCOMPAT_FEATURE_def gd_pos_def gd_base_def ext4_blocks_count_def super_blocks_per_group_def super_wf_def)
  have "flat_at (fs\<lparr>sup := ?s'\<rparr>) = flat_at fs" by (intro ext) (simp add: flat_at_def fs_flat_def c)
  moreover have "gd_bytes ?s' = gd_bytes ?s" by (intro ext) (simp add: gd_bytes_def c)
  ultimately show ?thesis using m c by (simp add: mounted_def fs_ok_def Let_def)
qed

text \<open>C26: The agreement of the clean entries with the device is an invariant: every operation that sets a
  field of a descriptor, the free or the reserved block counter of the superblock marks the entry it changes, so the state stays
  mounted and the next write back can reach the device.\<close>

theorem setters_keep_mounted:
  assumes "mounted fs" "unat g < length (gdesc_table (sup fs))"
  shows "mounted (fs\<lparr>sup := ext4_block_bitmap_set g blk (sup fs)\<rparr>) \<and> mounted (fs\<lparr>sup := ext4_inode_bitmap_set g blk (sup fs)\<rparr>) \<and>
    mounted (fs\<lparr>sup := ext4_inode_table_set g blk (sup fs)\<rparr>) \<and> mounted (fs\<lparr>sup := ext4_free_blks_set g cnt (sup fs)\<rparr>) \<and>
    mounted (fs\<lparr>sup := ext4_free_inodes_set g cnt (sup fs)\<rparr>) \<and> mounted (fs\<lparr>sup := ext4_used_dirs_set g cnt (sup fs)\<rparr>) \<and>
    mounted (fs\<lparr>sup := ext4_itable_unused_set g cnt (sup fs)\<rparr>) \<and> mounted (fs\<lparr>sup := ext4_free_blocks_count_set blk (sup fs)\<rparr>) \<and>
    mounted (fs\<lparr>sup := ext4_r_blocks_count_set blk (sup fs)\<rparr>)"
proof -
  note s = ext4_block_bitmap_set_def ext4_inode_bitmap_set_def ext4_inode_table_set_def ext4_free_blks_set_def
    ext4_free_inodes_set_def ext4_used_dirs_set_def ext4_itable_unused_set_def
  show ?thesis
    unfolding s
    by (intro conjI mounted_bg_upd [OF assms])
      (auto simp: gdesc_wf_def gdesc_bytes_def Let_def ext4_free_blocks_count_set_def ext4_r_blocks_count_set_def intro!: mounted_counts assms)
qed

theorem setters_keep_mounted_witness:
  "\<exists>fs. mounted fs \<and> mounted (fs\<lparr>sup := ext4_free_blks_set 0 7999 (sup fs)\<rparr>)"
  using setters_keep_mounted [OF demo_mounted, of 0 0 7999] demo_mounted by auto

end
