(* ===== verification/E4F_Alloc.thy ===== *)
theory E4F_Alloc
  imports E4F_Disk
begin

text \<open>
  Block allocation: src/alloc.c. The allocator walks over the block groups, from the group of the
  goal, until one has a free block; the bitmap of the group is a block of the buffer cache. The
  parameter flags is not used by the code.
\<close>

section \<open>Definitions\<close>

abbreviation (input) ENOSPC :: int where "ENOSPC \<equiv> 28"

definition release_opt :: "u64 option \<Rightarrow> fs \<Rightarrow> fs res" where
  "release_opt bh fs =
     (case bh of None \<Rightarrow> Inr fs
      | Some b \<Rightarrow> res_bind (fs_brelse b (bdev fs)) (\<lambda>d. Inr (fs\<lparr>bdev := d\<rparr>)))"

text \<open>The number of bits of the bitmap of a group that stand for blocks.\<close>

definition bitmap_len :: "u32 \<Rightarrow> super_state \<Rightarrow> nat" where
  "bitmap_len block_group s =
     (if block_group = super_n_block_groups s - 1 then
        (let l = unat (ext4_blocks_count s mod super_blocks_per_group s)
         in if l = 0 then unat (super_blocks_per_group s) else l)
      else unat (super_blocks_per_group s))"

text \<open>The branch of a group that has free blocks, after a run of \<open>len\<close> clear bits was found at \<open>index\<close>.\<close>

definition take_blocks :: "u32 \<Rightarrow> u64 \<Rightarrow> nat \<Rightarrow> int \<Rightarrow> inode \<Rightarrow> fs \<Rightarrow> (inode \<times> fs) res" where
  "take_blocks block_group bh index len inode fs =
     (let m = bh_data bh (bdev fs)
      in res_bind (c_defined (index + nat len \<le> 8 * length m)) (\<lambda>_.
         (let d = dirty_store bh (mb_set_bits m 0 index (nat len)) (bdev fs);
              s = sup fs;
              s = ext4_free_blks_set block_group (ext4_free_blks_count block_group s - of_int len) s;
              s = ext4_free_blocks_count_set (ext4_free_blocks_count s - of_int len) s;
              inode = ext4_set_inode_blocks inode (ext4_inode_blocks (raw_inode inode) s + of_int len) s
          in Inr (inode, \<lparr>sup = s, bdev = d\<rparr>))))"

text \<open>
  The loop at the label again. Its result is (err, block_group, index, len, bh, inode, state) at the
  label out. Once every group has been visited without success nothing changes any more, so a walk
  longer than the number of groups never ends: the counter \<open>turns\<close> starts with the number of groups.
\<close>

fun alloc_loop ::
  "nat \<Rightarrow> u32 \<Rightarrow> u64 \<Rightarrow> int \<Rightarrow> u64 option \<Rightarrow> inode \<Rightarrow> fs \<Rightarrow>
   (int \<times> u32 \<times> nat \<times> int \<times> u64 option \<times> inode \<times> fs) res" where
  "alloc_loop 0 block_group group_goal wanted bh inode fs = Inl Diverge"
| "alloc_loop (Suc turns) block_group group_goal wanted bh inode fs =
     res_bind (c_defined (unat block_group < length (gdesc_table (sup fs)))) (\<lambda>_.
     (let bitmap_blk = ext4_block_bitmap block_group (sup fs);
          no_space = (\<lambda>bh fs.
            let next = (block_group + 1) mod super_n_block_groups (sup fs)
            in if ucast next \<noteq> group_goal
               then alloc_loop turns next group_goal wanted bh inode fs
               else Inr (- ENOSPC, next, 0, 0, bh, inode, fs))
      in res_bind (ext4_try_to_init_block_bitmap block_group fs) (\<lambda>(err, fs).
         if err \<noteq> 0 then Inr (err, block_group, 0, 0, bh, inode, fs)
         else res_bind (release_opt bh fs) (\<lambda>fs.
           res_bind (fs_bread bitmap_blk (bdev fs)) (\<lambda>(bh, d).
           (let fs = fs\<lparr>bdev := d\<rparr>; s = sup fs
            in case bh of None \<Rightarrow> Inl Undefined
             | Some b \<Rightarrow>
                if ext4_free_blks_count block_group s \<noteq> 0 then
                  (let m = bh_data b d; n = bitmap_len block_group s
                   in res_bind (c_defined (n \<le> 8 * length m)) (\<lambda>_.
                      (let index = mb_find_next_zero_bit m 0 n 0;
                           len = mb_find_zero_run_len m 0 n index
                       in if len = 0
                          then no_space bh (fs\<lparr>sup := ext4_free_blks_set block_group 0 s\<rparr>)
                          else
                           (let len = (if len > wanted then wanted else len)
                            in res_bind (take_blocks block_group b index len inode fs) (\<lambda>(inode, fs).
                                 Inr (0, block_group, index, len, bh, inode, fs))))))
                else no_space bh fs))))))"

text \<open>The group of the goal, where the walk starts.\<close>

definition group_goal_of :: "u64 \<Rightarrow> super_state \<Rightarrow> u64" where
  "group_goal_of goal s =
     (if goal \<noteq> 0 then (goal - super_first_data_block s) div super_blocks_per_group s else 0)"

definition ext4_new_meta_blocks ::
  "inode \<Rightarrow> u64 \<Rightarrow> u64 option \<Rightarrow> fs \<Rightarrow> (u64 \<times> u64 option \<times> int \<times> inode \<times> fs) res" where
  "ext4_new_meta_blocks inode goal cnt fs =
     (let wanted = (case cnt of Some c \<Rightarrow> sint (ucast c :: u32) | None \<Rightarrow> 1);
          group_goal = group_goal_of goal (sup fs)
      in res_bind (alloc_loop (unat (super_n_block_groups (sup fs))) (ucast group_goal) group_goal wanted None inode fs)
           (\<lambda>(err, block_group, index, len, bh, inode, fs).
         res_bind (release_opt bh fs) (\<lambda>fs.
           (let ret = super_first_data_block (sup fs) +
                      ucast block_group * super_blocks_per_group (sup fs) + of_nat index
            in Inr (if err \<noteq> 0 then 0 else ret, map_option (\<lambda>_. of_int len) cnt, err, inode, fs)))))"

definition ext4_ext_free_blocks :: "inode \<Rightarrow> u64 \<Rightarrow> int \<Rightarrow> fs \<Rightarrow> (inode \<times> fs) res" where
  "ext4_ext_free_blocks inode block cnt fs =
     (let s = sup fs;
          block_group = ucast ((block - super_first_data_block s) div super_blocks_per_group s) :: u32
      in res_bind (c_defined (unat block_group < length (gdesc_table s))) (\<lambda>_.
         if \<not> ext4_is_block_bitmap_inited block_group s then Inr (inode, fs)
         else res_bind (fs_bread (ext4_block_bitmap block_group s) (bdev fs)) (\<lambda>(bh, d).
           (case bh of None \<Rightarrow> Inl Undefined
            | Some b \<Rightarrow>
               (let index = unat (block - super_first_data_block s - ucast block_group * super_blocks_per_group s);
                    m = bh_data b d
                in res_bind (c_defined (index + nat cnt \<le> 8 * length m)) (\<lambda>_.
                   (let d = dirty_store b (mb_clear_bits m 0 index (nat cnt)) d;
                        s = ext4_free_blks_set block_group (ext4_free_blks_count block_group s + of_int cnt) s;
                        s = ext4_free_blocks_count_set (ext4_free_blocks_count s + of_int cnt) s;
                        inode = ext4_set_inode_blocks inode (ext4_inode_blocks (raw_inode inode) s - of_int cnt) s
                    in res_bind (fs_brelse b d) (\<lambda>d. Inr (inode, \<lparr>sup = s, bdev = d\<rparr>)))))))))"

section \<open>Facts\<close>

declare alloc_loop.simps [simp del]

lemma geometry_set [simp]:
  "super_block_size (ext4_free_blks_set g n s) = super_block_size s"
  "super_block_size (ext4_free_blocks_count_set k s) = super_block_size s"
  "super_first_data_block (ext4_free_blks_set g n s) = super_first_data_block s"
  "super_first_data_block (ext4_free_blocks_count_set k s) = super_first_data_block s"
  "super_blocks_per_group (ext4_free_blks_set g n s) = super_blocks_per_group s"
  "super_blocks_per_group (ext4_free_blocks_count_set k s) = super_blocks_per_group s"
  by (simp_all add: super_block_size_def super_first_data_block_def super_blocks_per_group_def
      ext4_free_blks_set_def ext4_free_blocks_count_set_def)

lemma super_counts [simp]:
  "ext4_free_blks_count g (ext4_free_blocks_count_set k s) = ext4_free_blks_count g s"
  "ext4_block_bitmap g (ext4_free_blocks_count_set k s) = ext4_block_bitmap g s"
  "ext4_free_blocks_count (ext4_free_blocks_count_set k s) = k"
  "ext4_free_blocks_count (ext4_free_blks_set g n s) = ext4_free_blocks_count s"
  "length (gdesc_table (ext4_free_blks_set g n s)) = length (gdesc_table s)"
  "gdesc_table (ext4_free_blocks_count_set k s) = gdesc_table s"
  "cut32 (ext4_free_blocks_count_set k s) = cut32 s"
  by (simp_all add: ext4_free_blks_count_def ext4_block_bitmap_def ext4_free_blocks_count_def bg_def
      ext4_free_blocks_count_set_def ext4_free_blks_set_def hi_lo_64 has_hi_def super_group_desc_size_def
      cut32_def fun_eq_iff)

lemma not_uninit: "ext4_is_block_bitmap_inited g (sup fs) \<Longrightarrow> unat g < length (gdesc_table (sup fs)) \<Longrightarrow>
    ext4_try_to_init_block_bitmap g fs = Inr (0, fs)"
  by (simp add: ext4_try_to_init_block_bitmap_def ext4_is_block_bitmap_inited_def)

text \<open>
  What an allocation in group \<open>g\<close> finds: the bitmap is initialised, the group claims a free block, its
  bitmap block holds the bits of the group, and \<open>find_free\<close> is the position the search returns.
\<close>

definition find_free :: "u32 \<Rightarrow> fs \<Rightarrow> nat" where
  "find_free g fs = mb_find_next_zero_bit (view (bdev fs) (ext4_block_bitmap g (sup fs))) 0 (bitmap_len g (sup fs)) 0"

definition alloc_ready :: "u32 \<Rightarrow> fs \<Rightarrow> bool" where
  "alloc_ready g fs \<longleftrightarrow> fs_ok fs \<and> unat g < length (gdesc_table (sup fs)) \<and>
     ext4_is_block_bitmap_inited g (sup fs) \<and> ext4_free_blks_count g (sup fs) \<noteq> 0 \<and>
     8 dvd unat (super_block_size (sup fs)) \<and>
     bitmap_len g (sup fs) \<le> 8 * unat (super_block_size (sup fs)) \<and>
     find_free g fs < 8 * unat (super_block_size (sup fs))"

text \<open>The state of the walk: the buffer of the previous group, when there is one, can be released.\<close>

definition held :: "u64 option \<Rightarrow> block_device \<Rightarrow> block_device \<Rightarrow> bool" where
  "held bh d0 d \<longleftrightarrow> (case bh of None \<Rightarrow> same_view d0 d | Some b \<Rightarrow> \<exists>d2. fs_brelse b d = Inr d2 \<and> same_view d0 d2)"

lemma release_held:
  "held bh d0 (bdev fs) \<Longrightarrow> \<exists>d. release_opt bh fs = Inr (fs\<lparr>bdev := d\<rparr>) \<and> same_view d0 d"
  by (auto simp: held_def release_opt_def split: option.splits) (metis fs.surjective fs.update_convs(2) old.unit.exhaust)

lemma alloc_turn:
  assumes rdy: "alloc_ready g fs0" and w: "0 < wanted" and same: "sup fs = sup fs0" "held bh (bdev fs0) (bdev fs)"
  defines "B \<equiv> ext4_block_bitmap g (sup fs0)" and "i \<equiv> find_free g fs0"
  shows "\<exists>inode' d1 d2 s'. alloc_loop (Suc k) g goal wanted bh inode fs = Inr (0, g, i, 1, Some B, inode', \<lparr>sup = s', bdev = d1\<rparr>) \<and>
    fs_brelse B d1 = Inr d2 \<and> fs_ok \<lparr>sup = s', bdev = d2\<rparr> \<and>
    view d2 = (view (bdev fs0))(B := mb_set_bits (view (bdev fs0) B) 0 i 1) \<and> refs d2 = refs (bdev fs0) \<and>
    s' = ext4_free_blocks_count_set (ext4_free_blocks_count (sup fs0) - 1)
           (ext4_free_blks_set g (ext4_free_blks_count g (sup fs0) - 1) (sup fs0)) \<and>
    inode' = ext4_set_inode_blocks inode (ext4_inode_blocks (raw_inode inode) s' + 1) s'"
proof -
  let ?m = "view (bdev fs0) B" and ?n = "bitmap_len g (sup fs0)"
  have inv0: "cache_inv (bdev fs0)" and bsz0: "s_blocksize (bdev fs0) = unat (super_block_size (sup fs0))"
    using rdy by (simp_all add: alloc_ready_def fs_ok_def)
  obtain d where d: "release_opt bh fs = Inr (fs\<lparr>bdev := d\<rparr>)" "same_view (bdev fs0) d" using release_held [OF same(2)] by blast
  have inv: "cache_inv d" and v: "view d = view (bdev fs0)" "refs d = refs (bdev fs0)" and bsz: "s_blocksize d = unat (super_block_size (sup fs0))"
    using d(2) bsz0 bs.bsize_vw [OF inv0, of d] by (simp_all add: same_view_def)
  have len: "length ?m = s_blocksize d" using bs.vw_length [OF inv] v by simp
  have i: "mb_find_next_zero_bit ?m 0 ?n 0 = i" by (simp add: i_def find_free_def B_def)
  have run: "mb_find_zero_run_len ?m 0 ?n i = 1"
    unfolding i [symmetric]
    by (rule mb_find_zero_run_len_at_zero)
      (use mb_find_next_zero_bit_bounds [of 0 ?n ?m 0] first_from_holds [of "\<lambda>j. \<not> mbit ?m j" 0 ?n] in
        \<open>simp_all add: mb_find_next_zero_bit_first_from\<close>)
  obtain d1 d2 where c: "fs_bread B d = Inr (Some B, d1)" "bh_data B d1 = ?m"
    "fs_brelse B (dirty_store B (mb_set_bits ?m 0 i 1) d1) = Inr d2" "cache_inv d2"
    "view d2 = (view (bdev fs0))(B := mb_set_bits ?m 0 i 1)" "refs d2 = refs (bdev fs0)" "s_blocksize d2 = s_blocksize d"
    using bs.update_cycle [OF inv, of "\<lambda>m. mb_set_bits m 0 i 1" B] len v by auto
  have bound: "i + 1 \<le> 8 * length ?m" "?n \<le> 8 * length ?m" using rdy len bsz by (simp_all add: alloc_ready_def i_def)
  have ti: "ext4_try_to_init_block_bitmap g fs = Inr (0, fs)" "unat g < length (gdesc_table (sup fs0))"
    "ext4_free_blks_count g (sup fs0) \<noteq> 0"
    using rdy not_uninit [of g fs] same(1) by (simp_all add: alloc_ready_def)
  have "alloc_loop (Suc k) g goal wanted bh inode fs = (case take_blocks g B i 1 inode (fs\<lparr>bdev := d1\<rparr>) of
      Inl e \<Rightarrow> Inl e | Inr (inode', fs') \<Rightarrow> Inr (0, g, i, 1, Some B, inode', fs'))"
    using ti c(1,2) bound(2) run w
    by (simp add: alloc_loop.simps d(1) same(1) B_def [symmetric] i Let_def split: sum.split)
  then show ?thesis
    using c bound rdy bsz same(1) by (simp add: take_blocks_def Let_def alloc_ready_def fs_ok_def)
qed

lemma held_None: "cache_inv d \<Longrightarrow> held None d d"
  by (simp add: held_def same_view_def)

lemma find_free_clear:
  "\<exists>j < bitmap_len g (sup fs). \<not> mbit (view (bdev fs) (ext4_block_bitmap g (sup fs))) j \<Longrightarrow>
    find_free g fs < bitmap_len g (sup fs) \<and>
    \<not> mbit (view (bdev fs) (ext4_block_bitmap g (sup fs))) (find_free g fs) \<and>
    (\<forall>j < find_free g fs. mbit (view (bdev fs) (ext4_block_bitmap g (sup fs))) j)"
  using first_from_least [of 0 _ "\<lambda>j. \<not> mbit (view (bdev fs) (ext4_block_bitmap g (sup fs))) j" "bitmap_len g (sup fs)"]
    first_from_bounds [of 0 "bitmap_len g (sup fs)" "\<lambda>j. \<not> mbit (view (bdev fs) (ext4_block_bitmap g (sup fs))) j"]
    first_from_holds [of "\<lambda>j. \<not> mbit (view (bdev fs) (ext4_block_bitmap g (sup fs))) j" 0 "bitmap_len g (sup fs)"]
  by (simp add: find_free_def mb_find_next_zero_bit_first_from) (metis le_neq_implies_less)

lemma set_inode_blocks_dirty [simp]: "i_data_dirty (ext4_set_inode_blocks inode n s)"
  by (simp add: ext4_set_inode_blocks_def inode_mark_dirty_def Let_def)

text \<open>Freeing: the group and the index of a block of group \<open>g\<close>.\<close>

lemma group_index:
  fixes g :: u32 and n :: u64
  assumes i: "i < unat n" and n: "unat n < 2 ^ 32"
  shows "ucast ((ucast g * n + of_nat i) div n) = g" "ucast g * n + of_nat i - ucast g * n = (of_nat i :: u64)"
    "unat (of_nat i :: u64) = i"
proof -
  have g: "unat (ucast g :: u64) = unat g" by (rule unat_ucast_up)
  have gl: "unat g \<le> 2 ^ 32 - 1" using unat_less [of g] by simp
  have i64: "unat (of_nat i :: u64) = i" using i n by (simp add: unat_of_nat)
  have "unat g * unat n \<le> (2 ^ 32 - 1) * unat n" by (rule mult_le_mono1 [OF gl])
  also have "\<dots> \<le> (2 ^ 32 - 1) * (2 ^ 32 - 1)" using n by (intro mult_le_mono2) simp
  finally have b: "unat g * unat n + i < 2 ^ 64" using i n by simp
  have "unat (ucast g * n + of_nat i :: u64) = unat g * unat n + i"
    using b by (simp add: unat_word_ariths g i64)
  then have "unat ((ucast g * n + of_nat i :: u64) div n) = unat g"
    using i by (simp add: unat_div)
  then have "(ucast g * n + of_nat i :: u64) div n = ucast g" by (simp add: word_unat_eq_iff g)
  moreover have "ucast (ucast g :: u64) = g" by (rule bit_word_eqI) (simp add: bit_simps)
  ultimately show "ucast ((ucast g * n + of_nat i) div n) = g" by simp
  show "ucast g * n + of_nat i - ucast g * n = (of_nat i :: u64)" by simp
  show "unat (of_nat i :: u64) = i" by (rule i64)
qed

lemma free_one:
  fixes g :: u32 and fs :: fs
  defines "B \<equiv> ext4_block_bitmap g (sup fs)"
  assumes ok: "fs_ok fs" and g: "unat g < length (gdesc_table (sup fs))" "ext4_is_block_bitmap_inited g (sup fs)"
    and i: "i < unat (super_blocks_per_group (sup fs))" "i < 8 * unat (super_block_size (sup fs))"
  shows "\<exists>fs'. ext4_ext_free_blocks inode
      (super_first_data_block (sup fs) + ucast g * super_blocks_per_group (sup fs) + of_nat i) 1 fs =
      Inr (ext4_set_inode_blocks inode (ext4_inode_blocks (raw_inode inode) (sup fs') - 1) (sup fs'), fs') \<and>
    view (bdev fs') = (view (bdev fs))(B := mb_clear_bits (view (bdev fs) B) 0 i 1) \<and>
    refs (bdev fs') = refs (bdev fs) \<and> fs_ok fs' \<and>
    sup fs' = ext4_free_blocks_count_set (ext4_free_blocks_count (sup fs) + 1)
           (ext4_free_blks_set g (ext4_free_blks_count g (sup fs) + 1) (sup fs))"
proof -
  let ?m = "view (bdev fs) B"
  have inv: "cache_inv (bdev fs)" and bsz: "s_blocksize (bdev fs) = unat (super_block_size (sup fs))"
    using ok by (simp_all add: fs_ok_def)
  have len: "length ?m = s_blocksize (bdev fs)" by (rule bs.vw_length [OF inv])
  obtain d1 d2 where c: "fs_bread B (bdev fs) = Inr (Some B, d1)" "bh_data B d1 = ?m"
    "fs_brelse B (dirty_store B (mb_clear_bits ?m 0 i 1) d1) = Inr d2" "cache_inv d2"
    "view d2 = (view (bdev fs))(B := mb_clear_bits ?m 0 i 1)" "refs d2 = refs (bdev fs)" "s_blocksize d2 = s_blocksize (bdev fs)"
    using bs.update_cycle [OF inv, of "\<lambda>m. mb_clear_bits m 0 i 1" "B"] len by auto
  have "unat (super_blocks_per_group (sup fs)) < 2 ^ 32"
    using unat_less [of "s_blocks_per_group (super_block (sup fs))"] by (simp add: super_blocks_per_group_def unat_ucast_up)
  note a = group_index(1,2) [OF i(1) this, of g] group_index(3) [OF i(1) this]
  show ?thesis
    using c g i(2) len bsz ok
    by (simp add: ext4_ext_free_blocks_def Let_def a add.assoc B_def [symmetric] fs_ok_def)
qed

lemma clear_set_bit:
  assumes "8 dvd length m" "i < 8 * length m" "\<not> mbit m i"
  shows "mb_clear_bits (mb_set_bits m 0 i 1) 0 i 1 = m"
proof -
  have "mbit (mb_clear_bits (mb_set_bits m 0 i 1) 0 i 1) j = mbit m j" if "j < 8 * length m" for j
  proof (cases "j = i")
    case False
    then have "\<not> (i \<le> j \<and> j < Suc i)" by simp
    then show ?thesis
      using assms that mb_clear_bits_mbit [of "mb_set_bits m 0 i 1" 0 i 1 j] mb_set_bits_mbit [of m 0 i 1 j]
      by (simp only: in_mem_def) auto
  qed (use assms that mb_clear_bits_mbit [of "mb_set_bits m 0 i 1" 0 i 1 j] in \<open>simp add: in_mem_def\<close>)
  then show ?thesis by (intro bytes_eq_iff_mbit [THEN iffD2]) simp_all
qed

lemma bitmap_set_free [simp]:
  "unat g < length (gdesc_table s) \<Longrightarrow> ext4_block_bitmap h (ext4_free_blks_set g n s) = ext4_block_bitmap h s"
  by (auto simp: ext4_block_bitmap_def ext4_free_blks_set_def bg_bg_upd Let_def)

lemma cut32_set_free [simp]: "cut32 (ext4_free_blks_set g n s) = cut32 s"
  by (simp add: fun_eq_iff f_free_blks.cut_super [OF f_free_blks.put_super])

lemma inited_set [simp]:
  "unat g < length (gdesc_table s) \<Longrightarrow>
    ext4_is_block_bitmap_inited h (ext4_free_blks_set g n s) = ext4_is_block_bitmap_inited h s"
  "ext4_is_block_bitmap_inited h (ext4_free_blocks_count_set k s) = ext4_is_block_bitmap_inited h s"
  by (simp add: ext4_is_block_bitmap_inited_def ext4_free_blks_set_def bg_bg_upd Let_def)
    (simp add: ext4_is_block_bitmap_inited_def bg_def ext4_free_blocks_count_set_def)

lemma next_group:
  assumes "u < n" "G < n" "u = (G + j) mod n" "j < n"
  shows "(u + 1) mod n = (G + Suc j) mod n" "(u + 1) mod n = G \<longleftrightarrow> Suc j = n"
proof -
  show e: "(u + 1) mod n = (G + Suc j) mod n" using assms(3) by (simp add: mod_Suc_eq)
  consider "G + Suc j < n" | "n \<le> G + Suc j" by linarith
  then show "(u + 1) mod n = G \<longleftrightarrow> Suc j = n"
  proof cases
    case 2
    then have "(G + Suc j) mod n = G + Suc j - n" using assms by (simp add: le_mod_geq)
    then show ?thesis using e assms 2 by auto
  qed (use e assms in auto)
qed

text \<open>One turn at a group without a free block: it reads the bitmap, and goes on until it is back at the goal.\<close>

definition no_free :: "u32 \<Rightarrow> super_state \<Rightarrow> bool" where
  "no_free g s \<longleftrightarrow> ext4_is_block_bitmap_inited g s \<and> ext4_free_blks_count g s = 0"

lemma alloc_loop_full:
  assumes inv: "cache_inv d0" and len: "length (gdesc_table s) = unat (super_n_block_groups s)"
    and goal: "unat goal < unat (super_n_block_groups s)" and s: "sup fs = s" and held: "held bh d0 (bdev fs)"
    and j: "j < unat (super_n_block_groups s)" and g: "unat g = (unat goal + j) mod unat (super_n_block_groups s)"
    and full: "no_free g s"
  shows "\<exists>d1 next. held (Some (ext4_block_bitmap g s)) d0 d1 \<and> unat next = (unat goal + Suc j) mod unat (super_n_block_groups s) \<and>
    alloc_loop (Suc turns) g goal wanted bh inode fs =
      (if Suc j \<noteq> unat (super_n_block_groups s)
       then alloc_loop turns next goal wanted (Some (ext4_block_bitmap g s)) inode \<lparr>sup = s, bdev = d1\<rparr>
       else Inr (- ENOSPC, next, 0, 0, Some (ext4_block_bitmap g s), inode, \<lparr>sup = s, bdev = d1\<rparr>))"
proof -
  let ?n = "super_n_block_groups s" and ?B = "ext4_block_bitmap g s" and ?next = "(g + 1) mod super_n_block_groups s"
  have gl: "unat g < unat ?n" using j g by simp
  obtain d where d: "release_opt bh fs = Inr (fs\<lparr>bdev := d\<rparr>)" "same_view d0 d" using release_held [OF held] by blast
  obtain d1 d2 where c: "fs_bread ?B d = Inr (Some ?B, d1)" "fs_brelse ?B d1 = Inr d2" "same_view d0 d2"
    by (rule bs.read_cycle [of d ?B]) (use d(2) in \<open>simp_all add: same_view_def\<close>)
  have "unat (g + 1) = unat g + 1" using gl unat_Suc_less [of g ?n] by (simp add: word_less_nat_alt)
  then have un: "unat ?next = (unat g + 1) mod unat ?n" by (simp add: unat_mod)
  have eq: "(ucast ?next = goal) = (Suc j = unat ?n)"
    using next_group(2) [OF gl goal g j] un by (simp add: word_unat_eq_iff unat_ucast_up)
  have h: "held (Some ?B) d0 d1" using c by (auto simp: held_def)
  have fs': "fs\<lparr>bdev := d1\<rparr> = \<lparr>sup = s, bdev = d1\<rparr>" using s by (cases fs) simp
  have "alloc_loop (Suc turns) g goal wanted bh inode fs =
     (if Suc j \<noteq> unat ?n then alloc_loop turns ?next goal wanted (Some ?B) inode (fs\<lparr>bdev := d1\<rparr>)
      else Inr (- ENOSPC, ?next, 0, 0, Some ?B, inode, (fs\<lparr>bdev := d1\<rparr>)))"
    using s full d c gl not_uninit [of g fs] eq len by (simp add: alloc_loop.simps Let_def no_free_def)
  then show ?thesis using h un next_group(1) [OF gl goal g j] unfolding fs' by (intro exI [of _ d1] exI [of _ ?next]) simp
qed

lemma alloc_loop_no_space:
  assumes inv: "cache_inv d0" and len: "length (gdesc_table s) = unat (super_n_block_groups s)"
    and goal: "unat goal < unat (super_n_block_groups s)"
    and none: "\<forall>g j. unat g = (unat goal + j) mod unat (super_n_block_groups s) \<longrightarrow> j < unat (super_n_block_groups s) \<longrightarrow> no_free g s"
  shows "sup fs = s \<Longrightarrow> held bh d0 (bdev fs) \<Longrightarrow> j < unat (super_n_block_groups s) \<Longrightarrow>
    unat g = (unat goal + j) mod unat (super_n_block_groups s) \<Longrightarrow>
    unat (super_n_block_groups s) \<le> turns + j \<Longrightarrow>
    \<exists>g' bh' d. alloc_loop turns g goal wanted bh inode fs = Inr (- ENOSPC, g', 0, 0, bh', inode, \<lparr>sup = s, bdev = d\<rparr>) \<and> held bh' d0 d"
proof (induction turns arbitrary: g bh fs j)
  case (Suc turns)
  obtain d1 "next" where step: "held (Some (ext4_block_bitmap g s)) d0 d1"
    "unat next = (unat goal + Suc j) mod unat (super_n_block_groups s)"
    "alloc_loop (Suc turns) g goal wanted bh inode fs =
      (if Suc j \<noteq> unat (super_n_block_groups s)
       then alloc_loop turns next goal wanted (Some (ext4_block_bitmap g s)) inode \<lparr>sup = s, bdev = d1\<rparr>
       else Inr (- ENOSPC, next, 0, 0, Some (ext4_block_bitmap g s), inode, \<lparr>sup = s, bdev = d1\<rparr>))"
    using alloc_loop_full [OF inv len goal Suc.prems(1-4) none [rule_format, OF Suc.prems(4,3)]] by metis
  show ?case
  proof (cases "Suc j = unat (super_n_block_groups s)")
    case False
    then show ?thesis
      using Suc.IH [of "\<lparr>sup = s, bdev = d1\<rparr>" "Some (ext4_block_bitmap g s)" "Suc j" "next"] step Suc.prems(3,5) by simp
  qed (use step in simp)
qed simp

text \<open>The walk stops at the first group that has a free block.\<close>

lemma alloc_loop_walk:
  assumes rdy: "alloc_ready gk fs0" and w: "0 < wanted" and len: "length (gdesc_table (sup fs0)) = unat (super_n_block_groups (sup fs0))"
    and goal: "unat goal < unat (super_n_block_groups (sup fs0))" and k: "k < unat (super_n_block_groups (sup fs0))"
    and gk: "unat gk = (unat goal + k) mod unat (super_n_block_groups (sup fs0))"
    and none: "\<forall>g j. unat g = (unat goal + j) mod unat (super_n_block_groups (sup fs0)) \<longrightarrow> j < k \<longrightarrow> no_free g (sup fs0)"
  defines "B \<equiv> ext4_block_bitmap gk (sup fs0)" and "i \<equiv> find_free gk fs0"
  shows "sup fs = sup fs0 \<Longrightarrow> held bh (bdev fs0) (bdev fs) \<Longrightarrow> j \<le> k \<Longrightarrow>
    unat g = (unat goal + j) mod unat (super_n_block_groups (sup fs0)) \<Longrightarrow> k < turns + j \<Longrightarrow>
    \<exists>inode' d1 d2 s'. alloc_loop turns g goal wanted bh inode fs = Inr (0, gk, i, 1, Some B, inode', \<lparr>sup = s', bdev = d1\<rparr>) \<and>
    fs_brelse B d1 = Inr d2 \<and> fs_ok \<lparr>sup = s', bdev = d2\<rparr> \<and>
    view d2 = (view (bdev fs0))(B := mb_set_bits (view (bdev fs0) B) 0 i 1) \<and> refs d2 = refs (bdev fs0) \<and>
    s' = ext4_free_blocks_count_set (ext4_free_blocks_count (sup fs0) - 1)
           (ext4_free_blks_set gk (ext4_free_blks_count gk (sup fs0) - 1) (sup fs0)) \<and>
    inode' = ext4_set_inode_blocks inode (ext4_inode_blocks (raw_inode inode) s' + 1) s'"
proof (induction turns arbitrary: g bh fs j)
  case (Suc turns)
  have inv: "cache_inv (bdev fs0)" using rdy by (simp add: alloc_ready_def fs_ok_def)
  show ?case
  proof (cases "j = k")
    case True
    then have g: "g = gk" using Suc.prems(4) gk by (simp add: word_unat_eq_iff)
    show ?thesis unfolding B_def i_def g by (rule alloc_turn [OF rdy w Suc.prems(1,2)])
  next
    case False
    then have j: "j < k" "j < unat (super_n_block_groups (sup fs0))" using Suc.prems(3) k by simp_all
    have neq: "Suc j \<noteq> unat (super_n_block_groups (sup fs0))" using k j(1) by simp
    obtain d1 "next" where "held (Some (ext4_block_bitmap g (sup fs0))) (bdev fs0) d1"
      "unat next = (unat goal + Suc j) mod unat (super_n_block_groups (sup fs0))"
      "alloc_loop (Suc turns) g goal wanted bh inode fs =
         alloc_loop turns next goal wanted (Some (ext4_block_bitmap g (sup fs0))) inode \<lparr>sup = sup fs0, bdev = d1\<rparr>"
      using alloc_loop_full [OF inv len goal Suc.prems(1,2) j(2) Suc.prems(4) none [rule_format, OF Suc.prems(4) j(1)], of turns wanted inode]
      unfolding if_P [OF neq] by blast
    then show ?thesis
      using Suc.IH [of "\<lparr>sup = sup fs0, bdev = d1\<rparr>" "Some (ext4_block_bitmap g (sup fs0))" "Suc j" "next"] j(1) Suc.prems(5) by simp
  qed
qed simp

text \<open>The whole call, when the group of the goal has a free block.\<close>

lemma new_meta_blocks_turn:
  fixes fs :: fs and goal :: u64 and inode :: inode
  defines "g \<equiv> ucast (group_goal_of goal (sup fs)) :: u32"
  defines "B \<equiv> ext4_block_bitmap g (sup fs)" and "i \<equiv> find_free g fs"
  assumes rdy: "alloc_ready g fs" and n: "0 < unat (super_n_block_groups (sup fs))"
  shows "\<exists>fs'. ext4_new_meta_blocks inode goal None fs =
      Inr (super_first_data_block (sup fs) + ucast g * super_blocks_per_group (sup fs) + of_nat i, None, 0,
        ext4_set_inode_blocks inode (ext4_inode_blocks (raw_inode inode) (sup fs') + 1) (sup fs'), fs') \<and>
    view (bdev fs') = (view (bdev fs))(B := mb_set_bits (view (bdev fs) B) 0 i 1) \<and> refs (bdev fs') = refs (bdev fs) \<and> fs_ok fs' \<and>
    sup fs' = ext4_free_blocks_count_set (ext4_free_blocks_count (sup fs) - 1)
       (ext4_free_blks_set g (ext4_free_blks_count g (sup fs) - 1) (sup fs))"
proof -
  obtain k where k: "unat (super_n_block_groups (sup fs)) = Suc k"
    using n by (cases "unat (super_n_block_groups (sup fs))") auto
  obtain inode' d1 d2 s' where a: "alloc_loop (Suc k) g (group_goal_of goal (sup fs)) 1 None inode fs =
      Inr (0, g, i, 1, Some B, inode', \<lparr>sup = s', bdev = d1\<rparr>)"
    "fs_brelse B d1 = Inr d2" "fs_ok \<lparr>sup = s', bdev = d2\<rparr>" "view d2 = (view (bdev fs))(B := mb_set_bits (view (bdev fs) B) 0 i 1)"
    "refs d2 = refs (bdev fs)" "s' = ext4_free_blocks_count_set (ext4_free_blocks_count (sup fs) - 1)
       (ext4_free_blks_set g (ext4_free_blks_count g (sup fs) - 1) (sup fs))"
    "inode' = ext4_set_inode_blocks inode (ext4_inode_blocks (raw_inode inode) s' + 1) s'"
    using alloc_turn [OF rdy, of 1 fs None k "group_goal_of goal (sup fs)" inode] held_None rdy
    unfolding B_def i_def by (auto simp: alloc_ready_def fs_ok_def)
  then show ?thesis
    by (intro exI [of _ "\<lparr>sup = s', bdev = d2\<rparr>"])
      (simp add: ext4_new_meta_blocks_def k g_def [symmetric] release_opt_def a(6,7) Let_def)
qed

text \<open>The whole call, from a goal whose group and the following ones have no free block.\<close>

lemma goal_group:
  fixes gg :: u64 and n :: u32
  assumes "unat gg < unat n"
  shows "unat (ucast gg :: u32) = unat gg" "unat (of_nat ((unat gg + j) mod unat n) :: u32) = (unat gg + j) mod unat n"
proof -
  have n: "unat n < 2 ^ 32" by (rule u32_less)
  then show "unat (ucast gg :: u32) = unat gg" using assms by (simp add: unsigned_ucast_eq take_bit_nat_eq_self)
  have "(unat gg + j) mod unat n < unat n" using assms by simp
  then show "unat (of_nat ((unat gg + j) mod unat n) :: u32) = (unat gg + j) mod unat n"
    using n by (simp add: unat_of_nat)
qed

lemma new_meta_blocks_none:
  fixes fs :: fs and goal :: u64
  defines "n \<equiv> unat (super_n_block_groups (sup fs))"
  defines "grp \<equiv> \<lambda>j. of_nat ((unat (group_goal_of goal (sup fs)) + j) mod n) :: u32"
  assumes ok: "fs_ok fs" and len: "length (gdesc_table (sup fs)) = n" and goal: "unat (group_goal_of goal (sup fs)) < n"
    and full: "\<forall>j < n. no_free (grp j) (sup fs)"
  shows "\<exists>fs'. ext4_new_meta_blocks inode goal cnt fs = Inr (0, map_option (\<lambda>_. 0) cnt, - ENOSPC, inode, fs') \<and>
      sup fs' = sup fs \<and> view (bdev fs') = view (bdev fs) \<and> refs (bdev fs') = refs (bdev fs) \<and> fs_ok fs'"
proof -
  let ?s = "sup fs" and ?gg = "group_goal_of goal (sup fs)"
  note gu = goal [unfolded n_def] and gg = goal_group [OF goal [unfolded n_def]]
  have inv: "cache_inv (bdev fs)" using ok by (simp add: fs_ok_def)
  have none: "\<forall>(g :: u32) j. unat g = (unat ?gg + j) mod unat (super_n_block_groups ?s) \<longrightarrow> j < unat (super_n_block_groups ?s) \<longrightarrow> no_free g ?s"
  proof (intro allI impI)
    fix g :: u32 and j assume that: "unat g = (unat ?gg + j) mod unat (super_n_block_groups ?s)" "j < unat (super_n_block_groups ?s)"
    have "g = grp j" using that(1) gg(2) by (simp add: word_unat_eq_iff grp_def n_def)
    then show "no_free g ?s" using full that(2) by (simp add: n_def)
  qed
  obtain g' bh' d where a: "alloc_loop (unat (super_n_block_groups ?s)) (ucast ?gg) ?gg (case cnt of Some c \<Rightarrow> sint (ucast c :: u32) | None \<Rightarrow> 1) None inode fs =
      Inr (- ENOSPC, g', 0, 0, bh', inode, \<lparr>sup = ?s, bdev = d\<rparr>)" "held bh' (bdev fs) d"
    using alloc_loop_no_space [OF inv len [unfolded n_def] gu none refl held_None [OF inv], where j = 0 and g = "ucast ?gg"] gu gg(1) by auto blast
  obtain d2 where "release_opt bh' \<lparr>sup = ?s, bdev = d\<rparr> = Inr \<lparr>sup = ?s, bdev = d2\<rparr>" "same_view (bdev fs) d2"
    using release_held [of bh' "bdev fs" "\<lparr>sup = ?s, bdev = d\<rparr>"] a(2) by auto
  then show ?thesis using a(1) ok by (simp add: ext4_new_meta_blocks_def Let_def same_view_def fs_ok_def)
qed

lemma new_meta_blocks_walk:
  fixes fs :: fs and goal :: u64
  defines "n \<equiv> unat (super_n_block_groups (sup fs))"
  defines "grp \<equiv> \<lambda>j. of_nat ((unat (group_goal_of goal (sup fs)) + j) mod n) :: u32"
  defines "B \<equiv> \<lambda>j. ext4_block_bitmap (grp j) (sup fs)"
  assumes len: "length (gdesc_table (sup fs)) = n" and goal: "unat (group_goal_of goal (sup fs)) < n"
    and k: "k < n" and full: "\<forall>j < k. no_free (grp j) (sup fs)" and rdy: "alloc_ready (grp k) fs"
    and free: "\<exists>i < bitmap_len (grp k) (sup fs). \<not> mbit (view (bdev fs) (B k)) i"
    and cnt: "\<forall>c. cnt = Some c \<longrightarrow> 0 < sint (ucast c :: u32)"
  shows "\<exists>inode' fs' i. ext4_new_meta_blocks inode goal cnt fs =
        Inr (super_first_data_block (sup fs) + ucast (grp k) * super_blocks_per_group (sup fs) + of_nat i,
          map_option (\<lambda>_. 1) cnt, 0, inode', fs') \<and>
      i < bitmap_len (grp k) (sup fs) \<and> \<not> mbit (view (bdev fs) (B k)) i \<and> (\<forall>j < i. mbit (view (bdev fs) (B k)) j) \<and>
      view (bdev fs') = (view (bdev fs))(B k := mb_set_bits (view (bdev fs) (B k)) 0 i 1) \<and>
      refs (bdev fs') = refs (bdev fs) \<and> fs_ok fs'"
proof -
  let ?s = "sup fs" and ?gg = "group_goal_of goal (sup fs)" and ?i = "find_free (grp k) fs"
    and ?w = "case cnt of Some c \<Rightarrow> sint (ucast c :: u32) | None \<Rightarrow> 1"
  note gg = goal_group [OF goal [unfolded n_def]]
  have w: "0 < ?w" using cnt by (cases cnt) simp_all
  have gk: "unat (grp k) = (unat ?gg + k) mod unat (super_n_block_groups ?s)" unfolding grp_def n_def by (rule gg(2))
  have none: "\<forall>(g :: u32) j. unat g = (unat ?gg + j) mod unat (super_n_block_groups ?s) \<longrightarrow> j < k \<longrightarrow> no_free g ?s"
  proof (intro allI impI)
    fix g :: u32 and j assume that: "unat g = (unat ?gg + j) mod unat (super_n_block_groups ?s)" "j < k"
    have "g = grp j" using that(1) gg(2) by (simp add: word_unat_eq_iff grp_def n_def)
    then show "no_free g ?s" using full that(2) by simp
  qed
  have h: "held None (bdev fs) (bdev fs)" using rdy held_None by (simp add: alloc_ready_def fs_ok_def)
  have p: "0 \<le> k" "unat (ucast ?gg :: u32) = (unat ?gg + 0) mod unat (super_n_block_groups ?s)" "k < n + 0"
    using goal k gg(1) by (simp_all add: n_def)
  obtain inode' d1 d2 s' where a: "alloc_loop n (ucast ?gg) ?gg ?w None inode fs = Inr (0, grp k, ?i, 1, Some (B k), inode', \<lparr>sup = s', bdev = d1\<rparr>)"
    "fs_brelse (B k) d1 = Inr d2" "fs_ok \<lparr>sup = s', bdev = d2\<rparr>"
    "view d2 = (view (bdev fs))(B k := mb_set_bits (view (bdev fs) (B k)) 0 ?i 1)" "refs d2 = refs (bdev fs)"
    "s' = ext4_free_blocks_count_set (ext4_free_blocks_count ?s - 1) (ext4_free_blks_set (grp k) (ext4_free_blks_count (grp k) ?s - 1) ?s)"
    using alloc_loop_walk [OF rdy w len [unfolded n_def] goal [unfolded n_def] k [unfolded n_def] gk none refl h p]
    unfolding B_def n_def by blast
  have i: "?i < bitmap_len (grp k) ?s \<and> \<not> mbit (view (bdev fs) (B k)) ?i \<and> (\<forall>j < ?i. mbit (view (bdev fs) (B k)) j)"
    using find_free_clear [OF free [unfolded B_def]] unfolding B_def .
  have "ext4_new_meta_blocks inode goal cnt fs =
        Inr (super_first_data_block ?s + ucast (grp k) * super_blocks_per_group ?s + of_nat ?i, map_option (\<lambda>_. 1) cnt, 0, inode', \<lparr>sup = s', bdev = d2\<rparr>)"
    using a(1,2) by (simp add: ext4_new_meta_blocks_def n_def [symmetric] release_opt_def a(6) Let_def)
  then show ?thesis using i a(3-5) by (intro exI [of _ inode'] exI [of _ "\<lparr>sup = s', bdev = d2\<rparr>"] exI [of _ ?i]) simp
qed

section \<open>Properties\<close>

text \<open>C17: In a group with a free block the allocator takes the first clear bit of the bitmap: it returns the
  block of that bit, sets exactly that bit, leaves all other blocks of the device alone, and lowers the
  free counters of the group and of the file system by one.\<close>

theorem ext4_new_meta_blocks_takes_first:
  fixes fs :: fs and goal :: u64 and inode :: inode
  defines "g \<equiv> ucast (group_goal_of goal (sup fs)) :: u32"
  assumes rdy: "alloc_ready g fs" and n: "0 < unat (super_n_block_groups (sup fs))"
    and free: "\<exists>j < bitmap_len g (sup fs). \<not> mbit (view (bdev fs) (ext4_block_bitmap g (sup fs))) j"
  shows "\<exists>inode' fs' i. ext4_new_meta_blocks inode goal None fs =
      Inr (super_first_data_block (sup fs) + ucast g * super_blocks_per_group (sup fs) + of_nat i, None, 0, inode', fs') \<and>
    i < bitmap_len g (sup fs) \<and> \<not> mbit (view (bdev fs) (ext4_block_bitmap g (sup fs))) i \<and>
    (\<forall>j < i. mbit (view (bdev fs) (ext4_block_bitmap g (sup fs))) j) \<and>
    (\<forall>j < 8 * unat (super_block_size (sup fs)). mbit (view (bdev fs') (ext4_block_bitmap g (sup fs))) j \<longleftrightarrow>
       j = i \<or> mbit (view (bdev fs) (ext4_block_bitmap g (sup fs))) j) \<and>
    (\<forall>b. b \<noteq> ext4_block_bitmap g (sup fs) \<longrightarrow> view (bdev fs') b = view (bdev fs) b) \<and>
    ext4_free_blks_count g (sup fs') = cut32 (sup fs) (ext4_free_blks_count g (sup fs) - 1) \<and>
    ext4_free_blocks_count (sup fs') = ext4_free_blocks_count (sup fs) - 1 \<and> refs (bdev fs') = refs (bdev fs) \<and> fs_ok fs' \<and>
    i_data_dirty inode'"
proof -
  let ?B = "ext4_block_bitmap g (sup fs)" and ?m = "view (bdev fs) (ext4_block_bitmap g (sup fs))"
  let ?i = "find_free g fs"
  obtain fs' where a: "ext4_new_meta_blocks inode goal None fs =
      Inr (super_first_data_block (sup fs) + ucast g * super_blocks_per_group (sup fs) + of_nat ?i, None, 0,
        ext4_set_inode_blocks inode (ext4_inode_blocks (raw_inode inode) (sup fs') + 1) (sup fs'), fs')"
    "view (bdev fs') = (view (bdev fs))(?B := mb_set_bits ?m 0 ?i 1)" "fs_ok fs'" "refs (bdev fs') = refs (bdev fs)"
    "sup fs' = ext4_free_blocks_count_set (ext4_free_blocks_count (sup fs) - 1)
       (ext4_free_blks_set g (ext4_free_blks_count g (sup fs) - 1) (sup fs))"
    using new_meta_blocks_turn [of goal fs inode] rdy n unfolding g_def by blast
  have len: "length ?m = unat (super_block_size (sup fs))"
    using rdy bs.vw_length [of "bdev fs" ?B] by (simp add: alloc_ready_def fs_ok_def)
  have i: "?i < bitmap_len g (sup fs)" "\<not> mbit ?m ?i" "\<forall>j < ?i. mbit ?m j" using find_free_clear [OF free] by simp_all
  have bits: "mbit (mb_set_bits ?m 0 ?i 1) j \<longleftrightarrow> j = ?i \<or> mbit ?m j" if "j < 8 * unat (super_block_size (sup fs))" for j
    using rdy len that mb_set_bits_mbit [of ?m 0 ?i 1 j] by (auto simp: alloc_ready_def in_mem_def)
  have "ext4_free_blks_count g (sup fs') = cut32 (sup fs) (ext4_free_blks_count g (sup fs) - 1)"
    using rdy f_free_blks.get_put [of g "sup fs" g] by (simp add: a(5) alloc_ready_def)
  then show ?thesis
    using a(1-4) i bits
    by (intro exI [of _ "ext4_set_inode_blocks inode (ext4_inode_blocks (raw_inode inode) (sup fs') + 1) (sup fs')"]
        exI [of _ fs'] exI [of _ ?i]) (simp add: a(5))
qed

text \<open>The witnesses use group 0 of the one-group file system on a blank device.\<close>

lemma demo_alloc_ready:
  "alloc_ready 0 demo_fs" "group_goal_of 0 (sup demo_fs) = 0" "0 < unat (super_n_block_groups (sup demo_fs))"
  "\<not> mbit (view (bdev demo_fs) (ext4_block_bitmap 0 (sup demo_fs))) 0" "bitmap_len 0 (sup demo_fs) = 8192"
proof -
  have s: "sup demo_fs = demo_super" and v: "view (bdev demo_fs) = (\<lambda>_. replicate 1024 0)"
    by (simp_all add: demo_fs_def fs_cache_init_def bdev_alloc_def view_def fun_eq_iff)
  show bl: "bitmap_len 0 (sup demo_fs) = 8192"
    by (simp add: s bitmap_len_def demo_super_eval) (simp add: demo_super_def super_of_def ld_zeros ext4_blocks_count_def super_blocks_per_group_def)
  show b: "\<not> mbit (view (bdev demo_fs) (ext4_block_bitmap 0 (sup demo_fs))) 0"
    by (simp add: v mbit_def)
  have "find_free 0 demo_fs < 8192" using find_free_clear [of 0 demo_fs] b bl by (metis zero_less_numeral)
  moreover have "ext4_is_block_bitmap_inited 0 demo_super" "ext4_free_blks_count 0 demo_super \<noteq> 0"
    by (simp_all add: demo_super_def gdesc_of_def super_of_def ld_zeros ext4_is_block_bitmap_inited_def bg_def
        ext4_free_blks_count_def has_hi_def super_group_desc_size_def EXT4_HAS_INCOMPAT_FEATURE_def)
  ultimately show "alloc_ready 0 demo_fs"
    using demo_fs_ok bl by (simp add: alloc_ready_def s demo_super_eval)
  show "group_goal_of 0 (sup demo_fs) = 0" by (simp add: group_goal_of_def)
  show "0 < unat (super_n_block_groups (sup demo_fs))" by (simp add: s demo_super_eval)
qed

lemma demo_bpg: "unat (super_blocks_per_group (sup demo_fs)) = 8192"
  by (simp add: demo_fs_def demo_super_def super_blocks_per_group_def)

theorem ext4_new_meta_blocks_takes_first_witness:
  "\<exists>inode' fs'. ext4_new_meta_blocks demo_inode 0 None demo_fs = Inr (1, None, 0, inode', fs') \<and>
    mbit (view (bdev fs') 3) 0 \<and> \<not> mbit (view (bdev fs') 3) 1"
proof -
  have s: "sup demo_fs = demo_super" "super_first_data_block demo_super = 1" by (simp_all add: demo_fs_def demo_super_def super_first_data_block_def)
  have v: "view (bdev demo_fs) 3 = replicate 1024 0"
    by (simp add: demo_fs_def fs_cache_init_def bdev_alloc_def view_def)
  have free: "\<exists>j < bitmap_len (ucast (group_goal_of 0 (sup demo_fs))) (sup demo_fs).
      \<not> mbit (view (bdev demo_fs) (ext4_block_bitmap (ucast (group_goal_of 0 (sup demo_fs))) (sup demo_fs))) j"
    using demo_alloc_ready by (intro exI [of _ 0]) simp
  obtain inode' fs' i where i: "ext4_new_meta_blocks demo_inode 0 None demo_fs = Inr (1 + of_nat i, None, 0, inode', fs')"
    "\<forall>j < i. mbit (view (bdev demo_fs) 3) j" "\<forall>j < 8192. mbit (view (bdev fs') 3) j \<longleftrightarrow> j = i \<or> mbit (view (bdev demo_fs) 3) j"
    using ext4_new_meta_blocks_takes_first [of 0 demo_fs demo_inode, OF _ demo_alloc_ready(3) free] demo_alloc_ready(1,2)
    unfolding s by (auto simp: s demo_super_eval)
  have "\<not> mbit (view (bdev demo_fs) 3) j" if "j < 8192" for j using that by (simp add: v mbit_def less_mult_imp_div_less)
  then have "i = 0" "\<not> mbit (view (bdev demo_fs) 3) 1" using i(2) by (metis neq0_conv zero_less_numeral, simp)
  then show ?thesis using i by auto
qed

text \<open>C19: The allocator walks from the group of the goal over the following groups, around the end: it passes every
  group whose count of free blocks is zero and takes the first clear bit of the first group that has one, whose bitmap is
  then the only block that has changed; when no group has one, it fails with ENOSPC after one round and no block, counter
  or inode has changed. Every bitmap that was read is released. The group of the goal exists, and every bitmap on the walk is initialised.\<close>

theorem ext4_new_meta_blocks_walks:
  fixes fs :: fs and goal :: u64
  defines "n \<equiv> unat (super_n_block_groups (sup fs))"
  defines "grp \<equiv> \<lambda>j. of_nat ((unat (group_goal_of goal (sup fs)) + j) mod n) :: u32"
  defines "B \<equiv> \<lambda>j. ext4_block_bitmap (grp j) (sup fs)"
  assumes ok: "fs_ok fs" and len: "length (gdesc_table (sup fs)) = n" and goal: "unat (group_goal_of goal (sup fs)) < n"
    and k: "k \<le> n" and full: "\<forall>j < k. no_free (grp j) (sup fs)"
    and ready: "k < n \<longrightarrow> alloc_ready (grp k) fs \<and> (\<exists>i < bitmap_len (grp k) (sup fs). \<not> mbit (view (bdev fs) (B k)) i) \<and>
      (\<forall>c. cnt = Some c \<longrightarrow> 0 < sint (ucast c :: u32))"
  shows "if k = n
    then \<exists>fs'. ext4_new_meta_blocks inode goal cnt fs = Inr (0, map_option (\<lambda>_. 0) cnt, - ENOSPC, inode, fs') \<and>
      sup fs' = sup fs \<and> view (bdev fs') = view (bdev fs) \<and> refs (bdev fs') = refs (bdev fs) \<and> fs_ok fs'
    else \<exists>inode' fs' i. ext4_new_meta_blocks inode goal cnt fs =
        Inr (super_first_data_block (sup fs) + ucast (grp k) * super_blocks_per_group (sup fs) + of_nat i,
          map_option (\<lambda>_. 1) cnt, 0, inode', fs') \<and>
      i < bitmap_len (grp k) (sup fs) \<and> \<not> mbit (view (bdev fs) (B k)) i \<and> (\<forall>j < i. mbit (view (bdev fs) (B k)) j) \<and>
      view (bdev fs') = (view (bdev fs))(B k := mb_set_bits (view (bdev fs) (B k)) 0 i 1) \<and>
      refs (bdev fs') = refs (bdev fs) \<and> fs_ok fs'"
proof (cases "k = n")
  case True
  show ?thesis
    unfolding if_P [OF True]
    by (rule new_meta_blocks_none [OF ok len [unfolded n_def] goal [unfolded n_def] full [unfolded True grp_def n_def]])
next
  case False
  then have "k < n" using k by simp
  note r = ready [rule_format, OF this]
  have c: "\<forall>c. cnt = Some c \<longrightarrow> 0 < sint (ucast c :: u32)" using r by blast
  show ?thesis
    unfolding if_not_P [OF False] unfolding B_def grp_def n_def
    by (rule new_meta_blocks_walk [OF len [unfolded n_def] goal [unfolded n_def] \<open>k < n\<close> [unfolded n_def] full [unfolded grp_def n_def]
          conjunct1 [OF r, unfolded grp_def n_def] conjunct1 [OF conjunct2 [OF r], unfolded B_def grp_def n_def] c])
qed

text \<open>Two groups, the first without a free block.\<close>

definition demo_two :: super_state where
  "demo_two = demo_super\<lparr>super_block := (super_block demo_super)\<lparr>s_blocks_count_lo := 16384\<rparr>,
     gdesc_table := [(gdesc_table demo_super ! 0)\<lparr>gdesc := (bg 0 demo_super)\<lparr>bg_free_blocks_count_lo := 0\<rparr>\<rparr>,
       (gdesc_table demo_super ! 0)\<lparr>gdesc := (bg 0 demo_super)\<lparr>bg_block_bitmap_lo := 9000\<rparr>\<rparr>]\<rparr>"

lemma demo_two_eval:
  "super_n_block_groups demo_two = 2" "super_block_size demo_two = 1024" "length (gdesc_table demo_two) = 2"
  "no_free 0 demo_two" "ext4_is_block_bitmap_inited 1 demo_two" "ext4_free_blks_count 1 demo_two \<noteq> 0"
  "bitmap_len 1 demo_two = 8192" "ext4_block_bitmap 1 demo_two = 9000" "super_blocks_per_group demo_two = 8192"
  "super_first_data_block demo_two = 1"
  by (simp_all add: demo_two_def demo_super_def super_of_def gdesc_of_def ld_zeros super_n_block_groups_def ext4_blocks_count_def
      super_blocks_per_group_def super_block_size_def no_free_def ext4_is_block_bitmap_inited_def bg_def ext4_free_blks_count_def
      has_hi_def super_group_desc_size_def bitmap_len_def ext4_block_bitmap_def super_first_data_block_def)

theorem ext4_new_meta_blocks_walks_witness:
  "\<exists>inode' fs' i. ext4_new_meta_blocks demo_inode 0 (Some 5) (demo_fs\<lparr>sup := demo_two\<rparr>) =
      Inr (1 + 8192 + of_nat i, Some 1, 0, inode', fs') \<and> i < 8192 \<and> (\<forall>j < i. mbit (view (bdev demo_fs) 9000) j)"
proof -
  let ?fs = "demo_fs\<lparr>sup := demo_two\<rparr>"
  have d: "cache_inv (bdev demo_fs)" "s_blocksize (bdev demo_fs) = 1024" using demo_fs_ok by (simp_all add: fs_ok_def)
  then have ok: "fs_ok ?fs" by (simp add: fs_ok_def demo_two_eval)
  have "view (bdev demo_fs) 9000 = replicate 1024 0"
    by (simp add: demo_fs_def fs_cache_init_def bdev_alloc_def view_def)
  then have b: "\<not> mbit (view (bdev demo_fs) 9000) 0" by (simp add: mbit_def)
  then have c: "\<exists>i < 8192. \<not> mbit (view (bdev demo_fs) 9000) i" by (metis zero_less_numeral)
  have f: "find_free 1 ?fs < 8192" using find_free_clear [of 1 ?fs] c by (simp add: demo_two_eval)
  have rdy: "alloc_ready 1 ?fs" using ok f by (simp add: alloc_ready_def demo_two_eval)
  show ?thesis
    using ext4_new_meta_blocks_walks [of ?fs 0 1 "Some 5" demo_inode] ok rdy c
    by (simp add: group_goal_of_def demo_two_eval) blast
qed




definition demo_full_fs :: fs where
  "demo_full_fs = \<lparr>sup = demo_super\<lparr>super_block := (super_block demo_super)
       \<lparr>s_blocks_count_lo := 8000, s_blocks_per_group := 8000\<rparr>\<rparr>,
     bdev = fs_cache_init 10 (\<lambda>_. replicate 1024 0xff) (\<lambda>_. 0) (\<lambda>_. replicate 1024 0)\<rparr>"

lemma demo_full_ready:
  "alloc_ready 0 demo_full_fs" "0 < unat (super_n_block_groups (sup demo_full_fs))"
  "bitmap_len 0 (sup demo_full_fs) = 8000"
  "j < 8000 \<Longrightarrow> mbit (view (bdev demo_full_fs) (ext4_block_bitmap 0 (sup demo_full_fs))) j"
proof -
  have v: "view (bdev demo_full_fs) = (\<lambda>_. replicate 1024 0xff)"
    by (simp add: demo_full_fs_def fs_cache_init_def bdev_alloc_def view_def fun_eq_iff)
  have ones: "bit (0xff :: u8) k" if "k < 8" for k
  proof -
    have "(0xff :: u8) = mask 8" by (simp add: mask_eq_exp_minus_1)
    then show ?thesis using that by (simp only: bit_mask_iff) simp
  qed
  show b: "mbit (view (bdev demo_full_fs) (ext4_block_bitmap 0 (sup demo_full_fs))) j" if "j < 8000" for j
    using that ones [of "j mod 8"] unfolding v mbit_def by (subst nth_replicate) auto
  show bl: "bitmap_len 0 (sup demo_full_fs) = 8000" and nb: "0 < unat (super_n_block_groups (sup demo_full_fs))"
    by (simp_all add: demo_full_fs_def demo_super_def super_of_def ld_zeros bitmap_len_def super_n_block_groups_def
        ext4_blocks_count_def super_blocks_per_group_def)
  have "find_free 0 demo_full_fs = 8000"
    using first_from_none [of 0 8000 "\<lambda>j. \<not> mbit (view (bdev demo_full_fs) (ext4_block_bitmap 0 (sup demo_full_fs))) j"] b bl
    by (simp add: find_free_def mb_find_next_zero_bit_first_from)
  moreover have "ext4_is_block_bitmap_inited 0 (sup demo_full_fs)" "ext4_free_blks_count 0 (sup demo_full_fs) \<noteq> 0"
    "super_block_size (sup demo_full_fs) = 1024" "length (gdesc_table (sup demo_full_fs)) = 1"
    by (simp_all add: demo_full_fs_def demo_super_def gdesc_of_def super_of_def ld_zeros ext4_is_block_bitmap_inited_def bg_def
        ext4_free_blks_count_def has_hi_def super_group_desc_size_def EXT4_HAS_INCOMPAT_FEATURE_def super_block_size_def)
  moreover have "cache_inv (bdev demo_full_fs)" "s_blocksize (bdev demo_full_fs) = 1024"
    using cache_init_inv [of "\<lambda>_. replicate 1024 0xff" 10 "\<lambda>_. replicate 1024 0"]
    by (simp_all add: demo_full_fs_def)
  ultimately show "alloc_ready 0 demo_full_fs" using bl by (simp add: alloc_ready_def fs_ok_def)
qed


end
