(* ===== verification/E4F_Extents.thy ===== *)
theory E4F_Extents
  imports E4F_Alloc
begin

text \<open>
  Extent trees: src/extents/extents.c and extents.h. A node of the tree is the 60 bytes i_block of the
  inode or the data of a held buffer; a pointer into a node is its node and an index of its table of
  12-byte entries. Each access to an entry outside the memory of its node is a fault. The branches
  AGGRESSIVE_TEST, _EXTENTS_TEST and the insertion without CONFIG_EXTENT_KEEP_PATH_VALID are not
  compiled. malloc() for a path succeeds.
\<close>

section \<open>Computations on the inode and the file system\<close>

type_synonym 'a em = "inode \<times> fs \<Rightarrow> ('a \<times> inode \<times> fs) res"

definition em_return :: "'a \<Rightarrow> 'a em" where
  "em_return x z = Inr (x, z)"

definition em_bind :: "'a em \<Rightarrow> ('a \<Rightarrow> 'b em) \<Rightarrow> 'b em" where
  "em_bind m f z = res_bind (m z) (\<lambda>(x, z). f x z)"

definition em_lift :: "'a res \<Rightarrow> 'a em" where
  "em_lift r z = res_bind r (\<lambda>x. Inr (x, z))"

definition em_fs :: "(fs \<Rightarrow> ('a \<times> fs) res) \<Rightarrow> 'a em" where
  "em_fs f = (\<lambda>(inode, fs). res_bind (f fs) (\<lambda>(x, fs). Inr (x, inode, fs)))"

definition em_get :: "(inode \<Rightarrow> fs \<Rightarrow> 'a) \<Rightarrow> 'a em" where
  "em_get f = (\<lambda>(inode, fs). Inr (f inode fs, inode, fs))"

definition em_put :: "(inode \<Rightarrow> fs \<Rightarrow> inode \<times> fs) \<Rightarrow> unit em" where
  "em_put f = (\<lambda>(inode, fs). Inr ((), f inode fs))"

section \<open>Nodes\<close>

datatype node = In_inode | In_block u64

record ext4_extent =
  ee_block :: u32
  ee_len :: u16
  ee_start_hi :: u16
  ee_start_lo :: u32

record ext4_extent_idx =
  ei_block :: u32
  ei_leaf_lo :: u32
  ei_leaf_hi :: u16
  ei_unused :: u16

record ext4_extent_header =
  eh_magic :: u16
  eh_entries :: u16
  eh_max :: u16
  eh_depth :: u16
  eh_generation :: u32

abbreviation (input) EXT4_EXT_MAGIC :: u16 where "EXT4_EXT_MAGIC \<equiv> 0xf30a"
abbreviation (input) EXT_INIT_MAX_LEN :: int where "EXT_INIT_MAX_LEN \<equiv> 32768"
abbreviation (input) EXT_UNWRITTEN_MAX_LEN :: int where "EXT_UNWRITTEN_MAX_LEN \<equiv> 32767"
abbreviation (input) EIO :: int where "EIO \<equiv> 5"
abbreviation (input) ENOMEM :: int where "ENOMEM \<equiv> 12"
abbreviation (input) EXT_MAX_BLOCKS :: u32 where "EXT_MAX_BLOCKS \<equiv> 0xffffffff"

definition eh_of :: "bytes \<Rightarrow> ext4_extent_header" where
  "eh_of m = \<lparr>eh_magic = ld 2 m 0, eh_entries = ld 2 m 2, eh_max = ld 2 m 4, eh_depth = ld 2 m 6, eh_generation = ld 4 m 8\<rparr>"

definition eh_bytes :: "ext4_extent_header \<Rightarrow> bytes" where
  "eh_bytes h = le 2 (eh_magic h) @ le 2 (eh_entries h) @ le 2 (eh_max h) @ le 2 (eh_depth h) @ le 4 (eh_generation h)"

definition entry_off :: "nat \<Rightarrow> nat" where
  "entry_off i = 12 + 12 * i"

definition ext_of :: "bytes \<Rightarrow> nat \<Rightarrow> ext4_extent" where
  "ext_of m a = \<lparr>ee_block = ld 4 m a, ee_len = ld 2 m (a + 4), ee_start_hi = ld 2 m (a + 6), ee_start_lo = ld 4 m (a + 8)\<rparr>"

definition ext_bytes :: "ext4_extent \<Rightarrow> bytes" where
  "ext_bytes x = le 4 (ee_block x) @ le 2 (ee_len x) @ le 2 (ee_start_hi x) @ le 4 (ee_start_lo x)"

definition idx_of :: "bytes \<Rightarrow> nat \<Rightarrow> ext4_extent_idx" where
  "idx_of m a = \<lparr>ei_block = ld 4 m a, ei_leaf_lo = ld 4 m (a + 4), ei_leaf_hi = ld 2 m (a + 8), ei_unused = ld 2 m (a + 10)\<rparr>"

definition idx_bytes :: "ext4_extent_idx \<Rightarrow> bytes" where
  "idx_bytes x = le 4 (ei_block x) @ le 4 (ei_leaf_lo x) @ le 2 (ei_leaf_hi x) @ le 2 (ei_unused x)"

definition node_bytes :: "node \<Rightarrow> inode \<Rightarrow> fs \<Rightarrow> bytes" where
  "node_bytes n inode fs = (case n of In_inode \<Rightarrow> i_block (raw_inode inode) | In_block b \<Rightarrow> bh_data b (bdev fs))"

definition node_put :: "node \<Rightarrow> bytes \<Rightarrow> inode \<Rightarrow> fs \<Rightarrow> inode \<times> fs" where
  "node_put n xs inode fs =
     (case n of
        In_inode \<Rightarrow> (inode\<lparr>raw_inode := (raw_inode inode)\<lparr>i_block := xs\<rparr>\<rparr>, fs)
      | In_block b \<Rightarrow> (inode, fs\<lparr>bdev := bh_store b xs (bdev fs)\<rparr>))"

text \<open>Loads and stores through the pointers.\<close>

definition get_bytes :: "node \<Rightarrow> bytes em" where
  "get_bytes n = em_get (node_bytes n)"

definition get_hdr :: "node \<Rightarrow> ext4_extent_header em" where
  "get_hdr n = em_bind (get_bytes n) (\<lambda>m.
     em_bind (em_lift (c_defined (12 \<le> length m))) (\<lambda>_. em_return (eh_of m)))"

definition put_at :: "node \<Rightarrow> nat \<Rightarrow> bytes \<Rightarrow> unit em" where
  "put_at n a xs = em_bind (get_bytes n) (\<lambda>m.
     em_bind (em_lift (c_defined (a + length xs \<le> length m))) (\<lambda>_. em_put (node_put n (splice m a xs))))"

definition put_hdr :: "node \<Rightarrow> ext4_extent_header \<Rightarrow> unit em" where
  "put_hdr n h = put_at n 0 (eh_bytes h)"

definition get_ext :: "node \<Rightarrow> nat \<Rightarrow> ext4_extent em" where
  "get_ext n i = em_bind (get_bytes n) (\<lambda>m.
     em_bind (em_lift (c_defined (entry_off i + 12 \<le> length m))) (\<lambda>_. em_return (ext_of m (entry_off i))))"

definition put_ext :: "node \<Rightarrow> nat \<Rightarrow> ext4_extent \<Rightarrow> unit em" where
  "put_ext n i x = put_at n (entry_off i) (ext_bytes x)"

definition get_idx :: "node \<Rightarrow> nat \<Rightarrow> ext4_extent_idx em" where
  "get_idx n i = em_bind (get_bytes n) (\<lambda>m.
     em_bind (em_lift (c_defined (entry_off i + 12 \<le> length m))) (\<lambda>_. em_return (idx_of m (entry_off i))))"

definition put_idx :: "node \<Rightarrow> nat \<Rightarrow> ext4_extent_idx \<Rightarrow> unit em" where
  "put_idx n i x = put_at n (entry_off i) (idx_bytes x)"

text \<open>memmove() of \<open>len\<close> bytes; both ranges must lie in the memory of their node.\<close>

definition node_move :: "node \<Rightarrow> nat \<Rightarrow> node \<Rightarrow> nat \<Rightarrow> nat \<Rightarrow> unit em" where
  "node_move dst a src b len = em_bind (get_bytes src) (\<lambda>m.
     em_bind (em_lift (c_defined (b + len \<le> length m))) (\<lambda>_. put_at dst a (slice m b len)))"

section \<open>extents.h\<close>

definition ext4_ext_get_actual_len :: "ext4_extent \<Rightarrow> int" where
  "ext4_ext_get_actual_len x =
     (if uint (ee_len x) \<le> EXT_INIT_MAX_LEN then uint (ee_len x) else uint (ee_len x) - EXT_INIT_MAX_LEN)"

definition ext4_ext_mark_initialized :: "ext4_extent \<Rightarrow> ext4_extent" where
  "ext4_ext_mark_initialized x = x\<lparr>ee_len := of_int (ext4_ext_get_actual_len x)\<rparr>"

definition ext4_ext_mark_unwritten :: "ext4_extent \<Rightarrow> ext4_extent" where
  "ext4_ext_mark_unwritten x = x\<lparr>ee_len := ee_len x OR of_int EXT_INIT_MAX_LEN\<rparr>"

definition ext4_ext_is_unwritten :: "ext4_extent \<Rightarrow> bool" where
  "ext4_ext_is_unwritten x \<longleftrightarrow> uint (ee_len x) > EXT_INIT_MAX_LEN"

definition ext4_ext_pblock :: "ext4_extent \<Rightarrow> u64" where
  "ext4_ext_pblock x = ucast (ee_start_lo x) OR push_bit 1 (push_bit 31 (ucast (ee_start_hi x)))"

definition ext4_idx_pblock :: "ext4_extent_idx \<Rightarrow> u64" where
  "ext4_idx_pblock x = ucast (ei_leaf_lo x) OR push_bit 1 (push_bit 31 (ucast (ei_leaf_hi x)))"

definition ext4_ext_store_pblock :: "ext4_extent \<Rightarrow> u64 \<Rightarrow> ext4_extent" where
  "ext4_ext_store_pblock x pb =
     x\<lparr>ee_start_lo := ucast (pb AND 0xffffffff), ee_start_hi := ucast (drop_bit 1 (drop_bit 31 pb) AND 0xffff)\<rparr>"

definition ext4_idx_store_pblock :: "ext4_extent_idx \<Rightarrow> u64 \<Rightarrow> ext4_extent_idx" where
  "ext4_idx_store_pblock x pb =
     x\<lparr>ei_leaf_lo := ucast (pb AND 0xffffffff), ei_leaf_hi := ucast (drop_bit 1 (drop_bit 31 pb) AND 0xffff)\<rparr>"

definition ext_depth :: "nat em" where
  "ext_depth = em_bind (get_hdr In_inode) (\<lambda>h. em_return (unat (eh_depth h)))"

text \<open>The macros EXT_LAST_EXTENT and EXT_LAST_INDEX, and their maximum; an empty node gives -1.\<close>

definition ext_last :: "ext4_extent_header \<Rightarrow> int" where
  "ext_last h = uint (eh_entries h) - 1"

definition ext_max :: "ext4_extent_header \<Rightarrow> int" where
  "ext_max h = uint (eh_max h) - 1"

text \<open>The sum of the macro in_range is computed in 32 bits at each of its uses.\<close>

definition in_range :: "u64 \<Rightarrow> u32 \<Rightarrow> u32 \<Rightarrow> bool" where
  "in_range b first len \<longleftrightarrow> b \<ge> ucast first \<and> b \<le> ucast (first + len - 1)"

section \<open>Sizes, goals and references\<close>

definition ext4_ext_space_block :: "super_state \<Rightarrow> int" where
  "ext4_ext_space_block s = uint ((ucast (super_block_size s) - 12 :: u64) div 12)"

definition ext4_ext_space_block_idx :: "super_state \<Rightarrow> int" where
  "ext4_ext_space_block_idx s = uint ((ucast (super_block_size s) - 12 :: u64) div 12)"

definition ext4_ext_space_root :: int where
  "ext4_ext_space_root = (60 - 12) div 12"

definition ext4_ext_space_root_idx :: int where
  "ext4_ext_space_root_idx = (60 - 12) div 12"

definition ext4_ext_max_entries :: "nat \<Rightarrow> int em" where
  "ext4_ext_max_entries depth =
     em_bind ext_depth (\<lambda>d. em_get (\<lambda>_ fs.
       if depth = d then (if depth = 0 then ext4_ext_space_root else ext4_ext_space_root_idx)
       else (if depth = 0 then ext4_ext_space_block (sup fs) else ext4_ext_space_block_idx (sup fs))))"

record ext4_ext_path =
  p_block :: u64
  p_depth :: nat
  p_maxdepth :: nat
  p_ext :: "(node \<times> nat) option"
  p_idx :: "(node \<times> nat) option"
  p_hdr :: "node option"
  p_bh :: "u64 option"

definition zero_path :: ext4_ext_path where
  "zero_path = \<lparr>p_block = 0, p_depth = 0, p_maxdepth = 0, p_ext = None, p_idx = None, p_hdr = None, p_bh = None\<rparr>"

text \<open>Access to an element of a path, and dereferences of its pointers.\<close>

definition path_at :: "ext4_ext_path list \<Rightarrow> nat \<Rightarrow> ext4_ext_path em" where
  "path_at path i = em_bind (em_lift (c_defined (i < length path))) (\<lambda>_. em_return (path ! i))"

definition the_ptr :: "'a option \<Rightarrow> 'a em" where
  "the_ptr p = em_lift (case p of None \<Rightarrow> Inl Undefined | Some x \<Rightarrow> Inr x)"

definition deref_ext :: "(node \<times> nat) option \<Rightarrow> ext4_extent em" where
  "deref_ext p = em_bind (the_ptr p) (\<lambda>(n, i). get_ext n i)"

definition deref_idx :: "(node \<times> nat) option \<Rightarrow> ext4_extent_idx em" where
  "deref_idx p = em_bind (the_ptr p) (\<lambda>(n, i). get_idx n i)"

definition ext4_inode_to_goal_block :: "u64 em" where
  "ext4_inode_to_goal_block = em_get (\<lambda>inode fs. ucast ((i_ino inode - 1) div super_inodes_per_group (sup fs)))"

definition ext4_ext_find_goal :: "ext4_ext_path list \<Rightarrow> u32 \<Rightarrow> u64 em" where
  "ext4_ext_find_goal path block =
     em_bind (path_at path 0) (\<lambda>p0.
     em_bind (path_at path (p_depth p0)) (\<lambda>p.
       case p_ext p of
         Some x \<Rightarrow> em_bind (deref_ext (Some x)) (\<lambda>ex.
           em_return (if block > ee_block ex then ext4_ext_pblock ex + ucast (block - ee_block ex)
                      else ext4_ext_pblock ex - ucast (ee_block ex - block)))
       | None \<Rightarrow> (case p_bh p of Some b \<Rightarrow> em_return b | None \<Rightarrow> ext4_inode_to_goal_block)))"

definition new_blocks :: "u64 \<Rightarrow> u64 option \<Rightarrow> (u64 \<times> u64 option \<times> int) em" where
  "new_blocks goal cnt = (\<lambda>(inode, fs). res_bind (ext4_new_meta_blocks inode goal cnt fs) (\<lambda>(b, cnt, err, inode, fs).
     Inr ((b, cnt, err), inode, fs)))"

definition free_blocks :: "u64 \<Rightarrow> int \<Rightarrow> unit em" where
  "free_blocks block cnt = (\<lambda>(inode, fs). res_bind (ext4_ext_free_blocks inode block cnt fs) (\<lambda>(inode, fs).
     Inr ((), inode, fs)))"

definition ext4_ext_new_meta_block :: "ext4_ext_path list \<Rightarrow> ext4_extent \<Rightarrow> (u64 \<times> int) em" where
  "ext4_ext_new_meta_block path ex =
     em_bind (ext4_ext_find_goal path (ee_block ex)) (\<lambda>goal.
     em_bind (new_blocks goal None) (\<lambda>(b, _, err). em_return (b, err)))"

definition mark_inode_dirty :: "unit em" where
  "mark_inode_dirty = em_put (\<lambda>inode fs. (inode_mark_dirty inode, fs))"

definition mark_buffer_dirty :: "u64 \<Rightarrow> unit em" where
  "mark_buffer_dirty b = em_put (\<lambda>inode fs. (inode, fs\<lparr>bdev := fs_mark_buffer_dirty b (bdev fs)\<rparr>))"

definition bread :: "u64 \<Rightarrow> u64 option em" where
  "bread b = em_fs (\<lambda>fs. res_bind (fs_bread b (bdev fs)) (\<lambda>(r, d). Inr (r, fs\<lparr>bdev := d\<rparr>)))"

definition bwrite :: "u64 \<Rightarrow> u64 option em" where
  "bwrite b = em_fs (\<lambda>fs. case fs_bwrite b (bdev fs) of (r, d) \<Rightarrow> Inr (r, fs\<lparr>bdev := d\<rparr>))"

definition brelse_em :: "u64 \<Rightarrow> unit em" where
  "brelse_em b = em_fs (\<lambda>fs. res_bind (fs_brelse b (bdev fs)) (\<lambda>d. Inr ((), fs\<lparr>bdev := d\<rparr>)))"

definition ext4_ext_dirty :: "ext4_ext_path \<Rightarrow> unit em" where
  "ext4_ext_dirty p = (case p_bh p of Some b \<Rightarrow> mark_buffer_dirty b | None \<Rightarrow> mark_inode_dirty)"

text \<open>The loop of ext4_ext_drop_refs() over the elements \<open>i\<close>, \<open>i + 1\<close>, \<dots> of the path.\<close>

fun drop_refs_loop :: "ext4_ext_path list \<Rightarrow> nat \<Rightarrow> nat \<Rightarrow> ext4_ext_path list em" where
  "drop_refs_loop path i 0 = em_return path"
| "drop_refs_loop path i (Suc k) =
     em_bind (path_at path i) (\<lambda>p.
       case p_bh p of
         Some b \<Rightarrow> em_bind (brelse_em b) (\<lambda>_. drop_refs_loop (path[i := p\<lparr>p_bh := None\<rparr>]) (Suc i) k)
       | None \<Rightarrow> drop_refs_loop path (Suc i) k)"

definition ext4_ext_drop_refs :: "ext4_ext_path list \<Rightarrow> nat \<Rightarrow> bool \<Rightarrow> ext4_ext_path list em" where
  "ext4_ext_drop_refs path i keep_other =
     em_bind (path_at path i) (\<lambda>p. drop_refs_loop path i (Suc (if keep_other then 0 else p_depth p)))"

section \<open>Reading the tree\<close>

definition ext4_ext_check :: "node \<Rightarrow> nat \<Rightarrow> int em" where
  "ext4_ext_check n depth =
     em_bind (get_hdr n) (\<lambda>eh.
       if eh_magic eh \<noteq> EXT4_EXT_MAGIC then em_return (- EIO)
       else if unat (eh_depth eh) \<noteq> depth then em_return (- EIO)
       else if eh_max eh = 0 then em_return (- EIO)
       else if eh_entries eh > eh_max eh then em_return (- EIO)
       else em_bind (get_bytes n) (\<lambda>m.
            em_bind (em_lift (c_defined (entry_off (unat (eh_max eh)) + 4 \<le> length m))) (\<lambda>_. em_return 0)))"

definition buffer_verified :: "u64 \<Rightarrow> bool em" where
  "buffer_verified b = em_get (\<lambda>_ fs. case bd_bh_root (bdev fs) b of Some bh \<Rightarrow> buffer_flag BH_Verified bh | None \<Rightarrow> False)"

definition set_buffer_verified :: "u64 \<Rightarrow> unit em" where
  "set_buffer_verified b = em_put (\<lambda>inode fs. (inode, fs\<lparr>bdev := upd_bh b (set_buffer BH_Verified) (bdev fs)\<rparr>))"

definition read_extent_tree_block :: "u64 \<Rightarrow> nat \<Rightarrow> (u64 option \<times> int) em" where
  "read_extent_tree_block pblk depth =
     em_bind (bread pblk) (\<lambda>bh.
       case bh of
         None \<Rightarrow> em_return (None, - ENOMEM)
       | Some b \<Rightarrow>
           em_bind (buffer_verified b) (\<lambda>v.
             if v then em_return (Some b, 0)
             else em_bind (ext4_ext_check (In_block b) depth) (\<lambda>err.
               if err \<noteq> 0 then em_bind (brelse_em b) (\<lambda>_. em_return (None, err))
               else em_bind (set_buffer_verified b) (\<lambda>_. em_return (Some b, 0)))))"

text \<open>
  The binary search for the last entry whose first block is at most \<open>block\<close>; \<open>key i\<close> loads the first
  block of entry \<open>i\<close>. The bounds l and r are the pointers of the code counted from the first entry.
\<close>

function ext_search :: "(nat \<Rightarrow> u32 em) \<Rightarrow> u32 \<Rightarrow> int \<Rightarrow> int \<Rightarrow> int em" where
  "ext_search key block l r =
     (if l \<le> r
      then (let m = l + (r - l) div 2
            in em_bind (key (nat m)) (\<lambda>k.
                 if block < k then ext_search key block l (m - 1) else ext_search key block (m + 1) r))
      else em_return (l - 1))"
  by pat_completeness auto
termination by (relation "measure (\<lambda>(key, block, l, r). nat (r - l + 1))") auto

declare ext_search.simps [simp del]

definition ext4_ext_binsearch_idx :: "ext4_ext_path \<Rightarrow> u32 \<Rightarrow> ext4_ext_path em" where
  "ext4_ext_binsearch_idx p block =
     em_bind (the_ptr (p_hdr p)) (\<lambda>n.
     em_bind (get_hdr n) (\<lambda>eh.
     em_bind (ext_search (\<lambda>i. em_bind (get_idx n i) (\<lambda>x. em_return (ei_block x))) block 1 (ext_last eh)) (\<lambda>i.
       em_return (p\<lparr>p_idx := Some (n, nat i)\<rparr>))))"

definition ext4_ext_binsearch :: "ext4_ext_path \<Rightarrow> u32 \<Rightarrow> ext4_ext_path em" where
  "ext4_ext_binsearch p block =
     em_bind (the_ptr (p_hdr p)) (\<lambda>n.
     em_bind (get_hdr n) (\<lambda>eh.
       if eh_entries eh = 0 then em_return p
       else em_bind (ext_search (\<lambda>i. em_bind (get_ext n i) (\<lambda>x. em_return (ee_block x))) block 1 (ext_last eh)) (\<lambda>i.
         em_return (p\<lparr>p_ext := Some (n, nat i)\<rparr>))))"

text \<open>
  The walk of ext4_find_extent() down to the leaf, with \<open>i\<close> levels to go and the current node at
  \<open>ppos\<close>. The result has the error and the path.
\<close>

fun find_walk :: "u32 \<Rightarrow> nat \<Rightarrow> nat \<Rightarrow> nat \<Rightarrow> ext4_ext_path list \<Rightarrow> (int \<times> nat \<times> ext4_ext_path list) em" where
  "find_walk block depth 0 ppos path = em_return (0, ppos, path)"
| "find_walk block depth (Suc i) ppos path =
     em_bind (path_at path ppos) (\<lambda>p.
     em_bind (ext4_ext_binsearch_idx p block) (\<lambda>p.
     em_bind (deref_idx (p_idx p)) (\<lambda>x.
     (let p = p\<lparr>p_block := ext4_idx_pblock x, p_depth := Suc i, p_ext := None\<rparr>;
          path = path[ppos := p]
      in em_bind (read_extent_tree_block (p_block p) i) (\<lambda>(bh, ret).
           case bh of
             None \<Rightarrow> em_return (ret, ppos, path)
           | Some b \<Rightarrow>
               if Suc ppos > depth then em_bind (brelse_em b) (\<lambda>_. em_return (- EIO, Suc ppos, path))
               else em_bind (path_at path (Suc ppos)) (\<lambda>q.
                 find_walk block depth i (Suc ppos)
                   (path[Suc ppos := q\<lparr>p_bh := Some b, p_hdr := Some (In_block b)\<rparr>])))))))"

definition ext4_find_extent :: "u32 \<Rightarrow> ext4_ext_path list option \<Rightarrow> (int \<times> ext4_ext_path list option) em" where
  "ext4_find_extent block orig_path =
     em_bind ext_depth (\<lambda>depth.
     em_bind (case orig_path of
                None \<Rightarrow> em_return None
              | Some path \<Rightarrow>
                  em_bind (ext4_ext_drop_refs path 0 False) (\<lambda>path.
                  em_bind (path_at path 0) (\<lambda>p.
                    em_return (if depth > p_maxdepth p then None else Some path)))) (\<lambda>path.
     (let path = (case path of Some path \<Rightarrow> path
                  | None \<Rightarrow> (replicate (depth + 2) zero_path)[0 := zero_path\<lparr>p_maxdepth := depth + 1\<rparr>]);
          path = path[0 := (path ! 0)\<lparr>p_hdr := Some In_inode, p_bh := None\<rparr>]
      in em_bind (find_walk block depth depth 0 path) (\<lambda>(ret, ppos, path).
           if ret \<noteq> 0 then em_bind (ext4_ext_drop_refs path 0 False) (\<lambda>_. em_return (ret, None))
           else em_bind (path_at path ppos) (\<lambda>p.
                em_bind (ext4_ext_binsearch (p\<lparr>p_depth := 0, p_ext := None, p_idx := None\<rparr>) block) (\<lambda>p.
                em_bind (case p_ext p of
                           None \<Rightarrow> em_return p
                         | Some x \<Rightarrow> em_bind (deref_ext (Some x)) (\<lambda>ex. em_return (p\<lparr>p_block := ext4_ext_pblock ex\<rparr>))) (\<lambda>p.
                  em_return (0, Some (path[ppos := p])))))))))"

section \<open>Changing a node\<close>

definition ext4_ext_init_header :: "node \<Rightarrow> nat \<Rightarrow> unit em" where
  "ext4_ext_init_header n depth =
     em_bind (ext4_ext_max_entries depth) (\<lambda>mx.
     em_bind (get_hdr n) (\<lambda>eh.
       put_hdr n (eh\<lparr>eh_entries := 0, eh_max := of_int mx, eh_magic := EXT4_EXT_MAGIC, eh_depth := of_nat depth\<rparr>)))"

definition add_entries :: "node \<Rightarrow> int \<Rightarrow> unit em" where
  "add_entries n m = em_bind (get_hdr n) (\<lambda>eh. put_hdr n (eh\<lparr>eh_entries := eh_entries eh + of_int m\<rparr>))"

text \<open>
  The common body of the two branches of ext4_ext_split_node(): the entries behind \<open>p\<close> move to the
  new block \<open>b\<close>, which becomes a node of the given depth.
\<close>

definition split_into :: "u64 \<Rightarrow> nat \<Rightarrow> ext4_ext_path \<Rightarrow> (node \<times> nat) option \<Rightarrow> unit em" where
  "split_into b depth p ptr =
     em_bind (the_ptr (p_hdr p)) (\<lambda>n.
     em_bind (get_hdr n) (\<lambda>eh.
     em_bind (the_ptr ptr) (\<lambda>(pn, i).
     (let m = ext_max eh - int i
      in em_bind (ext4_ext_init_header (In_block b) depth) (\<lambda>_.
         if m = 0 then em_return ()
         else em_bind (em_lift (c_defined (0 \<le> m))) (\<lambda>_.
              em_bind (node_move (In_block b) (entry_off 0) pn (entry_off (Suc i)) (12 * nat m)) (\<lambda>_.
              em_bind (add_entries (In_block b) m) (\<lambda>_.
              em_bind (add_entries n (- m)) (\<lambda>_. ext4_ext_dirty p)))))))))"

text \<open>The result has the error, the block of the sibling and its held buffer.\<close>

definition ext4_ext_split_node ::
  "ext4_ext_path list \<Rightarrow> nat \<Rightarrow> ext4_extent \<Rightarrow> (int \<times> u64 \<times> u64 option) em" where
  "ext4_ext_split_node path at newext =
     em_bind ext_depth (\<lambda>depth.
     em_bind (ext4_ext_new_meta_block path newext) (\<lambda>(newblock, ret).
       if ret \<noteq> 0 then
         em_bind (if newblock \<noteq> 0 then free_blocks newblock 1 else em_return ()) (\<lambda>_. em_return (ret, 0, None))
       else
         em_bind (bwrite newblock) (\<lambda>bh.
           case bh of
             None \<Rightarrow> em_return (0, newblock, None)
           | Some b \<Rightarrow>
               em_bind (path_at path at) (\<lambda>p.
               em_bind (if at = depth then split_into b 0 p (p_ext p)
                        else split_into b (depth - at) p (p_idx p)) (\<lambda>_.
                 em_return (0, newblock, Some b))))))"

definition ext4_ext_block_index :: "u64 \<Rightarrow> u32 em" where
  "ext4_ext_block_index b =
     em_bind (get_hdr (In_block b)) (\<lambda>neh.
       if eh_depth neh \<noteq> 0 then em_bind (get_idx (In_block b) 0) (\<lambda>x. em_return (ei_block x))
       else em_bind (get_ext (In_block b) 0) (\<lambda>x. em_return (ee_block x)))"

abbreviation (input) EXT_INODE_HDR_NEED_GROW :: int where "EXT_INODE_HDR_NEED_GROW \<equiv> 1"

record ext_split_trans =
  spt_index :: u32
  spt_ptr :: u64
  item_offset :: nat
  switch_to :: bool
  spt_bh :: "u64 option"

definition zero_spt :: ext_split_trans where
  "zero_spt = \<lparr>spt_index = 0, spt_ptr = 0, item_offset = 0, switch_to = False, spt_bh = None\<rparr>"

text \<open>
  Where a new entry goes in a node that was split at \<open>cur\<close>, whose entry has the first block \<open>key\<close>: the
  node and the index.
\<close>

definition after_split :: "u32 \<Rightarrow> u32 \<Rightarrow> node \<Rightarrow> u64 \<Rightarrow> (node \<times> int) em" where
  "after_split new key hdr b =
     em_bind (get_hdr (In_block b)) (\<lambda>neh.
     em_bind (get_hdr hdr) (\<lambda>eh.
       em_return (if new > key
                  then (if eh_entries neh > eh_entries eh then (hdr, ext_last eh + 1) else (In_block b, 0))
                  else (hdr, ext_last eh))))"

text \<open>Open a gap at \<open>i\<close>; False if the index lies behind the last place of the node.\<close>

definition open_gap :: "node \<Rightarrow> int \<Rightarrow> bool em" where
  "open_gap n i =
     em_bind (get_hdr n) (\<lambda>eh.
     (let len = ext_last eh - i + 1
      in em_bind (em_lift (c_assert (0 \<le> len))) (\<lambda>_.
         em_bind (em_lift (c_defined (0 \<le> i))) (\<lambda>_.
         em_bind (if len > 0 then node_move n (entry_off (Suc (nat i))) n (entry_off (nat i)) (12 * nat len) else em_return ()) (\<lambda>_.
           em_return (i \<le> ext_max eh))))))"

definition ptr_set_path :: "ext4_ext_path \<Rightarrow> node \<Rightarrow> nat \<Rightarrow> ext4_ext_path em" where
  "ptr_set_path curp n i = em_bind (get_idx n i) (\<lambda>x. em_return (curp\<lparr>p_idx := Some (n, i), p_block := ext4_idx_pblock x\<rparr>))"

text \<open>
  The end of ext4_ext_insert_index() and ext4_ext_insert_leaf(): without an error, the new entry at \<open>i\<close>
  of \<open>n\<close> is recorded in the path unless the path has to switch to the sibling. \<open>note\<close> sets the
  pointer of the path.
\<close>

definition insert_done ::
  "ext4_ext_path list \<Rightarrow> nat \<Rightarrow> u32 \<Rightarrow> ext_split_trans \<Rightarrow> u64 option \<Rightarrow> nat \<Rightarrow> (ext4_ext_path \<Rightarrow> ext4_ext_path em) \<Rightarrow>
   (int \<times> ext4_ext_path list \<times> ext_split_trans) em" where
  "insert_done path at new spt bh i note =
     em_bind (path_at path at) (\<lambda>curp.
       case bh of
         Some b \<Rightarrow>
           em_bind (ext4_ext_block_index b) (\<lambda>k.
           em_bind (mark_buffer_dirty b) (\<lambda>_.
           (let spt = spt\<lparr>spt_index := k, spt_bh := Some b, item_offset := i\<rparr>
            in if new \<ge> k then em_return (0, path, spt\<lparr>switch_to := True\<rparr>)
               else em_bind (note curp) (\<lambda>curp. em_return (0, path[at := curp], spt)))))
       | None \<Rightarrow>
           em_bind (note curp) (\<lambda>curp. em_return (0, path[at := curp], spt\<lparr>spt_index := 0, spt_ptr := 0\<rparr>)))"

definition insert_failed ::
  "int \<Rightarrow> ext4_ext_path list \<Rightarrow> ext_split_trans \<Rightarrow> u64 option \<Rightarrow> (int \<times> ext4_ext_path list \<times> ext_split_trans) em" where
  "insert_failed err path spt bh =
     em_bind (case bh of Some b \<Rightarrow> brelse_em b | None \<Rightarrow> em_return ()) (\<lambda>_.
       em_return (err, path, spt\<lparr>spt_index := 0, spt_ptr := 0\<rparr>))"

text \<open>
  The choice of the place in ext4_ext_insert_index() and ext4_ext_insert_leaf(): \<open>key\<close> is the first
  block of the entry that the path points to. The result is either an error, or the node, the index,
  the changed path and the buffer of the sibling.
\<close>

definition choose_place ::
  "ext4_ext_path list \<Rightarrow> nat \<Rightarrow> ext4_extent \<Rightarrow> u32 \<Rightarrow> (ext4_ext_path \<Rightarrow> (node \<times> nat) option) \<Rightarrow>
   (ext4_ext_path \<Rightarrow> (node \<times> nat) \<Rightarrow> ext4_ext_path) \<Rightarrow> ((node \<times> nat) option \<Rightarrow> u32 em) \<Rightarrow> ext_split_trans \<Rightarrow>
   ((int \<times> ext_split_trans) + (node \<times> int \<times> ext4_ext_path list \<times> ext_split_trans \<times> u64 option)) em" where
  "choose_place path at newext new ptr set_ptr key spt =
     em_bind (path_at path at) (\<lambda>curp.
     em_bind (the_ptr (p_hdr curp)) (\<lambda>hdr.
     em_bind (get_hdr hdr) (\<lambda>eh.
       if eh_entries eh = eh_max eh then
         (if at \<noteq> 0 then
            em_bind (ext4_ext_split_node path at newext) (\<lambda>(err, sibling, bh).
              if err \<noteq> 0 then em_return (Inl (err, spt\<lparr>spt_ptr := sibling\<rparr>))
              else em_bind (the_ptr bh) (\<lambda>b.
                   em_bind (key (ptr curp)) (\<lambda>k.
                   em_bind (after_split new k hdr b) (\<lambda>(n, i).
                     em_return (Inr (n, i, path, spt\<lparr>spt_ptr := sibling\<rparr>, Some b))))))
          else em_return (Inl (EXT_INODE_HDR_NEED_GROW, spt)))
       else
         (case ptr curp of
            None \<Rightarrow> em_return (Inr (hdr, 0, path[at := set_ptr curp (hdr, 0)], spt, None))
          | Some (n, i) \<Rightarrow>
              em_bind (key (Some (n, i))) (\<lambda>k.
                em_return (Inr (hdr, if new > k then int i + 1 else int i, path, spt, None)))))))"

definition ext4_ext_insert_index ::
  "ext4_ext_path list \<Rightarrow> nat \<Rightarrow> ext4_extent \<Rightarrow> u32 \<Rightarrow> u64 \<Rightarrow> ext_split_trans \<Rightarrow>
   (int \<times> ext4_ext_path list \<times> ext_split_trans) em" where
  "ext4_ext_insert_index path at newext insert_index insert_block spt =
     em_bind (path_at path at) (\<lambda>curp.
     em_bind (case p_idx curp of
                None \<Rightarrow> em_return False
              | Some x \<Rightarrow> em_bind (deref_idx (Some x)) (\<lambda>ix. em_return (insert_index = ei_block ix))) (\<lambda>same.
       if same then em_return (- EIO, path, spt)
       else em_bind (choose_place path at newext insert_index p_idx (\<lambda>p x. p\<lparr>p_idx := Some x\<rparr>)
              (\<lambda>x. em_bind (deref_idx x) (\<lambda>ix. em_return (ei_block ix))) spt) (\<lambda>r.
         case r of
           Inl (err, spt) \<Rightarrow> insert_failed err path spt None
         | Inr (n, i, path, spt, bh) \<Rightarrow>
             em_bind (open_gap n i) (\<lambda>fits.
               if \<not> fits then insert_failed (- EIO) path spt bh
               else
                 em_bind (get_idx n (nat i)) (\<lambda>ix.
                 em_bind (put_idx n (nat i) (ext4_idx_store_pblock (ix\<lparr>ei_block := insert_index\<rparr>) insert_block)) (\<lambda>_.
                 em_bind (add_entries n 1) (\<lambda>_.
                 em_bind (get_hdr n) (\<lambda>eh.
                   if i > ext_last eh then insert_failed (- EIO) path spt bh
                   else
                     em_bind (path_at path at) (\<lambda>curp.
                     em_bind (if Some n = p_hdr curp then ext4_ext_dirty curp else em_return ()) (\<lambda>_.
                       insert_done path at (ee_block newext) spt bh (nat i) (\<lambda>curp. ptr_set_path curp n (nat i))))))))))))"

text \<open>The loop of ext4_ext_correct_indexes() that goes on above \<open>k\<close>.\<close>

definition set_border :: "ext4_ext_path \<Rightarrow> u32 \<Rightarrow> unit em" where
  "set_border p border =
     em_bind (the_ptr (p_idx p)) (\<lambda>(n, i).
     em_bind (get_idx n i) (\<lambda>ix.
     em_bind (put_idx n i (ix\<lparr>ei_block := border\<rparr>)) (\<lambda>_. ext4_ext_dirty p)))"

fun correct_up :: "ext4_ext_path list \<Rightarrow> u32 \<Rightarrow> nat \<Rightarrow> unit em" where
  "correct_up path border 0 = em_return ()"
| "correct_up path border (Suc k) =
     em_bind (path_at path (Suc k)) (\<lambda>q.
       if p_idx q \<noteq> map_option (\<lambda>n. (n, 0)) (p_hdr q) then em_return ()
       else em_bind (path_at path k) (\<lambda>p. em_bind (set_border p border) (\<lambda>_. correct_up path border k)))"

definition ext4_ext_correct_indexes :: "ext4_ext_path list \<Rightarrow> int em" where
  "ext4_ext_correct_indexes path =
     em_bind ext_depth (\<lambda>depth.
     em_bind (path_at path depth) (\<lambda>p.
       case (p_ext p, p_hdr p) of
         (Some x, Some n) \<Rightarrow>
           if depth = 0 then em_return 0
           else if x \<noteq> (n, 0) then em_return 0
           else em_bind (deref_ext (Some x)) (\<lambda>ex.
                em_bind (path_at path (depth - 1)) (\<lambda>q.
                em_bind (set_border q (ee_block ex)) (\<lambda>_.
                em_bind (correct_up path (ee_block ex) (depth - 1)) (\<lambda>_. em_return 0))))
       | _ \<Rightarrow> em_return (- EIO)))"

section \<open>Merging and inserting\<close>

text \<open>The limit on the length of a merged extent, common to both directions.\<close>

definition merged_len_ok :: "ext4_extent \<Rightarrow> ext4_extent \<Rightarrow> bool" where
  "merged_len_ok ex1 ex2 \<longleftrightarrow>
     ext4_ext_get_actual_len ex1 + ext4_ext_get_actual_len ex2 \<le>
       (if ext4_ext_is_unwritten ex1 then EXT_UNWRITTEN_MAX_LEN else EXT_INIT_MAX_LEN)"

definition ext4_ext_can_prepend :: "ext4_extent \<Rightarrow> ext4_extent \<Rightarrow> bool" where
  "ext4_ext_can_prepend ex1 ex2 \<longleftrightarrow>
     ext4_ext_pblock ex2 + of_int (ext4_ext_get_actual_len ex2) = ext4_ext_pblock ex1 \<and> merged_len_ok ex1 ex2 \<and>
     ee_block ex2 + of_int (ext4_ext_get_actual_len ex2) = ee_block ex1"

definition ext4_ext_can_append :: "ext4_extent \<Rightarrow> ext4_extent \<Rightarrow> bool" where
  "ext4_ext_can_append ex1 ex2 \<longleftrightarrow>
     ext4_ext_pblock ex1 + of_int (ext4_ext_get_actual_len ex1) = ext4_ext_pblock ex2 \<and> merged_len_ok ex1 ex2 \<and>
     ee_block ex1 + of_int (ext4_ext_get_actual_len ex1) = ee_block ex2"

definition merge_len :: "ext4_extent \<Rightarrow> ext4_extent \<Rightarrow> ext4_extent" where
  "merge_len ex1 ex2 =
     (let x = ex1\<lparr>ee_len := of_int (ext4_ext_get_actual_len ex1 + ext4_ext_get_actual_len ex2)\<rparr>
      in if ext4_ext_is_unwritten ex1 then ext4_ext_mark_unwritten x else x)"

definition note_ext :: "node \<Rightarrow> nat \<Rightarrow> ext4_ext_path \<Rightarrow> ext4_ext_path em" where
  "note_ext n i curp = em_bind (get_ext n i) (\<lambda>x. em_return (curp\<lparr>p_ext := Some (n, i), p_block := ext4_ext_pblock x\<rparr>))"

definition ext4_ext_insert_leaf ::
  "ext4_ext_path list \<Rightarrow> nat \<Rightarrow> ext4_extent \<Rightarrow> ext_split_trans \<Rightarrow> (int \<times> ext4_ext_path list \<times> ext_split_trans) em" where
  "ext4_ext_insert_leaf path at newext spt =
     em_bind (path_at path at) (\<lambda>curp.
     em_bind (case p_ext curp of
                None \<Rightarrow> em_return None
              | Some (n, i) \<Rightarrow> em_bind (get_ext n i) (\<lambda>x. em_return (Some (n, i, x)))) (\<lambda>cur.
     (let place = em_bind (choose_place path at newext (ee_block newext) p_ext (\<lambda>p x. p\<lparr>p_ext := Some x\<rparr>)
              (\<lambda>x. em_bind (deref_ext x) (\<lambda>ex. em_return (ee_block ex))) spt) (\<lambda>r.
            case r of
              Inl (err, spt) \<Rightarrow> insert_failed err path spt None
            | Inr (n, i, path, spt, bh) \<Rightarrow>
                em_bind (open_gap n i) (\<lambda>fits.
                  if \<not> fits then insert_failed (- EIO) path spt bh
                  else
                    em_bind (get_ext n (nat i)) (\<lambda>ex.
                    em_bind (put_ext n (nat i) (ext4_ext_store_pblock (ex\<lparr>ee_block := ee_block newext, ee_len := ee_len newext\<rparr>)
                              (ext4_ext_pblock newext))) (\<lambda>_.
                    em_bind (add_entries n 1) (\<lambda>_.
                    em_bind (get_hdr n) (\<lambda>eh.
                      if i > ext_last eh then insert_failed (- EIO) path spt bh
                      else
                        em_bind (path_at path at) (\<lambda>curp.
                          if Some n = p_hdr curp then
                            em_bind (ext4_ext_correct_indexes path) (\<lambda>err.
                              if err \<noteq> 0 then insert_failed err path spt bh
                              else em_bind (ext4_ext_dirty curp) (\<lambda>_.
                                insert_done path at (ee_block newext) spt bh (nat i) (note_ext n (nat i))))
                          else insert_done path at (ee_block newext) spt bh (nat i) (note_ext n (nat i)))))))));
          merged = (\<lambda>n i x. em_bind (put_ext n i x) (\<lambda>_. em_bind (ext4_ext_dirty curp) (\<lambda>_.
            insert_done path at (ee_block newext) spt None i (note_ext n i))))
      in case cur of
           None \<Rightarrow> place
         | Some (n, i, x) \<Rightarrow>
             if ee_block newext = ee_block x then em_return (- EIO, path, spt)
             else if ext4_ext_can_append x newext then merged n i (merge_len x newext)
             else if ext4_ext_can_prepend x newext then merged n i (merge_len (x\<lparr>ee_block := ee_block newext\<rparr>) newext)
             else place)))"

text \<open>The result is the error; no block is left allocated when the new block cannot be had.\<close>

definition ext4_ext_grow_indepth :: "int em" where
  "ext4_ext_grow_indepth =
     em_bind ext_depth (\<lambda>depth.
     em_bind (if depth \<noteq> 0 then em_bind (get_idx In_inode 0) (\<lambda>x. em_return (ext4_idx_pblock x))
              else ext4_inode_to_goal_block) (\<lambda>goal.
     em_bind (new_blocks goal None) (\<lambda>(newblock, _, err).
       if newblock = 0 then em_return err
       else em_bind (bwrite newblock) (\<lambda>bh.
         case bh of
           None \<Rightarrow> em_bind (free_blocks newblock 1) (\<lambda>_. em_return 0)
         | Some b \<Rightarrow>
             em_bind (get_bytes In_inode) (\<lambda>root.
             em_bind (put_at (In_block b) 0 root) (\<lambda>_.
             em_bind (em_get (\<lambda>_ fs. if depth \<noteq> 0 then ext4_ext_space_block_idx (sup fs) else ext4_ext_space_block (sup fs))) (\<lambda>mx.
             em_bind (get_hdr (In_block b)) (\<lambda>neh.
             em_bind (put_hdr (In_block b) (neh\<lparr>eh_max := of_int mx, eh_magic := EXT4_EXT_MAGIC\<rparr>)) (\<lambda>_.
             em_bind (put_at (In_block b) (entry_off (unat (of_int mx :: u16))) (replicate 4 0)) (\<lambda>_.
             em_bind (get_hdr In_inode) (\<lambda>eh.
             em_bind (get_idx In_inode 0) (\<lambda>ix.
             em_bind (put_idx In_inode 0 (ext4_idx_store_pblock ix newblock)) (\<lambda>_.
             em_bind (put_hdr In_inode (eh\<lparr>eh_entries := 1,
                 eh_max := (if eh_depth eh = 0 then of_int ext4_ext_space_root_idx else eh_max eh),
                 eh_depth := eh_depth eh + 1\<rparr>)) (\<lambda>_.
             em_bind (mark_buffer_dirty b) (\<lambda>_.
             em_bind mark_inode_dirty (\<lambda>_.
             em_bind (brelse_em b) (\<lambda>_. em_return err)))))))))))))))))"

text \<open>The number of full nodes from the leaf \<open>depth\<close> upwards.\<close>

fun full_levels :: "ext4_ext_path list \<Rightarrow> nat \<Rightarrow> nat em" where
  "full_levels path k =
     em_bind (path_at path k) (\<lambda>p.
     em_bind (the_ptr (p_hdr p)) (\<lambda>n.
     em_bind (get_hdr n) (\<lambda>eh.
       if eh_entries eh < eh_max eh then em_return 0
       else (case k of 0 \<Rightarrow> em_return 1 | Suc k' \<Rightarrow> em_bind (full_levels path k') (\<lambda>l. em_return (Suc l))))))"

text \<open>
  The do-while loop of ext4_ext_insert_extent() from level \<open>i\<close> on, with at most \<open>todo\<close> levels to go: the
  result has the error, the next level, the path, the transactions and the last transaction.
\<close>

fun insert_levels ::
  "nat \<Rightarrow> nat \<Rightarrow> nat \<Rightarrow> ext4_extent \<Rightarrow> ext4_ext_path list \<Rightarrow> ext_split_trans list \<Rightarrow> ext_split_trans \<Rightarrow>
   (int \<times> nat \<times> ext4_ext_path list \<times> ext_split_trans list \<times> ext_split_trans) em" where
  "insert_levels 0 depth i newext path spt newblock = em_return (0, i, path, spt, newblock)"
| "insert_levels (Suc todo) depth i newext path spt newblock =
     em_bind (if i = 0 then ext4_ext_insert_leaf path depth newext newblock
              else em_bind (em_lift (c_defined (i - 1 < length spt \<and> i \<le> depth))) (\<lambda>_.
                ext4_ext_insert_index path (depth - i) newext (spt_index (spt ! (i - 1))) (spt_ptr (spt ! (i - 1))) newblock))
       (\<lambda>(ret, path, newblock).
         if ret \<noteq> 0 \<and> ret \<noteq> EXT_INODE_HDR_NEED_GROW then em_return (ret, i, path, spt, newblock)
         else
           em_bind (if spt \<noteq> [] \<and> spt_ptr newblock \<noteq> 0 \<and> ret = 0
                    then em_bind (em_lift (c_defined (i < length spt))) (\<lambda>_. em_return (spt[i := newblock]))
                    else em_return spt) (\<lambda>spt.
             if spt_ptr newblock \<noteq> 0 \<and> i + 1 \<le> depth then insert_levels todo depth (i + 1) newext path spt newblock
             else em_return (ret, i + 1, path, spt, newblock)))"

text \<open>
  The rounds at the label again. A round that grows the tree leaves a root with one entry, so a tree
  whose nodes hold two entries needs no second growth; \<open>rounds\<close> bounds the depth, a 16-bit field.
\<close>

fun insert_rounds ::
  "nat \<Rightarrow> nat \<Rightarrow> ext4_extent \<Rightarrow> ext4_ext_path list \<Rightarrow> ext_split_trans list \<Rightarrow> ext_split_trans \<Rightarrow>
   (int \<times> ext4_ext_path list \<times> ext_split_trans list) em" where
  "insert_rounds 0 i newext path spt newblock = em_lift (Inl Diverge)"
| "insert_rounds (Suc rounds) i newext path spt newblock =
     em_bind ext_depth (\<lambda>depth.
     em_bind (insert_levels (Suc depth) depth i newext path spt newblock) (\<lambda>(ret, i, path, spt, newblock).
       if ret = EXT_INODE_HDR_NEED_GROW then
         em_bind ext4_ext_grow_indepth (\<lambda>ret.
           if ret \<noteq> 0 then em_return (ret, path, spt)
           else em_bind (ext4_find_extent (ee_block newext) (Some path)) (\<lambda>(ret, path).
             em_bind (the_ptr path) (\<lambda>path. insert_rounds rounds depth newext path spt newblock)))
       else em_return (ret, path, spt)))"

text \<open>The two loops at the label out: undo the splits, or let the path follow them.\<close>

fun insert_undo :: "nat \<Rightarrow> ext_split_trans list \<Rightarrow> unit em" where
  "insert_undo 0 spt = em_return ()"
| "insert_undo (Suc level) spt =
     em_bind (if spt_ptr (spt ! level) \<noteq> 0 then
                em_bind (free_blocks (spt_ptr (spt ! level)) 1) (\<lambda>_.
                em_bind (the_ptr (spt_bh (spt ! level))) brelse_em)
              else em_return ()) (\<lambda>_. insert_undo level spt)"

fun insert_follow :: "nat \<Rightarrow> nat \<Rightarrow> ext4_ext_path list \<Rightarrow> ext_split_trans list \<Rightarrow> ext4_ext_path list em" where
  "insert_follow depth 0 path spt = em_return path"
| "insert_follow depth (Suc level) path spt =
     (let t = spt ! level; i = depth - level
      in em_bind (if switch_to t then
                    em_bind (ext4_ext_drop_refs path i True) (\<lambda>path.
                    em_bind (the_ptr (spt_bh t)) (\<lambda>b.
                    em_bind (path_at path i) (\<lambda>p.
                    (let p = p\<lparr>p_bh := Some b, p_hdr := Some (In_block b)\<rparr>
                     in em_bind (if level \<noteq> 0 then ptr_set_path p (In_block b) (item_offset t)
                                 else note_ext (In_block b) (item_offset t) p) (\<lambda>p. em_return (path[i := p]))))))
                  else (case spt_bh t of Some b \<Rightarrow> em_bind (brelse_em b) (\<lambda>_. em_return path) | None \<Rightarrow> em_return path))
           (\<lambda>path. insert_follow depth level path spt))"

definition ext4_ext_insert_extent :: "ext4_ext_path list \<Rightarrow> ext4_extent \<Rightarrow> (int \<times> ext4_ext_path list) em" where
  "ext4_ext_insert_extent path newext =
     em_bind ext_depth (\<lambda>depth.
     em_bind (full_levels path depth) (\<lambda>level.
     em_bind (insert_rounds 65537 0 newext path (replicate level zero_spt) zero_spt) (\<lambda>(ret, path, spt).
       if ret \<noteq> 0 then
         em_bind (ext4_ext_drop_refs path 0 False) (\<lambda>path.
         em_bind (insert_undo level spt) (\<lambda>_. em_return (ret, path)))
       else
         em_bind ext_depth (\<lambda>depth.
         em_bind (insert_follow depth level path spt) (\<lambda>path. em_return (0, path))))))"

section \<open>Removing\<close>

definition ext4_ext_remove_blocks :: "ext4_extent \<Rightarrow> u32 \<Rightarrow> u32 \<Rightarrow> unit em" where
  "ext4_ext_remove_blocks ex from to =
     free_blocks (ext4_ext_pblock ex + ucast (from - ee_block ex)) (sint (to - from + 1))"

text \<open>The loop of ext4_ext_remove_idx() that passes the first block of a node on to its parents.\<close>

fun remove_idx_up :: "ext4_ext_path list \<Rightarrow> nat \<Rightarrow> unit em" where
  "remove_idx_up path 0 = em_return ()"
| "remove_idx_up path (Suc i) =
     em_bind (path_at path (Suc i)) (\<lambda>p.
       if p_idx p \<noteq> map_option (\<lambda>n. (n, 0)) (p_hdr p) then em_return ()
       else em_bind (deref_idx (p_idx p)) (\<lambda>ix.
            em_bind (path_at path i) (\<lambda>q. em_bind (set_border q (ei_block ix)) (\<lambda>_. remove_idx_up path i))))"

definition ext4_ext_remove_idx :: "ext4_ext_path list \<Rightarrow> nat \<Rightarrow> int em" where
  "ext4_ext_remove_idx path i =
     em_bind (path_at path i) (\<lambda>p.
     em_bind (the_ptr (p_hdr p)) (\<lambda>n.
     em_bind (the_ptr (p_idx p)) (\<lambda>(pn, k).
     em_bind (get_idx pn k) (\<lambda>ix.
     em_bind (get_hdr n) (\<lambda>eh.
     em_bind (if int k \<noteq> ext_last eh
              then em_bind (em_lift (c_defined (int k \<le> ext_last eh))) (\<lambda>_.
                   node_move pn (entry_off k) pn (entry_off (Suc k)) (12 * nat (ext_last eh - int k)))
              else em_return ()) (\<lambda>_.
     em_bind (add_entries n (-1)) (\<lambda>_.
     em_bind (ext4_ext_dirty p) (\<lambda>_.
     em_bind (free_blocks (ext4_idx_pblock ix) 1) (\<lambda>_.
     em_bind (remove_idx_up path i) (\<lambda>_. em_return 0))))))))))"

text \<open>
  The loop of ext4_ext_remove_leaf() over the extents from \<open>i\<close> on, up to \<open>todo\<close> of them: the state is
  start_ex, ex2 and new_entries. The variable start is assigned before the two differences from - start
  are taken, so both are zero.
\<close>

fun remove_exts ::
  "nat \<Rightarrow> node \<Rightarrow> u32 \<Rightarrow> u32 \<Rightarrow> int \<Rightarrow> nat \<Rightarrow> nat \<Rightarrow> nat option \<Rightarrow> int \<Rightarrow> (nat \<times> nat \<times> nat option \<times> int) em" where
  "remove_exts 0 n from to lst i start_ex ex2 new_entries = em_return (i, start_ex, ex2, new_entries)"
| "remove_exts (Suc todo) n from to lst i start_ex ex2 new_entries =
     (if \<not> int i \<le> lst then em_return (i, start_ex, ex2, new_entries)
      else em_bind (get_ext n i) (\<lambda>ex.
        if \<not> ee_block ex \<le> to then em_return (i, start_ex, ex2, new_entries)
        else
         (let start = ucast (ee_block ex) :: u64; new_start = start;
              len = ext4_ext_get_actual_len ex; new_len = 0 :: int;
              (start, len, new_len, start_ex) =
                (if start < ucast from
                 then (let start = ucast from :: u64
                       in (start, sint (ucast (of_int len - (ucast from - start)) :: u32),
                           sint (ucast (ucast from - start) :: u32), Suc start_ex))
                 else (start, len, new_len, start_ex));
              (len, new_len, new_start, ex2) =
                (if start + of_int len - 1 > ucast to
                 then (let len = sint (ucast (of_int len - (start + of_int len - 1 - ucast to)) :: u32)
                       in (len, sint (ucast (start + of_int len - 1 - ucast to) :: u32), new_start + ucast (to + 1), Some i))
                 else (len, new_len, new_start, ex2))
          in em_bind (ext4_ext_remove_blocks ex (ucast start) (ucast (start + of_int len - 1))) (\<lambda>_.
             (let ex = ex\<lparr>ee_block := ucast new_start\<rparr>
              in em_bind (put_ext n i (if new_len = 0 then ex
                    else (let x = ex\<lparr>ee_len := of_int new_len\<rparr>
                          in if ext4_ext_is_unwritten ex then ext4_ext_mark_unwritten x else x))) (\<lambda>_.
                 remove_exts todo n from to lst (Suc i) start_ex ex2
                   (if new_len = 0 then new_entries - 1 else new_entries)))))))"

text \<open>The memmove() of ext4_ext_remove_leaf() counts entries where it needs bytes.\<close>

definition ext4_ext_remove_leaf :: "ext4_ext_path list \<Rightarrow> u32 \<Rightarrow> u32 \<Rightarrow> int em" where
  "ext4_ext_remove_leaf path from to =
     em_bind ext_depth (\<lambda>depth.
     em_bind (path_at path depth) (\<lambda>p.
     em_bind (the_ptr (p_hdr p)) (\<lambda>n.
     em_bind (the_ptr (p_ext p)) (\<lambda>(pn, i).
     em_bind (get_hdr n) (\<lambda>eh.
     em_bind (remove_exts (unat (eh_entries eh)) pn from to (ext_last eh) i i None (uint (eh_entries eh))) (\<lambda>(ex, start_ex, ex2, new_entries).
     (let ex2 = (case ex2 of None \<Rightarrow> ex | Some e \<Rightarrow> e)
      in em_bind (if int ex2 \<le> ext_last eh
                  then node_move pn (entry_off start_ex) pn (entry_off ex2) (nat (ext_last eh - int ex2 + 1))
                  else em_return ()) (\<lambda>_.
         em_bind (get_hdr n) (\<lambda>h.
         em_bind (put_hdr n (h\<lparr>eh_entries := of_int new_entries\<rparr>)) (\<lambda>_.
         em_bind (ext4_ext_dirty p) (\<lambda>_.
         em_bind (if (pn, i) = (n, 0) \<and> (of_int new_entries :: u16) \<noteq> 0 then ext4_ext_correct_indexes path else em_return 0) (\<lambda>err.
           if err = 0 \<and> (of_int new_entries :: u16) = 0 \<and> p_bh p \<noteq> None
           then ext4_ext_remove_idx path (depth - 1) else em_return err)))))))))))) "

definition ext4_ext_more_to_rm :: "ext4_ext_path \<Rightarrow> u32 \<Rightarrow> bool em" where
  "ext4_ext_more_to_rm p to =
     em_bind (the_ptr (p_hdr p)) (\<lambda>n.
     em_bind (get_hdr n) (\<lambda>eh.
       if eh_entries eh = 0 then em_return False
       else em_bind (the_ptr (p_idx p)) (\<lambda>(pn, k).
         if int k > ext_last eh then em_return False
         else em_bind (get_idx pn k) (\<lambda>ix. em_return (\<not> ei_block ix > to)))))"

text \<open>
  The loop of ext4_ext_remove_space(): the argument \<open>lvl\<close> is i + 1. The result has ret and the path; a
  True asks for the jump to the label out.
\<close>

fun remove_walk ::
  "nat \<Rightarrow> nat \<Rightarrow> nat \<Rightarrow> u32 \<Rightarrow> u32 \<Rightarrow> int \<Rightarrow> ext4_ext_path list \<Rightarrow> (bool \<times> int \<times> ext4_ext_path list) em" where
  "remove_walk fuel depth 0 from to ret path = em_return (False, ret, path)"
| "remove_walk 0 depth (Suc i) from to ret path = em_lift (Inl Diverge)"
| "remove_walk (Suc fuel) depth (Suc i) from to ret path =
     em_bind (path_at path i) (\<lambda>p.
     em_bind (the_ptr (p_hdr p)) (\<lambda>n.
     em_bind (get_hdr n) (\<lambda>eh.
       if i = depth then
         em_bind (em_lift (c_assert (0 < unat (eh_entries eh)))) (\<lambda>_.
         em_bind (get_ext n 0) (\<lambda>first_ex.
         em_bind (get_ext n (unat (eh_entries eh) - 1)) (\<lambda>last_ex.
         (let leaf_from = ee_block first_ex;
              leaf_to = ee_block last_ex + of_int (ext4_ext_get_actual_len last_ex) - 1;
              leaf_from = (if leaf_from < from then from else leaf_from);
              leaf_to = (if leaf_to > to then to else leaf_to)
          in em_bind (ext4_ext_remove_leaf path leaf_from leaf_to) (\<lambda>_.
             em_bind (ext4_ext_drop_refs path i False) (\<lambda>path.
               remove_walk fuel depth i from to ret path))))))
       else
         em_bind (ext4_ext_more_to_rm p to) (\<lambda>more.
           if more then
             em_bind (path_at path (Suc i)) (\<lambda>q.
             em_bind (if p_bh q \<noteq> None then ext4_ext_drop_refs path (Suc i) False else em_return path) (\<lambda>path.
             em_bind (deref_idx (p_idx p)) (\<lambda>ix.
             em_bind (read_extent_tree_block (ext4_idx_pblock ix) (depth - i - 1)) (\<lambda>(bh, ret).
               if ret \<noteq> 0 then em_return (True, ret, path)
               else
                 em_bind (the_ptr bh) (\<lambda>b.
                 em_bind (path_at path (Suc i)) (\<lambda>q.
                 (let q = q\<lparr>p_bh := Some b, p_hdr := Some (In_block b), p_depth := depth - i - 1\<rparr>;
                      q = (if i + 1 = depth then q\<lparr>p_ext := Some (In_block b, 0)\<rparr> else q\<lparr>p_idx := Some (In_block b, 0)\<rparr>)
                  in remove_walk fuel depth (Suc (Suc i)) from to ret
                       (path[i := p\<lparr>p_block := ext4_idx_pblock ix\<rparr>, Suc i := q]))))))))
           else
             em_bind (if eh_entries eh = 0 \<and> 0 < i then ext4_ext_remove_idx path (i - 1) else em_return ret) (\<lambda>ret.
             em_bind (if 0 < i
                      then em_bind (the_ptr (p_bh p)) (\<lambda>b. em_bind (brelse_em b) (\<lambda>_. em_return (path[i := p\<lparr>p_bh := None\<rparr>])))
                      else em_return path) (\<lambda>path.
               remove_walk fuel depth i from to ret path))))))"

definition ext4_ext_remove_space :: "nat \<Rightarrow> u32 \<Rightarrow> u32 \<Rightarrow> int em" where
  "ext4_ext_remove_space fuel from to =
     em_bind ext_depth (\<lambda>depth.
     em_bind (ext4_find_extent from None) (\<lambda>(ret, path).
       case path of
         None \<Rightarrow> em_return ret
       | Some path \<Rightarrow>
           em_bind (path_at path depth) (\<lambda>p.
           em_bind (case p_ext p of
                      None \<Rightarrow> em_return False
                    | Some x \<Rightarrow> em_bind (deref_ext (Some x)) (\<lambda>ex.
                        em_return (in_range (ucast from) (ee_block ex) (of_int (ext4_ext_get_actual_len ex))))) (\<lambda>inside.
           em_bind (if \<not> inside then em_return (0, path)
                    else em_bind (remove_walk fuel depth (Suc depth) from to 0 path) (\<lambda>(jump, ret, path).
                      if jump then em_return (ret, path)
                      else em_bind (get_hdr In_inode) (\<lambda>eh.
                        if eh_entries eh = 0 then
                          em_bind (put_hdr In_inode (eh\<lparr>eh_depth := 0, eh_max := of_int ext4_ext_space_root\<rparr>)) (\<lambda>_.
                          em_bind (path_at path 0) (\<lambda>p. em_bind (ext4_ext_dirty p) (\<lambda>_. em_return (0, path))))
                        else em_return (ret, path)))) (\<lambda>(ret, path).
             em_bind (ext4_ext_drop_refs path 0 False) (\<lambda>_. em_return ret))))))"

section \<open>Splitting an extent\<close>

text \<open>The extent is held by a pointer that stays valid while the tree changes.\<close>

definition ext4_ext_split_extent_at ::
  "ext4_ext_path list \<Rightarrow> u32 \<Rightarrow> bool \<Rightarrow> bool \<Rightarrow> (int \<times> ext4_ext_path list) em" where
  "ext4_ext_split_extent_at path split mark_unwrit1 mark_unwrit2 =
     em_bind ext_depth (\<lambda>depth.
     em_bind (path_at path depth) (\<lambda>p.
     em_bind (the_ptr (p_ext p)) (\<lambda>(n, i).
     em_bind (get_ext n i) (\<lambda>ex.
     (let ee_len' = ext4_ext_get_actual_len ex;
          newblock = ucast (split - ee_block ex) + ext4_ext_pblock ex
      in if split = ee_block ex then
           em_bind (put_ext n i (if mark_unwrit2 then ext4_ext_mark_unwritten ex else ext4_ext_mark_initialized ex)) (\<lambda>_.
           em_bind (ext4_ext_dirty p) (\<lambda>_. em_return (0, path)))
         else
          (let left = ex\<lparr>ee_len := ucast (split - ee_block ex)\<rparr>;
               newex = ext4_ext_store_pblock
                 \<lparr>ee_block = split, ee_len = ucast (of_int ee_len' - (split - ee_block ex)), ee_start_hi = 0, ee_start_lo = 0\<rparr> newblock
           in em_bind (put_ext n i (if mark_unwrit1 then ext4_ext_mark_unwritten left else left)) (\<lambda>_.
              em_bind (ext4_ext_dirty p) (\<lambda>_.
              em_bind (ext4_ext_insert_extent path (if mark_unwrit2 then ext4_ext_mark_unwritten newex else newex)) (\<lambda>(err, path).
                if err = 0 then em_return (0, path)
                else
                  em_bind (get_ext n i) (\<lambda>ex.
                  em_bind (put_ext n i (ex\<lparr>ee_len := of_int ee_len'\<rparr>)) (\<lambda>_.
                  em_bind (path_at path depth) (\<lambda>p.
                  em_bind (ext4_ext_dirty p) (\<lambda>_. em_return (0, path)))))))))))))) "

definition ext4_ext_convert_to_initialized :: "ext4_ext_path list \<Rightarrow> u32 \<Rightarrow> u64 \<Rightarrow> (int \<times> ext4_ext_path list) em" where
  "ext4_ext_convert_to_initialized path split blocks =
     em_bind ext_depth (\<lambda>depth.
     em_bind (path_at path depth) (\<lambda>p.
     em_bind (deref_ext (p_ext p)) (\<lambda>ex.
     em_bind (em_lift (c_assert (ee_block ex \<le> split))) (\<lambda>_.
       if ucast split + blocks = ucast (ee_block ex + of_int (ext4_ext_get_actual_len ex))
       then ext4_ext_split_extent_at path split True False
       else if ee_block ex = split then ext4_ext_split_extent_at path (ucast (ucast split + blocks)) False True
       else em_bind (ext4_ext_split_extent_at path (ucast (ucast split + blocks)) True True) (\<lambda>(err, path).
              if err = 0 then ext4_ext_split_extent_at path split True False else em_return (err, path))))))"

section \<open>Mapping and allocating file blocks\<close>

definition ext4_ext_tree_init :: "unit em" where
  "ext4_ext_tree_init =
     em_bind (get_hdr In_inode) (\<lambda>eh.
     em_bind (put_hdr In_inode (eh\<lparr>eh_depth := 0, eh_entries := 0, eh_magic := EXT4_EXT_MAGIC,
       eh_max := of_int ext4_ext_space_root\<rparr>)) (\<lambda>_. mark_inode_dirty))"

text \<open>The loop of ext4_ext_next_allocated_block() over the levels below \<open>lvl\<close>.\<close>

fun next_allocated_up :: "ext4_ext_path list \<Rightarrow> nat \<Rightarrow> nat \<Rightarrow> u32 em" where
  "next_allocated_up path leaf 0 = em_return EXT_MAX_BLOCKS"
| "next_allocated_up path leaf (Suc depth) =
     em_bind (path_at path depth) (\<lambda>p.
       if depth = leaf then
         (case p_ext p of
            None \<Rightarrow> next_allocated_up path leaf depth
          | Some (n, i) \<Rightarrow>
              em_bind (the_ptr (p_hdr p)) (\<lambda>h.
              em_bind (get_hdr h) (\<lambda>eh.
                if (n, int i) \<noteq> (h, ext_last eh)
                then em_bind (get_ext n (Suc i)) (\<lambda>x. em_return (ee_block x))
                else next_allocated_up path leaf depth)))
       else
         em_bind (the_ptr (p_idx p)) (\<lambda>(n, i).
         em_bind (the_ptr (p_hdr p)) (\<lambda>h.
         em_bind (get_hdr h) (\<lambda>eh.
           if (n, int i) \<noteq> (h, ext_last eh)
           then em_bind (get_idx n (Suc i)) (\<lambda>x. em_return (ei_block x))
           else next_allocated_up path leaf depth))))"

definition ext4_ext_next_allocated_block :: "ext4_ext_path list \<Rightarrow> u32 em" where
  "ext4_ext_next_allocated_block path =
     em_bind (path_at path 0) (\<lambda>p.
       if p_depth p = 0 \<and> p_ext p = None then em_return EXT_MAX_BLOCKS
       else next_allocated_up path (p_depth p) (Suc (p_depth p)))"

text \<open>
  ext4_ext_get_blocks() in the parts its control flow has: the label out, the label out2, and the branch
  that allocates. The result is the return value and bh_result.
\<close>

definition get_blocks_out2 ::
  "ext4_ext_path list option \<Rightarrow> int \<Rightarrow> u64 \<Rightarrow> buffer_head \<Rightarrow> (int \<times> buffer_head) em" where
  "get_blocks_out2 path err allocated bh_result =
     em_bind (case path of None \<Rightarrow> em_return () | Some path \<Rightarrow>
                em_bind (ext4_ext_drop_refs path 0 False) (\<lambda>_. em_return ())) (\<lambda>_.
       em_return (if err \<noteq> 0 then err else sint (ucast allocated :: u32), bh_result))"

definition get_blocks_out ::
  "ext4_ext_path list \<Rightarrow> u64 \<Rightarrow> u64 \<Rightarrow> u64 \<Rightarrow> buffer_head \<Rightarrow> (int \<times> buffer_head) em" where
  "get_blocks_out path newblock allocated max_blocks bh_result =
     get_blocks_out2 (Some path) 0 (if allocated > max_blocks then max_blocks else allocated)
       ((set_buffer BH_Mapped bh_result)\<lparr>b_blocknr := newblock\<rparr>)"

definition get_blocks_create ::
  "ext4_ext_path list \<Rightarrow> u64 \<Rightarrow> u64 \<Rightarrow> buffer_head \<Rightarrow> (int \<times> buffer_head) em" where
  "get_blocks_create path iblock max_blocks bh_result =
     em_bind (ext4_ext_next_allocated_block path) (\<lambda>next.
     (let allocated = ucast next - iblock;
          allocated = (if allocated > max_blocks then max_blocks else allocated)
      in em_bind (ext4_ext_find_goal path (ucast iblock)) (\<lambda>goal.
         em_bind (new_blocks (scast (ucast goal :: u32)) (Some allocated)) (\<lambda>(newblock, cnt, err).
         (let allocated = (case cnt of None \<Rightarrow> allocated | Some a \<Rightarrow> a)
          in if newblock = 0 then get_blocks_out2 (Some path) err allocated bh_result
             else
              (let newex = (ext4_ext_store_pblock \<lparr>ee_block = ucast iblock, ee_len = 0, ee_start_hi = 0, ee_start_lo = 0\<rparr>
                     newblock)\<lparr>ee_len := ucast allocated\<rparr>
               in em_bind (ext4_ext_insert_extent path newex) (\<lambda>(err, path).
                    if err \<noteq> 0 then
                      em_bind (free_blocks (ext4_ext_pblock newex) (uint (ee_len newex))) (\<lambda>_.
                        get_blocks_out2 (Some path) err allocated bh_result)
                    else
                      get_blocks_out path (ext4_ext_pblock newex) allocated max_blocks (set_buffer BH_New bh_result))))))))"

definition ext4_ext_get_blocks ::
  "u64 \<Rightarrow> u64 \<Rightarrow> buffer_head \<Rightarrow> bool \<Rightarrow> (int \<times> buffer_head) em" where
  "ext4_ext_get_blocks iblock max_blocks bh_result create =
    (let bh_result = clear_buffer BH_New bh_result
     in em_bind (ext4_find_extent (ucast iblock) None) (\<lambda>(err, path).
       if err \<noteq> 0 then get_blocks_out2 None err 0 bh_result
       else
         em_bind (the_ptr path) (\<lambda>path.
         em_bind ext_depth (\<lambda>depth.
         em_bind (path_at path depth) (\<lambda>p.
         em_bind (case p_ext p of None \<Rightarrow> em_return None | Some x \<Rightarrow> em_bind (deref_ext (Some x)) (\<lambda>ex. em_return (Some ex))) (\<lambda>ex.
           case ex of
             Some ex \<Rightarrow>
               if in_range iblock (ee_block ex) (of_int (ext4_ext_get_actual_len ex))
               then get_blocks_out path (iblock - ucast (ee_block ex) + ext4_ext_pblock ex)
                      (ucast (of_int (ext4_ext_get_actual_len ex) :: u32) - (iblock - ucast (ee_block ex))) max_blocks bh_result
               else if \<not> create then get_blocks_out2 (Some path) 0 0 bh_result
               else get_blocks_create path iblock max_blocks bh_result
           | None \<Rightarrow>
               if \<not> create then get_blocks_out2 (Some path) 0 0 bh_result
               else get_blocks_create path iblock max_blocks bh_result))))))"

definition zero_bh :: buffer_head where
  "zero_bh = \<lparr>b_state = 0, b_blocknr = 0, b_data = [], b_event = 0, b_end_io = No_end_io, b_count = 0, b_locked = False\<rparr>"

text \<open>The result is the physical block and the length stored through the pointer len.\<close>

definition extent_get_pblock_new :: "u32 \<Rightarrow> u32 option \<Rightarrow> bool \<Rightarrow> (u64 \<times> u32 option) em" where
  "extent_get_pblock_new lblock len create =
     em_bind (if create
              then (let wanted_len = (case len of Some l \<Rightarrow> sint l | None \<Rightarrow> 1)
                    in ext4_ext_get_blocks (ucast lblock) (of_int wanted_len) zero_bh True)
              else ext4_ext_get_blocks (ucast lblock) (of_int EXT_INIT_MAX_LEN) zero_bh False) (\<lambda>(ret_len, bh_result).
     (let ret_len = (if ret_len \<le> 0 then 0 else ret_len)
      in em_return (b_blocknr bh_result, map_option (\<lambda>_. of_int ret_len) len)))"

end
