(* ===== verification/E4F_Exttree.thy ===== *)
theory E4F_Exttree
  imports E4F_Extents
begin

text \<open>
  The lookup in an extent tree (ext4_find_extent(), ext4_ext_get_blocks() and extent_get_pblock_new() of
  src/extents/extents.c) against a specification without nodes: a well-formed tree of any depth is the
  list of its extents, and the lookup finds the extent of that list that covers the block, if any.
\<close>

section \<open>Running the computations\<close>

named_theorems em_run

lemma em_run_basic [em_run]:
  "em_return x z = Inr (x, z)"
  "em_bind m f z = res_bind (m z) (\<lambda>(x, z). f x z)"
  "em_get h z = Inr (h (fst z) (snd z), z)"
  "em_put g z = Inr ((), g (fst z) (snd z))"
  "em_lift (Inr x) z = Inr (x, z)"
  "em_lift (c_defined True) z = Inr ((), z)"
  "em_lift (c_assert True) z = Inr ((), z)"
  by (auto simp: em_return_def em_bind_def em_get_def em_put_def em_lift_def split: prod.split)

lemma c_defined_run [em_run]: "P \<Longrightarrow> em_lift (c_defined P) z = Inr ((), z)"
  by (simp add: em_lift_def)

lemma the_ptr_run [em_run]: "the_ptr (Some x) z = Inr (x, z)"
  by (simp add: the_ptr_def em_lift_def)

lemma path_at_run [em_run]: "i < length path \<Longrightarrow> path_at path i z = Inr (path ! i, z)"
  by (simp add: path_at_def em_run)

text \<open>The bytes of a node in a state of the computation, and loads from it.\<close>

definition node_at :: "node \<Rightarrow> inode \<times> fs \<Rightarrow> bytes" where
  "node_at n z = node_bytes n (fst z) (snd z)"

lemma get_bytes_run [em_run]: "get_bytes n z = Inr (node_at n z, z)"
  by (simp add: get_bytes_def node_at_def em_run)

lemma get_hdr_run [em_run]: "12 \<le> length (node_at n z) \<Longrightarrow> get_hdr n z = Inr (eh_of (node_at n z), z)"
  by (simp add: get_hdr_def em_run)

lemma get_ext_run [em_run]:
  "entry_off i + 12 \<le> length (node_at n z) \<Longrightarrow> get_ext n i z = Inr (ext_of (node_at n z) (entry_off i), z)"
  by (simp add: get_ext_def em_run)

lemma get_idx_run [em_run]:
  "entry_off i + 12 \<le> length (node_at n z) \<Longrightarrow> get_idx n i z = Inr (idx_of (node_at n z) (entry_off i), z)"
  by (simp add: get_idx_def em_run)

section \<open>The binary search\<close>

text \<open>The last position whose key is at most \<open>b\<close>, or the first position when there is none.\<close>

definition last_le :: "u32 list \<Rightarrow> u32 \<Rightarrow> nat" where
  "last_le ks b = length (takeWhile (\<lambda>k. k \<le> b) (tl ks))"

lemma last_le_bound: "ks \<noteq> [] \<Longrightarrow> last_le ks b < length ks"
  using length_takeWhile_le [of "\<lambda>k. k \<le> b" "tl ks"] by (cases ks) (auto simp: last_le_def less_Suc_eq_le)

lemma last_le_below: "0 < j \<Longrightarrow> j \<le> last_le ks b \<Longrightarrow> ks ! j \<le> b"
proof (cases ks)
  case (Cons k xs)
  assume j: "0 < j" "j \<le> last_le ks b"
  have "j - 1 < length (takeWhile (\<lambda>k. k \<le> b) xs)" using j Cons by (simp add: last_le_def)
  from nth_mem [OF this] have "takeWhile (\<lambda>k. k \<le> b) xs ! (j - 1) \<le> b" by (blast dest: set_takeWhileD)
  with \<open>j - 1 < _\<close> j Cons show ?thesis by (simp add: takeWhile_nth nth_Cons')
qed (simp add: last_le_def)

lemma last_le_next: "Suc (last_le ks b) < length ks \<Longrightarrow> b < ks ! Suc (last_le ks b)"
proof (cases ks)
  case (Cons k xs)
  assume "Suc (last_le ks b) < length ks"
  then have "length (takeWhile (\<lambda>k. k \<le> b) xs) < length xs" using Cons by (simp add: last_le_def)
  then show ?thesis using nth_length_takeWhile [of "\<lambda>k. k \<le> b" xs] Cons by (simp add: last_le_def)
qed simp

lemma last_le_eqI:
  assumes "i < length ks" "\<And>j. 0 < j \<Longrightarrow> j \<le> i \<Longrightarrow> ks ! j \<le> b" "Suc i < length ks \<Longrightarrow> b < ks ! Suc i"
  shows "last_le ks b = i"
proof (rule ccontr)
  assume ne: "last_le ks b \<noteq> i"
  have ks: "ks \<noteq> []" using assms(1) by auto
  show False
  proof (cases "i < last_le ks b")
    case True
    then have "Suc i < length ks" using last_le_bound [OF ks, of b] by simp
    then show False using assms(3) last_le_below [of "Suc i" ks b] True by fastforce
  next
    case False
    then have "last_le ks b < i" using ne by simp
    then have "Suc (last_le ks b) < length ks" using assms(1) by simp
    then show False using last_le_next [of ks b] assms(2) [of "Suc (last_le ks b)"] \<open>last_le ks b < i\<close> by fastforce
  qed
qed

lemma ext_search_finds:
  assumes key: "\<And>i. i < length ks \<Longrightarrow> key i z = Inr (ks ! i, z)"
    and "sorted_wrt (\<le>) ks" "1 \<le> l" "r < int (length ks)" "l \<le> r + 1" "1 \<le> length ks"
    and "\<And>j. 0 < j \<Longrightarrow> int j < l \<Longrightarrow> ks ! j \<le> b" "r + 1 < int (length ks) \<Longrightarrow> b < ks ! nat (r + 1)"
  shows "ext_search key b l r z = Inr (int (last_le ks b), z)"
  using assms(3-5,7,8)
proof (induction "nat (r - l + 1)" arbitrary: l r rule: less_induct)
  case less
  show ?case
  proof (cases "l \<le> r")
    case True
    define m where "m = l + (r - l) div 2"
    have m: "l \<le> m" "m \<le> r" using True by (simp_all add: m_def)
    have k: "key (nat m) z = Inr (ks ! nat m, z)" using m less.prems by (intro key) simp
    have mono: "ks ! i \<le> ks ! j" if "i \<le> j" "j < length ks" for i j
      using that sorted_wrt_nth_less [OF assms(2), of i j] by (cases "i = j") auto
    show ?thesis
    proof (cases "b < ks ! nat m")
      case below: True
      have "ext_search key b l (m - 1) z = Inr (int (last_le ks b), z)"
        using m less.prems below by (intro less.hyps) auto
      then show ?thesis using True below k
        by (simp add: ext_search.simps [of key b l r] Let_def em_run m_def)
    next
      case False
      have "ks ! j \<le> b" if "0 < j" "int j < m + 1" for j
        using mono [of j "nat m"] that False m less.prems by fastforce
      then have "ext_search key b (m + 1) r z = Inr (int (last_le ks b), z)"
        using m less.prems by (intro less.hyps) auto
      then show ?thesis using True False k
        by (simp add: ext_search.simps [of key b l r] Let_def em_run m_def)
    qed
  next
    case False
    then have l: "l = r + 1" using less.prems by simp
    have "last_le ks b = nat r"
      using less.prems l by (intro last_le_eqI) (auto simp: nat_add_distrib)
    then show ?thesis using False l less.prems by (subst ext_search.simps) (simp add: em_run)
  qed
qed

section \<open>Nodes as lists of entries\<close>

definition node_exts :: "bytes \<Rightarrow> ext4_extent list" where
  "node_exts m = map (\<lambda>i. ext_of m (entry_off i)) [0 ..< unat (eh_entries (eh_of m))]"

definition node_idxs :: "bytes \<Rightarrow> ext4_extent_idx list" where
  "node_idxs m = map (\<lambda>i. idx_of m (entry_off i)) [0 ..< unat (eh_entries (eh_of m))]"

text \<open>The entries of the node lie in its memory.\<close>

definition node_fits :: "bytes \<Rightarrow> bool" where
  "node_fits m \<longleftrightarrow> entry_off (unat (eh_entries (eh_of m))) \<le> length m"

lemma length_node [simp]:
  "length (node_exts m) = unat (eh_entries (eh_of m))" "length (node_idxs m) = unat (eh_entries (eh_of m))"
  by (simp_all add: node_exts_def node_idxs_def)

lemma nth_node [simp]:
  "i < unat (eh_entries (eh_of m)) \<Longrightarrow> node_exts m ! i = ext_of m (entry_off i)"
  "i < unat (eh_entries (eh_of m)) \<Longrightarrow> node_idxs m ! i = idx_of m (entry_off i)"
  by (simp_all add: node_exts_def node_idxs_def)

lemma node_fitsD:
  "node_fits m \<Longrightarrow> 12 \<le> length m"
  "node_fits m \<Longrightarrow> i < unat (eh_entries (eh_of m)) \<Longrightarrow> entry_off i + 12 \<le> length m"
  by (auto simp: node_fits_def entry_off_def)

lemma node_exts_Nil: "node_exts m = [] \<longleftrightarrow> eh_entries (eh_of m) = 0"
  by (simp add: node_exts_def unat_eq_zero)

lemma uint_pos: "0 < unat w \<Longrightarrow> 1 \<le> uint w"
  unfolding unat_eq_nat_uint by linarith

lemma ext_last_int: "ext_last h = int (unat (eh_entries h)) - 1"
  by (simp add: ext_last_def)

lemma binsearch_empty:
  "p_hdr p = Some n \<Longrightarrow> node_fits (node_at n z) \<Longrightarrow> node_exts (node_at n z) = [] \<Longrightarrow>
    ext4_ext_binsearch p b z = Inr (p, z)"
  by (simp add: ext4_ext_binsearch_def em_run node_fitsD node_exts_Nil)

lemma binsearch_finds:
  assumes "p_hdr p = Some n" "node_at n z = m" "node_fits m" "node_exts m \<noteq> []"
    and "sorted_wrt (\<le>) (map ee_block (node_exts m))"
  shows "ext4_ext_binsearch p b z = Inr (p\<lparr>p_ext := Some (n, last_le (map ee_block (node_exts m)) b)\<rparr>, z)"
proof -
  have "Suc 0 \<le> unat (eh_entries (eh_of m))" using assms(4) by (simp add: Suc_le_eq flip: length_greater_0_conv)
  moreover from this have "1 \<le> uint (eh_entries (eh_of m))" by (intro uint_pos) simp
  ultimately have s: "ext_search (\<lambda>i. em_bind (get_ext n i) (\<lambda>x. em_return (ee_block x))) b 1 (ext_last (eh_of m)) z =
      Inr (int (last_le (map ee_block (node_exts m)) b), z)"
    using assms by (intro ext_search_finds) (auto simp: em_run node_fitsD ext_last_int)
  show ?thesis
    using assms s by (simp add: ext4_ext_binsearch_def em_run node_fitsD node_exts_Nil)
qed

lemma binsearch_idx_finds:
  assumes "p_hdr p = Some n" "node_at n z = m" "node_fits m" "node_idxs m \<noteq> []"
    and "sorted_wrt (\<le>) (map ei_block (node_idxs m))"
  shows "ext4_ext_binsearch_idx p b z = Inr (p\<lparr>p_idx := Some (n, last_le (map ei_block (node_idxs m)) b)\<rparr>, z)"
proof -
  have "Suc 0 \<le> unat (eh_entries (eh_of m))" using assms(4) by (simp add: Suc_le_eq flip: length_greater_0_conv)
  moreover from this have "1 \<le> uint (eh_entries (eh_of m))" by (intro uint_pos) simp
  ultimately have s: "ext_search (\<lambda>i. em_bind (get_idx n i) (\<lambda>x. em_return (ei_block x))) b 1 (ext_last (eh_of m)) z =
      Inr (int (last_le (map ei_block (node_idxs m)) b), z)"
    using assms by (intro ext_search_finds) (auto simp: em_run node_fitsD ext_last_int)
  show ?thesis
    using assms s by (simp add: ext4_ext_binsearch_idx_def em_run node_fitsD)
qed

section \<open>Reading a node and releasing a path\<close>

text \<open>The state between two calls, whose content is that of \<open>z\<close>.\<close>

definition same_content :: "inode \<times> fs \<Rightarrow> inode \<times> fs \<Rightarrow> bool" where
  "same_content z z' \<longleftrightarrow> fst z' = fst z \<and> sup (snd z') = sup (snd z) \<and>
     view (bdev (snd z')) = view (bdev (snd z)) \<and> fs_ok (snd z')"

definition refs_of :: "inode \<times> fs \<Rightarrow> u64 \<Rightarrow> int" where
  "refs_of z = refs (bdev (snd z))"

lemma same_content_trans: "same_content z z' \<Longrightarrow> same_content z' z'' \<Longrightarrow> same_content z z''"
  by (simp add: same_content_def)

lemma fs_ok_bdev: "fs_ok fs \<Longrightarrow> cache_inv d \<Longrightarrow> view d = view (bdev fs) \<Longrightarrow> fs_ok (fs\<lparr>bdev := d\<rparr>)"
  using bs.bsize_vw [of "bdev fs" d] by (auto simp: fs_ok_def)

lemma bread_run:
  assumes "fs_ok (snd z)"
  obtains z' where "bread b z = Inr (Some b, z')" "same_content z z'" "refs_of z' = (refs_of z)(b := refs_of z b + 1)"
    "node_at (In_block b) z' = view (bdev (snd z)) b"
proof -
  obtain d where d: "fs_bread b (bdev (snd z)) = Inr (Some b, d)" "cache_inv d" "view d = view (bdev (snd z))"
    "refs d = (refs (bdev (snd z)))(b := refs (bdev (snd z)) b + 1)" "bh_data b d = view (bdev (snd z)) b"
    using assms fs_bread_ok [of "bdev (snd z)" b] by (auto simp: fs_ok_def)
  show ?thesis
    by (rule that [of "(fst z, (snd z)\<lparr>bdev := d\<rparr>)"])
      (use assms d fs_ok_bdev in \<open>auto simp: bread_def em_fs_def same_content_def refs_of_def node_at_def
        node_bytes_def split: prod.split\<close>)
qed

lemma brelse_run:
  assumes "fs_ok (snd z)" "0 < refs_of z b"
  obtains z' where "brelse_em b z = Inr ((), z')" "same_content z z'" "refs_of z' = (refs_of z)(b := refs_of z b - 1)"
proof -
  obtain d where d: "fs_brelse b (bdev (snd z)) = Inr d" "cache_inv d" "view d = view (bdev (snd z))"
    "refs d = (refs (bdev (snd z)))(b := refs (bdev (snd z)) b - 1)"
    using assms fs_brelse_ok [of "bdev (snd z)" b] by (auto simp: fs_ok_def refs_of_def)
  show ?thesis
    by (rule that [of "(fst z, (snd z)\<lparr>bdev := d\<rparr>)"])
      (use assms d fs_ok_bdev in \<open>auto simp: brelse_em_def em_fs_def same_content_def refs_of_def split: prod.split\<close>)
qed

text \<open>What ext4_ext_check() asks of the block of a node at height \<open>d\<close>.\<close>

definition eh_valid :: "nat \<Rightarrow> bytes \<Rightarrow> bool" where
  "eh_valid d m \<longleftrightarrow>
     (let eh = eh_of m
      in eh_magic eh = EXT4_EXT_MAGIC \<and> unat (eh_depth eh) = d \<and> eh_max eh \<noteq> 0 \<and> eh_entries eh \<le> eh_max eh \<and>
         entry_off (unat (eh_max eh)) + 4 \<le> length m)"

lemma eh_valid_fits: "eh_valid d m \<Longrightarrow> node_fits m"
  by (auto simp: eh_valid_def Let_def node_fits_def entry_off_def word_le_nat_alt)

lemma check_run: "eh_valid d (node_at n z) \<Longrightarrow> ext4_ext_check n d z = Inr (0, z)"
  using node_fitsD(1) [OF eh_valid_fits] by (auto simp: ext4_ext_check_def em_run eh_valid_def Let_def)

lemma check_rejects:
  "12 \<le> length (node_at n z) \<Longrightarrow> eh_magic (eh_of (node_at n z)) \<noteq> EXT4_EXT_MAGIC \<or> unat (eh_depth (eh_of (node_at n z))) \<noteq> d \<Longrightarrow>
    ext4_ext_check n d z = Inr (-5, z)"
  by (auto simp: ext4_ext_check_def em_run)

lemma set_verified_run:
  assumes "fs_ok (snd z)" "0 < refs_of z b"
  obtains z' where "set_buffer_verified b z = Inr ((), z')" "same_content z z'" "refs_of z' = refs_of z"
    "\<And>n. node_at n z' = node_at n z"
proof -
  obtain bh where bh: "bd_bh_root (bdev (snd z)) b = Some bh"
    using assms(2) refs_pos_present unfolding refs_of_def by blast
  have inv: "bh_inv (bdev (snd z)) b bh" "cache_inv (bdev (snd z))"
    using assms(1) bh cache_invD unfolding fs_ok_def by blast+
  define d where "d = upd_bh b (set_buffer BH_Verified) (bdev (snd z))"
  have d: "d = (bdev (snd z))\<lparr>bd_bh_root := (bd_bh_root (bdev (snd z)))(b \<mapsto> set_buffer BH_Verified bh)\<rparr>"
    unfolding d_def by (rule upd_bh_Some [of "bdev (snd z)", OF bh])
  have "bh_inv (bdev (snd z)) b (set_buffer BH_Verified bh)" using inv(1) by (simp add: bh_inv_def)
  then have "cache_inv d" unfolding d using inv(2) bh by (intro cache_inv_upd) simp_all
  moreover have "view d = view (bdev (snd z))"
    unfolding d using bh by (intro view_upd_eq) (simp_all add: view_def)
  moreover have "refs d = refs (bdev (snd z))"
    unfolding d refs_upd using bh by (simp add: refs_def fun_eq_iff)
  moreover have "bh_data x d = bh_data x (bdev (snd z))" for x unfolding d using bh by (simp add: bh_data_def)
  ultimately show ?thesis
    by (intro that [of "(fst z, (snd z)\<lparr>bdev := d\<rparr>)"])
      (use assms(1) fs_ok_bdev in \<open>auto simp: set_buffer_verified_def em_run d_def [symmetric] same_content_def
        refs_of_def node_at_def node_bytes_def split: node.split\<close>)
qed

lemma read_block_run:
  assumes "fs_ok (snd z)" "eh_valid d (view (bdev (snd z)) b)"
  obtains z' where "read_extent_tree_block b d z = Inr ((Some b, 0), z')" "same_content z z'"
    "refs_of z' = (refs_of z)(b := refs_of z b + 1)" "node_at (In_block b) z' = view (bdev (snd z)) b"
proof -
  obtain z1 where z1: "bread b z = Inr (Some b, z1)" "same_content z z1" "refs_of z1 = (refs_of z)(b := refs_of z b + 1)"
    "node_at (In_block b) z1 = view (bdev (snd z)) b"
    using bread_run [OF assms(1)] by metis
  have "0 \<le> refs_of z b" using assms(1) refs_nonneg by (simp add: fs_ok_def refs_of_def)
  then have "fs_ok (snd z1)" "0 < refs_of z1 b" using z1(2,3) by (simp_all add: same_content_def)
  then obtain z2 where z2: "set_buffer_verified b z1 = Inr ((), z2)" "same_content z1 z2" "refs_of z2 = refs_of z1"
    "\<And>n. node_at n z2 = node_at n z1"
    using set_verified_run by metis
  show ?thesis
  proof (cases "\<exists>bh. bd_bh_root (bdev (snd z1)) b = Some bh \<and> buffer_flag BH_Verified bh")
    case True
    then have "read_extent_tree_block b d z = Inr ((Some b, 0), z1)"
      using z1 by (auto simp: read_extent_tree_block_def buffer_verified_def em_run)
    then show ?thesis using that [OF _ z1(2-4)] by simp
  next
    case False
    then have "read_extent_tree_block b d z = Inr ((Some b, 0), z2)"
      using z1 z2 assms(2) check_run [of d "In_block b" z1]
      by (auto simp: read_extent_tree_block_def buffer_verified_def em_run split: option.split)
    then show ?thesis using that [of z2] z1 z2 same_content_trans [OF z1(2) z2(2)] by simp
  qed
qed

text \<open>The buffers that the levels \<open>i\<close>, \<dots>, \<open>i + k - 1\<close> of a path hold.\<close>

definition path_bufs :: "ext4_ext_path list \<Rightarrow> u64 list" where
  "path_bufs path = concat (map (\<lambda>p. case p_bh p of None \<Rightarrow> [] | Some b \<Rightarrow> [b]) path)"

definition held_by :: "(u64 \<Rightarrow> int) \<Rightarrow> u64 list \<Rightarrow> u64 \<Rightarrow> int" where
  "held_by r bs b = r b + int (count_list bs b)"

lemma drop_refs_loop_run:
  assumes "fs_ok (snd z)" "i + k \<le> length path" "\<And>b. 0 \<le> r b"
    and "refs_of z = held_by r (path_bufs (take k (drop i path)))"
  shows "\<exists>path' z'. drop_refs_loop path i k z = Inr (path', z') \<and> same_content z z' \<and> refs_of z' = r"
  using assms
proof (induction k arbitrary: i path z)
  case 0
  then show ?case by (auto simp: em_run path_bufs_def held_by_def fun_eq_iff same_content_def)
next
  case (Suc k)
  have d: "take (Suc k) (drop i path) = path ! i # take k (drop (Suc i) path)"
    using Suc.prems(2) by (metis Cons_nth_drop_Suc Suc_leD add_Suc_right less_le_trans less_add_Suc1 take_Suc_Cons)
  show ?case
  proof (cases "p_bh (path ! i)")
    case None
    then have "path_bufs (take (Suc k) (drop i path)) = path_bufs (take k (drop (Suc i) path))"
      by (simp add: d path_bufs_def)
    then show ?thesis using Suc.IH [of z "Suc i" path] Suc.prems None by (auto simp: em_run)
  next
    case (Some b)
    let ?path = "path[i := (path ! i)\<lparr>p_bh := None\<rparr>]"
    have r: "refs_of z = held_by r (b # path_bufs (take k (drop (Suc i) path)))"
      using Suc.prems(4) Some by (simp add: d path_bufs_def)
    then have "0 < refs_of z b" using Suc.prems(3) [of b] by (simp add: held_by_def)
    then obtain z1 where z1: "brelse_em b z = Inr ((), z1)" "same_content z z1"
      "refs_of z1 = (refs_of z)(b := refs_of z b - 1)"
      using brelse_run [OF Suc.prems(1)] by metis
    have r1: "refs_of z1 = held_by r (path_bufs (take k (drop (Suc i) ?path)))"
      using z1(3) r by (auto simp: held_by_def fun_eq_iff)
    have "fs_ok (snd z1)" "Suc i + k \<le> length ?path" using z1(2) Suc.prems(2) by (simp_all add: same_content_def)
    from Suc.IH [OF this Suc.prems(3) r1] obtain path' z' where
      "drop_refs_loop ?path (Suc i) k z1 = Inr (path', z')" "same_content z1 z'" "refs_of z' = r"
      by blast
    then show ?thesis
      using z1 Some Suc.prems(2) same_content_trans [OF z1(2)] by (auto simp: em_run)
  qed
qed

lemma drop_refs_run:
  assumes "fs_ok (snd z)" "Suc (p_depth (path ! 0)) \<le> length path" "\<And>b. 0 \<le> r b"
    and "refs_of z = held_by r (path_bufs (take (Suc (p_depth (path ! 0))) path))"
  shows "\<exists>path' z'. ext4_ext_drop_refs path 0 False z = Inr (path', z') \<and> same_content z z' \<and> refs_of z' = r"
proof -
  have "0 < length path" using assms(2) by linarith
  then have "ext4_ext_drop_refs path 0 False z = drop_refs_loop path 0 (Suc (p_depth (path ! 0))) z"
    by (simp add: ext4_ext_drop_refs_def em_run del: drop_refs_loop.simps)
  then show ?thesis using drop_refs_loop_run [of z 0 "Suc (p_depth (path ! 0))" path r] assms by simp
qed

section \<open>Well-formed trees and their extents\<close>

definition ext_end :: "ext4_extent \<Rightarrow> nat" where
  "ext_end x = unat (ee_block x) + nat (ext4_ext_get_actual_len x)"

definition ext_covers :: "u32 \<Rightarrow> ext4_extent \<Rightarrow> bool" where
  "ext_covers b x \<longleftrightarrow> unat (ee_block x) \<le> unat b \<and> unat b < ext_end x"

text \<open>Extents in ascending order, without overlap, in the range from \<open>lo\<close> to \<open>hi\<close>.\<close>

fun leaf_in :: "ext4_extent list \<Rightarrow> nat \<Rightarrow> nat \<Rightarrow> bool" where
  "leaf_in [] lo hi \<longleftrightarrow> lo \<le> hi"
| "leaf_in (x # xs) lo hi \<longleftrightarrow> lo \<le> unat (ee_block x) \<and> unat (ee_block x) < ext_end x \<and> leaf_in xs (ext_end x) hi"

text \<open>
  A tree of height \<open>d\<close> over the blocks \<open>v\<close>, with the root \<open>m\<close>, that maps blocks from \<open>lo\<close> to \<open>hi\<close>: the
  subtree of each index entry lies between the key of this entry and the next one.
\<close>

definition idx_bounds :: "bytes \<Rightarrow> nat \<Rightarrow> nat list" where
  "idx_bounds m hi = map (\<lambda>x. unat (ei_block x)) (node_idxs m) @ [hi]"

definition idx_child :: "(u64 \<Rightarrow> bytes) \<Rightarrow> bytes \<Rightarrow> nat \<Rightarrow> bytes" where
  "idx_child v m i = v (ext4_idx_pblock (node_idxs m ! i))"

fun tree_wf :: "(u64 \<Rightarrow> bytes) \<Rightarrow> nat \<Rightarrow> bytes \<Rightarrow> nat \<Rightarrow> nat \<Rightarrow> bool" where
  "tree_wf v 0 m lo hi \<longleftrightarrow> node_fits m \<and> leaf_in (node_exts m) lo hi"
| "tree_wf v (Suc d) m lo hi \<longleftrightarrow>
     node_fits m \<and> node_idxs m \<noteq> [] \<and> lo \<le> hd (idx_bounds m hi) \<and> sorted_wrt (<) (idx_bounds m hi) \<and>
     (\<forall>i \<in> {..< length (node_idxs m)}. eh_valid d (idx_child v m i) \<and>
        tree_wf v d (idx_child v m i) (idx_bounds m hi ! i) (idx_bounds m hi ! Suc i))"

fun tree_exts :: "(u64 \<Rightarrow> bytes) \<Rightarrow> nat \<Rightarrow> bytes \<Rightarrow> ext4_extent list" where
  "tree_exts v 0 m = node_exts m"
| "tree_exts v (Suc d) m = concat (map (\<lambda>x. tree_exts v d (v (ext4_idx_pblock x))) (node_idxs m))"

lemma leaf_in_le: "leaf_in xs lo hi \<Longrightarrow> lo \<le> hi"
  by (induction xs arbitrary: lo) fastforce+

lemma leaf_in_bounds:
  "leaf_in xs lo hi \<Longrightarrow> x \<in> set xs \<Longrightarrow> lo \<le> unat (ee_block x) \<and> unat (ee_block x) < ext_end x \<and> ext_end x \<le> hi"
proof (induction xs arbitrary: lo)
  case (Cons y ys)
  have "ext_end y \<le> hi" using Cons.prems(1) leaf_in_le [of ys "ext_end y" hi] by simp
  then show ?case using Cons.IH [of "ext_end y"] Cons.prems by (cases "x = y") auto
qed simp

lemma leaf_in_sorted: "leaf_in xs lo hi \<Longrightarrow> sorted_wrt (\<lambda>x y. ext_end x \<le> unat (ee_block y)) xs"
proof (induction xs arbitrary: lo)
  case (Cons y ys)
  then show ?case using leaf_in_bounds [of ys "ext_end y" hi] by auto
qed simp

lemma tree_wf_fits: "tree_wf v d m lo hi \<Longrightarrow> node_fits m"
  by (cases d) auto

lemma tree_wf_bounds:
  "tree_wf v d m lo hi \<Longrightarrow> x \<in> set (tree_exts v d m) \<Longrightarrow>
    lo \<le> unat (ee_block x) \<and> unat (ee_block x) < ext_end x \<and> ext_end x \<le> hi"
proof (induction v d m lo hi rule: tree_wf.induct)
  case (1 v m lo hi)
  then show ?case using leaf_in_bounds [of "node_exts m" lo hi x] by simp
next
  case (2 v d m lo hi)
  let ?ks = "idx_bounds m hi"
  have wf: "lo \<le> hd ?ks" "sorted_wrt (<) ?ks" using 2(2) by simp_all
  obtain i where i: "i < length (node_idxs m)" "x \<in> set (tree_exts v d (idx_child v m i))"
    using 2(3) by (auto simp: in_set_conv_nth [of _ "node_idxs m"] idx_child_def simp del: length_node nth_node)
  have "tree_wf v d (idx_child v m i) (?ks ! i) (?ks ! Suc i)" using 2(2) i(1) by simp
  from 2(1) [OF _ this i(2)] i(1)
  have x: "?ks ! i \<le> unat (ee_block x)" "unat (ee_block x) < ext_end x" "ext_end x \<le> ?ks ! Suc i" by auto
  have len: "length ?ks = Suc (length (node_idxs m))" "last ?ks = hi" by (simp_all add: idx_bounds_def)
  have ne: "?ks \<noteq> []" using len(1) by auto
  have "hd ?ks \<le> ?ks ! i"
    using sorted_wrt_nth_less [OF wf(2), of 0 i] i(1) len ne by (cases "i = 0") (auto simp: hd_conv_nth)
  moreover have "?ks ! Suc i \<le> hi"
    using sorted_wrt_nth_less [OF wf(2), of "Suc i" "length (node_idxs m)"] i(1) len ne
    by (cases "Suc i = length (node_idxs m)") (auto simp: last_conv_nth)
  ultimately show ?case using x wf(1) by simp
qed

lemma find_only:
  "j < length xs \<Longrightarrow> (\<And>i. i < length xs \<Longrightarrow> i \<noteq> j \<Longrightarrow> \<not> P (xs ! i)) \<Longrightarrow>
    find P xs = (if P (xs ! j) then Some (xs ! j) else None)"
proof (induction xs arbitrary: j)
  case (Cons x xs)
  show ?case
  proof (cases j)
    case 0
    have "find P xs = None" using Cons.prems(2) [of "Suc _"] 0
      by (auto simp: find_None_iff in_set_conv_nth)
    with 0 show ?thesis by simp
  next
    case (Suc k)
    then show ?thesis using Cons.IH [of k] Cons.prems(1) Cons.prems(2) [of 0] Cons.prems(2) [of "Suc _"] by auto
  qed
qed simp

lemma find_append: "find P (xs @ ys) = (case find P xs of Some x \<Rightarrow> Some x | None \<Rightarrow> find P ys)"
  by (induction xs) auto

lemma find_concat_only:
  "j < length xss \<Longrightarrow> (\<And>i x. i < length xss \<Longrightarrow> i \<noteq> j \<Longrightarrow> x \<in> set (xss ! i) \<Longrightarrow> \<not> P x) \<Longrightarrow>
    find P (concat xss) = find P (xss ! j)"
proof (induction xss arbitrary: j)
  case (Cons xs xss)
  show ?case
  proof (cases j)
    case 0
    have "find P (concat xss) = None" using Cons.prems(2) [of "Suc _"] 0
      by (fastforce simp: find_None_iff in_set_conv_nth [of _ xss])
    with 0 show ?thesis by (simp add: find_append split: option.split)
  next
    case (Suc k)
    have "find P xs = None" using Cons.prems(2) [of 0] Suc by (auto simp: find_None_iff)
    with Suc show ?thesis using Cons.IH [of k] Cons.prems(1) Cons.prems(2) [of "Suc _"] by (fastforce simp: find_append)
  qed
qed simp

lemma leaf_find:
  fixes b :: u32
  assumes "leaf_in xs lo hi" "xs \<noteq> []"
  defines "j \<equiv> last_le (map ee_block xs) b"
  shows "find (ext_covers b) xs = (if ext_covers b (xs ! j) then Some (xs ! j) else None)"
proof (rule find_only)
  show j: "j < length xs" using assms(2) last_le_bound [of "map ee_block xs" b] by (simp add: j_def)
  fix i assume i: "i < length xs" "i \<noteq> j"
  have sorted: "ext_end (xs ! p) \<le> unat (ee_block (xs ! q))" if "p < q" "q < length xs" for p q
    using sorted_wrt_nth_less [OF leaf_in_sorted [OF assms(1)] that(1)] that by simp
  show "\<not> ext_covers b (xs ! i)"
  proof (cases "i < j")
    case True
    then have "ee_block (xs ! j) \<le> b" using last_le_below [of j "map ee_block xs" b] j by (simp add: j_def)
    then show ?thesis using sorted [OF True j] by (simp add: ext_covers_def word_le_nat_alt)
  next
    case False
    then have "Suc j \<le> i" using i by simp
    have "b < ee_block (xs ! Suc j)"
      using last_le_next [of "map ee_block xs" b] \<open>Suc j \<le> i\<close> i by (simp add: j_def)
    moreover have "unat (ee_block (xs ! Suc j)) \<le> unat (ee_block (xs ! i))"
      using sorted [of "Suc j" i] \<open>Suc j \<le> i\<close> i leaf_in_bounds [OF assms(1), of "xs ! Suc j"]
      by (cases "Suc j = i") auto
    ultimately show ?thesis by (simp add: ext_covers_def word_less_nat_alt)
  qed
qed

lemma leaf_keys_sorted: "leaf_in xs lo hi \<Longrightarrow> sorted_wrt (\<le>) (map ee_block xs)"
  using leaf_in_sorted [of xs lo hi] leaf_in_bounds [of xs lo hi]
  by (auto simp: sorted_wrt_map word_le_nat_alt elim!: sorted_wrt_mono_rel [rotated] dest!: less_imp_le_nat
      intro: le_trans)

lemma idx_keys_sorted: "sorted_wrt (<) (idx_bounds m hi) \<Longrightarrow> sorted_wrt (\<le>) (map ei_block (node_idxs m))"
  by (auto simp: idx_bounds_def sorted_wrt_append sorted_wrt_map word_le_nat_alt elim!: sorted_wrt_mono_rel [rotated])

text \<open>The subtree that the search descends to holds every extent that covers the block.\<close>

lemma idx_find:
  fixes b :: u32
  assumes wf: "tree_wf v (Suc d) m lo hi"
  defines "j \<equiv> last_le (map ei_block (node_idxs m)) b"
  shows "j < length (node_idxs m)" "eh_valid d (idx_child v m j)"
    "\<exists>lo' hi'. tree_wf v d (idx_child v m j) lo' hi' \<and> hi' \<le> hi"
    "find (ext_covers b) (tree_exts v (Suc d) m) = find (ext_covers b) (tree_exts v d (idx_child v m j))"
proof -
  let ?ks = "idx_bounds m hi" and ?n = "length (node_idxs m)"
  show j: "j < ?n"
    using wf last_le_bound [of "map ei_block (node_idxs m)" b] by (simp add: j_def del: length_node)
  then have c: "eh_valid d (idx_child v m j)" "tree_wf v d (idx_child v m j) (?ks ! j) (?ks ! Suc j)"
    using wf by auto
  then show "eh_valid d (idx_child v m j)" by simp
  have key: "?ks ! i = unat (map ei_block (node_idxs m) ! i)" if "i < ?n" for i
    using that by (simp add: idx_bounds_def nth_append)
  have le: "?ks ! p \<le> ?ks ! q" if "p \<le> q" "q \<le> ?n" for p q
    using that wf sorted_wrt_nth_less [of "(<)" ?ks p q] by (cases "p = q") (auto simp: idx_bounds_def)
  have "?ks ! Suc j \<le> ?ks ! ?n" using le [of "Suc j" ?n] j by simp
  then have "?ks ! Suc j \<le> hi" by (simp add: idx_bounds_def nth_append)
  then show "\<exists>lo' hi'. tree_wf v d (idx_child v m j) lo' hi' \<and> hi' \<le> hi" using c(2) by blast
  have "find (ext_covers b) (concat (map (\<lambda>i. tree_exts v d (idx_child v m i)) [0 ..< ?n])) =
      find (ext_covers b) (map (\<lambda>i. tree_exts v d (idx_child v m i)) [0 ..< ?n] ! j)"
  proof (rule find_concat_only)
    fix i x
    assume "i < length (map (\<lambda>i. tree_exts v d (idx_child v m i)) [0 ..< ?n])" "i \<noteq> j"
      and "x \<in> set (map (\<lambda>i. tree_exts v d (idx_child v m i)) [0 ..< ?n] ! i)"
    then have i: "i < ?n" "i \<noteq> j" "x \<in> set (tree_exts v d (idx_child v m i))" by simp_all
    have "tree_wf v d (idx_child v m i) (?ks ! i) (?ks ! Suc i)" using wf i(1) by simp
    from tree_wf_bounds [OF this i(3)] have x: "?ks ! i \<le> unat (ee_block x)" "ext_end x \<le> ?ks ! Suc i" by simp_all
    show "\<not> ext_covers b x"
    proof (cases "i < j")
      case True
      then have "map ei_block (node_idxs m) ! j \<le> b" by (intro last_le_below [of j, folded j_def]) (simp_all add: j_def)
      then have "?ks ! j \<le> unat b" using key [OF j] by (simp add: word_le_nat_alt)
      then show ?thesis using x(2) le [of "Suc i" j] True j by (simp add: ext_covers_def)
    next
      case False
      then have "b < map ei_block (node_idxs m) ! Suc j"
        using last_le_next [of "map ei_block (node_idxs m)" b] i by (simp add: j_def)
      then have "unat b < ?ks ! Suc j" using key [of "Suc j"] False i by (simp add: word_less_nat_alt)
      then show ?thesis using x(1) le [of "Suc j" i] False i by (simp add: ext_covers_def)
    qed
  qed (use j in simp)
  moreover have "map (\<lambda>x. tree_exts v d (v (ext4_idx_pblock x))) (node_idxs m) =
      map (\<lambda>i. tree_exts v d (idx_child v m i)) [0 ..< ?n]"
    by (rule nth_equalityI) (simp_all add: idx_child_def)
  ultimately show "find (ext_covers b) (tree_exts v (Suc d) m) = find (ext_covers b) (tree_exts v d (idx_child v m j))"
    using j by simp
qed

section \<open>The walk to the leaf\<close>

abbreviation blocks_of :: "inode \<times> fs \<Rightarrow> u64 \<Rightarrow> bytes" where
  "blocks_of z \<equiv> view (bdev (snd z))"

lemma find_walk_run:
  assumes "fs_ok (snd z)" "ppos + d < length path" "ppos + d = depth"
    and "p_hdr (path ! ppos) = Some n" "node_at n z = m" "tree_wf (blocks_of z) d m lo hi"
  shows "\<exists>path' z' n' m' lo' hi'. find_walk b depth d ppos path z = Inr ((0, depth, path'), z') \<and>
    same_content z z' \<and> length path' = length path \<and> p_hdr (path' ! depth) = Some n' \<and> node_at n' z' = m' \<and>
    tree_wf (blocks_of z) 0 m' lo' hi' \<and> hi' \<le> hi \<and>
    find (ext_covers b) (tree_exts (blocks_of z) d m) = find (ext_covers b) (node_exts m') \<and>
    refs_of z' = held_by (refs_of z) (path_bufs (take d (drop (Suc ppos) path'))) \<and>
    take ppos path' = take ppos path \<and> p_bh (path' ! ppos) = p_bh (path ! ppos) \<and>
    (0 < d \<longrightarrow> p_depth (path' ! ppos) = d)"
  using assms
proof (induction d arbitrary: ppos path n m lo hi z)
  case 0
  then show ?case by (auto simp: em_run same_content_def path_bufs_def held_by_def)
next
  case (Suc d)
  define j where "j = last_le (map ei_block (node_idxs m)) b"
  define blk where "blk = ext4_idx_pblock (node_idxs m ! j)"
  define p where "p = (path ! ppos)\<lparr>p_idx := Some (n, j), p_block := blk, p_depth := Suc d, p_ext := None\<rparr>"
  define q where "q = (path ! Suc ppos)\<lparr>p_bh := Some blk, p_hdr := Some (In_block blk)\<rparr>"
  have fits: "node_fits m" "node_idxs m \<noteq> []" "sorted_wrt (\<le>) (map ei_block (node_idxs m))"
    using Suc.prems(6) idx_keys_sorted by auto
  note child = idx_find [OF Suc.prems(6), of b, folded j_def]
  have bs: "ext4_ext_binsearch_idx (path ! ppos) b z = Inr ((path ! ppos)\<lparr>p_idx := Some (n, j)\<rparr>, z)"
    using binsearch_idx_finds [OF Suc.prems(4,5) fits] by (simp add: j_def)
  have ix: "get_idx n j z = Inr (node_idxs m ! j, z)"
    using child(1) node_fitsD(2) [OF fits(1)] Suc.prems(5) by (simp add: em_run)
  obtain z1 where z1: "read_extent_tree_block blk d z = Inr ((Some blk, 0), z1)" "same_content z z1"
    "refs_of z1 = (refs_of z)(blk := refs_of z blk + 1)" "node_at (In_block blk) z1 = blocks_of z blk"
    using read_block_run [OF Suc.prems(1)] child(2) unfolding idx_child_def blk_def by metis
  have eq: "find_walk b depth (Suc d) ppos path z = find_walk b depth d (Suc ppos) (path[ppos := p, Suc ppos := q]) z1"
    using bs ix z1(1) Suc.prems(2,3)
    by (simp add: em_run deref_idx_def Let_def p_def q_def blk_def)
  have v: "blocks_of z1 = blocks_of z" "fs_ok (snd z1)" using z1(2) by (simp_all add: same_content_def)
  obtain lo' hi0 where wf': "tree_wf (blocks_of z1) d (blocks_of z blk) lo' hi0" "hi0 \<le> hi"
    using child(3) v by (auto simp: idx_child_def blk_def)
  let ?path = "path[ppos := p, Suc ppos := q]"
  have len: "Suc ppos + d < length ?path" "Suc ppos + d = depth" "p_hdr (?path ! Suc ppos) = Some (In_block blk)"
    using Suc.prems(2,3) by (simp_all add: q_def)
  from Suc.IH [OF v(2) len z1(4) wf'(1)] obtain path' z' n' m' lo' hi' where
    r: "find_walk b depth d (Suc ppos) ?path z1 = Inr ((0, depth, path'), z')" "same_content z1 z'"
      "length path' = length path" "p_hdr (path' ! depth) = Some n'" "node_at n' z' = m'"
      "tree_wf (blocks_of z) 0 m' lo' hi' \<and> hi' \<le> hi0"
      "find (ext_covers b) (tree_exts (blocks_of z) d (blocks_of z blk)) = find (ext_covers b) (node_exts m')"
      "refs_of z' = held_by (refs_of z1) (path_bufs (take d (drop (Suc (Suc ppos)) path')))"
      "take (Suc ppos) path' = take (Suc ppos) ?path" "p_bh (path' ! Suc ppos) = Some blk"
    using v Suc.prems(2) by (auto simp: q_def)
  have leaf: "tree_wf (blocks_of z) 0 m' lo' hi'" "hi' \<le> hi" using r(6) wf'(2) by simp_all
  have at: "path' ! ppos = p"
    using arg_cong [OF r(9), of "\<lambda>xs. xs ! ppos"] Suc.prems(2) by simp
  have "take ppos path' = take ppos path"
    using arg_cong [OF r(9), of "take ppos"] by (simp add: min_def)
  moreover have "drop (Suc ppos) path' = path' ! Suc ppos # drop (Suc (Suc ppos)) path'"
    using r(3) Suc.prems(2) by (simp add: Cons_nth_drop_Suc)
  then have "refs_of z' = held_by (refs_of z) (path_bufs (take (Suc d) (drop (Suc ppos) path')))"
    using r(8,10) z1(3) by (auto simp: path_bufs_def held_by_def fun_eq_iff)
  moreover have "find (ext_covers b) (tree_exts (blocks_of z) (Suc d) m) = find (ext_covers b) (node_exts m')"
    unfolding child(4) using r(7) by (simp add: idx_child_def blk_def)
  ultimately show ?case
    using eq r(1,3-5) leaf same_content_trans [OF z1(2) r(2)] at
    by (intro exI [of _ path'] exI [of _ z'] exI [of _ n'] exI [of _ m'] exI [of _ lo'] exI [of _ hi'])
      (simp add: p_def del: find_walk.simps tree_wf.simps tree_exts.simps)
qed

lemma path_bufs_upd:
  assumes "p_bh q = p_bh (path ! i)"
  shows "path_bufs (take k (path[i := q])) = path_bufs (take k path)"
proof -
  have "map p_bh (path[i := q]) = map p_bh path"
    using assms
    by (cases "i < length path") (auto intro!: nth_equalityI simp: nth_list_update list_update_beyond)
  then have "map p_bh (take k (path[i := q])) = map p_bh (take k path)" by (simp add: take_map [symmetric])
  then show ?thesis
    unfolding path_bufs_def map_map [of "\<lambda>p. case p of None \<Rightarrow> [] | Some b \<Rightarrow> [b]" p_bh, unfolded comp_def, symmetric]
    by simp
qed

text \<open>What the end of the path says about the block.\<close>

definition leaf_result :: "ext4_ext_path \<Rightarrow> inode \<times> fs \<Rightarrow> ext4_extent option" where
  "leaf_result p z = (case p_ext p of None \<Rightarrow> None | Some (n, j) \<Rightarrow> Some (ext_of (node_at n z) (entry_off j)))"

lemma find_extent_run:
  assumes ok: "fs_ok (snd z)" and wf: "tree_wf (blocks_of z) d (node_at In_inode z) lo hi"
    and depth: "unat (eh_depth (eh_of (node_at In_inode z))) = d"
  shows "\<exists>path z'. ext4_find_extent b None z = Inr ((0, Some path), z') \<and> same_content z z' \<and> d < length path \<and>
    p_depth (path ! 0) = d \<and> refs_of z' = held_by (refs_of z) (path_bufs (take (Suc d) path)) \<and>
    (\<forall>n j. p_ext (path ! d) = Some (n, j) \<longrightarrow> entry_off j + 12 \<le> length (node_at n z')) \<and>
    (\<forall>x. leaf_result (path ! d) z' = Some x \<longrightarrow> unat (ee_block x) < ext_end x \<and> ext_end x \<le> hi) \<and>
    find (ext_covers b) (tree_exts (blocks_of z) d (node_at In_inode z)) =
      (case leaf_result (path ! d) z' of Some x \<Rightarrow> if ext_covers b x then Some x else None | None \<Rightarrow> None)"
proof -
  let ?path = "(replicate (d + 2) zero_path)[0 := zero_path\<lparr>p_maxdepth := d + 1, p_hdr := Some In_inode, p_bh := None\<rparr>]"
  have d: "ext_depth z = Inr (d, z)"
    using depth node_fitsD(1) [OF tree_wf_fits [OF wf]] by (simp add: ext_depth_def em_run)
  obtain path z' n m lo' hi' where r: "find_walk b d d 0 ?path z = Inr ((0, d, path), z')" "same_content z z'"
    "length path = d + 2" "p_hdr (path ! d) = Some n" "node_at n z' = m" "tree_wf (blocks_of z) 0 m lo' hi' \<and> hi' \<le> hi"
    "find (ext_covers b) (tree_exts (blocks_of z) d (node_at In_inode z)) = find (ext_covers b) (node_exts m)"
    "refs_of z' = held_by (refs_of z) (path_bufs (take d (drop 1 path)))" "p_bh (path ! 0) = None"
    "0 < d \<longrightarrow> p_depth (path ! 0) = d"
    using find_walk_run [OF ok _ _ _ refl wf, of 0 ?path d b] by auto
  have leaf: "node_fits m" "leaf_in (node_exts m) lo' hi'" using r(6) by simp_all
  define p where "p = (path ! d)\<lparr>p_depth := 0, p_ext := None, p_idx := None\<rparr>"
  define j where "j = last_le (map ee_block (node_exts m)) b"
  have p: "p_hdr p = Some n" "p_bh p = p_bh (path ! d)" "p_depth p = 0" "p_ext p = None" using r(4) by (simp_all add: p_def)
  have bufs: "path_bufs (take (Suc d) path) = path_bufs (take d (drop 1 path))"
    using r(3,9) by (cases path) (simp_all add: path_bufs_def)
  have start: "ext4_find_extent b None z =
      em_bind (ext4_ext_binsearch p b) (\<lambda>p.
        em_bind (case p_ext p of None \<Rightarrow> em_return p
           | Some x \<Rightarrow> em_bind (deref_ext (Some x)) (\<lambda>ex. em_return (p\<lparr>p_block := ext4_ext_pblock ex\<rparr>)))
          (\<lambda>p. em_return (0, Some (path[d := p])))) z'"
    using d r(1,3) by (simp add: ext4_find_extent_def em_run Let_def p_def)
  show ?thesis
  proof (cases "node_exts m = []")
    case True
    have "ext4_find_extent b None z = Inr ((0, Some (path[d := p])), z')"
      using start binsearch_empty [OF p(1), of z' b] leaf(1) r(5) True p(4) by (simp add: em_run)
    then show ?thesis
      using r(2,3,7,8,10) p True path_bufs_upd [OF p(2)] bufs
      by (intro exI [of _ "path[d := p]"] exI [of _ z']) (cases "d = 0"; simp add: leaf_result_def)
  next
    case False
    have jlt: "j < unat (eh_entries (eh_of m))"
      using last_le_bound [of "map ee_block (node_exts m)" b] False by (simp add: j_def)
    have off: "entry_off j + 12 \<le> length m" using node_fitsD(2) [OF leaf(1) jlt] .
    define q where "q = p\<lparr>p_ext := Some (n, j), p_block := ext4_ext_pblock (ext_of m (entry_off j))\<rparr>"
    have q: "p_bh q = p_bh (path ! d)" "p_depth q = 0" "p_ext q = Some (n, j)" by (simp_all add: q_def p)
    have "ext4_find_extent b None z = Inr ((0, Some (path[d := q])), z')"
      using start binsearch_finds [OF p(1) r(5) leaf(1) False leaf_keys_sorted [OF leaf(2)], of b] off r(5)
      by (simp add: em_run deref_ext_def q_def j_def)
    moreover have "find (ext_covers b) (node_exts m) =
        (if ext_covers b (ext_of m (entry_off j)) then Some (ext_of m (entry_off j)) else None)"
      using leaf_find [OF leaf(2) False, of b] jlt by (simp add: j_def)
    moreover have "ext_of m (entry_off j) \<in> set (node_exts m)" using jlt by (simp add: node_exts_def)
    from leaf_in_bounds [OF leaf(2) this] have "unat (ee_block (ext_of m (entry_off j))) < ext_end (ext_of m (entry_off j))"
      "ext_end (ext_of m (entry_off j)) \<le> hi" using r(6) by auto
    ultimately show ?thesis
      using r(2,3,5,7,8,10) q off path_bufs_upd [OF q(1)] bufs
      by (intro exI [of _ "path[d := q]"] exI [of _ z']) (cases "d = 0"; simp add: leaf_result_def)
  qed
qed

section \<open>The mapping of a file block\<close>

lemma in_range_covers:
  assumes b: "unat (ee_block x) < ext_end x" "ext_end x \<le> 2 ^ 32"
  shows "in_range (ucast b) (ee_block x) (of_int (ext4_ext_get_actual_len x)) \<longleftrightarrow> ext_covers b x"
proof -
  let ?n = "nat (ext4_ext_get_actual_len x)"
  have n: "0 < ?n" "of_int (ext4_ext_get_actual_len x) = (of_nat ?n :: u32)"
    using b(1) by (simp_all add: ext_end_def)
  have bound: "unat (ee_block x) + (?n - 1) < 2 ^ 32" using b n(1) by (simp add: ext_end_def)
  then have "unat (of_nat (?n - 1) :: u32) = ?n - 1" by (simp add: unat_of_nat)
  then have "unat (ee_block x + of_nat (?n - 1)) = unat (ee_block x) + (?n - 1)"
    using bound unat_add_lem [of "ee_block x" "of_nat (?n - 1)"] by simp
  moreover have "ee_block x + of_nat ?n - 1 = ee_block x + of_nat (?n - 1)" using n(1) by (simp add: of_nat_diff)
  ultimately have "unat (ee_block x + of_nat ?n - 1) = unat (ee_block x) + (?n - 1)" by (simp only:)
  then have "in_range (ucast b) (ee_block x) (of_int (ext4_ext_get_actual_len x)) \<longleftrightarrow>
      unat (ee_block x) \<le> unat b \<and> unat b \<le> unat (ee_block x) + (?n - 1)"
    unfolding in_range_def n(2) word_le_nat_alt by (simp only: unat_ucast_up)
  then show ?thesis using n(1) unfolding ext_covers_def ext_end_def by linarith
qed

lemma actual_len_le: "ext4_ext_get_actual_len x \<le> 32768"
  using unat_less [of "ee_len x"] uint_lt2p [of "ee_len x"] by (simp add: ext4_ext_get_actual_len_def)

text \<open>The arithmetic on the extent that covers the block.\<close>

lemma covered_block:
  assumes "ext_covers b x" "ext_end x \<le> 2 ^ 32"
  shows "ucast b - ucast (ee_block x) = (ucast (b - ee_block x) :: u64)"
    "ucast (of_int (ext4_ext_get_actual_len x) :: u32) - (ucast b - ucast (ee_block x) :: u64) = of_nat (ext_end x - unat b)"
    "0 < ext_end x - unat b" "ext_end x - unat b \<le> 32768"
proof -
  have c: "unat (ee_block x) \<le> unat b" "unat b < ext_end x" using assms(1) by (simp_all add: ext_covers_def)
  define k where "k = unat b - unat (ee_block x)"
  define n where "n = nat (ext4_ext_get_actual_len x)"
  have "0 < nat (ext4_ext_get_actual_len x)" using c by (simp add: ext_end_def)
  then have n: "0 < n" "n \<le> 32768" "of_int (ext4_ext_get_actual_len x) = (of_nat n :: u32)" "ext_end x = unat (ee_block x) + n"
    using actual_len_le [of x] by (simp_all add: n_def ext_end_def)
  have k: "k < n" "ext_end x - unat b = n - k" using c n(4) by (simp_all add: k_def)
  have kb: "unat (b - ee_block x) = k" using c(1) by (simp add: k_def unat_sub word_le_nat_alt)
  have b64: "ucast b = (of_nat (unat b) :: u64)" "ucast (ee_block x) = (of_nat (unat (ee_block x)) :: u64)" by simp_all
  have sub: "ucast b - ucast (ee_block x) = (of_nat k :: u64)"
    unfolding b64 using c(1) by (simp only: k_def of_nat_diff)
  moreover have "ucast (b - ee_block x) = (of_nat k :: u64)" using kb k(1) n(2) by (intro word_unat_eq_iff [THEN iffD2]) (simp add: unat_of_nat unat_ucast_up)
  ultimately show "ucast b - ucast (ee_block x) = (ucast (b - ee_block x) :: u64)" by simp
  have "ucast (of_nat n :: u32) = (of_nat n :: u64)"
    using n(2) by (intro word_unat_eq_iff [THEN iffD2]) (simp add: unat_of_nat unat_ucast_up)
  then show "ucast (of_int (ext4_ext_get_actual_len x) :: u32) - (ucast b - ucast (ee_block x) :: u64) = of_nat (ext_end x - unat b)"
    unfolding sub n(3) k(2) using k(1) by (simp add: of_nat_diff)
  show "0 < ext_end x - unat b" "ext_end x - unat b \<le> 32768" using k n by simp_all
qed

lemma get_blocks_out2_run:
  assumes "fs_ok (snd z)" "Suc (p_depth (path ! 0)) \<le> length path" "\<And>b. 0 \<le> r b"
    and "refs_of z = held_by r (path_bufs (take (Suc (p_depth (path ! 0))) path))"
  obtains z' where "same_content z z'" "refs_of z' = r"
    "\<And>a bh. get_blocks_out2 (Some path) 0 a bh z = Inr ((sint (ucast a :: u32), bh), z')"
  using drop_refs_run [OF assms] by (auto simp: get_blocks_out2_def em_run)

lemma ucast_32_64_32: "ucast (ucast (b :: u32) :: u64) = b"
  by (rule bit_word_eqI) (simp add: bit_simps)

lemma small_length:
  assumes "k \<le> 32768"
  shows "\<not> 32768 < (of_nat k :: u64)" "sint (ucast (of_nat k :: u64) :: u32) = int k"
proof -
  show "\<not> 32768 < (of_nat k :: u64)" using assms by (simp add: word_less_nat_alt unat_of_nat)
  have "ucast (of_nat k :: u64) = (of_nat k :: u32)"
    using assms by (intro word_unat_eq_iff [THEN iffD2]) (simp add: unsigned_ucast_eq unat_of_nat take_bit_eq_mod)
  moreover have "uint (of_nat k :: u32) = int k" using assms by (simp add: uint_nat unat_of_nat)
  ultimately show "sint (ucast (of_nat k :: u64) :: u32) = int k"
    using assms by (simp add: sint_uint signed_take_bit_int_eq_self)
qed

text \<open>The lookup of a block, up to the release of the path.\<close>

lemma find_extent_released:
  assumes ok: "fs_ok (snd z)" and wf: "tree_wf (blocks_of z) d (node_at In_inode z) 0 (2 ^ 32)"
    and depth: "unat (eh_depth (eh_of (node_at In_inode z))) = d"
  obtains path z1 ex z2 where "ext4_find_extent b None z = Inr ((0, Some path), z1)" "ext_depth z1 = Inr (d, z1)" "d < length path"
    "(case p_ext (path ! d) of None \<Rightarrow> em_return None
      | Some x \<Rightarrow> em_bind (deref_ext (Some x)) (\<lambda>ex. em_return (Some ex))) z1 = Inr (ex, z1)"
    "\<forall>x. ex = Some x \<longrightarrow> unat (ee_block x) < ext_end x \<and> ext_end x \<le> 2 ^ 32"
    "find (ext_covers b) (tree_exts (blocks_of z) d (node_at In_inode z)) =
      (case ex of Some x \<Rightarrow> if ext_covers b x then Some x else None | None \<Rightarrow> None)"
    "\<forall>a bh. get_blocks_out2 (Some path) 0 a bh z1 = Inr ((sint (ucast a :: u32), bh), z2)" "same_content z z2" "refs_of z2 = refs_of z"
proof -
  obtain path z1 where p: "ext4_find_extent b None z = Inr ((0, Some path), z1)" "same_content z z1" "d < length path"
    "p_depth (path ! 0) = d" "refs_of z1 = held_by (refs_of z) (path_bufs (take (Suc d) path))"
    "\<And>n j. p_ext (path ! d) = Some (n, j) \<Longrightarrow> entry_off j + 12 \<le> length (node_at n z1)"
    "\<And>x. leaf_result (path ! d) z1 = Some x \<Longrightarrow> unat (ee_block x) < ext_end x \<and> ext_end x \<le> 2 ^ 32"
    "find (ext_covers b) (tree_exts (blocks_of z) d (node_at In_inode z)) =
      (case leaf_result (path ! d) z1 of Some x \<Rightarrow> if ext_covers b x then Some x else None | None \<Rightarrow> None)"
    using find_extent_run [OF ok wf depth] by blast
  have nn: "0 \<le> refs_of z b" for b using ok refs_nonneg by (simp add: fs_ok_def refs_of_def)
  have ok1: "fs_ok (snd z1)" using p(2) by (simp add: same_content_def)
  have root: "node_at In_inode z1 = node_at In_inode z"
    using p(2) by (simp add: same_content_def node_at_def node_bytes_def)
  have dz: "ext_depth z1 = Inr (d, z1)"
    using depth root node_fitsD(1) [OF tree_wf_fits [OF wf]] by (simp add: ext_depth_def em_run)
  have ex: "(case p_ext (path ! d) of None \<Rightarrow> em_return None
      | Some x \<Rightarrow> em_bind (deref_ext (Some x)) (\<lambda>ex. em_return (Some ex))) z1 = Inr (leaf_result (path ! d) z1, z1)"
    using p(6) by (auto simp: em_run deref_ext_def leaf_result_def split: option.split prod.split)
  obtain z2 where z2: "same_content z1 z2" "refs_of z2 = refs_of z"
    "\<And>a bh. get_blocks_out2 (Some path) 0 a bh z1 = Inr ((sint (ucast a :: u32), bh), z2)"
    by (rule get_blocks_out2_run [OF ok1, of path "refs_of z"]) (use p(3-5) nn in simp_all)
  show thesis
    by (rule that [OF p(1) dz p(3) ex _ p(8) _ same_content_trans [OF p(2) z2(1)] z2(2)]) (use p(7) z2(3) in simp_all)
qed

text \<open>A block that an extent covers is found whether or not missing blocks are to be created.\<close>

lemma get_blocks_covered:
  assumes ok: "fs_ok (snd z)" and wf: "tree_wf (blocks_of z) d (node_at In_inode z) 0 (2 ^ 32)"
    and depth: "unat (eh_depth (eh_of (node_at In_inode z))) = d"
    and x: "find (ext_covers b) (tree_exts (blocks_of z) d (node_at In_inode z)) = Some x"
  shows "\<exists>z'. ext4_ext_get_blocks (ucast b) max_blocks bh create z =
      Inr ((sint (ucast (if max_blocks < of_nat (ext_end x - unat b) then max_blocks else of_nat (ext_end x - unat b)) :: u32),
        (set_buffer BH_Mapped (clear_buffer BH_New bh))\<lparr>b_blocknr := ext4_ext_pblock x + ucast (b - ee_block x)\<rparr>), z') \<and>
    same_content z z' \<and> refs_of z' = refs_of z \<and> ext_end x - unat b \<le> 32768"
proof -
  obtain path z1 ex z2 where p: "ext4_find_extent b None z = Inr ((0, Some path), z1)" "ext_depth z1 = Inr (d, z1)" "d < length path"
    "(case p_ext (path ! d) of None \<Rightarrow> em_return None
      | Some x \<Rightarrow> em_bind (deref_ext (Some x)) (\<lambda>ex. em_return (Some ex))) z1 = Inr (ex, z1)"
    "\<forall>x. ex = Some x \<longrightarrow> unat (ee_block x) < ext_end x \<and> ext_end x \<le> 2 ^ 32"
    "find (ext_covers b) (tree_exts (blocks_of z) d (node_at In_inode z)) =
      (case ex of Some x \<Rightarrow> if ext_covers b x then Some x else None | None \<Rightarrow> None)"
    "\<forall>a bh. get_blocks_out2 (Some path) 0 a bh z1 = Inr ((sint (ucast a :: u32), bh), z2)" "same_content z z2" "refs_of z2 = refs_of z"
    by (rule find_extent_released [OF ok wf depth, of b])
  have x: "ex = Some x" "ext_covers b x" using x p(6) by (auto split: option.splits if_splits)
  have bound: "unat (ee_block x) < ext_end x" "ext_end x \<le> 2 ^ 32" using p(5) x(1) by auto
  note c = covered_block [OF x(2) bound(2)]
  have "ext4_ext_get_blocks (ucast b) max_blocks bh create z =
      Inr ((sint (ucast (if max_blocks < of_nat (ext_end x - unat b) then max_blocks else of_nat (ext_end x - unat b)) :: u32),
        (set_buffer BH_Mapped (clear_buffer BH_New bh))\<lparr>b_blocknr := ext4_ext_pblock x + ucast (b - ee_block x)\<rparr>), z2)"
    using p(1-4,7) x c(1,2) in_range_covers [OF bound]
    by (simp add: ext4_ext_get_blocks_def get_blocks_out_def em_run Let_def ucast_32_64_32 add.commute)
  then show ?thesis using p(8,9) c(4) by blast
qed

lemma get_blocks_lookup:
  assumes ok: "fs_ok (snd z)" and wf: "tree_wf (blocks_of z) d (node_at In_inode z) 0 (2 ^ 32)"
    and depth: "unat (eh_depth (eh_of (node_at In_inode z))) = d"
  shows "\<exists>z'. ext4_ext_get_blocks (ucast b) (of_int EXT_INIT_MAX_LEN) bh False z =
      Inr ((case find (ext_covers b) (tree_exts (blocks_of z) d (node_at In_inode z)) of
              None \<Rightarrow> (0, clear_buffer BH_New bh)
            | Some x \<Rightarrow> (int (ext_end x - unat b),
                (set_buffer BH_Mapped (clear_buffer BH_New bh))\<lparr>b_blocknr := ext4_ext_pblock x + ucast (b - ee_block x)\<rparr>)), z') \<and>
    same_content z z' \<and> refs_of z' = refs_of z"
proof (cases "find (ext_covers b) (tree_exts (blocks_of z) d (node_at In_inode z))")
  case (Some x)
  note g = get_blocks_covered [OF ok wf depth Some, of "of_int EXT_INIT_MAX_LEN" bh False]
  then have "ext_end x - unat b \<le> 32768" by blast
  then show ?thesis using g Some small_length [of "ext_end x - unat b"] by simp
next
  case None
  obtain path z1 ex z2 where p: "ext4_find_extent b None z = Inr ((0, Some path), z1)" "ext_depth z1 = Inr (d, z1)" "d < length path"
    "(case p_ext (path ! d) of None \<Rightarrow> em_return None
      | Some x \<Rightarrow> em_bind (deref_ext (Some x)) (\<lambda>ex. em_return (Some ex))) z1 = Inr (ex, z1)"
    "\<forall>x. ex = Some x \<longrightarrow> unat (ee_block x) < ext_end x \<and> ext_end x \<le> 2 ^ 32"
    "find (ext_covers b) (tree_exts (blocks_of z) d (node_at In_inode z)) =
      (case ex of Some x \<Rightarrow> if ext_covers b x then Some x else None | None \<Rightarrow> None)"
    "\<forall>a bh. get_blocks_out2 (Some path) 0 a bh z1 = Inr ((sint (ucast a :: u32), bh), z2)" "same_content z z2" "refs_of z2 = refs_of z"
    by (rule find_extent_released [OF ok wf depth, of b])
  then have "\<not> in_range (ucast b) (ee_block x) (of_int (ext4_ext_get_actual_len x))" if "ex = Some x" for x
    using p(5) p(6) None in_range_covers [of x b] that by (auto split: if_splits)
  then have "ext4_ext_get_blocks (ucast b) (of_int EXT_INIT_MAX_LEN) bh False z = Inr ((0, clear_buffer BH_New bh), z2)"
    using p(1-4,7) by (cases ex) (simp_all add: ext4_ext_get_blocks_def em_run Let_def ucast_32_64_32)
  then show ?thesis using None p(8,9) by auto
qed

lemma extent_lookup_run:
  fixes inode :: inode and fs :: fs
  defines "root \<equiv> i_block (raw_inode inode)"
  assumes "fs_ok fs" "tree_wf (view (bdev fs)) (unat (eh_depth (eh_of root))) root 0 (2 ^ 32)"
  shows "\<exists>fs'. extent_get_pblock_new b len False (inode, fs) =
      Inr ((case find (ext_covers b) (tree_exts (view (bdev fs)) (unat (eh_depth (eh_of root))) root) of
              None \<Rightarrow> (0, map_option (\<lambda>_. 0) len)
            | Some x \<Rightarrow> (ext4_ext_pblock x + ucast (b - ee_block x), map_option (\<lambda>_. of_nat (ext_end x - unat b)) len)),
        inode, fs') \<and>
    fs_ok fs' \<and> sup fs' = sup fs \<and> view (bdev fs') = view (bdev fs) \<and> refs (bdev fs') = refs (bdev fs)"
proof -
  let ?z = "(inode, fs)" and ?d = "unat (eh_depth (eh_of root))"
  have root: "node_at In_inode ?z = root" by (simp add: node_at_def node_bytes_def root_def)
  let ?found = "find (ext_covers b) (tree_exts (view (bdev fs)) ?d root)"
  obtain z' where g: "ext4_ext_get_blocks (ucast b) (of_int EXT_INIT_MAX_LEN) zero_bh False ?z =
      Inr ((case ?found of None \<Rightarrow> (0, clear_buffer BH_New zero_bh)
            | Some x \<Rightarrow> (int (ext_end x - unat b), (set_buffer BH_Mapped (clear_buffer BH_New zero_bh))
                \<lparr>b_blocknr := ext4_ext_pblock x + ucast (b - ee_block x)\<rparr>)), z')"
    "same_content ?z z'" "refs_of z' = refs_of ?z"
    using get_blocks_lookup [of ?z ?d b zero_bh] assms(2,3) root by auto
  have pos: "0 < ext_end x - unat b" if "?found = Some x" for x
    using that by (auto simp: find_Some_iff ext_covers_def)
  show ?thesis
    using g pos by (cases z')
      (auto simp: extent_get_pblock_new_def em_run same_content_def refs_of_def zero_bh_def Let_def split: option.splits)
qed

text \<open>C27: Looking up a file block through a tree of any depth gives the extent of the tree's list of extents
  that covers the block: its physical block and the number of blocks that follow in the extent, or no
  block and the length 0 where no extent covers it. Nothing changes, and every buffer is released.\<close>

theorem extent_lookup_correct:
  fixes inode :: inode and fs :: fs
  defines "root \<equiv> i_block (raw_inode inode)"
  assumes "fs_ok fs" "tree_wf (view (bdev fs)) (unat (eh_depth (eh_of root))) root 0 (2 ^ 32)"
  shows "\<exists>fs'. extent_get_pblock_new b len False (inode, fs) =
      Inr ((case find (ext_covers b) (tree_exts (view (bdev fs)) (unat (eh_depth (eh_of root))) root) of
              None \<Rightarrow> (0, map_option (\<lambda>_. 0) len)
            | Some x \<Rightarrow> (ext4_ext_pblock x + ucast (b - ee_block x), map_option (\<lambda>_. of_nat (ext_end x - unat b)) len)),
        inode, fs') \<and>
    fs_ok fs' \<and> sup fs' = sup fs \<and> view (bdev fs') = view (bdev fs) \<and> refs (bdev fs') = refs (bdev fs)"
  unfolding root_def by (rule extent_lookup_run [OF assms(2,3) [unfolded root_def]])

text \<open>A tree of height 1 with a leaf of two extents in block 5.\<close>

definition demo_leaf :: bytes where
  "demo_leaf = eh_bytes \<lparr>eh_magic = EXT4_EXT_MAGIC, eh_entries = 2, eh_max = 84, eh_depth = 0, eh_generation = 0\<rparr> @
     ext_bytes \<lparr>ee_block = 0, ee_len = 3, ee_start_hi = 0, ee_start_lo = 100\<rparr> @
     ext_bytes \<lparr>ee_block = 10, ee_len = 2, ee_start_hi = 0, ee_start_lo = 200\<rparr> @ replicate 988 0"

definition demo_root :: bytes where
  "demo_root = eh_bytes \<lparr>eh_magic = EXT4_EXT_MAGIC, eh_entries = 1, eh_max = 4, eh_depth = 1, eh_generation = 0\<rparr> @
     idx_bytes \<lparr>ei_block = 0, ei_leaf_lo = 5, ei_leaf_hi = 0, ei_unused = 0\<rparr> @ replicate 36 0"

definition demo_tree_inode :: inode where
  "demo_tree_inode = demo_inode\<lparr>raw_inode := (raw_inode demo_inode)\<lparr>i_block := demo_root\<rparr>\<rparr>"

definition demo_tree_fs :: fs where
  "demo_tree_fs = \<lparr>sup = demo_super, bdev = fs_cache_init 10
     (\<lambda>b. if b = 5 then demo_leaf else replicate 1024 0) (\<lambda>_. 0) (\<lambda>_. replicate 1024 0)\<rparr>"

lemma demo_leaf_nodes:
  "length demo_leaf = 1024" "eh_valid 0 demo_leaf" "node_exts demo_leaf =
     [\<lparr>ee_block = 0, ee_len = 3, ee_start_hi = 0, ee_start_lo = 100\<rparr>,
      \<lparr>ee_block = 10, ee_len = 2, ee_start_hi = 0, ee_start_lo = 200\<rparr>]"
proof -
  have h: "eh_of demo_leaf = \<lparr>eh_magic = EXT4_EXT_MAGIC, eh_entries = 2, eh_max = 84, eh_depth = 0, eh_generation = 0\<rparr>"
    by (simp add: demo_leaf_def eh_of_def eh_bytes_def ext_bytes_def codec_simps)
  show l: "length demo_leaf = 1024" by (simp add: demo_leaf_def eh_bytes_def ext_bytes_def)
  show "eh_valid 0 demo_leaf" using h l by (simp add: eh_valid_def Let_def entry_off_def)
  show "node_exts demo_leaf =
     [\<lparr>ee_block = 0, ee_len = 3, ee_start_hi = 0, ee_start_lo = 100\<rparr>,
      \<lparr>ee_block = 10, ee_len = 2, ee_start_hi = 0, ee_start_lo = 200\<rparr>]"
    using h by (simp add: node_exts_def upt_rec entry_off_def demo_leaf_def ext_of_def eh_bytes_def ext_bytes_def codec_simps)
qed

lemma demo_root_nodes:
  "length demo_root = 60" "unat (eh_depth (eh_of demo_root)) = 1" "node_fits demo_root"
  "node_idxs demo_root = [\<lparr>ei_block = 0, ei_leaf_lo = 5, ei_leaf_hi = 0, ei_unused = 0\<rparr>]"
proof -
  have h: "eh_of demo_root = \<lparr>eh_magic = EXT4_EXT_MAGIC, eh_entries = 1, eh_max = 4, eh_depth = 1, eh_generation = 0\<rparr>"
    by (simp add: demo_root_def eh_of_def eh_bytes_def idx_bytes_def codec_simps)
  show l: "length demo_root = 60" by (simp add: demo_root_def eh_bytes_def idx_bytes_def)
  show "unat (eh_depth (eh_of demo_root)) = 1" "node_fits demo_root"
    using h l by (simp_all add: node_fits_def entry_off_def)
  show "node_idxs demo_root = [\<lparr>ei_block = 0, ei_leaf_lo = 5, ei_leaf_hi = 0, ei_unused = 0\<rparr>]"
    using h by (simp add: node_idxs_def upt_rec entry_off_def demo_root_def idx_of_def eh_bytes_def idx_bytes_def codec_simps)
qed

lemma demo_tree_ok:
  "fs_ok demo_tree_fs" "tree_wf (view (bdev demo_tree_fs)) 1 demo_root 0 (2 ^ 32)"
  "tree_exts (view (bdev demo_tree_fs)) 1 demo_root = node_exts demo_leaf"
  "i_block (raw_inode demo_tree_inode) = demo_root"
proof -
  let ?dsk = "\<lambda>b. if b = (5 :: u64) then demo_leaf else replicate 1024 0"
  note c = cache_init_inv [of ?dsk 10 "\<lambda>_. replicate 1024 0"]
  show "fs_ok demo_tree_fs"
    using c demo_leaf_nodes(1) by (simp add: fs_ok_def demo_tree_fs_def demo_super_eval)
  have v: "view (bdev demo_tree_fs) = ?dsk" using c(2) demo_leaf_nodes(1) by (simp add: demo_tree_fs_def)
  have p: "ext4_idx_pblock \<lparr>ei_block = 0, ei_leaf_lo = 5, ei_leaf_hi = 0, ei_unused = 0\<rparr> = 5"
    by (simp add: ext4_idx_pblock_def)
  have n: "unat (eh_entries (eh_of demo_root)) = 1" using arg_cong [OF demo_root_nodes(4), of length] by simp
  have "idx_bounds demo_root (2 ^ 32) = [0, 2 ^ 32]" "idx_child ?dsk demo_root 0 = demo_leaf"
    using demo_root_nodes(4) p by (simp_all add: idx_bounds_def idx_child_def)
  then show "tree_wf (view (bdev demo_tree_fs)) 1 demo_root 0 (2 ^ 32)"
    unfolding v One_nat_def tree_wf.simps
    using demo_root_nodes(3,4) demo_leaf_nodes eh_valid_fits [OF demo_leaf_nodes(2)] n
    by (simp add: ext_end_def ext4_ext_get_actual_len_def)
  show "tree_exts (view (bdev demo_tree_fs)) 1 demo_root = node_exts demo_leaf"
    using demo_root_nodes(4) p v by simp
  show "i_block (raw_inode demo_tree_inode) = demo_root" by (simp add: demo_tree_inode_def)
qed

theorem extent_lookup_correct_witness:
  "(\<exists>fs'. extent_get_pblock_new 11 (Some 0) False (demo_tree_inode, demo_tree_fs) = Inr ((201, Some 1), demo_tree_inode, fs')) \<and>
   (\<exists>fs'. extent_get_pblock_new 5 (Some 0) False (demo_tree_inode, demo_tree_fs) = Inr ((0, Some 0), demo_tree_inode, fs'))"
  using extent_lookup_correct [of demo_tree_fs demo_tree_inode 11 "Some 0"]
    extent_lookup_correct [of demo_tree_fs demo_tree_inode 5 "Some 0"] demo_tree_ok demo_root_nodes(2) demo_leaf_nodes(3)
  by (simp add: ext_covers_def ext_end_def ext4_ext_get_actual_len_def ext4_ext_pblock_def del: tree_wf.simps tree_exts.simps) blast

end
