(* ===== verification/E4F_Extins.thy ===== *)
theory E4F_Extins
  imports E4F_Exttree
begin

text \<open>
  Insertion into an extent tree whose root is a leaf with room (ext4_ext_insert_extent() of
  src/extents/extents.c): the new extent takes its place in the sorted list of extents, and the lookup
  then finds it. Merging with the extent behind it loses the physical start of the new one.
\<close>

section \<open>Nodes after a store\<close>

lemma ld_cong: "(\<And>i. i < n \<Longrightarrow> m ! (a + i) = m' ! (b + i)) \<Longrightarrow> (ld n m a :: 'a::len word) = ld n m' b"
proof (induction n arbitrary: a b)
  case (Suc n)
  have "(ld n m (Suc a) :: 'a word) = ld n m' (Suc b)"
  proof (rule Suc.IH)
    show "m ! (Suc a + i) = m' ! (Suc b + i)" if "i < n" for i using Suc.prems [of "Suc i"] that by simp
  qed
  then show ?case using Suc.prems [of 0] by simp
qed simp

lemma ext_of_cong: "(\<And>i. i < 12 \<Longrightarrow> m ! (a + i) = m' ! (b + i)) \<Longrightarrow> ext_of m a = ext_of m' b"
  unfolding ext_of_def by (intro ext4_extent.equality) (auto simp: add.assoc intro!: ld_cong)

lemma eh_of_cong: "(\<And>i. i < 12 \<Longrightarrow> m ! i = m' ! i) \<Longrightarrow> eh_of m = eh_of m'"
  unfolding eh_of_def by (intro ext4_extent_header.equality) (auto intro!: ld_cong)

lemma length_ext_bytes [simp]: "length (ext_bytes x) = 12" "length (idx_bytes ix) = 12" "length (eh_bytes h) = 12"
  by (simp_all add: ext_bytes_def idx_bytes_def eh_bytes_def)

lemma ext_of_bytes: "ext_of (ext_bytes x @ ys) 0 = x"
  by (simp add: ext_of_def ext_bytes_def codec_simps)

lemma eh_of_bytes: "eh_of (eh_bytes h @ ys) = h"
  by (simp add: eh_of_def eh_bytes_def codec_simps)

lemma nth_splice_in: "a + length xs \<le> length m \<Longrightarrow> i < length xs \<Longrightarrow> splice m a xs ! (a + i) = xs ! i"
  by (simp add: nth_splice)

lemma nth_splice_out: "a + length xs \<le> length m \<Longrightarrow> i < a \<or> a + length xs \<le> i \<Longrightarrow> i < length m \<Longrightarrow> splice m a xs ! i = m ! i"
  by (auto simp: nth_splice)

lemma ext_of_put [simp]: "a + 12 \<le> length m \<Longrightarrow> ext_of (splice m a (ext_bytes x)) a = x"
  using ext_of_cong [of "splice m a (ext_bytes x)" a "ext_bytes x @ []" 0] ext_of_bytes [of x "[]"]
  by (simp add: nth_splice_in)

lemma eh_of_put [simp]: "12 \<le> length m \<Longrightarrow> eh_of (splice m 0 (eh_bytes h)) = h"
  using eh_of_cong [of "splice m 0 (eh_bytes h)" "eh_bytes h @ []"] eh_of_bytes [of h "[]"] nth_splice_in [of 0 "eh_bytes h" m]
  by simp

lemma ext_of_other:
  "b + length xs \<le> length m \<Longrightarrow> a + 12 \<le> length m \<Longrightarrow> a + 12 \<le> b \<or> b + length xs \<le> a \<Longrightarrow>
    ext_of (splice m b xs) a = ext_of m a"
  by (intro ext_of_cong nth_splice_out) auto

lemma eh_of_other: "b + length xs \<le> length m \<Longrightarrow> 12 \<le> b \<Longrightarrow> 12 \<le> length m \<Longrightarrow> eh_of (splice m b xs) = eh_of m"
  by (intro eh_of_cong nth_splice_out) auto

lemma ext_of_moved:
  "b + length xs \<le> length m \<Longrightarrow> b \<le> a \<Longrightarrow> a + 12 \<le> b + length xs \<Longrightarrow>
    ext_of (splice m b xs) a = ext_of xs (a - b)"
  by (intro ext_of_cong) (auto simp: nth_splice)

lemma ext_of_slice: "b + n \<le> length m \<Longrightarrow> a + 12 \<le> n \<Longrightarrow> ext_of (slice m b n) a = ext_of m (b + a)"
  by (intro ext_of_cong) (simp add: nth_slice add.assoc)

section \<open>Stores into the root\<close>

definition with_root :: "bytes \<Rightarrow> inode \<times> fs \<Rightarrow> inode \<times> fs" where
  "with_root r z = ((fst z)\<lparr>raw_inode := (raw_inode (fst z))\<lparr>i_block := r\<rparr>\<rparr>, snd z)"

lemma with_root [simp]:
  "node_at In_inode (with_root r z) = r" "with_root r (with_root r' z) = with_root r z"
  "node_at (In_block b) (with_root r z) = node_at (In_block b) z" "snd (with_root r z) = snd z"
  by (simp_all add: with_root_def node_at_def node_bytes_def)

lemma put_at_root [em_run]:
  "a + length xs \<le> length (node_at In_inode z) \<Longrightarrow>
    put_at In_inode a xs z = Inr ((), with_root (splice (node_at In_inode z) a xs) z)"
  by (simp add: put_at_def em_run node_put_def with_root_def prod_eq_iff)

lemma store_pblock_same:
  "ext4_ext_store_pblock (y\<lparr>ee_block := ee_block x, ee_len := ee_len x\<rparr>) (ext4_ext_pblock x) = x"
proof -
  have m: "(0xffffffff :: u64) = mask 32" "(0xffff :: u64) = mask 16" by (simp_all add: mask_eq_exp_minus_1)
  have "ucast (ext4_ext_pblock x AND 0xffffffff) = ee_start_lo x"
    unfolding m ext4_ext_pblock_def by (rule bit_word_eqI) (auto simp: bit_simps)
  moreover have "ucast (drop_bit 1 (drop_bit 31 (ext4_ext_pblock x)) AND 0xffff) = ee_start_hi x"
    unfolding m ext4_ext_pblock_def
    by (rule bit_word_eqI) (auto simp: bit_simps dest: bit_imp_le_length)
  ultimately show ?thesis by (simp add: ext4_ext_store_pblock_def)
qed

text \<open>The memory of a leaf after the new extent \<open>x\<close> is stored at \<open>i\<close>.\<close>

definition leaf_opened :: "bytes \<Rightarrow> nat \<Rightarrow> bytes" where
  "leaf_opened m i =
     (let len = unat (eh_entries (eh_of m)) - i
      in if 0 < len then splice m (entry_off (Suc i)) (slice m (entry_off i) (12 * len)) else m)"

definition leaf_inserted :: "bytes \<Rightarrow> nat \<Rightarrow> ext4_extent \<Rightarrow> bytes" where
  "leaf_inserted m i x =
     (let m' = splice (leaf_opened m i) (entry_off i) (ext_bytes x)
      in splice m' 0 (eh_bytes ((eh_of m)\<lparr>eh_entries := eh_entries (eh_of m) + 1\<rparr>)))"

definition leaf_room :: "bytes \<Rightarrow> nat \<Rightarrow> nat \<Rightarrow> bool" where
  "leaf_room m e i \<longleftrightarrow> e = unat (eh_entries (eh_of m)) \<and> i \<le> e \<and> entry_off (Suc e) \<le> length m \<and> Suc e < 2 ^ 16"

lemma leaf_roomD:
  assumes "leaf_room m e i"
  shows "unat (eh_entries (eh_of m)) = e" "i \<le> e" "24 + 12 * e \<le> length m" "Suc e < 2 ^ 16"
  using assms by (simp_all add: leaf_room_def entry_off_def)

lemma leaf_opened_eq:
  "leaf_room m e i \<Longrightarrow> leaf_opened m i =
    (if i < e then splice m (entry_off (Suc i)) (slice m (entry_off i) (12 * (e - i))) else m)"
  by (simp add: leaf_opened_def Let_def leaf_roomD(1))

lemma opened_length: "leaf_room m e i \<Longrightarrow> length (leaf_opened m i) = length m"
  using leaf_roomD [of m e i] by (simp add: leaf_opened_eq entry_off_def)

lemma opened_hdr: "leaf_room m e i \<Longrightarrow> eh_of (leaf_opened m i) = eh_of m"
  using leaf_roomD [of m e i] by (simp add: leaf_opened_eq entry_off_def eh_of_other)

lemma opened_ext:
  assumes room: "leaf_room m e i" and "k \<le> e" "k \<noteq> i"
  shows "ext_of (leaf_opened m i) (entry_off k) = ext_of m (entry_off (if k < i then k else k - 1))"
proof (cases "k < i")
  case True
  then show ?thesis
    using leaf_roomD [OF room] by (simp add: leaf_opened_eq [OF room] entry_off_def ext_of_other)
next
  case False
  then have k: "i < k" "i < e" using assms by simp_all
  note r = leaf_roomD [OF room]
  let ?s = "slice m (entry_off i) (12 * (e - i))"
  have len: "length ?s = 12 * (e - i)" using r by (simp add: entry_off_def)
  have "ext_of (leaf_opened m i) (entry_off k) = ext_of ?s (entry_off k - entry_off (Suc i))"
    unfolding leaf_opened_eq [OF room] if_P [OF k(2)]
    by (rule ext_of_moved) (use r k len assms(2) in \<open>simp_all add: entry_off_def\<close>)
  also have "\<dots> = ext_of m (entry_off i + (entry_off k - entry_off (Suc i)))"
    by (rule ext_of_slice) (use r k assms(2) in \<open>simp_all add: entry_off_def\<close>)
  also have "entry_off i + (entry_off k - entry_off (Suc i)) = entry_off (k - 1)" using k by (simp add: entry_off_def)
  finally show ?thesis using k by simp
qed

lemma inserted_length: "leaf_room m e i \<Longrightarrow> length (leaf_inserted m i x) = length m"
  using leaf_roomD [of m e i] by (simp add: leaf_inserted_def Let_def opened_length entry_off_def)

lemma inserted_hdr:
  "leaf_room m e i \<Longrightarrow> eh_of (leaf_inserted m i x) = (eh_of m)\<lparr>eh_entries := eh_entries (eh_of m) + 1\<rparr>"
  using leaf_roomD [of m e i] by (simp add: leaf_inserted_def Let_def opened_length entry_off_def)

lemma inserted_ext:
  assumes room: "leaf_room m e i" and "k \<le> e"
  shows "ext_of (leaf_inserted m i x) (entry_off k) =
    (if k = i then x else ext_of m (entry_off (if k < i then k else k - 1)))"
proof -
  let ?m = "splice (leaf_opened m i) (entry_off i) (ext_bytes x)"
  note r = leaf_roomD [OF room]
  have len: "length ?m = length m" using r by (simp add: opened_length [OF room] entry_off_def)
  have "ext_of (leaf_inserted m i x) (entry_off k) = ext_of ?m (entry_off k)"
    unfolding leaf_inserted_def Let_def
    by (rule ext_of_other) (use r assms(2) len in \<open>simp_all add: entry_off_def\<close>)
  moreover have "ext_of ?m (entry_off k) = ext_of (leaf_opened m i) (entry_off k)" if "k \<noteq> i"
    by (rule ext_of_other) (use r assms(2) that in \<open>auto simp: opened_length [OF room] entry_off_def\<close>)
  moreover have "ext_of ?m (entry_off i) = x" using r by (simp add: opened_length [OF room] entry_off_def)
  ultimately show ?thesis using opened_ext [OF room assms(2)] by simp
qed

lemma inserted_exts:
  assumes room: "leaf_room m e i"
  shows "node_exts (leaf_inserted m i x) = take i (node_exts m) @ x # drop i (node_exts m)"
proof (rule nth_equalityI)
  note r = leaf_roomD [OF room]
  have e1: "unat (eh_entries (eh_of m) + 1) = Suc e"
    using r(1,4) unat_add_lem [of "eh_entries (eh_of m)" 1] by simp
  then show "length (node_exts (leaf_inserted m i x)) = length (take i (node_exts m) @ x # drop i (node_exts m))"
    using r by (simp add: inserted_hdr [OF room])
  fix k assume "k < length (node_exts (leaf_inserted m i x))"
  then have k: "k \<le> e" using e1 by (simp add: inserted_hdr [OF room])
  then show "node_exts (leaf_inserted m i x) ! k = (take i (node_exts m) @ x # drop i (node_exts m)) ! k"
    using r e1 inserted_ext [OF room k] by (auto simp: inserted_hdr [OF room] nth_append nth_Cons' min_def)
qed

section \<open>The insertion\<close>

lemma with_root_id: "with_root (node_at In_inode z) z = z"
  by (simp add: with_root_def node_at_def node_bytes_def prod_eq_iff)

lemma open_gap_root:
  assumes room: "leaf_room (node_at In_inode z) e i" and mx: "e < unat (eh_max (eh_of (node_at In_inode z)))"
  shows "open_gap In_inode (int i) z = Inr (True, with_root (leaf_opened (node_at In_inode z) i) z)"
proof -
  let ?m = "node_at In_inode z"
  note r = leaf_roomD [OF room]
  have len: "ext_last (eh_of ?m) = int e - 1" unfolding ext_last_int r(1) ..
  have "int e < int (unat (eh_max (eh_of ?m)))" using mx by (simp only: of_nat_less_iff)
  then have top: "int i \<le> ext_max (eh_of ?m)" using r(2) by (simp add: ext_max_def)
  show ?thesis
  proof (cases "i < e")
    case True
    then have "node_move In_inode (entry_off (Suc i)) In_inode (entry_off i) (12 * (e - i)) z =
        Inr ((), with_root (leaf_opened ?m i) z)"
      using r by (simp add: node_move_def em_run leaf_opened_eq [OF room] entry_off_def)
    then show ?thesis using True r len top by (simp add: open_gap_def em_run Let_def nat_diff_distrib)
  next
    case False
    then have "leaf_opened ?m i = ?m" by (simp add: leaf_opened_eq [OF room])
    then show ?thesis
      using False r len top with_root_id [of z] by (simp add: open_gap_def em_run Let_def)
  qed
qed

text \<open>Where the new extent goes, given what the path points to.\<close>

definition place_for :: "ext4_extent list \<Rightarrow> ext4_extent \<Rightarrow> nat" where
  "place_for xs x = (if xs = [] then 0
     else (let j = last_le (map ee_block xs) (ee_block x)
           in if ee_block (xs ! j) < ee_block x then Suc j else j))"

definition root_path :: "ext4_extent list \<Rightarrow> u32 \<Rightarrow> ext4_ext_path list \<Rightarrow> bool" where
  "root_path xs b path \<longleftrightarrow> path \<noteq> [] \<and> p_hdr (path ! 0) = Some In_inode \<and> p_bh (path ! 0) = None \<and>
     p_ext (path ! 0) = (if xs = [] then None else Some (In_inode, last_le (map ee_block xs) b))"

definition mergeable :: "ext4_extent list \<Rightarrow> ext4_extent \<Rightarrow> bool" where
  "mergeable xs x \<longleftrightarrow> xs \<noteq> [] \<and>
     (let y = xs ! last_le (map ee_block xs) (ee_block x)
      in ee_block x = ee_block y \<or> ext4_ext_can_append y x \<or> ext4_ext_can_prepend y x)"

definition mark_dirty :: "inode \<times> fs \<Rightarrow> inode \<times> fs" where
  "mark_dirty z = (inode_mark_dirty (fst z), snd z)"

lemma mark_dirty [simp]:
  "node_at n (mark_dirty z) = node_at n z" "snd (mark_dirty z) = snd z" "i_data_dirty (fst (mark_dirty z))"
  "mark_inode_dirty z = Inr ((), mark_dirty z)"
  by (auto simp: mark_dirty_def node_at_def node_bytes_def inode_mark_dirty_def mark_inode_dirty_def em_run split: node.split)

lemma insert_leaf_root:
  assumes m: "node_at In_inode z = m" and depth: "eh_depth (eh_of m) = 0"
    and room: "leaf_room m e i" and mx: "e < unat (eh_max (eh_of m))"
    and path: "root_path (node_exts m) (ee_block x) path" and nm: "\<not> mergeable (node_exts m) x"
    and i: "i = place_for (node_exts m) x"
  shows "\<exists>path'. ext4_ext_insert_leaf path 0 x zero_spt z = Inr ((0, path', zero_spt), mark_dirty (with_root (leaf_inserted m i x) z))"
proof -
  note r = leaf_roomD [OF room]
  let ?z1 = "with_root (leaf_opened m i) z" and ?z2 = "with_root (leaf_inserted m i x) z"
  have fits: "node_fits m" using r by (simp add: node_fits_def entry_off_def)
  have ne: "eh_entries (eh_of m) \<noteq> eh_max (eh_of m)" using r(1) mx by auto
  have gap: "open_gap In_inode (int i) z = Inr (True, ?z1)"
    using open_gap_root [of z e i] room mx m by simp
  have x_at: "ext_of (leaf_inserted m i x) (entry_off i) = x" using inserted_ext [OF room r(2)] by simp
  have e1: "unat (eh_entries (eh_of m) + 1) = Suc e"
    using r(1,4) unat_add_lem [of "eh_entries (eh_of m)" 1] by simp
  then have last: "ext_last ((eh_of m)\<lparr>eh_entries := eh_entries (eh_of m) + 1\<rparr>) = int e"
    unfolding ext_last_int by simp
  note len = inserted_length [OF room, of x] opened_length [OF room] inserted_hdr [OF room, of x] opened_hdr [OF room]
  let ?z1' = "with_root (splice (leaf_opened m i) (entry_off i) (ext_bytes x)) z"
  have step: "get_ext In_inode i ?z1 = Inr (ext_of (leaf_opened m i) (entry_off i), ?z1)"
    "\<And>y. put_ext In_inode i (ext4_ext_store_pblock (y\<lparr>ee_block := ee_block x, ee_len := ee_len x\<rparr>) (ext4_ext_pblock x)) ?z1 =
       Inr ((), ?z1')"
    "add_entries In_inode 1 ?z1' = Inr ((), ?z2)" "get_hdr In_inode ?z2 = Inr ((eh_of m)\<lparr>eh_entries := eh_entries (eh_of m) + 1\<rparr>, ?z2)"
    "get_ext In_inode i (mark_dirty ?z2) = Inr (x, mark_dirty ?z2)" "ext_depth ?z2 = Inr (0, ?z2)"
    using r len depth x_at
    by (simp_all add: em_run put_ext_def put_hdr_def add_entries_def store_pblock_same eh_of_other leaf_inserted_def
        ext_depth_def entry_off_def)
  have hdr: "get_hdr In_inode z = Inr (eh_of m, z)" using m r(3) by (simp add: em_run)
  have p: "0 < length path" "p_hdr (path ! 0) = Some In_inode" "p_bh (path ! 0) = None"
    using path by (simp_all add: root_path_def)
  have zs: "zero_spt\<lparr>spt_index := 0, spt_ptr := 0\<rparr> = zero_spt" by (simp add: zero_spt_def)
  note run = ext4_ext_insert_leaf_def choose_place_def Let_def insert_done_def note_ext_def ext4_ext_correct_indexes_def
    ext4_ext_dirty_def deref_ext_def em_run
  note facts = hdr ne p zs gap step last
  show ?thesis
  proof (cases "node_exts m = []")
    case True
    then have "i = 0" "p_ext (path ! 0) = None" using i path by (simp_all add: place_for_def root_path_def)
    then show ?thesis using facts by (simp add: run)
  next
    case False
    define j where "j = last_le (map ee_block (node_exts m)) (ee_block x)"
    define y where "y = node_exts m ! j"
    have j: "j < e" using last_le_bound [of "map ee_block (node_exts m)" "ee_block x"] False r(1) by (simp add: j_def)
    have pe: "p_ext (path ! 0) = Some (In_inode, j)" using path False by (simp add: root_path_def j_def)
    have y: "get_ext In_inode j z = Inr (y, z)" using j r m by (simp add: em_run y_def entry_off_def)
    have no: "ee_block x \<noteq> ee_block y" "\<not> ext4_ext_can_append y x" "\<not> ext4_ext_can_prepend y x"
      using nm False by (simp_all add: mergeable_def y_def j_def Let_def)
    have ij: "i = (if ee_block y < ee_block x then Suc j else j)"
      using i False by (simp add: place_for_def j_def y_def Let_def)
    show ?thesis
    proof (cases "ee_block y < ee_block x")
      case True
      then have "int j + 1 = int i" using ij by simp
      then show ?thesis using facts pe y no True r(2) by (simp add: run)
    next
      case False
      then show ?thesis using facts pe y no ij j by (simp add: run)
    qed
  qed
qed

section \<open>The list of extents after the insertion\<close>

lemma leaf_in_iff:
  "leaf_in xs lo hi \<longleftrightarrow> lo \<le> hi \<and> sorted_wrt (\<lambda>x y. ext_end x \<le> unat (ee_block y)) xs \<and>
    (\<forall>x\<in>set xs. lo \<le> unat (ee_block x) \<and> unat (ee_block x) < ext_end x \<and> ext_end x \<le> hi)"
proof
  assume "leaf_in xs lo hi"
  then show "lo \<le> hi \<and> sorted_wrt (\<lambda>x y. ext_end x \<le> unat (ee_block y)) xs \<and>
    (\<forall>x\<in>set xs. lo \<le> unat (ee_block x) \<and> unat (ee_block x) < ext_end x \<and> ext_end x \<le> hi)"
    using leaf_in_le leaf_in_sorted leaf_in_bounds by simp
next
  show "lo \<le> hi \<and> sorted_wrt (\<lambda>x y. ext_end x \<le> unat (ee_block y)) xs \<and>
    (\<forall>x\<in>set xs. lo \<le> unat (ee_block x) \<and> unat (ee_block x) < ext_end x \<and> ext_end x \<le> hi) \<Longrightarrow> leaf_in xs lo hi"
  proof (induction xs arbitrary: lo)
    case (Cons x xs)
    then have "leaf_in xs (ext_end x) hi" by (intro Cons.IH) simp
    with Cons.prems show ?case by simp
  qed simp
qed

lemma leaf_find_iff:
  assumes "leaf_in xs lo hi"
  shows "find (ext_covers b) xs = Some y \<longleftrightarrow> y \<in> set xs \<and> ext_covers b y"
proof
  assume "y \<in> set xs \<and> ext_covers b y"
  then obtain i where i: "i < length xs" "xs ! i = y" "ext_covers b y" by (auto simp: in_set_conv_nth)
  have "find (ext_covers b) xs = (if ext_covers b (xs ! i) then Some (xs ! i) else None)"
  proof (rule find_only [OF i(1)])
    fix k assume k: "k < length xs" "k \<noteq> i"
    have "ext_end (xs ! p) \<le> unat (ee_block (xs ! q))" if "p < q" "q < length xs" for p q
      using sorted_wrt_nth_less [OF leaf_in_sorted [OF assms] that(1)] that by simp
    from this [of k i] this [of i k] show "\<not> ext_covers b (xs ! k)"
      using i k by (cases "k < i") (auto simp: ext_covers_def)
  qed
  then show "find (ext_covers b) xs = Some y" using i by simp
qed (auto simp: find_Some_iff)

definition ext_apart :: "ext4_extent \<Rightarrow> ext4_extent \<Rightarrow> bool" where
  "ext_apart x y \<longleftrightarrow> ext_end x \<le> unat (ee_block y) \<or> ext_end y \<le> unat (ee_block x)"

lemma place_for_bound: "place_for xs x \<le> length xs"
  using last_le_bound [of "map ee_block xs" "ee_block x"] by (auto simp: place_for_def Let_def)

lemma place_for_sorted:
  assumes xs: "leaf_in xs lo hi" and x: "lo \<le> unat (ee_block x)" "unat (ee_block x) < ext_end x" "ext_end x \<le> hi"
    and apart: "\<And>y. y \<in> set xs \<Longrightarrow> ext_apart x y"
  shows "leaf_in (take (place_for xs x) xs @ x # drop (place_for xs x) xs) lo hi"
proof (cases "xs = []")
  case True
  then show ?thesis using x leaf_in_le [OF xs] by (simp add: place_for_def)
next
  case False
  let ?ks = "map ee_block xs" and ?i = "place_for xs x"
  define j where "j = last_le ?ks (ee_block x)"
  have j: "j < length xs" using last_le_bound [of ?ks "ee_block x"] False by (simp add: j_def)
  have mono: "?ks ! p \<le> ?ks ! q" if "p \<le> q" "q < length xs" for p q
    using that sorted_wrt_nth_less [OF leaf_keys_sorted [OF xs], of p q] by (cases "p = q") auto
  have ne: "ee_block y \<noteq> ee_block x" if "y \<in> set xs" for y
    using apart [OF that] leaf_in_bounds [OF xs that] x(2) by (auto simp: ext_apart_def)
  have i: "?i = (if ee_block (xs ! j) < ee_block x then Suc j else j)"
    using False by (simp add: place_for_def j_def Let_def)
  have below: "ee_block (xs ! k) < ee_block x" if "k < ?i" for k
  proof (cases "ee_block (xs ! j) < ee_block x")
    case True
    then have "k \<le> j" using that i by simp
    then have "ee_block (xs ! k) \<le> ee_block (xs ! j)" using mono [of k j] j by simp
    also note True
    finally show ?thesis .
  next
    case no: False
    then have "0 < j" "k < j" using that i by simp_all
    then have "ee_block (xs ! j) \<le> ee_block x" using last_le_below [of j ?ks "ee_block x"] j by (simp add: j_def)
    then show ?thesis using no ne [of "xs ! j"] j by (simp add: order_le_less)
  qed
  have above: "ee_block x < ee_block (xs ! k)" if "?i \<le> k" "k < length xs" for k
  proof (cases "ee_block (xs ! j) < ee_block x")
    case True
    then have "Suc j \<le> k" using that i by simp
    then have "ee_block x < ee_block (xs ! Suc j)" using last_le_next [of ?ks "ee_block x"] that by (simp add: j_def)
    also have "\<dots> \<le> ee_block (xs ! k)" using mono [of "Suc j" k] \<open>Suc j \<le> k\<close> that by simp
    finally show ?thesis .
  next
    case no: False
    then have "ee_block x < ee_block (xs ! j)" using ne [of "xs ! j"] j by (simp add: order_le_less)
    also have "\<dots> \<le> ee_block (xs ! k)" using mono [of j k] that i no by simp
    finally show ?thesis .
  qed
  have "ext_end y \<le> unat (ee_block x)" if "y \<in> set (take ?i xs)" for y
  proof -
    have y: "y \<in> set xs" "ee_block y < ee_block x" using that below by (auto simp: in_set_conv_nth dest: in_set_takeD)
    then show ?thesis using apart [OF y(1)] x(2) by (auto simp: ext_apart_def word_less_nat_alt)
  qed
  moreover have "ext_end x \<le> unat (ee_block y)" if "y \<in> set (drop ?i xs)" for y
  proof -
    have y: "y \<in> set xs" using that by (rule in_set_dropD)
    have "ee_block x < ee_block y" using that above by (auto simp: in_set_conv_nth)
    then show ?thesis
      using apart [OF y] leaf_in_bounds [OF xs y] by (auto simp: ext_apart_def word_less_nat_alt)
  qed
  moreover have "sorted_wrt (\<lambda>x y. ext_end x \<le> unat (ee_block y)) (take ?i xs @ drop ?i xs)"
    using leaf_in_sorted [OF xs] by simp
  then have "sorted_wrt (\<lambda>x y. ext_end x \<le> unat (ee_block y)) (take ?i xs)"
    "sorted_wrt (\<lambda>x y. ext_end x \<le> unat (ee_block y)) (drop ?i xs)"
    "\<forall>y\<in>set (take ?i xs). \<forall>z\<in>set (drop ?i xs). ext_end y \<le> unat (ee_block z)"
    unfolding sorted_wrt_append by blast+
  moreover have "set (take ?i xs) \<subseteq> set xs" "set (drop ?i xs) \<subseteq> set xs" by (simp_all add: set_take_subset set_drop_subset)
  ultimately show ?thesis
    using x leaf_in_le [OF xs] leaf_in_bounds [OF xs] unfolding leaf_in_iff by (auto simp: sorted_wrt_append)
qed

lemma place_for_found:
  assumes "leaf_in xs lo hi" "leaf_in (take i xs @ x # drop i xs) lo hi"
  shows "find (ext_covers b) (take i xs @ x # drop i xs) = (if ext_covers b x then Some x else find (ext_covers b) xs)"
proof -
  have set: "set (take i xs @ x # drop i xs) = insert x (set xs)"
    by (metis append_take_drop_id list.simps(15) set_append Un_insert_right)
  show ?thesis
  proof (cases "ext_covers b x")
    case True
    then show ?thesis using leaf_find_iff [OF assms(2), of b x] set by simp
  next
    case no: False
    show ?thesis
    proof (cases "find (ext_covers b) xs")
      case None
      then have "find (ext_covers b) (take i xs @ x # drop i xs) = None"
        using no set unfolding find_None_iff by auto
      then show ?thesis using no None by simp
    next
      case (Some y)
      then show ?thesis
        using no set leaf_find_iff [OF assms(1), of b y] leaf_find_iff [OF assms(2), of b y] by simp
    qed
  qed
qed

section \<open>Insertion and lookup\<close>

lemma find_extent_root:
  assumes m: "node_at In_inode z = m" and fits: "node_fits m" and depth: "eh_depth (eh_of m) = 0"
    and sorted: "leaf_in (node_exts m) lo hi"
  shows "\<exists>path. ext4_find_extent b None z = Inr ((0, Some path), z) \<and> root_path (node_exts m) b path"
proof -
  have d: "ext_depth z = Inr (0, z)" using m depth node_fitsD(1) [OF fits] by (simp add: ext_depth_def em_run)
  let ?p = "zero_path\<lparr>p_maxdepth := 1, p_hdr := Some In_inode, p_bh := None, p_depth := 0, p_ext := None, p_idx := None\<rparr>"
  show ?thesis
  proof (cases "node_exts m = []")
    case True
    have "ext4_ext_binsearch ?p b z = Inr (?p, z)" using binsearch_empty [of ?p In_inode z b] m fits True by simp
    then show ?thesis using d True
      by (simp add: ext4_find_extent_def em_run Let_def root_path_def)
  next
    case False
    let ?j = "last_le (map ee_block (node_exts m)) b"
    have j: "?j < unat (eh_entries (eh_of m))" using last_le_bound [of "map ee_block (node_exts m)" b] False by simp
    have "ext4_ext_binsearch ?p b z = Inr (?p\<lparr>p_ext := Some (In_inode, ?j)\<rparr>, z)"
      using binsearch_finds [of ?p In_inode z m b] m fits False leaf_keys_sorted [OF sorted] by simp
    then show ?thesis using d False m node_fitsD(2) [OF fits j]
      by (simp add: ext4_find_extent_def em_run Let_def root_path_def deref_ext_def)
  qed
qed

text \<open>An insertion that ends in the root leaf is one call of ext4_ext_insert_leaf().\<close>

lemma insert_from_leaf:
  assumes d: "ext_depth z = Inr (0, z)" "ext_depth z2 = Inr (0, z2)"
    and room: "12 \<le> length (node_at In_inode z)"
      "eh_entries (eh_of (node_at In_inode z)) < eh_max (eh_of (node_at In_inode z))"
    and path: "0 < length path" "p_hdr (path ! 0) = Some In_inode"
    and ins: "ext4_ext_insert_leaf path 0 x zero_spt z = Inr ((0, path', zero_spt), z2)"
  shows "ext4_ext_insert_extent path x z = Inr ((0, path'), z2)"
proof -
  have full: "full_levels path 0 z = Inr (0, z)" using path room by (simp add: em_run)
  have "insert_levels (Suc 0) 0 0 x path [] zero_spt z = Inr ((0, 1, path', [], zero_spt), z2)"
    using ins by (simp add: em_run zero_spt_def)
  then have "insert_rounds (Suc n) 0 x path [] zero_spt z = Inr ((0, path', []), z2)" for n
    using d(1) by (simp add: em_run)
  from this [of 65536] have "insert_rounds 65537 0 x path [] zero_spt z = Inr ((0, path', []), z2)" by simp
  then show ?thesis using d full by (simp add: ext4_ext_insert_extent_def em_run)
qed

lemma insert_extent_root:
  assumes m: "node_at In_inode z = m" and depth: "eh_depth (eh_of m) = 0"
    and room: "leaf_room m e i" and mx: "e < unat (eh_max (eh_of m))"
    and path: "root_path (node_exts m) (ee_block x) path" and nm: "\<not> mergeable (node_exts m) x"
    and i: "i = place_for (node_exts m) x"
  shows "\<exists>path'. ext4_ext_insert_extent path x z = Inr ((0, path'), mark_dirty (with_root (leaf_inserted m i x) z))"
proof -
  let ?z2 = "mark_dirty (with_root (leaf_inserted m i x) z)"
  note r = leaf_roomD [OF room]
  obtain path' where ins: "ext4_ext_insert_leaf path 0 x zero_spt z = Inr ((0, path', zero_spt), ?z2)"
    using insert_leaf_root [OF m depth room mx path nm i] by blast
  have d: "ext_depth z = Inr (0, z)" "ext_depth ?z2 = Inr (0, ?z2)"
    using m depth r inserted_length [OF room, of x] inserted_hdr [OF room, of x] by (simp_all add: ext_depth_def em_run)
  have "eh_entries (eh_of m) < eh_max (eh_of m)" using r(1) mx by (simp add: word_less_nat_alt)
  then show ?thesis
    using insert_from_leaf [OF d _ _ _ _ ins] path m r by (auto simp: root_path_def)
qed

text \<open>The leaf after the insertion is a tree that the lookup of the code can walk.\<close>

lemma inserted_wf:
  assumes room: "leaf_room m e i" and depth: "eh_depth (eh_of m) = 0" and leaf: "leaf_in (take i (node_exts m) @ x # drop i (node_exts m)) lo hi"
  shows "eh_depth (eh_of (leaf_inserted m i x)) = 0" "tree_wf v 0 (leaf_inserted m i x) lo hi"
proof -
  note r = leaf_roomD [OF room]
  have "unat (eh_entries (eh_of m) + 1) = Suc e"
    using r(1,4) unat_add_lem [of "eh_entries (eh_of m)" 1] by simp
  then show "tree_wf v 0 (leaf_inserted m i x) lo hi"
    using room leaf by (auto simp: inserted_exts [OF room] node_fits_def inserted_hdr [OF room] inserted_length [OF room] leaf_room_def)
  show "eh_depth (eh_of (leaf_inserted m i x)) = 0" using depth by (simp add: inserted_hdr [OF room])
qed

text \<open>C28: Inserting an extent that overlaps no other and merges with none into a root leaf with room keeps
  the leaf sorted, marks the inode dirty and writes no block. Afterwards the lookup of the code maps every block of the
  new extent to the block of the device that belongs to it, and every other block as the old extents did.\<close>

theorem extent_insert_then_lookup:
  fixes inode :: inode and fs :: fs
  defines "root \<equiv> i_block (raw_inode inode)"
  assumes "length root = 60" "eh_depth (eh_of root) = 0" "eh_max (eh_of root) \<le> 4" "eh_entries (eh_of root) < eh_max (eh_of root)"
    and "leaf_in (node_exts root) 0 (2 ^ 32)" "unat (ee_block x) < ext_end x" "ext_end x \<le> 2 ^ 32"
    and "\<forall>y\<in>set (node_exts root). ext_apart x y" "\<not> mergeable (node_exts root) x" and ok: "fs_ok fs"
  shows "\<exists>path path' inode'. ext4_find_extent (ee_block x) None (inode, fs) = Inr ((0, Some path), inode, fs) \<and>
    ext4_ext_insert_extent path x (inode, fs) = Inr ((0, path'), inode', fs) \<and> i_data_dirty inode' \<and>
    leaf_in (node_exts (i_block (raw_inode inode'))) 0 (2 ^ 32) \<and>
    (\<forall>b. find (ext_covers b) (node_exts (i_block (raw_inode inode'))) =
       (if ext_covers b x then Some x else find (ext_covers b) (node_exts root))) \<and>
    (\<forall>b. \<exists>fs'. extent_get_pblock_new b None False (inode', fs) =
       Inr ((case if ext_covers b x then Some x else find (ext_covers b) (node_exts root) of
               None \<Rightarrow> 0 | Some y \<Rightarrow> ext4_ext_pblock y + ucast (b - ee_block y), None), inode', fs') \<and>
       fs_ok fs' \<and> view (bdev fs') = view (bdev fs) \<and> refs (bdev fs') = refs (bdev fs))"
proof -
  let ?z = "(inode, fs)" and ?xs = "node_exts root"
  define e where "e = unat (eh_entries (eh_of root))"
  define i where "i = place_for ?xs x"
  have m: "node_at In_inode ?z = root" by (simp add: node_at_def node_bytes_def root_def)
  have e: "e < unat (eh_max (eh_of root))" "unat (eh_max (eh_of root)) \<le> 4"
    using assms(4,5) by (simp_all add: e_def word_less_nat_alt word_le_nat_alt)
  then have room: "leaf_room root e i"
    using place_for_bound [of ?xs x] assms(2) by (simp add: leaf_room_def e_def i_def entry_off_def)
  have fits: "node_fits root" using e assms(2) by (simp add: node_fits_def entry_off_def e_def)
  obtain path where path: "ext4_find_extent (ee_block x) None ?z = Inr ((0, Some path), ?z)" "root_path ?xs (ee_block x) path"
    using find_extent_root [OF m fits assms(3,6)] by blast
  obtain path' where ins: "ext4_ext_insert_extent path x ?z = Inr ((0, path'), mark_dirty (with_root (leaf_inserted root i x) ?z))"
    using insert_extent_root [OF m assms(3) room e(1) path(2) assms(10) i_def] by blast
  have root': "i_block (raw_inode (fst (mark_dirty (with_root (leaf_inserted root i x) ?z)))) = leaf_inserted root i x"
    by (simp add: mark_dirty_def with_root_def inode_mark_dirty_def)
  have leaf: "leaf_in (take i ?xs @ x # drop i ?xs) 0 (2 ^ 32)"
    unfolding i_def using assms(9) by (intro place_for_sorted [OF assms(6) _ assms(7,8)]) simp_all
  let ?inode' = "fst (mark_dirty (with_root (leaf_inserted root i x) ?z))"
  have find: "find (ext_covers b) (node_exts (i_block (raw_inode ?inode'))) =
      (if ext_covers b x then Some x else find (ext_covers b) ?xs)" for b
    using inserted_exts [OF room, of x] place_for_found [OF assms(6) leaf] root' by simp
  have look: "\<exists>fs'. extent_get_pblock_new b None False (?inode', fs) =
       Inr ((case if ext_covers b x then Some x else find (ext_covers b) ?xs of
               None \<Rightarrow> 0 | Some y \<Rightarrow> ext4_ext_pblock y + ucast (b - ee_block y), None), ?inode', fs') \<and>
       fs_ok fs' \<and> view (bdev fs') = view (bdev fs) \<and> refs (bdev fs') = refs (bdev fs)" for b
    using extent_lookup_run [of fs ?inode' b None] ok inserted_wf [OF room assms(3) leaf] find [of b] unfolding root'
    by (auto split: option.splits)
  show ?thesis
    using path(1) ins inserted_exts [OF room, of x] leaf find look root'
    by (intro exI [of _ path] exI [of _ path'] exI [of _ ?inode'])
      (simp add: prod_eq_iff)
qed

text \<open>A root leaf with the one extent that maps the blocks 1 to 3 to 100 to 102.\<close>

definition demo_leaf_inode :: inode where
  "demo_leaf_inode = demo_inode\<lparr>raw_inode := (raw_inode demo_inode)\<lparr>i_block :=
     eh_bytes \<lparr>eh_magic = EXT4_EXT_MAGIC, eh_entries = 1, eh_max = 4, eh_depth = 0, eh_generation = 0\<rparr> @
     ext_bytes \<lparr>ee_block = 1, ee_len = 3, ee_start_hi = 0, ee_start_lo = 100\<rparr> @ replicate 36 0\<rparr>\<rparr>"

lemma demo_leaf_root:
  "length (i_block (raw_inode demo_leaf_inode)) = 60"
  "eh_of (i_block (raw_inode demo_leaf_inode)) =
     \<lparr>eh_magic = EXT4_EXT_MAGIC, eh_entries = 1, eh_max = 4, eh_depth = 0, eh_generation = 0\<rparr>"
  "node_exts (i_block (raw_inode demo_leaf_inode)) = [\<lparr>ee_block = 1, ee_len = 3, ee_start_hi = 0, ee_start_lo = 100\<rparr>]"
proof -
  let ?r = "i_block (raw_inode demo_leaf_inode)"
  have r: "?r = eh_bytes \<lparr>eh_magic = EXT4_EXT_MAGIC, eh_entries = 1, eh_max = 4, eh_depth = 0, eh_generation = 0\<rparr> @
     ext_bytes \<lparr>ee_block = 1, ee_len = 3, ee_start_hi = 0, ee_start_lo = 100\<rparr> @ replicate 36 0"
    by (simp add: demo_leaf_inode_def)
  then show "length ?r = 60" by simp
  show h: "eh_of ?r = \<lparr>eh_magic = EXT4_EXT_MAGIC, eh_entries = 1, eh_max = 4, eh_depth = 0, eh_generation = 0\<rparr>"
    unfolding r by (rule eh_of_bytes)
  show "node_exts ?r = [\<lparr>ee_block = 1, ee_len = 3, ee_start_hi = 0, ee_start_lo = 100\<rparr>]"
    using h by (simp add: node_exts_def upt_rec entry_off_def r ext_of_def eh_bytes_def ext_bytes_def codec_simps)
qed

theorem extent_insert_then_lookup_witness:
  "\<exists>path path' inode' fs1 fs2. ext4_ext_insert_extent path \<lparr>ee_block = 10, ee_len = 2, ee_start_hi = 0, ee_start_lo = 200\<rparr>
      (demo_leaf_inode, demo_fs) = Inr ((0, path'), inode', demo_fs) \<and>
    extent_get_pblock_new 11 None False (inode', demo_fs) = Inr ((201, None), inode', fs1) \<and>
    extent_get_pblock_new 2 None False (inode', demo_fs) = Inr ((101, None), inode', fs2)"
proof -
  let ?x = "\<lparr>ee_block = 10, ee_len = 2, ee_start_hi = 0, ee_start_lo = 200\<rparr>"
    and ?y = "\<lparr>ee_block = 1, ee_len = 3, ee_start_hi = 0, ee_start_lo = 100\<rparr>"
  have len: "ext_end ?x = 12" "ext_end ?y = 4" by (simp_all add: ext_end_def ext4_ext_get_actual_len_def)
  have pb: "ext4_ext_pblock ?x = 200" "ext4_ext_pblock ?y = 100" by (simp_all add: ext4_ext_pblock_def)
  have "\<not> mergeable [?y] ?x"
    by (simp add: mergeable_def last_le_def Let_def ext4_ext_can_append_def ext4_ext_can_prepend_def
        ext4_ext_get_actual_len_def)
  from extent_insert_then_lookup [of demo_leaf_inode ?x demo_fs, unfolded demo_leaf_root, OF refl _ _ _ _ _ _ _ this demo_fs_ok(1)]
  obtain path path' inode' where a: "ext4_ext_insert_extent path ?x (demo_leaf_inode, demo_fs) = Inr ((0, path'), inode', demo_fs)"
    "\<forall>b. \<exists>fs'. extent_get_pblock_new b None False (inode', demo_fs) =
       Inr ((case if ext_covers b ?x then Some ?x else find (ext_covers b) [?y] of
               None \<Rightarrow> 0 | Some y \<Rightarrow> ext4_ext_pblock y + ucast (b - ee_block y), None), inode', fs') \<and>
       fs_ok fs' \<and> view (bdev fs') = view (bdev demo_fs) \<and> refs (bdev fs') = refs (bdev demo_fs)"
    using len by (auto simp: ext_apart_def)
  have c: "ext_covers 11 ?x" "\<not> ext_covers 2 ?x" "ext_covers 2 ?y" using len by (simp_all add: ext_covers_def)
  show ?thesis
    using a(1) a(2) [rule_format, of 11] a(2) [rule_format, of 2] c pb by auto
qed

section \<open>Merging in front of an extent\<close>

lemma merge_len_fields:
  "ext4_ext_pblock (merge_len y x) = ext4_ext_pblock y" "ee_block (merge_len y x) = ee_block y"
  by (simp_all add: merge_len_def Let_def ext4_ext_mark_unwritten_def ext4_ext_pblock_def)

text \<open>C31: When the new extent ends exactly where the first extent of the leaf starts, on the device as in the
  file, the two are merged, but the merged extent keeps the physical start of the old one: the first block of
  the new extent is mapped to a block that is not its own (a defect of ext4_ext_insert_leaf()).\<close>

theorem extent_prepend_keeps_old_start:
  fixes inode :: inode and fs :: fs
  defines "root \<equiv> i_block (raw_inode inode)"
  assumes "node_fits root" "eh_depth (eh_of root) = 0" "eh_entries (eh_of root) < eh_max (eh_of root)"
    and xs: "node_exts root = y # ys" "leaf_in (y # ys) 0 (2 ^ 32)"
    and x: "ee_block x < ee_block y" "0 < ext4_ext_get_actual_len x" "ext4_ext_can_prepend y x" "\<not> ext4_ext_can_append y x"
  shows "\<exists>path path' inode'. ext4_find_extent (ee_block x) None (inode, fs) = Inr ((0, Some path), inode, fs) \<and>
    ext4_ext_insert_extent path x (inode, fs) = Inr ((0, path'), inode', fs) \<and>
    (\<exists>y'. ext_of (i_block (raw_inode inode')) (entry_off 0) = y' \<and> ee_block y' = ee_block x \<and>
      ext4_ext_pblock y' = ext4_ext_pblock y \<and> ext4_ext_pblock y' \<noteq> ext4_ext_pblock x)"
proof -
  let ?z = "(inode, fs)" and ?m = "merge_len (y\<lparr>ee_block := ee_block x\<rparr>) x"
  let ?z2 = "mark_dirty (with_root (splice root (entry_off 0) (ext_bytes ?m)) ?z)"
  have m: "node_at In_inode ?z = root" by (simp add: node_at_def node_bytes_def root_def)
  obtain path where path: "ext4_find_extent (ee_block x) None ?z = Inr ((0, Some path), ?z)"
    "root_path (node_exts root) (ee_block x) path"
    using find_extent_root [OF m assms(2,3)] xs by metis
  have "last_le (ee_block y # map ee_block ys) (ee_block x) = 0"
  proof (rule last_le_eqI)
    assume "Suc 0 < length (ee_block y # map ee_block ys)"
    moreover from this have "ee_block y \<le> ee_block (hd ys)"
      using leaf_keys_sorted [OF xs(2)] by (cases ys) auto
    ultimately show "ee_block x < (ee_block y # map ee_block ys) ! Suc 0" using x(1) by (cases ys) auto
  qed simp_all
  then have p: "0 < length path" "p_hdr (path ! 0) = Some In_inode" "p_bh (path ! 0) = None" "p_ext (path ! 0) = Some (In_inode, 0)"
    using path(2) xs(1) by (simp_all add: root_path_def)
  have pos: "0 < unat (eh_entries (eh_of root))" using arg_cong [OF xs(1), of length] by simp
  have y: "ext_of root (entry_off 0) = y" using arg_cong [OF xs(1), of "\<lambda>l. l ! 0"] pos by simp
  have off: "entry_off 0 + 12 \<le> length root" using node_fitsD(2) [OF assms(2) pos] .
  note run = em_run m
  have "get_ext In_inode 0 ?z = Inr (y, ?z)" using off y by (simp add: run)
  moreover have "put_ext In_inode 0 ?m ?z = Inr ((), with_root (splice root (entry_off 0) (ext_bytes ?m)) ?z)"
    using off by (simp add: put_ext_def run)
  moreover have "get_ext In_inode 0 ?z2 = Inr (?m, ?z2)" using off by (simp add: run)
  ultimately have "\<exists>path'. ext4_ext_insert_leaf path 0 x zero_spt ?z = Inr ((0, path', zero_spt), ?z2)"
    using p x by (simp add: em_run ext4_ext_insert_leaf_def Let_def insert_done_def note_ext_def ext4_ext_dirty_def zero_spt_def)
  then obtain path' where ins: "ext4_ext_insert_leaf path 0 x zero_spt ?z = Inr ((0, path', zero_spt), ?z2)" by blast
  have d: "ext_depth ?z = Inr (0, ?z)" "ext_depth ?z2 = Inr (0, ?z2)"
    using assms(3) off m eh_of_other [of "entry_off 0" "ext_bytes ?m" root] by (simp_all add: ext_depth_def em_run entry_off_def)
  have ext: "ext4_ext_insert_extent path x ?z = Inr ((0, path'), ?z2)"
    using insert_from_leaf [OF d _ _ p(1,2) ins] assms(4) m off by (simp add: entry_off_def)
  have "unat (of_nat (nat (ext4_ext_get_actual_len x)) :: u64) = nat (ext4_ext_get_actual_len x)"
    using actual_len_le [of x] by (simp add: unat_of_nat)
  then have "(of_int (ext4_ext_get_actual_len x) :: u64) \<noteq> 0" using x(2) by auto
  then have "ext4_ext_pblock y \<noteq> ext4_ext_pblock x" using x(3) by (auto simp: ext4_ext_can_prepend_def)
  then show ?thesis
    using path(1) ext off merge_len_fields [of "y\<lparr>ee_block := ee_block x\<rparr>" x]
    by (intro exI [of _ path] exI [of _ path'] exI [of _ "fst ?z2"])
      (simp add: prod_eq_iff mark_dirty_def with_root_def inode_mark_dirty_def ext4_ext_pblock_def)
qed

theorem extent_prepend_keeps_old_start_witness:
  "\<exists>path path' inode'. ext4_ext_insert_extent path \<lparr>ee_block = 0, ee_len = 1, ee_start_hi = 0, ee_start_lo = 99\<rparr>
      (demo_leaf_inode, demo_fs) = Inr ((0, path'), inode', demo_fs) \<and>
    ee_block (ext_of (i_block (raw_inode inode')) (entry_off 0)) = 0 \<and>
    ext4_ext_pblock (ext_of (i_block (raw_inode inode')) (entry_off 0)) = 100"
proof -
  let ?x = "\<lparr>ee_block = 0, ee_len = 1, ee_start_hi = 0, ee_start_lo = 99\<rparr>"
    and ?y = "\<lparr>ee_block = 1, ee_len = 3, ee_start_hi = 0, ee_start_lo = 100\<rparr>"
  have merge: "ext4_ext_can_prepend ?y ?x" "\<not> ext4_ext_can_append ?y ?x"
    by (simp_all add: ext4_ext_can_append_def ext4_ext_can_prepend_def ext4_ext_get_actual_len_def ext4_ext_pblock_def
        merged_len_ok_def ext4_ext_is_unwritten_def)
  have p: "ext4_ext_pblock ?y = 100" by (simp add: ext4_ext_pblock_def)
  have "node_fits (i_block (raw_inode demo_leaf_inode))"
    by (simp add: node_fits_def demo_leaf_root entry_off_def)
  from extent_prepend_keeps_old_start [of demo_leaf_inode ?y "[]" ?x demo_fs, OF this, unfolded demo_leaf_root, OF _ _ refl _ _ _ merge]
  show ?thesis unfolding p by (fastforce simp: ext_end_def ext4_ext_get_actual_len_def)
qed

end
