(* ===== verification/E4F_Dcache.thy ===== *)
theory E4F_Dcache
  imports E4F_Prelude
begin

text \<open>
  The cache of directory entries: src/dcache.c with the structure of src/types/e4f_dcache.h on a 64-bit
  machine. Entries live at addresses of a heap, the static root entry at address 0; the children of an
  entry form a circular list through their sibling pointers. A name argument is the content of a C
  string up to its terminating zero. Allocation with calloc() succeeds.
\<close>

section \<open>Definitions\<close>

abbreviation (input) DCACHE_ENTRY_NAME_LEN :: nat where "DCACHE_ENTRY_NAME_LEN \<equiv> 40"

record dcache_entry =
  d_childs :: "nat option"
  d_siblings :: "nat option"
  d_inode :: u32
  d_lru_count :: u16
  d_user_count :: u8
  d_name :: bytes

record dcache =
  d_heap :: "nat \<Rightarrow> dcache_entry option"
  d_next :: nat

definition empty_entry :: dcache_entry where
  "empty_entry = \<lparr>d_childs = None, d_siblings = None, d_inode = 0, d_lru_count = 0, d_user_count = 0,
     d_name = replicate DCACHE_ENTRY_NAME_LEN 0\<rparr>"

definition dcache_start :: dcache where
  "dcache_start = \<lparr>d_heap = [0 \<mapsto> empty_entry], d_next = 1\<rparr>"

definition d_root :: nat where "d_root = 0"

text \<open>A null pointer stands for the root.\<close>

definition dref :: "nat option \<Rightarrow> nat" where
  "dref parent = (case parent of None \<Rightarrow> d_root | Some p \<Rightarrow> p)"

definition d_upd :: "nat \<Rightarrow> (dcache_entry \<Rightarrow> dcache_entry) \<Rightarrow> dcache \<Rightarrow> dcache" where
  "d_upd a f d = d\<lparr>d_heap := (d_heap d)(a := map_option f (d_heap d a))\<rparr>"

definition d_get :: "nat \<Rightarrow> dcache \<Rightarrow> dcache_entry res" where
  "d_get a d = (case d_heap d a of None \<Rightarrow> Inl Undefined | Some e \<Rightarrow> Inr e)"

definition dcache_init_root :: "u32 \<Rightarrow> dcache \<Rightarrow> (int \<times> dcache) res" where
  "dcache_init_root n d =
     res_bind (d_get d_root d) (\<lambda>root.
       if d_inode root \<noteq> 0 then Inr (-1, d)
       else Inr (0, d_upd d_root (\<lambda>e. e\<lparr>d_inode := n, d_childs := None\<rparr>) d))"

text \<open>strncpy() with \<open>n\<close> bytes into a cleared array, and the terminating zero.\<close>

definition entry_name :: "bytes \<Rightarrow> nat \<Rightarrow> bytes" where
  "entry_name name n =
     take n (name @ replicate n 0) @ replicate (DCACHE_ENTRY_NAME_LEN - n) 0"

definition dcache_insert :: "nat option \<Rightarrow> bytes \<Rightarrow> nat \<Rightarrow> u32 \<Rightarrow> dcache \<Rightarrow> (nat option \<times> dcache) res" where
  "dcache_insert parent name namelen n d =
     (if namelen + 1 > DCACHE_ENTRY_NAME_LEN then Inr (None, d)
      else
       (let p = dref parent
        in res_bind (d_get p d) (\<lambda>pe.
           res_bind (c_assert (parent = None \<longrightarrow> d_inode pe \<noteq> 0)) (\<lambda>_.
             (let new = d_next d;
                  e = empty_entry\<lparr>d_name := entry_name name namelen, d_inode := n\<rparr>
              in case d_childs pe of
                   None \<Rightarrow>
                     (let d = d\<lparr>d_heap := (d_heap d)(new \<mapsto> e\<lparr>d_siblings := Some new\<rparr>), d_next := new + 1\<rparr>
                      in Inr (Some new, d_upd p (\<lambda>x. x\<lparr>d_childs := Some new\<rparr>) d))
                 | Some c \<Rightarrow>
                     res_bind (d_get c d) (\<lambda>ce.
                       (let d = d\<lparr>d_heap := (d_heap d)(new \<mapsto> e\<lparr>d_siblings := d_siblings ce\<rparr>), d_next := new + 1\<rparr>;
                            d = d_upd c (\<lambda>x. x\<lparr>d_siblings := Some new\<rparr>) d
                        in Inr (Some new, d_upd p (\<lambda>x. x\<lparr>d_childs := Some new\<rparr>) d))))))))"

text \<open>strncmp(a, b, n) == 0; a string ends at its first zero or at the end of the list.\<close>

fun strncmp_eq :: "bytes \<Rightarrow> bytes \<Rightarrow> nat \<Rightarrow> bool" where
  "strncmp_eq a b 0 = True"
| "strncmp_eq a b (Suc n) =
     (let x = (case a of [] \<Rightarrow> 0 | c # _ \<Rightarrow> c); y = (case b of [] \<Rightarrow> 0 | c # _ \<Rightarrow> c)
      in x = y \<and> (x = 0 \<or> strncmp_eq (tl a) (tl b) n))"

text \<open>
  The walk over the siblings. It does not change the heap, so a walk over more entries than the heap
  has never comes back to its start: the counter starts with that number.
\<close>

fun dcache_scan :: "nat \<Rightarrow> nat \<Rightarrow> nat \<Rightarrow> bytes \<Rightarrow> nat \<Rightarrow> dcache \<Rightarrow> nat option res" where
  "dcache_scan 0 start iter name namelen d = Inl Diverge"
| "dcache_scan (Suc k) start iter name namelen d =
     res_bind (d_get iter d) (\<lambda>e.
     res_bind (if strncmp_eq (d_name e) name namelen
               then res_bind (c_defined (namelen < DCACHE_ENTRY_NAME_LEN)) (\<lambda>_. Inr (d_name e ! namelen = 0))
               else Inr False) (\<lambda>found.
       if found then Inr (Some iter)
       else case d_siblings e of
         None \<Rightarrow> Inl Undefined
       | Some nxt \<Rightarrow> if nxt \<noteq> start then dcache_scan k start nxt name namelen d else Inr None))"

definition dcache_lookup :: "nat option \<Rightarrow> bytes \<Rightarrow> nat \<Rightarrow> dcache \<Rightarrow> (nat option \<times> dcache) res" where
  "dcache_lookup parent name namelen d =
     (let p = dref parent
      in res_bind (d_get p d) (\<lambda>pe.
         case d_childs pe of
           None \<Rightarrow> Inr (None, d)
         | Some c \<Rightarrow>
             res_bind (dcache_scan (d_next d) c c name namelen d) (\<lambda>r.
               Inr (r, case r of None \<Rightarrow> d | Some i \<Rightarrow> d_upd p (\<lambda>x. x\<lparr>d_childs := Some i\<rparr>) d))))"

definition dcache_get_inode :: "nat option \<Rightarrow> dcache \<Rightarrow> u32 res" where
  "dcache_get_inode e d = res_bind (d_get (dref e) d) (\<lambda>x. Inr (d_inode x))"

section \<open>Names\<close>

definition d_string :: "bytes \<Rightarrow> bytes" where
  "d_string = takeWhile (\<lambda>c. c \<noteq> 0)"

text \<open>A token: \<open>n\<close> bytes of the string, none of them the terminating zero.\<close>

definition token :: "bytes \<Rightarrow> nat \<Rightarrow> bool" where
  "token nm n \<longleftrightarrow> n \<le> length nm \<and> 0 \<notin> set (take n nm)"

lemma strncmp_eq_prefix:
  "token nm n \<Longrightarrow> strncmp_eq a nm n \<longleftrightarrow> take n nm = take n a"
proof (induction n arbitrary: a nm)
  case (Suc n)
  then obtain y ys where nm: "nm = y # ys" "y \<noteq> 0" "token ys n" by (cases nm) (auto simp: token_def)
  show ?case
  proof (cases a)
    case Nil
    then show ?thesis using nm by simp
  next
    case (Cons x xs)
    then show ?thesis using nm Suc.IH [OF nm(3)] by (auto simp: Let_def)
  qed
qed simp

lemma d_string_take:
  assumes "0 \<notin> set (take n a)" "n < length a" "a ! n = 0"
  shows "d_string a = take n a"
proof -
  have "a = take n a @ a ! n # drop (Suc n) a" using assms(2) by (rule id_take_nth_drop)
  then have "d_string a = takeWhile (\<lambda>c. c \<noteq> 0) (take n a @ a ! n # drop (Suc n) a)" by (simp add: d_string_def)
  also have "\<dots> = take n a" using assms(1,3) by (subst takeWhile_append2) auto
  finally show ?thesis .
qed

lemma strncmp_found:
  assumes t: "token nm n" and z: "0 \<in> set a" and eq: "strncmp_eq a nm n"
  shows "n < length a" "a ! n = 0 \<longleftrightarrow> d_string a = take n nm"
proof -
  have p: "take n nm = take n a" using eq strncmp_eq_prefix [OF t] by simp
  show n: "n < length a"
  proof (rule ccontr)
    assume "\<not> n < length a"
    then have "take n a = a" by simp
    then show False using t z p by (simp add: token_def)
  qed
  have nz: "0 \<notin> set (take n a)" using t p by (simp add: token_def)
  show "a ! n = 0 \<longleftrightarrow> d_string a = take n nm"
  proof
    assume "a ! n = 0"
    then show "d_string a = take n nm" using d_string_take [OF nz n] p by simp
  next
    assume d: "d_string a = take n nm"
    have "length (d_string a) = n" using d p n by simp
    then show "a ! n = 0"
      using nth_length_takeWhile [of "\<lambda>c. c \<noteq> 0" a] n by (simp add: d_string_def)
  qed
qed

lemma strncmp_not_found:
  assumes "token nm n" "\<not> strncmp_eq a nm n"
  shows "d_string a \<noteq> take n nm"
proof
  assume d: "d_string a = take n nm"
  then have "length (d_string a) = n" using assms(1) by (simp add: token_def)
  moreover have "d_string a = take (length (d_string a)) a" by (simp add: d_string_def takeWhile_eq_take [symmetric])
  ultimately show False using assms strncmp_eq_prefix [OF assms(1), of a] d by simp
qed

lemma entry_name_string:
  assumes "token nm n" "n < DCACHE_ENTRY_NAME_LEN"
  shows "d_string (entry_name nm n) = take n nm" "length (entry_name nm n) = DCACHE_ENTRY_NAME_LEN" "0 \<in> set (entry_name nm n)"
proof -
  have e: "entry_name nm n = take n nm @ replicate (DCACHE_ENTRY_NAME_LEN - n) 0"
    using assms(1) by (simp add: entry_name_def token_def)
  have l: "length (take n nm) = n" using assms(1) by (simp add: token_def)
  have "(take n nm @ replicate (DCACHE_ENTRY_NAME_LEN - n) 0) ! n = 0"
    using assms(2) l by (simp add: nth_append)
  then show "d_string (entry_name nm n) = take n nm"
    unfolding e using d_string_take [of n "take n nm @ replicate (DCACHE_ENTRY_NAME_LEN - n) 0"] assms l
    by (simp add: token_def)
  show "length (entry_name nm n) = DCACHE_ENTRY_NAME_LEN" using assms l by (simp add: e)
  show "0 \<in> set (entry_name nm n)" using assms(2) by (simp add: e)
qed

section \<open>The rings of children\<close>

definition entry_at :: "dcache \<Rightarrow> nat \<Rightarrow> dcache_entry" where
  "entry_at d a = the (d_heap d a)"

definition name_at :: "dcache \<Rightarrow> nat \<Rightarrow> bytes" where
  "name_at d a = d_string (d_name (entry_at d a))"

text \<open>\<open>K p\<close> lists the children of \<open>p\<close> in the order of the ring, from the one that \<open>p\<close> points to.\<close>

definition ring :: "dcache \<Rightarrow> nat list \<Rightarrow> bool" where
  "ring d xs \<longleftrightarrow> (\<forall>i < length xs. d_siblings (entry_at d (xs ! i)) = Some (xs ! (Suc i mod length xs)))"

definition dc_rings :: "dcache \<Rightarrow> (nat \<Rightarrow> nat list) \<Rightarrow> bool" where
  "dc_rings d K \<longleftrightarrow> 0 < d_next d \<and> (\<forall>p. d_heap d p \<noteq> None \<longleftrightarrow> p < d_next d) \<and>
     (\<forall>p < d_next d. d_childs (entry_at d p) = (if K p = [] then None else Some (hd (K p))) \<and>
        set (K p) \<subseteq> {0 <..< d_next d} \<and> distinct (K p) \<and> ring d (K p)) \<and>
     (\<forall>p q. p \<noteq> q \<longrightarrow> set (K p) \<inter> set (K q) = {}) \<and> (\<forall>p \<ge> d_next d. K p = []) \<and>
     (\<forall>e. 0 < e \<longrightarrow> e < d_next d \<longrightarrow> length (d_name (entry_at d e)) = DCACHE_ENTRY_NAME_LEN \<and> 0 \<in> set (d_name (entry_at d e)))"

lemma d_get_entry: "dc_rings d K \<Longrightarrow> p < d_next d \<Longrightarrow> d_get p d = Inr (entry_at d p) \<and> d_heap d p = Some (entry_at d p)"
  by (auto simp: dc_rings_def d_get_def entry_at_def split: option.split)

lemma dc_ringsD:
  assumes "dc_rings d K"
  shows "0 < d_next d" "d_heap d p \<noteq> None \<longleftrightarrow> p < d_next d"
    "p < d_next d \<Longrightarrow> d_childs (entry_at d p) = (if K p = [] then None else Some (hd (K p)))"
    "e \<in> set (K p) \<Longrightarrow> 0 < e \<and> e < d_next d \<and> p < d_next d" "distinct (K p)" "ring d (K p)"
    "p \<noteq> q \<Longrightarrow> e \<in> set (K p) \<Longrightarrow> e \<notin> set (K q)" "d_next d \<le> p \<Longrightarrow> K p = []"
    "0 < e \<Longrightarrow> e < d_next d \<Longrightarrow> length (d_name (entry_at d e)) = DCACHE_ENTRY_NAME_LEN \<and> 0 \<in> set (d_name (entry_at d e))"
proof -
  have s: "set (K p) \<subseteq> {0 <..< d_next d}" "distinct (K p)" "ring d (K p)" if "p < d_next d" for p
    using assms that unfolding dc_rings_def by blast+
  have o: "K p = []" if "d_next d \<le> p" for p using assms that unfolding dc_rings_def by blast
  show "e \<in> set (K p) \<Longrightarrow> 0 < e \<and> e < d_next d \<and> p < d_next d"
    using s(1) [of p] o [of p] by (cases "p < d_next d") auto
  show "distinct (K p)" "ring d (K p)"
    using s(2,3) [of p] o [of p] by (cases "p < d_next d"; simp add: ring_def)+
  show "p \<noteq> q \<Longrightarrow> e \<in> set (K p) \<Longrightarrow> e \<notin> set (K q)" using assms unfolding dc_rings_def by blast
qed (use assms in \<open>simp_all add: dc_rings_def\<close>)

lemma dcache_scan_ring:
  assumes r: "dc_rings d K" and p: "p < d_next d" and t: "token nm n"
  shows "i < length (K p) \<Longrightarrow> length (K p) - i \<le> k \<Longrightarrow>
    dcache_scan k (hd (K p)) (K p ! i) nm n d = Inr (List.find (\<lambda>e. name_at d e = take n nm) (drop i (K p)))"
proof (induction k arbitrary: i)
  case (Suc k)
  let ?e = "entry_at d (K p ! i)"
  have e: "0 < K p ! i" "K p ! i < d_next d"
    using dc_ringsD(4) [OF r nth_mem [OF Suc.prems(1)]] by auto
  have wf: "length (d_name ?e) = DCACHE_ENTRY_NAME_LEN" "0 \<in> set (d_name ?e)" using dc_ringsD(9) [OF r e] by auto
  have sib: "d_siblings ?e = Some (K p ! (Suc i mod length (K p)))"
    using dc_ringsD(6) [OF r] Suc.prems(1) by (simp add: ring_def)
  have dr: "drop i (K p) = K p ! i # drop (Suc i) (K p)" using Suc.prems(1) by (rule Cons_nth_drop_Suc [symmetric])
  have found: "(if strncmp_eq (d_name ?e) nm n
       then res_bind (c_defined (n < DCACHE_ENTRY_NAME_LEN)) (\<lambda>_. Inr (d_name ?e ! n = 0))
       else Inr False) = Inr (name_at d (K p ! i) = take n nm)"
    using strncmp_found [OF t wf(2)] strncmp_not_found [OF t, of "d_name ?e"] wf(1) by (simp add: name_at_def)
  show ?case
  proof (cases "Suc i < length (K p)")
    case True
    then have "K p \<noteq> []" by auto
    with True have "K p ! Suc i \<noteq> hd (K p)"
      using nth_eq_iff_index_eq [OF dc_ringsD(5) [OF r], of "Suc i" p 0] by (simp add: hd_conv_nth)
    then show ?thesis using Suc.IH [of "Suc i"] Suc.prems True d_get_entry [OF r e(2)] found sib by (simp add: dr)
  next
    case False
    then have "Suc i = length (K p)" using Suc.prems(1) by simp
    then have "Suc i mod length (K p) = 0" "K p ! 0 = hd (K p)" using Suc.prems(1)
      by (cases "K p"; simp)+
    then show ?thesis using False d_get_entry [OF r e(2)] found sib Suc.prems(1) by (simp add: dr)
  qed
qed simp

lemma entry_at_upd: "entry_at (d_upd a f d) b = (if b = a \<and> d_heap d a \<noteq> None then f (entry_at d a) else entry_at d b)"
  by (auto simp: entry_at_def d_upd_def)

lemma d_upd_next [simp]: "d_next (d_upd a f d) = d_next d"
  by (simp add: d_upd_def)

lemma heap_upd: "d_heap (d_upd a f d) b = None \<longleftrightarrow> d_heap d b = None"
  by (simp add: d_upd_def)

lemma ring_rotate:
  assumes "ring d xs"
  shows "ring d (rotate i xs)"
  unfolding ring_def
proof (intro allI impI)
  fix j assume j: "j < length (rotate i xs)"
  let ?n = "length xs"
  have n: "0 < ?n" using j by (cases xs) auto
  have "d_siblings (entry_at d (xs ! ((j + i) mod ?n))) = Some (xs ! (Suc ((j + i) mod ?n) mod ?n))"
    using assms n by (simp add: ring_def)
  moreover have "Suc ((j + i) mod ?n) mod ?n = (Suc j mod ?n + i) mod ?n" by (simp add: mod_Suc_eq mod_add_left_eq)
  ultimately show "d_siblings (entry_at d (rotate i xs ! j)) = Some (rotate i xs ! (Suc j mod length (rotate i xs)))"
    using j n by (simp add: nth_rotate add.commute)
qed

text \<open>Turning a ring changes no name, no inode and no set of children.\<close>

lemma turn_rings:
  assumes r: "dc_rings d K" and i: "i < length (K p)"
  shows "dc_rings (d_upd p (\<lambda>x. x\<lparr>d_childs := Some (K p ! i)\<rparr>) d) (K(p := rotate i (K p)))"
proof -
  let ?d = "d_upd p (\<lambda>x. x\<lparr>d_childs := Some (K p ! i)\<rparr>) d"
  have e: "d_name (entry_at ?d a) = d_name (entry_at d a)" "d_siblings (entry_at ?d a) = d_siblings (entry_at d a)"
    "a \<noteq> p \<Longrightarrow> d_childs (entry_at ?d a) = d_childs (entry_at d a)" for a by (simp_all add: entry_at_upd)
  have ne: "K p \<noteq> []" and pl: "p < d_next d" using i dc_ringsD(8) [OF r, of p] by (cases "d_next d \<le> p"; force)+
  have c: "d_childs (entry_at ?d p) = Some (K p ! i)" using dc_ringsD(2) [OF r, of p] pl by (simp add: entry_at_upd)
  have h: "hd (rotate i (K p)) = K p ! i" using hd_rotate_conv_nth [OF ne, of i] i by simp
  have rg: "ring ?d xs = ring d xs" for xs by (simp add: ring_def e)
  show ?thesis
    unfolding dc_rings_def
  proof (intro conjI allI impI)
    fix q assume q: "q < d_next ?d"
    show "d_childs (entry_at ?d q) = (if (K(p := rotate i (K p))) q = [] then None else Some (hd ((K(p := rotate i (K p))) q)))"
      using q e(3) [of q] c h ne dc_ringsD(3) [OF r, of q] by simp
    show "set ((K(p := rotate i (K p))) q) \<subseteq> {0 <..< d_next ?d}" using dc_ringsD(4) [OF r, of _ q] by auto
    show "distinct ((K(p := rotate i (K p))) q)" using dc_ringsD(5) [OF r] by simp
    show "ring ?d ((K(p := rotate i (K p))) q)" using dc_ringsD(6) [OF r] by (simp add: rg ring_rotate)
  next
    have "set ((K(p := rotate i (K p))) q) = set (K q)" for q by simp
    then show "set ((K(p := rotate i (K p))) a) \<inter> set ((K(p := rotate i (K p))) b) = {}" if "a \<noteq> b" for a b
      using dc_ringsD(7) [OF r that] by blast
  qed (use r dc_ringsD(2,8,9) [OF r] pl in \<open>auto simp: e heap_upd dc_rings_def\<close>)
qed

text \<open>A new entry goes to the front of the ring.\<close>

definition put_front :: "nat \<Rightarrow> nat list \<Rightarrow> nat list" where
  "put_front new xs = (case xs of [] \<Rightarrow> [new] | x # ys \<Rightarrow> new # ys @ [x])"

lemma set_put_front [simp]: "set (put_front new xs) = insert new (set xs)"
  by (cases xs) (auto simp: put_front_def)

definition insert_ring :: "nat \<Rightarrow> bytes \<Rightarrow> u32 \<Rightarrow> dcache \<Rightarrow> dcache" where
  "insert_ring p nm v d =
     (let new = d_next d;
          sib = (case d_childs (entry_at d p) of None \<Rightarrow> Some new | Some c \<Rightarrow> d_siblings (entry_at d c));
          d1 = d\<lparr>d_heap := (d_heap d)(new \<mapsto> empty_entry\<lparr>d_name := nm, d_inode := v, d_siblings := sib\<rparr>), d_next := new + 1\<rparr>;
          d2 = (case d_childs (entry_at d p) of None \<Rightarrow> d1 | Some c \<Rightarrow> d_upd c (\<lambda>x. x\<lparr>d_siblings := Some new\<rparr>) d1)
      in d_upd p (\<lambda>x. x\<lparr>d_childs := Some new\<rparr>) d2)"

lemma insert_ring_heap:
  assumes r: "dc_rings d K" and p: "p < d_next d"
  shows "d_heap (insert_ring p nm v d) b \<noteq> None \<longleftrightarrow> b < Suc (d_next d)" "d_next (insert_ring p nm v d) = Suc (d_next d)"
    "entry_at (insert_ring p nm v d) (d_next d) = empty_entry\<lparr>d_name := nm, d_inode := v,
       d_siblings := (if K p = [] then Some (d_next d) else d_siblings (entry_at d (hd (K p))))\<rparr>"
    "b \<noteq> d_next d \<Longrightarrow> entry_at (insert_ring p nm v d) b = (entry_at d b)
       \<lparr>d_childs := (if b = p then Some (d_next d) else d_childs (entry_at d b)),
        d_siblings := (if K p \<noteq> [] \<and> b = hd (K p) then Some (d_next d) else d_siblings (entry_at d b))\<rparr>"
proof -
  have ch: "d_childs (entry_at d p) = (if K p = [] then None else Some (hd (K p)))" by (rule dc_ringsD(3) [OF r p])
  have hd: "K p \<noteq> [] \<Longrightarrow> hd (K p) < d_next d" using dc_ringsD(4) [OF r, of "hd (K p)" p] by simp
  have dom: "d_heap d a \<noteq> None \<longleftrightarrow> a < d_next d" for a by (rule dc_ringsD(2) [OF r])
  show "d_heap (insert_ring p nm v d) b \<noteq> None \<longleftrightarrow> b < Suc (d_next d)"
    using dom [of b] by (auto simp: insert_ring_def Let_def heap_upd less_Suc_eq simp del: not_None_eq split: option.split)
  show "d_next (insert_ring p nm v d) = Suc (d_next d)" by (simp add: insert_ring_def Let_def split: option.split)
  have ne: "p \<noteq> d_next d" "K p \<noteq> [] \<Longrightarrow> hd (K p) \<noteq> d_next d" using p hd by auto
  show "entry_at (insert_ring p nm v d) (d_next d) = empty_entry\<lparr>d_name := nm, d_inode := v,
       d_siblings := (if K p = [] then Some (d_next d) else d_siblings (entry_at d (hd (K p))))\<rparr>"
    using ch ne by (cases "K p = []"; simp add: insert_ring_def Let_def entry_at_upd; simp add: entry_at_def)
  show "entry_at (insert_ring p nm v d) b = (entry_at d b)
       \<lparr>d_childs := (if b = p then Some (d_next d) else d_childs (entry_at d b)),
        d_siblings := (if K p \<noteq> [] \<and> b = hd (K p) then Some (d_next d) else d_siblings (entry_at d b))\<rparr>" if "b \<noteq> d_next d"
  proof -
    have e: "entry_at (d\<lparr>d_heap := (d_heap d)(d_next d \<mapsto> x), d_next := y\<rparr>) c = entry_at d c" if "c \<noteq> d_next d" for x y c
      using that by (simp add: entry_at_def)
    show ?thesis
      using ch ne dom [of p] p dom [of "hd (K p)"] hd \<open>b \<noteq> d_next d\<close>
      by (cases "K p = []"; cases "b = p"; cases "b = hd (K p)")
        (simp_all add: insert_ring_def Let_def entry_at_upd e heap_upd del: not_None_eq)
  qed
qed

lemma insert_rings:
  assumes r: "dc_rings d K" and p: "p < d_next d" and nm: "length nm = DCACHE_ENTRY_NAME_LEN" "0 \<in> set nm"
  shows "dc_rings (insert_ring p nm v d) (K(p := put_front (d_next d) (K p)))"
proof -
  let ?n = "d_next d" and ?d = "insert_ring p nm v d" and ?K = "K(p := put_front (d_next d) (K p))"
  note h = insert_ring_heap [OF r p, where nm = nm and v = v]
  have old: "e \<noteq> ?n" if "e \<in> set (K q)" for e q using dc_ringsD(4) [OF r that] by simp
  have nK: "K ?n = []" by (rule dc_ringsD(8) [OF r]) simp
  show ?thesis
    unfolding dc_rings_def
  proof (intro conjI allI impI)
    fix q assume q: "q < d_next ?d"
    show "d_childs (entry_at ?d q) = (if ?K q = [] then None else Some (hd (?K q)))"
    proof (cases "q = ?n")
      case True
      then show ?thesis using h(3) nK p by (simp add: empty_entry_def)
    next
      case False
      then show ?thesis using h(4) [OF False] q h(2) dc_ringsD(3) [OF r, of q]
        by (auto simp: put_front_def split: list.split)
    qed
    show "set (?K q) \<subseteq> {0 <..< d_next ?d}"
    proof
      fix e assume "e \<in> set (?K q)"
      then have "e = ?n \<or> e \<in> set (K q)" by (cases "q = p") simp_all
      then show "e \<in> {0 <..< d_next ?d}"
        using dc_ringsD(1) [OF r] dc_ringsD(4) [OF r, of e q] unfolding h(2) by auto
    qed
    show "distinct (?K q)"
    proof (cases "q = p")
      case True
      have "?n \<notin> set (K p)" using old [of ?n p] by blast
      then show ?thesis using True dc_ringsD(5) [OF r, of p] by (cases "K p") (simp_all add: put_front_def)
    qed (use dc_ringsD(5) [OF r, of q] in simp)
    show "ring ?d (?K q)"
    proof (cases "q = p")
      case False
      have "entry_at ?d (K q ! i) = entry_at d (K q ! i)
          \<lparr>d_childs := (if K q ! i = p then Some ?n else d_childs (entry_at d (K q ! i)))\<rparr>" if "i < length (K q)" for i
      proof -
        have "K q ! i \<notin> set (K p)" using dc_ringsD(7) [OF r False nth_mem [OF that]] .
        then have "K p \<noteq> [] \<Longrightarrow> K q ! i \<noteq> hd (K p)" using hd_in_set [of "K p"] by metis
        then show ?thesis using h(4) [OF old [OF nth_mem [OF that]]] by auto
      qed
      then show ?thesis using dc_ringsD(6) [OF r, of q] False by (simp add: ring_def)
    next
      case True
      show ?thesis
      proof (cases "K p")
        case Nil
        then show ?thesis using True h(3) by (simp add: ring_def put_front_def)
      next
        case (Cons x ys)
        have rg: "d_siblings (entry_at d ((x # ys) ! i)) = Some ((x # ys) ! (Suc i mod Suc (length ys)))" if "i < Suc (length ys)" for i
          using dc_ringsD(6) [OF r, of p] that Cons by (simp add: ring_def)
        have s0: "d_siblings (entry_at ?d ?n) = Some ((ys @ [x]) ! 0)"
          using h(3) rg [of 0] Cons by (cases ys) simp_all
        have sx: "d_siblings (entry_at ?d x) = Some ?n" using h(4) [of x] old [of x p] Cons by simp
        have sy: "d_siblings (entry_at ?d (ys ! j)) = Some ((ys @ [x]) ! Suc j)" if j: "j < length ys" for j
        proof -
          have "ys ! j \<noteq> x" using dc_ringsD(5) [OF r, of p] Cons nth_mem [OF j] by auto
          then have "d_siblings (entry_at ?d (ys ! j)) = d_siblings (entry_at d (ys ! j))"
            using h(4) [of "ys ! j"] old [of "ys ! j" p] Cons nth_mem [OF j] by simp
          moreover have "(x # ys) ! (Suc (Suc j) mod Suc (length ys)) = (ys @ [x]) ! Suc j"
          proof (cases "Suc j < length ys")
            case False
            then have "Suc j = length ys" using j by simp
            then show ?thesis by simp
          qed (simp add: nth_append)
          ultimately show ?thesis using rg [of "Suc j"] j by simp
        qed
        have K: "?K q = ?n # ys @ [x]" using True Cons by (simp add: put_front_def)
        show ?thesis
          unfolding ring_def K
        proof (intro allI impI)
          fix i assume i: "i < length (?n # ys @ [x])"
          show "d_siblings (entry_at ?d ((?n # ys @ [x]) ! i)) = Some ((?n # ys @ [x]) ! (Suc i mod length (?n # ys @ [x])))"
          proof (cases i)
            case 0
            then show ?thesis using s0 by simp
          next
            case (Suc j)
            consider "j < length ys" | "j = length ys" using i Suc by force
            then show ?thesis
              by cases (use Suc sx sy [of j] in \<open>simp_all add: nth_append\<close>)
          qed
        qed
      qed
    qed
  next
    show "set (?K a) \<inter> set (?K b) = {}" if "a \<noteq> b" for a b
    proof -
      have "set (K a) \<inter> set (K b) = {}" using dc_ringsD(7) [OF r that] by blast
      then show ?thesis using that old [of _ a] old [of _ b] by auto
    qed
    show "?K q = []" if "d_next ?d \<le> q" for q using that h(2) p dc_ringsD(8) [OF r, of q] by simp
    fix e assume e: "0 < e" "e < d_next ?d"
    show "length (d_name (entry_at ?d e)) = DCACHE_ENTRY_NAME_LEN"
      using e h(2,3) h(4) [of e] nm dc_ringsD(9) [OF r e(1)] by (cases "e = ?n") simp_all
    show "0 \<in> set (d_name (entry_at ?d e))"
      using e h(2,3) h(4) [of e] nm dc_ringsD(9) [OF r e(1)] by (cases "e = ?n") simp_all
  qed (use h in simp_all)
qed

section \<open>The cache as a map\<close>

text \<open>The children of an entry, by walking over the pointers.\<close>

inductive kid :: "dcache \<Rightarrow> nat \<Rightarrow> nat \<Rightarrow> bool" for d p where
  kid_first: "d_childs (entry_at d p) = Some e \<Longrightarrow> kid d p e"
| kid_next: "kid d p e \<Longrightarrow> d_siblings (entry_at d e) = Some e' \<Longrightarrow> kid d p e'"

definition child :: "dcache \<Rightarrow> nat \<Rightarrow> bytes \<Rightarrow> nat \<Rightarrow> bool" where
  "child d p nm e \<longleftrightarrow> p < d_next d \<and> kid d p e \<and> name_at d e = nm"

text \<open>No entry has two children of the same name.\<close>

definition dc_inv :: "dcache \<Rightarrow> bool" where
  "dc_inv d \<longleftrightarrow> (\<exists>K. dc_rings d K \<and> (\<forall>p. inj_on (name_at d) (set (K p))))"

lemma kid_iff:
  assumes r: "dc_rings d K" and p: "p < d_next d"
  shows "kid d p e \<longleftrightarrow> e \<in> set (K p)"
proof
  assume "kid d p e"
  then show "e \<in> set (K p)"
  proof induction
    case (kid_first e)
    then show ?case using dc_ringsD(3) [OF r p] by (cases "K p") simp_all
  next
    case (kid_next e e')
    then obtain i where i: "i < length (K p)" "e = K p ! i" by (auto simp: in_set_conv_nth)
    then have "e' = K p ! (Suc i mod length (K p))" using kid_next.hyps dc_ringsD(6) [OF r, of p] by (simp add: ring_def)
    moreover have "Suc i mod length (K p) < length (K p)" by (rule mod_less_divisor) (use i in auto)
    ultimately show ?case by simp
  qed
next
  have "i < length (K p) \<Longrightarrow> kid d p (K p ! i)" for i
  proof (induction i)
    case 0
    then show ?case using dc_ringsD(3) [OF r p] by (intro kid.kid_first) (auto simp: hd_conv_nth)
  next
    case (Suc i)
    then have "d_siblings (entry_at d (K p ! i)) = Some (K p ! Suc i)"
      using dc_ringsD(6) [OF r, of p] by (simp add: ring_def)
    moreover have "kid d p (K p ! i)" using Suc by simp
    ultimately show ?case by (rule kid_next [rotated])
  qed
  then show "e \<in> set (K p) \<Longrightarrow> kid d p e" by (auto simp: in_set_conv_nth)
qed

lemma child_iff: "dc_rings d K \<Longrightarrow> child d p nm e \<longleftrightarrow> e \<in> set (K p) \<and> name_at d e = nm"
  using kid_iff [of d K p e] dc_ringsD(4) [of d K e p] by (auto simp: child_def)

lemma dcache_lookup_ok:
  assumes inv: "dc_inv d" and p: "p < d_next d" "dref parent = p" and t: "token nm n"
  shows "\<exists>r d'. dcache_lookup parent nm n d = Inr (r, d') \<and> dc_inv d' \<and> child d' = child d \<and>
    d_next d' = d_next d \<and> (\<forall>a. d_inode (entry_at d' a) = d_inode (entry_at d a)) \<and>
    (\<forall>e. r = Some e \<longleftrightarrow> child d p (take n nm) e)"
proof -
  obtain K where r: "dc_rings d K" and inj: "\<And>p. inj_on (name_at d) (set (K p))" using inv by (auto simp: dc_inv_def)
  note ch = child_iff [OF r]
  show ?thesis
  proof (cases "K p = []")
    case True
    then show ?thesis
      using d_get_entry [OF r p(1)] dc_ringsD(3) [OF r p(1)] inv ch p(2) by (simp add: dcache_lookup_def Let_def)
  next
    case False
    let ?f = "List.find (\<lambda>e. name_at d e = take n nm) (K p)"
    have sub: "set (K p) \<subseteq> {..< d_next d}" using dc_ringsD(4) [OF r] by auto
    have "length (K p) = card (set (K p))" using dc_ringsD(5) [OF r, of p] by (simp add: distinct_card)
    also have "\<dots> \<le> d_next d" using card_mono [OF _ sub] by simp
    finally have len: "length (K p) \<le> d_next d" .
    have scan: "dcache_scan (d_next d) (hd (K p)) (hd (K p)) nm n d = Inr ?f"
      using dcache_scan_ring [OF r p(1) t, of 0 "d_next d"] False len by (simp add: hd_conv_nth)
    have eq: "dcache_lookup parent nm n d = Inr (?f, case ?f of None \<Rightarrow> d | Some i \<Rightarrow> d_upd p (\<lambda>x. x\<lparr>d_childs := Some i\<rparr>) d)"
      using d_get_entry [OF r p(1)] dc_ringsD(3) [OF r p(1)] False scan p(2) by (simp add: dcache_lookup_def Let_def)
    have fe: "?f = Some e \<longleftrightarrow> child d p (take n nm) e" for e
    proof
      assume "?f = Some e"
      then show "child d p (take n nm) e" by (auto simp: find_Some_iff ch)
    next
      assume c: "child d p (take n nm) e"
      then obtain e' where e': "?f = Some e'" by (cases ?f) (auto simp: find_None_iff ch)
      then have "child d p (take n nm) e'" by (auto simp: find_Some_iff ch)
      then have "e' = e" using c inj [of p] by (auto simp: ch inj_on_def)
      then show "?f = Some e" using e' by simp
    qed
    show ?thesis
    proof (cases ?f)
      case None
      then have "dcache_lookup parent nm n d = Inr (None, d)" "\<And>e. None = Some e \<longleftrightarrow> child d p (take n nm) e"
        using eq fe by simp_all
      then show ?thesis using inv by (intro exI [of _ None] exI [of _ d]) simp
    next
      case (Some e)
      then obtain i where i: "i < length (K p)" "K p ! i = e" by (auto simp: find_Some_iff)
      let ?d = "d_upd p (\<lambda>x. x\<lparr>d_childs := Some e\<rparr>) d"
      have r': "dc_rings ?d (K(p := rotate i (K p)))" using turn_rings [OF r i(1)] i(2) by simp
      have nm: "name_at ?d = name_at d" by (simp add: fun_eq_iff name_at_def entry_at_upd)
      have st: "set ((K(p := rotate i (K p))) q) = set (K q)" for q by simp
      have "dc_inv ?d" unfolding dc_inv_def by (intro exI [of _ "K(p := rotate i (K p))"]) (simp only: r' st nm inj simp_thms)
      moreover have "child ?d = child d" by (intro ext) (simp only: child_iff [OF r'] ch st nm)
      moreover have "Some e = Some x \<longleftrightarrow> child d p (take n nm) x" for x using fe [of x] unfolding Some .
      moreover have "d_inode (entry_at ?d a) = d_inode (entry_at d a)" for a by (simp add: entry_at_upd)
      moreover have "dcache_lookup parent nm n d = Inr (Some e, ?d)" using eq unfolding Some by simp
      ultimately show ?thesis by (intro exI [of _ "Some e"] exI [of _ ?d]) simp
    qed
  qed
qed

lemma insert_ring_eq:
  assumes r: "dc_rings d K" and p: "dref parent < d_next d" "parent = None \<longrightarrow> d_inode (entry_at d d_root) \<noteq> 0"
    and n: "n < DCACHE_ENTRY_NAME_LEN"
  shows "dcache_insert parent nm n v d = Inr (Some (d_next d), insert_ring (dref parent) (entry_name nm n) v d)"
proof (cases "K (dref parent) = []")
  case True
  then show ?thesis
    using d_get_entry [OF r p(1)] dc_ringsD(3) [OF r p(1)] p(2) n
    by (auto simp: dcache_insert_def insert_ring_def Let_def dref_def)
next
  case False
  then have "hd (K (dref parent)) < d_next d" using dc_ringsD(4) [OF r hd_in_set] by blast
  then show ?thesis
    using False d_get_entry [OF r] p dc_ringsD(3) [OF r p(1)] n
    by (auto simp: dcache_insert_def insert_ring_def Let_def dref_def)
qed

lemma dcache_insert_ok:
  assumes inv: "dc_inv d" and p: "p < d_next d" "dref parent = p" "parent = None \<longrightarrow> d_inode (entry_at d d_root) \<noteq> 0"
    and t: "token nm n" "n < DCACHE_ENTRY_NAME_LEN" and new: "\<And>e. \<not> child d p (take n nm) e"
  shows "\<exists>d'. dcache_insert parent nm n v d = Inr (Some (d_next d), d') \<and> dc_inv d' \<and> d_next d' = Suc (d_next d) \<and>
    (\<forall>q x e. child d' q x e \<longleftrightarrow> child d q x e \<or> q = p \<and> x = take n nm \<and> e = d_next d) \<and>
    (\<forall>a < d_next d. d_inode (entry_at d' a) = d_inode (entry_at d a)) \<and> d_inode (entry_at d' (d_next d)) = v"
proof -
  obtain K where r: "dc_rings d K" and inj: "\<And>p. inj_on (name_at d) (set (K p))" using inv by (auto simp: dc_inv_def)
  note en = entry_name_string [OF t]
  let ?d = "insert_ring p (entry_name nm n) v d" and ?K = "K(p := put_front (d_next d) (K p))"
  note h = insert_ring_heap [OF r p(1), where nm = "entry_name nm n" and v = v]
  have r': "dc_rings ?d ?K" by (rule insert_rings [OF r p(1) en(2,3)])
  have old: "e < d_next d" if "e \<in> set (K q)" for e q using dc_ringsD(4) [OF r that] by simp
  have nm: "name_at ?d e = name_at d e" if "e < d_next d" for e using h(4) [of e] that by (simp add: name_at_def)
  have nn: "name_at ?d (d_next d) = take n nm" using h(3) en(1) by (simp add: name_at_def)
  have ch: "child ?d q x e \<longleftrightarrow> child d q x e \<or> q = p \<and> x = take n nm \<and> e = d_next d" for q x e
    using old [of e q] nm [of e] nn by (auto simp: child_iff [OF r'] child_iff [OF r])
  have "inj_on (name_at ?d) (set (?K q))" for q
  proof (rule inj_onI)
    fix a b assume ab: "a \<in> set (?K q)" "b \<in> set (?K q)" "name_at ?d a = name_at ?d b"
    have ab': "child ?d q (name_at ?d a) a" "child ?d q (name_at ?d a) b" using ab by (simp_all add: child_iff [OF r'])
    show "a = b"
    proof (cases "child d q (name_at ?d a) a \<and> child d q (name_at ?d a) b")
      case True
      then show ?thesis using inj [of q] by (auto simp: child_iff [OF r] inj_on_def)
    next
      case False
      then show ?thesis using ab' new by (auto simp: ch)
    qed
  qed
  then have "dc_inv ?d" using r' unfolding dc_inv_def by blast
  moreover have "dcache_insert parent nm n v d = Inr (Some (d_next d), ?d)"
    using insert_ring_eq [OF r _ p(3) t(2)] p(1,2) by simp
  moreover have "\<forall>a < d_next d. d_inode (entry_at ?d a) = d_inode (entry_at d a)" using h(4) by simp
  ultimately show ?thesis using ch h(2,3) by (intro exI [of _ ?d]) simp
qed

section \<open>The interface\<close>

text \<open>
  What the path walk relies on: a cache of named children, a lookup that finds exactly the child of
  the name and changes nothing that can be seen, and an insertion that adds one child.
\<close>

locale name_cache =
  fixes inv :: "'s \<Rightarrow> bool"
    and valid :: "'s \<Rightarrow> nat option \<Rightarrow> bool"
    and has :: "'s \<Rightarrow> nat option \<Rightarrow> bytes \<Rightarrow> nat \<Rightarrow> bool"
    and ino :: "'s \<Rightarrow> nat \<Rightarrow> u32"
    and look :: "nat option \<Rightarrow> bytes \<Rightarrow> nat \<Rightarrow> 's \<Rightarrow> (nat option \<times> 's) res"
    and ins :: "nat option \<Rightarrow> bytes \<Rightarrow> nat \<Rightarrow> u32 \<Rightarrow> 's \<Rightarrow> (nat option \<times> 's) res"
  assumes look_law: "inv s \<Longrightarrow> valid s p \<Longrightarrow> token nm n \<Longrightarrow> \<exists>r s'. look p nm n s = Inr (r, s') \<and> inv s' \<and>
      has s' = has s \<and> valid s' = valid s \<and> ino s' = ino s \<and> (\<forall>e. r = Some e \<longleftrightarrow> has s p (take n nm) e)"
    and ins_law: "inv s \<Longrightarrow> valid s p \<Longrightarrow> token nm n \<Longrightarrow> n < DCACHE_ENTRY_NAME_LEN \<Longrightarrow> (\<And>e. \<not> has s p (take n nm) e) \<Longrightarrow>
      \<exists>e s'. ins p nm n v s = Inr (Some e, s') \<and> inv s' \<and> (\<forall>q. valid s q \<longrightarrow> valid s' q) \<and> valid s' (Some e) \<and> ino s' e = v \<and>
        has s' p (take n nm) e \<and> (\<forall>q x y. has s' q x y \<longrightarrow> has s q x y \<or> x = take n nm \<and> y = e) \<and>
        (\<forall>q x y. has s q x y \<longrightarrow> has s' q x y \<and> ino s' y = ino s y)"
begin

text \<open>A second lookup of a name finds what the first one found.\<close>

lemma look_look:
  assumes "inv s" "valid s p" "token nm n" "look p nm n s = Inr (r, s1)"
  shows "\<exists>s2. look p nm n s1 = Inr (r, s2)"
proof -
  obtain s1' where 1: "inv s1" "has s1 = has s" "valid s1 = valid s" "\<forall>e. r = Some e \<longleftrightarrow> has s p (take n nm) e"
    using look_law [OF assms(1-3)] assms(4) by auto
  obtain r2 s2 where 2: "look p nm n s1 = Inr (r2, s2)" "\<forall>e. r2 = Some e \<longleftrightarrow> has s1 p (take n nm) e"
    using look_law [OF 1(1), of p nm n] assms(2,3) 1(3) by auto
  have "r2 = r" using 1(2,4) 2(2) by (metis option.exhaust)
  then show ?thesis using 2(1) by auto
qed

text \<open>What was inserted is found, and what was found before is still found.\<close>

lemma ins_look:
  assumes s: "inv s" "valid s p" "token nm n" "n < DCACHE_ENTRY_NAME_LEN" "\<And>e. \<not> has s p (take n nm) e"
  shows "\<exists>e s1 s2. ins p nm n v s = Inr (Some e, s1) \<and> look p nm n s1 = Inr (Some e, s2) \<and> inv s2 \<and> ino s2 e = v \<and>
    (\<forall>q k m y. valid s q \<longrightarrow> token k m \<longrightarrow> has s q (take m k) y \<longrightarrow>
       (\<exists>s3. look q k m s2 = Inr (Some y, s3) \<and> ino s3 y = ino s y))"
proof -
  obtain e s1 where i: "ins p nm n v s = Inr (Some e, s1)" "inv s1" "\<forall>q. valid s q \<longrightarrow> valid s1 q" "ino s1 e = v"
    "has s1 p (take n nm) e" "\<forall>q x y. has s q x y \<longrightarrow> has s1 q x y \<and> ino s1 y = ino s y"
    using ins_law [OF s, of v] by blast
  obtain r s2 where l: "look p nm n s1 = Inr (r, s2)" "inv s2" "has s2 = has s1" "valid s2 = valid s1" "ino s2 = ino s1"
    "\<forall>e. r = Some e \<longleftrightarrow> has s1 p (take n nm) e"
    using look_law [OF i(2), of p nm n] s(2,3) i(3) by blast
  have "r = Some e" using l(6) i(5) by simp
  moreover have "\<exists>s3. look q k m s2 = Inr (Some y, s3) \<and> ino s3 y = ino s y"
    if "valid s q" "token k m" "has s q (take m k) y" for q k m y
    using look_law [OF l(2), of q k m] that i(3,6) l(3,4,5) by metis
  ultimately show ?thesis using i(1,4) l(1,2,5) by (intro exI [of _ e] exI [of _ s1] exI [of _ s2]) auto
qed

end

definition dc_valid :: "dcache \<Rightarrow> nat option \<Rightarrow> bool" where
  "dc_valid d p \<longleftrightarrow> dref p < d_next d \<and> (p = None \<longrightarrow> d_inode (entry_at d d_root) \<noteq> 0)"

definition dc_has :: "dcache \<Rightarrow> nat option \<Rightarrow> bytes \<Rightarrow> nat \<Rightarrow> bool" where
  "dc_has d p = child d (dref p)"

definition dc_ino :: "dcache \<Rightarrow> nat \<Rightarrow> u32" where
  "dc_ino d a = d_inode (entry_at d a)"

lemma child_less: "dc_inv d \<Longrightarrow> child d p x e \<Longrightarrow> e < d_next d"
  using child_iff dc_ringsD(4) unfolding dc_inv_def by blast

interpretation dc: name_cache dc_inv dc_valid dc_has dc_ino dcache_lookup dcache_insert
proof unfold_locales
  fix s :: dcache and p :: "nat option" and nm :: bytes and n :: nat and v :: u32
  assume s: "dc_inv s" "dc_valid s p" "token nm n"
  have p: "dref p < d_next s" "p = None \<longrightarrow> d_inode (entry_at s d_root) \<noteq> 0" using s(2) by (simp_all add: dc_valid_def)
  obtain r s' where l: "dcache_lookup p nm n s = Inr (r, s')" "dc_inv s'" "child s' = child s" "d_next s' = d_next s"
    "\<forall>a. d_inode (entry_at s' a) = d_inode (entry_at s a)" "\<forall>e. r = Some e \<longleftrightarrow> child s (dref p) (take n nm) e"
    using dcache_lookup_ok [OF s(1) p(1) refl s(3)] by blast
  have "dc_has s' = dc_has s" "dc_valid s' = dc_valid s" "dc_ino s' = dc_ino s"
    by (intro ext; simp add: dc_has_def dc_valid_def dc_ino_def l(3,4,5))+
  then show "\<exists>r s'. dcache_lookup p nm n s = Inr (r, s') \<and> dc_inv s' \<and> dc_has s' = dc_has s \<and> dc_valid s' = dc_valid s \<and>
      dc_ino s' = dc_ino s \<and> (\<forall>e. r = Some e \<longleftrightarrow> dc_has s p (take n nm) e)"
    using l(1,2,6) by (intro exI [of _ r] exI [of _ s']) (simp add: dc_has_def)
  assume n: "n < DCACHE_ENTRY_NAME_LEN" and new: "\<And>e. \<not> dc_has s p (take n nm) e"
  obtain s' where i: "dcache_insert p nm n v s = Inr (Some (d_next s), s')" "dc_inv s'" "d_next s' = Suc (d_next s)"
    "\<forall>q x e. child s' q x e \<longleftrightarrow> child s q x e \<or> q = dref p \<and> x = take n nm \<and> e = d_next s"
    "\<forall>a < d_next s. d_inode (entry_at s' a) = d_inode (entry_at s a)" "d_inode (entry_at s' (d_next s)) = v"
    using dcache_insert_ok [OF s(1) p(1) refl p(2) s(3) n, of v] new unfolding dc_has_def by blast
  have root: "d_root < d_next s" using s(1) by (auto simp: dc_inv_def dc_rings_def d_root_def)
  have "\<forall>q. dc_valid s q \<longrightarrow> dc_valid s' q" using i(3,5) root by (auto simp: dc_valid_def)
  moreover have "dc_valid s' (Some (d_next s))" using i(3) by (simp add: dc_valid_def dref_def)
  moreover have "\<forall>q x y. dc_has s q x y \<longrightarrow> dc_has s' q x y \<and> dc_ino s' y = dc_ino s y"
    using i(4,5) child_less [OF s(1)] by (auto simp: dc_has_def dc_ino_def)
  ultimately show "\<exists>e s'. dcache_insert p nm n v s = Inr (Some e, s') \<and> dc_inv s' \<and> (\<forall>q. dc_valid s q \<longrightarrow> dc_valid s' q) \<and>
      dc_valid s' (Some e) \<and> dc_ino s' e = v \<and> dc_has s' p (take n nm) e \<and>
      (\<forall>q x y. dc_has s' q x y \<longrightarrow> dc_has s q x y \<or> x = take n nm \<and> y = e) \<and>
      (\<forall>q x y. dc_has s q x y \<longrightarrow> dc_has s' q x y \<and> dc_ino s' y = dc_ino s y)"
    using i(1,2,4,6) by (intro exI [of _ "d_next s"] exI [of _ s']) (simp add: dc_has_def dc_ino_def)
qed

section \<open>Properties\<close>

text \<open>C32: The ring of children is a map from names to entries: an inserted name is found with its inode by the
  next lookup, every name that was found before is still found with its inode, and the invariant of
  the rings is kept.\<close>

theorem dcache_insert_then_lookup:
  assumes "dc_inv d" "dc_valid d p" "token nm n" "n < DCACHE_ENTRY_NAME_LEN" "\<And>e. \<not> dc_has d p (take n nm) e"
  shows "\<exists>e d1 d2. dcache_insert p nm n v d = Inr (Some e, d1) \<and> dcache_lookup p nm n d1 = Inr (Some e, d2) \<and> dc_inv d2 \<and> dc_ino d2 e = v \<and>
    (\<forall>q k m y. dc_valid d q \<longrightarrow> token k m \<longrightarrow> dc_has d q (take m k) y \<longrightarrow>
       (\<exists>d3. dcache_lookup q k m d2 = Inr (Some y, d3) \<and> dc_ino d3 y = dc_ino d y))"
  by (rule dc.ins_look [OF assms])

text \<open>The cache after inode_init().\<close>

definition dcache_ready :: dcache where
  "dcache_ready = \<lparr>d_heap = [0 \<mapsto> empty_entry\<lparr>d_inode := 2\<rparr>], d_next = 1\<rparr>"

lemma dcache_ready_inv: "dc_inv dcache_ready" "dc_valid dcache_ready None" "\<not> dc_has dcache_ready None nm e"
  "dcache_init_root 2 dcache_start = Inr (0, dcache_ready)"
proof -
  have r: "dc_rings dcache_ready (\<lambda>_. [])"
    by (auto simp: dc_rings_def dcache_ready_def entry_at_def empty_entry_def ring_def)
  then show "dc_inv dcache_ready" unfolding dc_inv_def by (intro exI [of _ "\<lambda>_. []"]) simp
  show "\<not> dc_has dcache_ready None nm e" by (simp add: dc_has_def child_iff [OF r])
  show "dc_valid dcache_ready None" by (simp add: dc_valid_def dcache_ready_def entry_at_def dref_def d_root_def)
  show "dcache_init_root 2 dcache_start = Inr (0, dcache_ready)"
    by (simp add: dcache_init_root_def dcache_start_def dcache_ready_def d_get_def d_root_def d_upd_def empty_entry_def)
qed

theorem dcache_insert_then_lookup_witness:
  "\<exists>e d1 d2. dcache_insert None [101, 116, 99, 47, 120] 3 11 dcache_ready = Inr (Some e, d1) \<and>
     dcache_lookup None [101, 116, 99, 47, 120] 3 d1 = Inr (Some e, d2) \<and> dc_ino d2 e = 11"
proof -
  have t: "token [101, 116, 99, 47, 120] 3" by (simp add: token_def)
  show ?thesis
    using dcache_insert_then_lookup [OF dcache_ready_inv(1,2) t _ dcache_ready_inv(3), of 11] by auto
qed

end
