(* ===== verification/E4F_Inode.thy ===== *)
theory E4F_Inode
  imports E4F_Extents E4F_Dcache
begin

text \<open>
  Inodes, directories and paths: src/inode.c, src/inode_in-memory.c and the directory entries of
  src/types/ext4_dentry.h. A path is the content of a C string up to its terminating zero; malloc()
  succeeds and yields memory with an arbitrary content, which is an argument of the model.
\<close>

section \<open>Inodes on the device\<close>

definition sizeof_inode :: nat where "sizeof_inode = 156"

definition inode_offset :: "u32 \<Rightarrow> super_state \<Rightarrow> u64 res" where
  "inode_offset n s =
     res_bind (super_group_inode_table_offset n s) (\<lambda>off.
       Inr (off + ucast ((n mod super_inodes_per_group s) * super_inode_size s)))"

definition inode_disk_size :: "super_state \<Rightarrow> nat" where
  "inode_disk_size s = min (unat (super_inode_size s)) sizeof_inode"

text \<open>The structure that the caller passes keeps the bytes that the device does not have.\<close>

definition inode_get_by_number :: "u32 \<Rightarrow> ext4_inode \<Rightarrow> fs \<Rightarrow> (int \<times> ext4_inode \<times> fs) res" where
  "inode_get_by_number n inode fs =
     (if n = 0 then Inr (-2, inode, fs)
      else res_bind (inode_offset (n - 1) (sup fs)) (\<lambda>off.
           res_bind (disk_read (unat off) (inode_disk_size (sup fs)) fs) (\<lambda>(xs, fs).
             Inr (0, inode_of (splice (inode_bytes inode) 0 xs), fs))))"

definition inode_set_by_number :: "u32 \<Rightarrow> ext4_inode \<Rightarrow> fs \<Rightarrow> (int \<times> fs) res" where
  "inode_set_by_number n inode fs =
     (if n = 0 then Inr (-2, fs)
      else res_bind (inode_offset (n - 1) (sup fs)) (\<lambda>off.
           res_bind (disk_write (unat off) (take (inode_disk_size (sup fs)) (inode_bytes inode)) fs) (\<lambda>fs.
             Inr (0, fs))))"

definition inode_get :: "u32 \<Rightarrow> ext4_inode \<Rightarrow> inode" where
  "inode_get ino raw = \<lparr>i_data_dirty = False, i_ino = ino, raw_inode = raw\<rparr>"

definition inode_put :: "inode \<Rightarrow> fs \<Rightarrow> fs res" where
  "inode_put inode fs =
     (if i_data_dirty inode \<and> i_ino inode \<noteq> 0
      then res_bind (inode_set_by_number (i_ino inode) (raw_inode inode) fs) (\<lambda>(_, fs). Inr fs)
      else Inr fs)"

section \<open>The blocks of a file\<close>

definition ADDRESSES_IN_IND_BLOCK :: "super_state \<Rightarrow> u64" where
  "ADDRESSES_IN_IND_BLOCK s = ucast (super_block_size s) div 4"

definition ADDRESSES_IN_DIND_BLOCK :: "super_state \<Rightarrow> u64" where
  "ADDRESSES_IN_DIND_BLOCK s = ADDRESSES_IN_IND_BLOCK s * ADDRESSES_IN_IND_BLOCK s"

definition ADDRESSES_IN_TIND_BLOCK :: "super_state \<Rightarrow> u64" where
  "ADDRESSES_IN_TIND_BLOCK s = ADDRESSES_IN_DIND_BLOCK s * ADDRESSES_IN_IND_BLOCK s"

definition MAX_IND_BLOCK :: "super_state \<Rightarrow> u64" where
  "MAX_IND_BLOCK s = 12 + ADDRESSES_IN_IND_BLOCK s"

definition MAX_DIND_BLOCK :: "super_state \<Rightarrow> u64" where
  "MAX_DIND_BLOCK s = MAX_IND_BLOCK s + ADDRESSES_IN_DIND_BLOCK s"

definition MAX_TIND_BLOCK :: "super_state \<Rightarrow> u64" where
  "MAX_TIND_BLOCK s = MAX_DIND_BLOCK s + ADDRESSES_IN_TIND_BLOCK s"

definition inode_get_data_pblock_ind :: "u32 \<Rightarrow> u32 \<Rightarrow> fs \<Rightarrow> (u32 \<times> fs) res" where
  "inode_get_data_pblock_ind lblock index_block fs =
     res_bind (c_assert (ucast lblock < ADDRESSES_IN_IND_BLOCK (sup fs))) (\<lambda>_.
       disk_read_u32 (unat (BLOCKS2BYTES (ucast index_block) (sup fs) + ucast lblock * 4)) fs)"

definition inode_get_data_pblock_dind :: "u32 \<Rightarrow> u32 \<Rightarrow> fs \<Rightarrow> (u32 \<times> fs) res" where
  "inode_get_data_pblock_dind lblock dindex_block fs =
     res_bind (c_assert (ucast lblock < ADDRESSES_IN_DIND_BLOCK (sup fs))) (\<lambda>_.
     (let off = ucast (ucast lblock div ADDRESSES_IN_IND_BLOCK (sup fs) * 4) :: u32;
          lblock = ucast (ucast lblock mod ADDRESSES_IN_IND_BLOCK (sup fs)) :: u32
      in res_bind (disk_read_u32 (unat (BLOCKS2BYTES (ucast dindex_block) (sup fs) + ucast off)) fs) (\<lambda>(index_block, fs).
           inode_get_data_pblock_ind lblock index_block fs)))"

definition inode_get_data_pblock_tind :: "u32 \<Rightarrow> u32 \<Rightarrow> fs \<Rightarrow> (u32 \<times> fs) res" where
  "inode_get_data_pblock_tind lblock tindex_block fs =
     res_bind (c_assert (ucast lblock < ADDRESSES_IN_TIND_BLOCK (sup fs))) (\<lambda>_.
     (let off = ucast (ucast lblock div ADDRESSES_IN_DIND_BLOCK (sup fs) * 4) :: u32;
          lblock = ucast (ucast lblock mod ADDRESSES_IN_DIND_BLOCK (sup fs)) :: u32
      in res_bind (disk_read_u32 (unat (BLOCKS2BYTES (ucast tindex_block) (sup fs) + ucast off)) fs) (\<lambda>(dindex_block, fs).
           inode_get_data_pblock_dind lblock dindex_block fs)))"

abbreviation (input) EXT4_EXTENTS_FL :: u32 where "EXT4_EXTENTS_FL \<equiv> 0x00080000"

definition i_data :: "inode \<Rightarrow> nat \<Rightarrow> u32" where
  "i_data inode k = ld 4 (i_block (raw_inode inode)) (4 * k)"

text \<open>The result is the physical block and the content of \<open>extent_len\<close>, if the caller passes one.\<close>

definition inode_get_data_pblock :: "u32 \<Rightarrow> u32 option \<Rightarrow> bool \<Rightarrow> (u64 \<times> u32 option) em" where
  "inode_get_data_pblock lblock extent_len create z =
    (let (inode, fs) = z; s = sup fs;
         extent_len = (if create then extent_len else map_option (\<lambda>_. 1) extent_len);
         found = (\<lambda>r. res_bind r (\<lambda>(b, fs). Inr ((ucast (b :: u32), extent_len), inode, fs)))
     in if i_flags (raw_inode inode) AND EXT4_EXTENTS_FL \<noteq> 0 then extent_get_pblock_new lblock extent_len create z
        else
          res_bind (c_assert (ucast lblock \<le> BYTES2BLOCKS (inode_get_size inode) s)) (\<lambda>_.
          res_bind (c_assert (\<not> create)) (\<lambda>_.
            if lblock < 12 then found (Inr (i_data inode (unat lblock), fs))
            else if ucast lblock < MAX_IND_BLOCK s then
              found (inode_get_data_pblock_ind (lblock - 12) (i_data inode 12) fs)
            else if ucast lblock < MAX_DIND_BLOCK s then
              found (inode_get_data_pblock_dind (ucast (ucast lblock - MAX_IND_BLOCK s)) (i_data inode 13) fs)
            else if ucast lblock < MAX_TIND_BLOCK s then
              found (inode_get_data_pblock_tind (ucast (ucast lblock - MAX_DIND_BLOCK s)) (i_data inode 14) fs)
            else Inl Assert_fail)))"

definition inode_remove_data_pblock :: "nat \<Rightarrow> u32 \<Rightarrow> int em" where
  "inode_remove_data_pblock fuel from =
     em_bind (em_get (\<lambda>inode _. i_flags (raw_inode inode) AND EXT4_EXTENTS_FL \<noteq> 0)) (\<lambda>ext.
     em_bind (em_lift (c_assert ext)) (\<lambda>_. ext4_ext_remove_space fuel from 0xffffffff))"

section \<open>Directories\<close>

record inode_dir_ctx =
  ctx_lblock :: u32
  ctx_buf :: bytes

definition inode_dir_ctx_get :: "inode_dir_ctx \<Rightarrow> inode_dir_ctx" where
  "inode_dir_ctx_get junk = junk"

definition dir_ctx_update :: "ext4_inode \<Rightarrow> u32 \<Rightarrow> inode_dir_ctx \<Rightarrow> fs \<Rightarrow> (inode_dir_ctx \<times> fs) res" where
  "dir_ctx_update raw lblock ctx fs =
     res_bind (inode_get_data_pblock lblock None False (inode_get 0 raw, fs)) (\<lambda>((dir_pblock, _), inode, fs).
     res_bind (inode_put inode fs) (\<lambda>fs.
     res_bind (disk_read_block dir_pblock fs) (\<lambda>(xs, fs).
       Inr (ctx\<lparr>ctx_buf := xs, ctx_lblock := lblock\<rparr>, fs))))"

definition inode_dir_ctx_reset :: "inode_dir_ctx \<Rightarrow> ext4_inode \<Rightarrow> fs \<Rightarrow> (inode_dir_ctx \<times> fs) res" where
  "inode_dir_ctx_reset ctx raw fs = dir_ctx_update raw 0 ctx fs"

text \<open>
  The entry at \<open>offset\<close> is a pointer into the buffer of the context, given by its offset in the buffer;
  None is NULL. The recursive call of the code comes after the update of the context, so that it finds
  its block in the buffer: it repeats the test of the size and returns the pointer.
\<close>

definition inode_dentry_get ::
  "ext4_inode \<Rightarrow> u64 \<Rightarrow> inode_dir_ctx \<Rightarrow> fs \<Rightarrow> (nat option \<times> inode_dir_ctx \<times> fs) res" where
  "inode_dentry_get raw offset ctx fs =
     (let bs = ucast (super_block_size (sup fs)) :: u64;
          lblock = ucast (offset div bs) :: u32; blk_offset = unat (offset mod bs);
          sz = inode_get_size (inode_get 0 raw)
      in res_bind (c_assert (sz \<ge> offset)) (\<lambda>_.
         if sz = offset then Inr (None, ctx, fs)
         else if lblock = ctx_lblock ctx then Inr (Some blk_offset, ctx, fs)
         else res_bind (dir_ctx_update raw lblock ctx fs) (\<lambda>(ctx, fs). Inr (Some blk_offset, ctx, fs))))"

record ext4_dir_entry_2 =
  de_inode :: u32
  de_rec_len :: u16
  de_name_len :: u8
  de_file_type :: u8
  de_name :: bytes

text \<open>The entry at offset \<open>a\<close> of a buffer; its name must lie in the buffer when it is read.\<close>

definition dentry_of :: "bytes \<Rightarrow> nat \<Rightarrow> ext4_dir_entry_2" where
  "dentry_of m a = \<lparr>de_inode = ld 4 m a, de_rec_len = ld 2 m (a + 4), de_name_len = m ! (a + 6),
     de_file_type = m ! (a + 7), de_name = slice m (a + 8) (unat (m ! (a + 6)))\<rparr>"

definition dentry_at :: "inode_dir_ctx \<Rightarrow> nat \<Rightarrow> ext4_dir_entry_2 res" where
  "dentry_at ctx a = res_bind (c_defined (a + 8 \<le> length (ctx_buf ctx))) (\<lambda>_. Inr (dentry_of (ctx_buf ctx) a))"

section \<open>Paths\<close>

abbreviation (input) SLASH :: u8 where "SLASH \<equiv> 47"

text \<open>The loop of get_path_token_len(): its state is the 8-bit variable len alone, so that a loop that
  takes more than 256 rounds never ends.\<close>

fun token_len_loop :: "nat \<Rightarrow> bytes \<Rightarrow> u8 \<Rightarrow> u8 res" where
  "token_len_loop 0 path len = Inl Diverge"
| "token_len_loop (Suc rounds) path len =
     (if unat len < length path \<and> path ! unat len \<noteq> SLASH \<and> path ! unat len \<noteq> 0
      then token_len_loop rounds path (len + 1) else Inr len)"

definition get_path_token_len :: "bytes \<Rightarrow> u8 res" where
  "get_path_token_len path = token_len_loop 257 path 0"

text \<open>
  The loop of get_cached_inode_num() with the variable next; each round passes at least one byte of the
  path. The result is the entry and the rest of the path.
\<close>

fun cached_loop :: "nat \<Rightarrow> bytes \<Rightarrow> nat option \<Rightarrow> dcache \<Rightarrow> (nat option \<times> bytes \<times> dcache) res" where
  "cached_loop 0 path next d = Inl Diverge"
| "cached_loop (Suc rounds) path next d =
     (let path = (case path of c # cs \<Rightarrow> if c = SLASH then cs else path | [] \<Rightarrow> [])
      in res_bind (get_path_token_len path) (\<lambda>path_len.
         if path_len = 0 then Inr (next, path, d)
         else res_bind (dcache_lookup next path (unat path_len) d) (\<lambda>(found, d).
           case found of
             None \<Rightarrow> Inr (next, path, d)
           | Some e \<Rightarrow> cached_loop rounds (drop (unat path_len) path) (Some e) d)))"

definition get_cached_inode_num :: "bytes \<Rightarrow> dcache \<Rightarrow> (nat option \<times> bytes \<times> dcache) res" where
  "get_cached_inode_num path d = cached_loop (Suc (length path)) path None d"

definition skip_trailing_backslash :: "bytes \<Rightarrow> bytes" where
  "skip_trailing_backslash path = dropWhile (\<lambda>c. c = SLASH) path"

definition S_ISDIR :: "u16 \<Rightarrow> bool" where
  "S_ISDIR m \<longleftrightarrow> m AND 0xF000 = 0x4000"

text \<open>
  The search of a directory from \<open>offset\<close> on. In a directory smaller than 4 GiB a round that does not
  end the search and has a nonzero rec_len moves the offset, which may not pass the size; a round with
  rec_len 0 repeats itself forever. The counter starts above the size.
\<close>

fun scan_dir ::
  "nat \<Rightarrow> ext4_inode \<Rightarrow> bytes \<Rightarrow> u8 \<Rightarrow> u32 \<Rightarrow> inode_dir_ctx \<Rightarrow> fs \<Rightarrow> (u32 option \<times> inode_dir_ctx \<times> fs) res" where
  "scan_dir 0 raw path path_len offset ctx fs = Inl Diverge"
| "scan_dir (Suc rounds) raw path path_len offset ctx fs =
     res_bind (inode_dentry_get raw (ucast offset) ctx fs) (\<lambda>(dentry, ctx, fs).
       case dentry of
         None \<Rightarrow> Inr (None, ctx, fs)
       | Some a \<Rightarrow>
           res_bind (dentry_at ctx a) (\<lambda>e.
           (let offset = offset + ucast (de_rec_len e)
            in if de_inode e = 0 \<or> path_len \<noteq> de_name_len e
               then scan_dir rounds raw path path_len offset ctx fs
               else
                 res_bind (c_defined (a + 8 + unat (de_name_len e) \<le> length (ctx_buf ctx))) (\<lambda>_.
                   if take (unat (de_name_len e)) path \<noteq> de_name e
                   then scan_dir rounds raw path path_len offset ctx fs
                   else Inr (Some (de_inode e), ctx, fs)))))"

text \<open>
  The outer loop of inode_get_idx_by_path(); each round passes at least one byte of the path. The
  structure \<open>raw\<close> is the local variable inode. The result is the inode number.
\<close>

fun path_loop ::
  "nat \<Rightarrow> bytes \<Rightarrow> u32 \<Rightarrow> nat option \<Rightarrow> ext4_inode \<Rightarrow> inode_dir_ctx \<Rightarrow> dcache \<Rightarrow> fs \<Rightarrow> (u32 \<times> dcache \<times> fs) res" where
  "path_loop 0 path idx dc_entry raw ctx dc fs = Inl Diverge"
| "path_loop (Suc rounds) path idx dc_entry raw ctx dc fs =
     (let path = skip_trailing_backslash path
      in res_bind (get_path_token_len path) (\<lambda>path_len.
         if path_len = 0 then Inr (idx, dc, fs)
         else
           res_bind (inode_get_by_number idx raw fs) (\<lambda>(_, raw, fs).
           res_bind (inode_dir_ctx_reset ctx raw fs) (\<lambda>(ctx, fs).
           res_bind (scan_dir (unat (inode_get_size (inode_get 0 raw)) + 2) raw path path_len 0 ctx fs) (\<lambda>(found, ctx, fs).
             case found of
               None \<Rightarrow> Inr (0, dc, fs)
             | Some idx \<Rightarrow>
                 res_bind (if S_ISDIR (i_mode raw) then dcache_insert dc_entry path (unat path_len) idx dc
                           else Inr (dc_entry, dc)) (\<lambda>(dc_entry, dc).
                 (let rest = dropWhile (\<lambda>c. c \<noteq> SLASH) path
                  in if rest = [] then Inr (idx, dc, fs)
                     else path_loop rounds rest idx dc_entry raw ctx dc fs)))))))"

definition inode_get_idx_by_path ::
  "bytes \<Rightarrow> ext4_inode \<Rightarrow> inode_dir_ctx \<Rightarrow> dcache \<Rightarrow> fs \<Rightarrow> (u32 \<times> dcache \<times> fs) res" where
  "inode_get_idx_by_path path raw junk dc fs =
     res_bind (c_assert (path \<noteq> [] \<and> hd path = SLASH)) (\<lambda>_.
     res_bind (get_cached_inode_num path dc) (\<lambda>(dc_entry, path, dc).
     res_bind (dcache_get_inode dc_entry dc) (\<lambda>idx.
       path_loop (Suc (length path)) path idx dc_entry raw (inode_dir_ctx_get junk) dc fs)))"

definition inode_get_by_path ::
  "bytes \<Rightarrow> ext4_inode \<Rightarrow> inode_dir_ctx \<Rightarrow> dcache \<Rightarrow> fs \<Rightarrow> (int \<times> ext4_inode \<times> dcache \<times> fs) res" where
  "inode_get_by_path path raw junk dc fs =
     res_bind (inode_get_idx_by_path path raw junk dc fs) (\<lambda>(idx, dc, fs).
     res_bind (inode_get_by_number idx raw fs) (\<lambda>(ret, raw, fs). Inr (ret, raw, dc, fs)))"

definition inode_init :: "dcache \<Rightarrow> (int \<times> dcache) res" where
  "inode_init dc = dcache_init_root 2 dc"

end
