(* ===== verification/E4F_Ops.thy ===== *)
theory E4F_Ops
  imports E4F_Inode E4F_Mount
begin

text \<open>
  The file system operations that FUSE calls: src/op_getattr.c, op_init.c, op_open.c, op_read.c,
  op_readdir.c, op_readlink.c, op_truncate.c, op_write.c. An offset or a length is a nonnegative off_t; a
  buffer of the caller is a memory, and a store behind its end is undefined. The content of an
  uninitialised local variable is an argument.
\<close>

section \<open>Attributes, mounting, opening\<close>

record stat =
  st_mode :: u32
  st_nlink :: u64
  st_size :: u64
  st_blocks :: u64
  st_uid :: u32
  st_gid :: u32
  st_atime :: u64
  st_mtime :: u64
  st_ctime :: u64

definition zero_stat :: stat where
  "zero_stat = \<lparr>st_mode = 0, st_nlink = 0, st_size = 0, st_blocks = 0, st_uid = 0, st_gid = 0,
     st_atime = 0, st_mtime = 0, st_ctime = 0\<rparr>"

definition op_getattr ::
  "bytes \<Rightarrow> ext4_inode \<Rightarrow> inode_dir_ctx \<Rightarrow> dcache \<Rightarrow> fs \<Rightarrow> (int \<times> stat \<times> dcache \<times> fs) res" where
  "op_getattr path raw junk dc fs =
     res_bind (inode_get_by_path path raw junk dc fs) (\<lambda>(ret, raw, dc, fs).
       if ret < 0 then Inr (ret, zero_stat, dc, fs)
       else
        (let inode = inode_get 0 raw
         in res_bind (inode_put inode fs) (\<lambda>fs.
              Inr (0, \<lparr>st_mode = ucast (i_mode raw), st_nlink = ucast (i_links_count raw), st_size = inode_get_size inode,
                st_blocks = ucast (i_blocks_lo raw), st_uid = ucast (i_uid raw), st_gid = ucast (i_gid raw),
                st_atime = ucast (i_atime raw), st_mtime = ucast (i_mtime raw), st_ctime = ucast (i_ctime raw)\<rparr>, dc, fs))))"

definition op_init ::
  "(nat \<Rightarrow> u8) \<Rightarrow> (u64 \<Rightarrow> int) \<Rightarrow> (u64 \<Rightarrow> bytes) \<Rightarrow> dcache \<Rightarrow> (dcache \<times> fs) res" where
  "op_init img ioe junk dc =
     res_bind (super_group_fill (super_fill img ioe junk)) (\<lambda>fs.
     res_bind (inode_init dc) (\<lambda>(ret, dc). if ret \<noteq> 0 then Inl Assert_fail else Inr (dc, fs)))"

definition op_open ::
  "bytes \<Rightarrow> ext4_inode \<Rightarrow> inode_dir_ctx \<Rightarrow> dcache \<Rightarrow> fs \<Rightarrow> (int \<times> u64 \<times> dcache \<times> fs) res" where
  "op_open path raw junk dc fs =
     res_bind (inode_get_idx_by_path path raw junk dc fs) (\<lambda>(idx, dc, fs). Inr (0, ucast idx, dc, fs))"

section \<open>Directories and links\<close>

text \<open>The local array name_buf has EXT4_NAME_LEN = 255 bytes. The result is the string in it.\<close>

definition get_printable_name :: "inode_dir_ctx \<Rightarrow> nat \<Rightarrow> ext4_dir_entry_2 \<Rightarrow> bytes res" where
  "get_printable_name ctx a e =
     res_bind (c_defined (a + 8 + unat (de_name_len e) \<le> length (ctx_buf ctx))) (\<lambda>_.
     res_bind (c_defined (unat (de_name_len e) < 255)) (\<lambda>_. Inr (takeWhile (\<lambda>c. c \<noteq> 0) (de_name e))))"

text \<open>The function \<open>filler\<close> of FUSE takes the buffer of the caller, a name and an offset, and returns
  the changed buffer and an integer.\<close>

fun readdir_loop ::
  "nat \<Rightarrow> ('b \<Rightarrow> bytes \<Rightarrow> u64 \<Rightarrow> 'b \<times> int) \<Rightarrow> ext4_inode \<Rightarrow> 'b \<Rightarrow> u64 \<Rightarrow> inode_dir_ctx \<Rightarrow> fs \<Rightarrow> ('b \<times> fs) res" where
  "readdir_loop 0 filler raw buf offset ctx fs = Inl Diverge"
| "readdir_loop (Suc rounds) filler raw buf offset ctx fs =
     res_bind (inode_dentry_get raw offset ctx fs) (\<lambda>(dentry, ctx, fs).
       case dentry of
         None \<Rightarrow> Inr (buf, fs)
       | Some a \<Rightarrow>
           res_bind (dentry_at ctx a) (\<lambda>e.
           (let offset = offset + ucast (de_rec_len e)
            in if de_inode e = 0 then readdir_loop rounds filler raw buf offset ctx fs
               else
                 res_bind (get_printable_name ctx a e) (\<lambda>nm.
                   if nm = [] then readdir_loop rounds filler raw buf offset ctx fs
                   else
                    (let (buf, stop) = filler buf nm offset
                     in if stop \<noteq> 0 then Inr (buf, fs) else readdir_loop rounds filler raw buf offset ctx fs)))))"

definition op_readdir ::
  "bytes \<Rightarrow> 'b \<Rightarrow> ('b \<Rightarrow> bytes \<Rightarrow> u64 \<Rightarrow> 'b \<times> int) \<Rightarrow> u64 \<Rightarrow> ext4_inode \<Rightarrow> inode_dir_ctx \<Rightarrow> dcache \<Rightarrow> fs \<Rightarrow>
   (int \<times> 'b \<times> dcache \<times> fs) res" where
  "op_readdir path buf filler offset raw junk dc fs =
     res_bind (inode_get_by_path path raw junk dc fs) (\<lambda>(ret, raw, dc, fs).
       if ret < 0 then Inr (ret, buf, dc, fs)
       else
         res_bind (inode_dir_ctx_reset (inode_dir_ctx_get junk) raw fs) (\<lambda>(ctx, fs).
         res_bind (readdir_loop (unat (inode_get_size (inode_get 0 raw)) + 2) filler raw buf offset ctx fs) (\<lambda>(buf, fs).
           Inr (0, buf, dc, fs))))"

text \<open>A store of \<open>xs\<close> at \<open>pos\<close> in a buffer of the caller.\<close>

definition buf_store :: "bytes \<Rightarrow> nat \<Rightarrow> bytes \<Rightarrow> bytes res" where
  "buf_store buf pos xs = res_bind (c_defined (pos + length xs \<le> length buf)) (\<lambda>_. Inr (splice buf pos xs))"

text \<open>strncpy(dst, src, n): what it stores; a source without a zero must have \<open>n\<close> bytes.\<close>

definition strncpy_bytes :: "bytes \<Rightarrow> nat \<Rightarrow> bytes res" where
  "strncpy_bytes src n =
     res_bind (c_defined (0 \<in> set src \<or> n \<le> length src)) (\<lambda>_.
       Inr (take n (takeWhile (\<lambda>c. c \<noteq> 0) src @ replicate n 0)))"

definition get_link_dest :: "bytes \<Rightarrow> (u64 \<times> bytes) em" where
  "get_link_dest buf =
     em_bind (em_get (\<lambda>inode _. inode_get_size inode)) (\<lambda>sz.
     em_bind (if sz \<le> 60 then
                em_bind (get_bytes In_inode) (\<lambda>m. em_lift (buf_store buf 0 (take (unat sz) m)))
              else
                em_bind (inode_get_data_pblock 0 None False) (\<lambda>(pblock, _).
                em_bind (em_fs (\<lambda>fs. disk_read_block pblock fs)) (\<lambda>block_data.
                em_bind (em_lift (c_defined (buf \<noteq> []))) (\<lambda>_.
                em_bind (em_lift (strncpy_bytes block_data (length buf - 1))) (\<lambda>s. em_lift (buf_store buf 0 s)))))) (\<lambda>buf.
     em_bind (em_lift (buf_store buf (unat sz) [0])) (\<lambda>buf. em_return (sz + 1, buf))))"

definition S_ISLNK :: "u16 \<Rightarrow> bool" where
  "S_ISLNK m \<longleftrightarrow> m AND 0xF000 = 0xA000"

definition op_readlink ::
  "bytes \<Rightarrow> bytes \<Rightarrow> ext4_inode \<Rightarrow> inode_dir_ctx \<Rightarrow> dcache \<Rightarrow> fs \<Rightarrow> (int \<times> bytes \<times> dcache \<times> fs) res" where
  "op_readlink path buf raw junk dc fs =
     res_bind (inode_get_by_path path raw junk dc fs) (\<lambda>(_, raw, dc, fs).
       if \<not> S_ISLNK (i_mode raw) then Inr (-22, buf, dc, fs)
       else
         res_bind (get_link_dest buf (inode_get 0 raw, fs)) (\<lambda>((_, buf), inode, fs).
         res_bind (inode_put inode fs) (\<lambda>fs. Inr (0, buf, dc, fs))))"

section \<open>Truncation\<close>

text \<open>The common end of op_truncate() and op_ftruncate(); \<open>fuel\<close> bounds the walk over the extent tree.\<close>

definition truncate_inode :: "nat \<Rightarrow> u32 \<Rightarrow> u64 \<Rightarrow> ext4_inode \<Rightarrow> fs \<Rightarrow> (int \<times> fs) res" where
  "truncate_inode fuel ino len raw fs =
     (let bs = ucast (super_block_size (sup fs)) :: u64; from = ucast ((len + bs - 1) div bs) :: u32
      in res_bind (inode_remove_data_pblock fuel from (inode_get ino raw, fs)) (\<lambda>(ret, inode, fs).
         res_bind (inode_put (inode_set_size inode len) fs) (\<lambda>fs. Inr (ret, fs))))"

definition op_truncate ::
  "nat \<Rightarrow> bytes \<Rightarrow> u64 \<Rightarrow> ext4_inode \<Rightarrow> inode_dir_ctx \<Rightarrow> dcache \<Rightarrow> fs \<Rightarrow> (int \<times> dcache \<times> fs) res" where
  "op_truncate fuel path len raw junk dc fs =
     res_bind (inode_get_idx_by_path path raw junk dc fs) (\<lambda>(ino, dc, fs).
       if ino = 0 then Inr (-2, dc, fs)
       else
         res_bind (inode_get_by_number ino raw fs) (\<lambda>(ret, raw, fs).
           if ret < 0 then Inr (ret, dc, fs)
           else res_bind (truncate_inode fuel ino len raw fs) (\<lambda>(ret, fs). Inr (ret, dc, fs))))"

definition op_ftruncate :: "nat \<Rightarrow> u64 \<Rightarrow> u64 \<Rightarrow> ext4_inode \<Rightarrow> fs \<Rightarrow> (int \<times> fs) res" where
  "op_ftruncate fuel fh len raw fs =
     res_bind (inode_get_by_number (ucast fh) raw fs) (\<lambda>(ret, raw, fs).
       if ret < 0 then Inr (ret, fs) else truncate_inode fuel (ucast fh) len raw fs)"

section \<open>Reading\<close>

text \<open>
  The macro ALIGN_TO with BLOCK_SIZE: the mask is computed in the 32 bits of super_block_size() and then
  extended with zeros.
\<close>

definition ALIGN_TO_BLOCKSIZE :: "u64 \<Rightarrow> super_state \<Rightarrow> u64" where
  "ALIGN_TO_BLOCKSIZE n s =
     (let align = super_block_size s
      in if n mod ucast align \<noteq> 0 then (n AND ucast (NOT (align - 1))) + ucast align else n)"

definition truncate_size :: "inode \<Rightarrow> u64 \<Rightarrow> u64 \<Rightarrow> u64" where
  "truncate_size inode sz offset =
     (let inode_size = inode_get_size inode
      in if offset \<ge> inode_size then 0 else if offset + sz \<ge> inode_size then inode_size - offset else sz)"

definition first_read :: "bytes \<Rightarrow> u64 \<Rightarrow> u64 \<Rightarrow> (u64 \<times> bytes) em" where
  "first_read buf sz offset =
     em_bind (em_get (\<lambda>_ fs. sup fs)) (\<lambda>s.
     (let bs = ucast (super_block_size s) :: u64;
          end_lblock = ucast ((offset + (sz - 1)) div bs) :: u32;
          start_lblock = ucast (offset div bs) :: u32;
          start_block_off = ucast (offset mod bs) :: u32
      in if sz = 0 \<or> start_block_off = 0 then em_return (0, buf)
         else
           em_bind (inode_get_data_pblock start_lblock None False) (\<lambda>(start_pblock, _).
           (let w = BLOCKS2BYTES start_pblock s + ucast start_block_off;
                transfer = (\<lambda>n. em_bind (em_lift (c_defined (unat n \<le> length buf))) (\<lambda>_.
                  em_bind (em_fs (disk_read (unat w) (unat n))) (\<lambda>xs.
                  em_bind (em_lift (buf_store buf 0 xs)) (\<lambda>buf. em_return (n, buf)))))
            in if start_lblock = end_lblock then transfer sz
               else
                (let size_to_block_end = ALIGN_TO_BLOCKSIZE offset s - offset
                 in em_bind (em_lift (c_assert ((offset + size_to_block_end) mod bs = 0))) (\<lambda>_. transfer size_to_block_end))))))"

text \<open>The loop of op_read(): a round that goes on stores at least one byte.\<close>

fun read_loop :: "nat \<Rightarrow> bytes \<Rightarrow> u32 \<Rightarrow> u64 \<Rightarrow> u64 \<Rightarrow> (u64 \<times> bytes) em" where
  "read_loop 0 buf lblock sz ret = em_lift (Inl Diverge)"
| "read_loop (Suc rounds) buf lblock sz ret =
     (if \<not> sz > ret then em_return (ret, buf)
      else
        em_bind (em_get (\<lambda>_ fs. sup fs)) (\<lambda>s.
        em_bind (inode_get_data_pblock lblock (Some 0) False) (\<lambda>(pblock, extent_len).
        (let extent_len = (case extent_len of Some n \<Rightarrow> n | None \<Rightarrow> 0)
         in em_bind (if pblock \<noteq> 0 then
                       em_bind (em_lift (disk_ctx_create (unat (BLOCKS2BYTES pblock s)) (unat (super_block_size s)) extent_len)) (\<lambda>ctx.
                       em_bind (em_fs (\<lambda>fs. res_bind (disk_ctx_read ctx (unat (sz - ret)) fs) (\<lambda>(_, xs, fs). Inr (xs, fs)))) em_return)
                     else em_return (replicate (unat (super_block_size s)) 0)) (\<lambda>xs.
            em_bind (em_lift (buf_store buf (unat ret) xs)) (\<lambda>buf.
              read_loop rounds buf (lblock + extent_len) sz (ret + of_nat (length xs))))))))"

definition op_read :: "bytes \<Rightarrow> u64 \<Rightarrow> u64 \<Rightarrow> ext4_inode \<Rightarrow> fs \<Rightarrow> (int \<times> bytes \<times> fs) res" where
  "op_read buf offset fh raw fs =
     res_bind (inode_get_by_number (ucast fh) raw fs) (\<lambda>(r, raw, fs).
       if r < 0 then Inr (r, buf, fs)
       else
        (let inode = inode_get (ucast fh) raw; sz = truncate_size inode (of_nat (length buf)) offset
         in res_bind (first_read buf sz offset (inode, fs)) (\<lambda>((ret, buf), inode, fs).
            (let offset = offset + ret
             in res_bind (read_loop (Suc (unat sz)) buf (ucast (offset div ucast (super_block_size (sup fs)))) sz ret (inode, fs))
                  (\<lambda>((ret, buf), inode, fs).
                res_bind (inode_put inode fs) (\<lambda>fs.
                res_bind (c_assert (sz = ret)) (\<lambda>_. Inr (sint (ucast ret :: u32), buf, fs))))))))"

section \<open>Writing\<close>

definition first_write :: "bytes \<Rightarrow> u64 \<Rightarrow> u64 \<Rightarrow> u64 em" where
  "first_write buf sz offset =
     em_bind (em_get (\<lambda>_ fs. sup fs)) (\<lambda>s.
     (let bs = ucast (super_block_size s) :: u64;
          end_lblock = ucast ((offset + (sz - 1)) div bs) :: u32;
          start_lblock = ucast (offset div bs) :: u32;
          start_block_off = ucast (offset mod bs) :: u32
      in if sz = 0 \<or> start_block_off = 0 then em_return 0
         else
           em_bind (inode_get_data_pblock start_lblock None True) (\<lambda>(start_pblock, _).
           (let w = BLOCKS2BYTES start_pblock s + ucast start_block_off;
                transfer = (\<lambda>n. em_bind (em_lift (c_defined (unat n \<le> length buf))) (\<lambda>_.
                  em_bind (em_fs (\<lambda>fs. res_bind (disk_write (unat w) (take (unat n) buf) fs) (\<lambda>fs. Inr ((), fs)))) (\<lambda>_. em_return n)))
            in if start_lblock = end_lblock then transfer sz
               else
                (let size_to_block_end = ALIGN_TO_BLOCKSIZE offset s - offset
                 in em_bind (em_lift (c_assert ((offset + size_to_block_end) mod bs = 0))) (\<lambda>_. transfer size_to_block_end))))))"

text \<open>The loop of op_write(); its result is ret. A round that goes on takes at least one byte.\<close>

fun write_loop :: "nat \<Rightarrow> bytes \<Rightarrow> u32 \<Rightarrow> bool \<Rightarrow> u64 \<Rightarrow> u64 \<Rightarrow> u64 em" where
  "write_loop 0 buf lblock ino sz ret = em_lift (Inl Diverge)"
| "write_loop (Suc rounds) buf lblock ino sz ret =
     (if \<not> sz > ret then em_return ret
      else
        em_bind (em_get (\<lambda>_ fs. sup fs)) (\<lambda>s.
        (let bs = ucast (super_block_size s) :: u64; extent_len = ucast ((sz - ret + bs - 1) div bs) :: u32
         in em_bind (inode_get_data_pblock lblock (Some extent_len) ino) (\<lambda>(pblock, len).
            (let extent_len = (case len of Some n \<Rightarrow> n | None \<Rightarrow> extent_len)
             in if pblock = 0 then em_return ret
                else
                  em_bind (em_lift (disk_ctx_create (unat (BLOCKS2BYTES pblock s)) (unat (super_block_size s)) extent_len)) (\<lambda>ctx.
                  em_bind (em_fs (\<lambda>fs. res_bind (disk_ctx_write ctx (unat (sz - ret)) (drop (unat ret) buf) fs)
                    (\<lambda>(ctx', fs). Inr (ctx_cur ctx' - ctx_cur ctx, fs)))) (\<lambda>n.
                    write_loop rounds buf (lblock + extent_len) ino sz (ret + of_nat n))))))))"

definition op_write :: "bytes \<Rightarrow> u64 \<Rightarrow> u64 \<Rightarrow> ext4_inode \<Rightarrow> fs \<Rightarrow> (int \<times> fs) res" where
  "op_write buf offset fh raw fs =
     (let ino = ucast fh :: u32; sz = of_nat (length buf) :: u64
      in res_bind (inode_get_by_number ino raw fs) (\<lambda>(r, raw, fs).
           if r < 0 then Inr (r, fs)
           else
            (let inode = inode_get ino raw; orig_size = inode_get_size inode
             in res_bind (first_write buf sz offset (inode, fs)) (\<lambda>(ret, inode, fs).
                (let offset = offset + ret
                 in res_bind (write_loop (Suc (unat sz)) buf (ucast (offset div ucast (super_block_size (sup fs)))) (ino \<noteq> 0) sz ret
                      (inode, fs)) (\<lambda>(ret, inode, fs).
                    (let inode = (if orig_size < offset + ret then inode_set_size inode (offset + ret) else inode)
                     in res_bind (inode_put inode fs) (\<lambda>fs.
                        res_bind (c_assert (sz = ret)) (\<lambda>_. Inr (sint (ucast ret :: u32), fs))))))))))"

end
