(* ===== verification/E4F_Files.thy ===== *)
theory E4F_Files
  imports E4F_Ops
begin

text \<open>
  What inodes, paths and file reads do: the byte offsets and bounds of src/inode.c, src/op_read.c and
  src/common.h, inodes on the device, the block map of a file against a reference, and the content that a
  read returns.
\<close>

section \<open>Path components\<close>

definition component :: "bytes \<Rightarrow> bytes" where
  "component path = takeWhile (\<lambda>c. c \<noteq> SLASH \<and> c \<noteq> 0) path"

lemma component_nth:
  assumes "i < length (component path)"
  shows "i < length path" "path ! i \<noteq> SLASH" "path ! i \<noteq> 0"
proof -
  show "i < length path"
    using assms length_takeWhile_le less_le_trans unfolding component_def by blast
  have "component path ! i \<in> set (component path)" using assms by simp
  then have "component path ! i \<noteq> SLASH \<and> component path ! i \<noteq> 0"
    unfolding component_def by (blast dest: set_takeWhileD)
  moreover have "path ! i = component path ! i"
    using assms unfolding component_def by (rule takeWhile_nth [symmetric])
  ultimately show "path ! i \<noteq> SLASH" "path ! i \<noteq> 0" by simp_all
qed

lemma token_len_reached:
  assumes "length (component path) < 256" "length (component path) - unat len < rounds" "unat len \<le> length (component path)"
  shows "token_len_loop rounds path len = Inr (of_nat (length (component path)))"
  using assms
proof (induction rounds arbitrary: len)
  case (Suc rounds)
  show ?case
  proof (cases "unat len < length (component path)")
    case True
    note c = component_nth [OF True]
    have "unat len + unat (1 :: u8) < 2 ^ LENGTH(8)"
      using True Suc.prems(1) by simp
    then have "unat (len + 1) = unat len + 1"
      unfolding unat_add_lem by simp
    then show ?thesis
      using Suc True c by simp
  next
    case False
    then have len: "unat len = length (component path)" using Suc.prems by simp
    have "\<not> (unat len < length path \<and> path ! unat len \<noteq> SLASH \<and> path ! unat len \<noteq> 0)"
      using nth_length_takeWhile [of "\<lambda>c. c \<noteq> SLASH \<and> c \<noteq> 0" path] by (auto simp: len component_def)
    moreover have "of_nat (length (component path)) = len"
      by (simp flip: len)
    ultimately show ?thesis by auto
  qed
qed simp

lemma token_len_passed:
  assumes "256 \<le> length (component path)"
  shows "token_len_loop rounds path len = Inl Diverge"
proof (induction rounds arbitrary: len)
  case (Suc rounds)
  have "unat len < 2 ^ LENGTH(8)"
    by (rule unsigned_less)
  with assms have "unat len < length (component path)" by simp
  from component_nth [OF this] show ?case using Suc by simp
qed simp

text \<open>C39: get_path_token_len() returns the length of the text up to the next slash or the end of the path
  when that is at most 255; at a longer component its 8-bit counter wraps and the loop never ends.\<close>

theorem get_path_token_len_spec:
  "get_path_token_len path =
    (if length (component path) < 256 then Inr (of_nat (length (component path))) else Inl Diverge)"
  using token_len_reached [of path 0 257] token_len_passed [of path 257 0] by (simp add: get_path_token_len_def)

section \<open>Rounding up to whole blocks\<close>

lemma mask_out_low:
  fixes n :: u64 and b :: u32
  assumes b: "unat b = 2 ^ k" "k < 32"
  shows "unat (n AND ucast (NOT (b - 1))) = unat n mod 2 ^ 32 div unat b * unat b"
proof -
  have "b = 2 ^ k"
    by (rule word_unat_eq_iff [THEN iffD2]) (use b unat_pow2 [of k, where 'a = 32] in simp)
  then have "b - 1 = mask k"
    by (simp add: mask_eq_exp_minus_1)
  then have "n AND ucast (NOT (b - 1)) = push_bit k (drop_bit k (take_bit 32 n))"
    using b by (intro bit_word_eqI) (auto simp: bit_simps)
  then have u: "unat (n AND ucast (NOT (b - 1))) = take_bit 64 (push_bit k (drop_bit k (take_bit 32 (unat n))))"
    by (simp only: unsigned_push_bit_eq unsigned_drop_bit_eq unsigned_take_bit_eq) simp
  have "unat n mod 2 ^ 32 < 2 ^ 32" by simp
  then have "unat n mod 2 ^ 32 div 2 ^ k * 2 ^ k < 2 ^ 32"
    using div_times_less_eq_dividend le_less_trans by blast
  then have "unat n mod 2 ^ 32 div 2 ^ k * 2 ^ k < 2 ^ 64"
    by (rule less_trans) simp
  then show ?thesis
    unfolding u b take_bit_eq_mod push_bit_eq_mult drop_bit_eq_div by (rule mod_less)
qed

lemma round_up_le:
  fixes m k :: nat
  assumes "m < 2 ^ 32" "k < 32"
  shows "m div 2 ^ k * 2 ^ k + 2 ^ k \<le> 2 ^ 32"
proof -
  have e: "(2 :: nat) ^ 32 = 2 ^ (32 - k) * 2 ^ k"
    using assms(2) by (simp flip: power_add)
  have "m div 2 ^ k < 2 ^ (32 - k)"
    using assms(1) e by (simp add: less_mult_imp_div_less)
  then have "(m div 2 ^ k + 1) * 2 ^ k \<le> 2 ^ (32 - k) * 2 ^ k"
    by (intro mult_le_mono1) simp
  with e show ?thesis by simp
qed

lemma align_unaligned:
  assumes bs: "unat (super_block_size s) = 2 ^ k" "k < 32" and n: "unat n mod 2 ^ k \<noteq> 0"
  shows "unat (ALIGN_TO_BLOCKSIZE n s) = unat n mod 2 ^ 32 div 2 ^ k * 2 ^ k + 2 ^ k"
proof -
  let ?b = "super_block_size s"
  have le: "unat n mod 2 ^ 32 div 2 ^ k * 2 ^ k + 2 ^ k \<le> 2 ^ 32"
    using bs(2) by (intro round_up_le) simp_all
  have parts: "unat (n AND ucast (NOT (?b - 1))) = unat n mod 2 ^ 32 div 2 ^ k * 2 ^ k" "unat (ucast ?b :: u64) = 2 ^ k"
    using mask_out_low [OF bs, of n] bs(1) by (simp_all add: unat_ucast_up)
  have "n mod ucast ?b \<noteq> 0"
    using n by (simp add: word_unat_eq_iff unat_mod parts)
  then have "ALIGN_TO_BLOCKSIZE n s = (n AND ucast (NOT (?b - 1))) + ucast ?b"
    by (simp add: ALIGN_TO_BLOCKSIZE_def Let_def)
  moreover have "unat (n AND ucast (NOT (?b - 1))) + unat (ucast ?b :: u64) < 2 ^ LENGTH(64)"
    unfolding parts using le by simp
  ultimately show ?thesis
    unfolding unat_add_lem by (simp only: parts)
qed

text \<open>C38: ALIGN_TO() with the block size rounds an offset below 4 GiB up to a whole number of blocks. Its
  mask has only 32 bits, so that from 4 GiB on an unaligned offset loses its high bits: the result is at
  most 4 GiB and lies in front of the offset.\<close>

theorem align_to_blocksize_spec:
  assumes "unat (super_block_size s) = 2 ^ k" "k < 32"
  shows "if unat n mod 2 ^ k = 0 then ALIGN_TO_BLOCKSIZE n s = n
    else if unat n < 2 ^ 32 then unat (ALIGN_TO_BLOCKSIZE n s) = (unat n div 2 ^ k + 1) * 2 ^ k
    else unat (ALIGN_TO_BLOCKSIZE n s) \<le> 2 ^ 32"
proof (cases "unat n mod 2 ^ k = 0")
  case True
  then have "n mod ucast (super_block_size s) = 0"
    by (simp add: word_unat_eq_iff unat_mod unat_ucast_up assms)
  then show ?thesis using True by (simp add: ALIGN_TO_BLOCKSIZE_def Let_def)
next
  case False
  have "unat n mod 2 ^ 32 div 2 ^ k * 2 ^ k + 2 ^ k \<le> 2 ^ 32"
    using assms(2) by (intro round_up_le) simp_all
  with align_unaligned [OF assms False] False show ?thesis by simp
qed

theorem align_to_blocksize_spec_witness:
  "if unat (0x100000001 :: u64) mod 2 ^ 10 = 0 then ALIGN_TO_BLOCKSIZE 0x100000001 (sup demo_fs) = 0x100000001
    else if unat (0x100000001 :: u64) < 2 ^ 32
    then unat (ALIGN_TO_BLOCKSIZE 0x100000001 (sup demo_fs)) = (unat (0x100000001 :: u64) div 2 ^ 10 + 1) * 2 ^ 10
    else unat (ALIGN_TO_BLOCKSIZE 0x100000001 (sup demo_fs)) \<le> 2 ^ 32"
  by (rule align_to_blocksize_spec) (simp_all add: demo_fs_ok)

section \<open>Inodes on the device\<close>

text \<open>The slot of inode number \<open>n + 1\<close> is entry \<open>n mod inodes_per_group\<close> of the inode table of its group, whose
  place on the device is the one that the format gives.\<close>

lemma inode_offset_place:
  fixes n :: u32 and s :: super_state
  defines "ipg \<equiv> unat (s_inodes_per_group (super_block s))" and "isize \<equiv> unat (s_inode_size (super_block s))"
  defines "d \<equiv> gdesc (gdesc_table s ! (unat n div ipg))"
  defines "t \<equiv> lay_number s (bg_inode_table_lo d) (bg_inode_table_hi d)"
  assumes ok: "lay_ok (unat n div ipg) s" and fits: "ipg * isize \<le> 2 ^ 32" "t * lay_block s + ipg * isize \<le> 2 ^ 64"
  shows "\<exists>off. inode_offset n s = Inr off \<and> unat off = t * lay_block s + (unat n mod ipg) * isize"
proof -
  let ?g = "n div super_inodes_per_group s"
  have ipg: "unat (super_inodes_per_group s) = ipg" "0 < ipg" "0 < isize"
    using ok by (simp_all add: super_inodes_per_group_def ipg_def isize_def lay_ok_def)
  have g: "unat ?g = unat n div ipg" using ipg(1) by (simp add: unat_div)
  note ok' = ok [folded g]
  have "isize < 2 ^ LENGTH(16)" unfolding isize_def by (rule unsigned_less)
  then have isz: "unat (super_inode_size s) = isize"
    by (simp add: super_inode_size_def isize_def unsigned_ucast_eq take_bit_nat_eq_self)
  have grp: "?g < super_n_block_groups s" "unat ?g < length (gdesc_table s)" "super_inodes_per_group s \<noteq> 0" "super_blocks_per_group s \<noteq> 0"
    using ok' groups_lay [OF ok'] ipg
    by (auto simp: lay_ok_def word_less_nat_alt super_blocks_per_group_def unat_ucast_up word_unat_eq_iff)
  have tab: "unat (ext4_inode_table ?g s) = t" using numbers_lay(3) [OF ok'] by (simp add: t_def d_def bg_def g)
  have bs: "unat (super_block_size s) = lay_block s" using ok by (intro block_size_lay) (simp add: lay_ok_def)
  have m: "(unat n mod ipg) * isize < ipg * isize" using ipg by simp
  have m1: "unat (n mod super_inodes_per_group s * super_inode_size s) = (unat n mod ipg) * isize"
    using less_le_trans [OF m fits(1)] by (simp add: unat_word_ariths(2) unat_mod ipg isz)
  have "t * lay_block s < 2 ^ 64" using m fits(2) by linarith
  then have "unat (BLOCKS2BYTES (ext4_inode_table ?g s) s) = t * lay_block s"
    by (simp add: BLOCKS2BYTES_def unat_word_ariths(2) unat_ucast_up tab bs)
  moreover have "t * lay_block s + (unat n mod ipg) * isize < 2 ^ 64" using m fits(2) by linarith
  ultimately have "unat (BLOCKS2BYTES (ext4_inode_table ?g s) s + ucast (n mod super_inodes_per_group s * super_inode_size s)) =
      t * lay_block s + (unat n mod ipg) * isize"
    by (simp add: unat_word_ariths(1) unat_ucast_up m1)
  then show ?thesis using grp by (simp add: inode_offset_def super_group_inode_table_offset_def Let_def)
qed

lemma splice_0: "splice m 0 xs = xs @ drop (length xs) m"
  by (simp add: splice_def)

text \<open>C29: Writing an inode and reading it back: the bytes that the device has for an inode come back, the
  rest of the structure keeps what the caller had in it, and a well-formed inode comes back unchanged when
  the inode size is at least that of the structure. No byte outside the slot of the inode changes.\<close>

theorem inode_set_get:
  assumes ok: "fs_ok fs" and wf: "inode_wf inode" "inode_wf raw"
    and off: "inode_offset (n - 1) (sup fs) = Inr off" "n \<noteq> 0"
    and sv: "servable fs (unat off) (inode_disk_size (sup fs))"
  shows "\<exists>fs1 fs2 inode'. inode_set_by_number n inode fs = Inr (0, fs1) \<and> inode_get_by_number n raw fs1 = Inr (0, inode', fs2) \<and>
    inode_wf inode' \<and>
    inode_bytes inode' = take (inode_disk_size (sup fs)) (inode_bytes inode) @ drop (inode_disk_size (sup fs)) (inode_bytes raw) \<and>
    (156 \<le> super_inode_size (sup fs) \<longrightarrow> inode' = inode) \<and>
    (\<forall>i < 2 ^ 63. \<not> (unat off \<le> i \<and> i < unat off + inode_disk_size (sup fs)) \<longrightarrow> fs_flat fs2 i = fs_flat fs i)"
proof -
  let ?k = "inode_disk_size (sup fs)" and ?w = "unat off"
  have k: "?k \<le> 156" by (simp add: inode_disk_size_def sizeof_inode_def)
  define p where "p = take ?k (inode_bytes inode)"
  have p: "length p = ?k" using k wf by (simp add: p_def length_inode_bytes)
  obtain fs1 fs2 where f: "disk_write ?w p fs = Inr fs1" "disk_read ?w ?k fs1 = Inr (p, fs2)"
    "\<forall>i < 2 ^ 63. \<not> (?w \<le> i \<and> i < ?w + ?k) \<longrightarrow> fs_flat fs2 i = fs_flat fs i"
    using write_then_read [OF ok, of ?w p] sv p by auto
  have s1: "sup fs1 = sup fs"
    using disk_write_ok [OF ok, of ?w p] sv p f(1) by auto
  let ?m = "p @ drop ?k (inode_bytes raw)"
  have m: "splice (inode_bytes raw) 0 p = ?m" "length ?m = 156"
    using p k wf by (simp_all add: splice_0 length_inode_bytes)
  have "inode_set_by_number n inode fs = Inr (0, fs1)" "inode_get_by_number n raw fs1 = Inr (0, inode_of ?m, fs2)"
    using off f m s1 by (simp_all add: inode_set_by_number_def inode_get_by_number_def p_def)
  moreover have "inode_of ?m = inode" if "156 \<le> super_inode_size (sup fs)"
  proof -
    have "?k = 156" using that by (simp add: inode_disk_size_def sizeof_inode_def word_le_nat_alt)
    then show ?thesis using wf by (simp add: p_def length_inode_bytes inode_of_bytes)
  qed
  ultimately show ?thesis
    using f(3) m inode_wf_of [OF m(2)] inode_bytes_of [OF m(2)] by (auto simp: p_def)
qed

lemma demo_inode_offset: "inode_offset 11 (sup demo_fs) = Inr 6528" "inode_disk_size (sup demo_fs) = 128"
proof -
  have "super_inodes_per_group demo_super = 64" "super_inode_size demo_super = 128" "super_blocks_per_group demo_super = 8192"
    by (simp_all add: demo_super_def super_of_def super_inodes_per_group_def super_inode_size_def super_blocks_per_group_def)
  then show "inode_offset 11 (sup demo_fs) = Inr 6528" "inode_disk_size (sup demo_fs) = 128"
    by (simp_all add: inode_offset_def demo_fs_def super_group_inode_table_offset_def demo_super_eval BLOCKS2BYTES_def
        inode_disk_size_def sizeof_inode_def)
qed

theorem inode_set_get_witness:
  "\<exists>fs1 fs2 inode'. inode_set_by_number 12 (inode_of (replicate 156 7)) demo_fs = Inr (0, fs1) \<and>
    inode_get_by_number 12 (inode_of (replicate 156 0)) fs1 = Inr (0, inode', fs2) \<and>
    inode_bytes inode' = replicate 128 7 @ replicate 28 0"
  using inode_set_get [of demo_fs "inode_of (replicate 156 7)" "inode_of (replicate 156 0)" 12 6528]
    demo_fs_ok demo_inode_offset
  by (auto simp: inode_wf_of inode_bytes_of servable_small)

section \<open>The block map of a file without extents\<close>

text \<open>States of the file system with the same content.\<close>

definition same_fs :: "fs \<Rightarrow> fs \<Rightarrow> bool" where
  "same_fs fs fs' \<longleftrightarrow> fs_ok fs' \<and> sup fs' = sup fs \<and> fs_flat fs' = fs_flat fs"

text \<open>The 32-bit number at byte \<open>w\<close> of the device, and a chain of index blocks: \<open>is\<close> are the indices.\<close>

definition dev_u32 :: "fs \<Rightarrow> nat \<Rightarrow> u32" where
  "dev_u32 fs w = ld 4 (map (fs_flat fs) [w ..< w + 4]) 0"

fun follow :: "fs \<Rightarrow> u32 \<Rightarrow> nat list \<Rightarrow> u32" where
  "follow fs b [] = b"
| "follow fs b (i # is) = follow fs (dev_u32 fs (unat b * unat (super_block_size (sup fs)) + 4 * i)) is"

text \<open>The classical block map: 12 direct blocks, then one, two and three levels of index blocks with \<open>p\<close>
  block numbers each.\<close>

definition mapped_block :: "fs \<Rightarrow> inode \<Rightarrow> nat \<Rightarrow> u32" where
  "mapped_block fs inode l =
    (let p = unat (super_block_size (sup fs)) div 4
     in if l < 12 then i_data inode l
        else if l < 12 + p then follow fs (i_data inode 12) [l - 12]
        else if l < 12 + p + p * p
        then let m = l - 12 - p in follow fs (i_data inode 13) [m div p, m mod p]
        else let m = l - 12 - p - p * p in follow fs (i_data inode 14) [m div (p * p), m mod (p * p) div p, m mod p])"

definition block_size_ok :: "super_state \<Rightarrow> bool" where
  "block_size_ok s \<longleftrightarrow> (\<exists>k. 10 \<le> k \<and> k \<le> 16 \<and> unat (super_block_size s) = 2 ^ k)"

lemma same_fs_refl: "fs_ok fs \<Longrightarrow> same_fs fs fs"
  by (simp add: same_fs_def)

lemma same_fs_trans: "same_fs a b \<Longrightarrow> same_fs b c \<Longrightarrow> same_fs a c"
  by (simp add: same_fs_def)

lemma dev_u32_same: "same_fs fs fs' \<Longrightarrow> dev_u32 fs' w = dev_u32 fs w"
  by (simp add: same_fs_def dev_u32_def)

lemma follow_same: "same_fs fs fs' \<Longrightarrow> follow fs' b is = follow fs b is"
  by (induction "is" arbitrary: b) (simp_all add: same_fs_def dev_u32_def)

lemma block_size_bounds:
  assumes "block_size_ok s"
  shows "1024 \<le> unat (super_block_size s)" "unat (super_block_size s) \<le> 65536" "unat (super_block_size s) mod 4 = 0"
proof -
  obtain k where k: "10 \<le> k" "k \<le> 16" "unat (super_block_size s) = 2 ^ k"
    using assms by (auto simp: block_size_ok_def)
  have "(2 :: nat) ^ 10 \<le> 2 ^ k" "(2 :: nat) ^ k \<le> 2 ^ 16" "(2 :: nat) ^ 2 dvd 2 ^ k"
    using k by (simp_all only: power_increasing_iff le_imp_power_dvd numeral_less_iff)
  then show "1024 \<le> unat (super_block_size s)" "unat (super_block_size s) \<le> 65536" "unat (super_block_size s) mod 4 = 0"
    unfolding k by simp_all
qed

lemma unat_mult_small: "unat x * unat y < 2 ^ 64 \<Longrightarrow> unat (x * y :: u64) = unat x * unat y"
  using unat_mult_lem [of x y] by simp

lemma unat_add_small: "unat x + unat y < 2 ^ 64 \<Longrightarrow> unat (x + y :: u64) = unat x + unat y"
  using unat_add_lem [of x y] by simp

lemma block_pos_word:
  assumes s: "block_size_ok s" and x: "unat x < 2 ^ 40"
  shows "unat (BLOCKS2BYTES (ucast (b :: u32)) s + x) = unat b * unat (super_block_size s) + unat x"
    "unat b * unat (super_block_size s) + unat x < 2 ^ 49"
proof -
  have "unat b < 2 ^ LENGTH(32)"
    by (rule unsigned_less)
  then have m: "unat b * unat (super_block_size s) \<le> 2 ^ 32 * 2 ^ 16"
    using block_size_bounds(2) [OF s] by (intro mult_le_mono) simp_all
  then show lt: "unat b * unat (super_block_size s) + unat x < 2 ^ 49"
    using x by simp
  have "unat (BLOCKS2BYTES (ucast b) s) = unat b * unat (super_block_size s)"
    unfolding BLOCKS2BYTES_def using m by (subst unat_mult_small) (simp_all add: unat_ucast_up)
  then show "unat (BLOCKS2BYTES (ucast b) s + x) = unat b * unat (super_block_size s) + unat x"
    using lt by (subst unat_add_small) simp_all
qed

lemma read_u32_run:
  assumes "fs_ok fs" "block_size_ok (sup fs)" "w + 4 < 2 ^ 63"
  obtains fs' where "disk_read_u32 w fs = Inr (dev_u32 fs w, fs')" "same_fs fs fs'"
proof -
  have "servable fs w 4"
    using assms block_size_bounds(1) [OF assms(2)] by (intro servable_small) simp_all
  then obtain fs' where "disk_read w 4 fs = Inr (map (fs_flat fs) [w ..< w + 4], fs')" "fs_ok fs'" "sup fs' = sup fs"
      "view (bdev fs') = view (bdev fs)"
    using disk_read_ok [OF assms(1), of w 4] by auto
  then show ?thesis
    by (intro that [of fs']) (simp_all add: disk_read_u32_def dev_u32_def same_fs_def fs_flat_def ld32_def)
qed

lemma index_read_run:
  assumes "fs_ok fs" "block_size_ok (sup fs)" "unat x = 4 * i" "unat x < 2 ^ 40"
  obtains fs' where "disk_read_u32 (unat (BLOCKS2BYTES (ucast (b :: u32)) (sup fs) + x)) fs = Inr (follow fs b [i], fs')" "same_fs fs fs'"
  using read_u32_run [OF assms(1,2), of "unat (BLOCKS2BYTES (ucast b) (sup fs) + x)"] block_pos_word [OF assms(2,4), of b] assms(3)
  by auto

lemma unat_addresses:
  assumes "block_size_ok s"
  shows "unat (ADDRESSES_IN_IND_BLOCK s) = unat (super_block_size s) div 4"
    "unat (ADDRESSES_IN_DIND_BLOCK s) = (unat (super_block_size s) div 4) * (unat (super_block_size s) div 4)"
    "unat (ADDRESSES_IN_TIND_BLOCK s) = (unat (super_block_size s) div 4) * (unat (super_block_size s) div 4) * (unat (super_block_size s) div 4)"
proof -
  let ?p = "unat (super_block_size s) div 4"
  have p: "?p \<le> 2 ^ 14" using block_size_bounds(2) [OF assms] by simp
  have p2: "?p * ?p \<le> 2 ^ 14 * 2 ^ 14" using p p by (rule mult_le_mono)
  have p3: "?p * ?p * ?p \<le> 2 ^ 14 * 2 ^ 14 * 2 ^ 14" using p2 p by (rule mult_le_mono)
  show 1: "unat (ADDRESSES_IN_IND_BLOCK s) = ?p"
    by (simp add: ADDRESSES_IN_IND_BLOCK_def unat_div unat_ucast_up)
  show 2: "unat (ADDRESSES_IN_DIND_BLOCK s) = ?p * ?p"
    unfolding ADDRESSES_IN_DIND_BLOCK_def by (subst unat_mult_small) (use 1 p2 in simp_all)
  show "unat (ADDRESSES_IN_TIND_BLOCK s) = ?p * ?p * ?p"
    unfolding ADDRESSES_IN_TIND_BLOCK_def by (subst unat_mult_small) (use 1 2 p3 in simp_all)
qed

lemma unat_ucast_down: "unat w < 2 ^ 32 \<Longrightarrow> unat (ucast (w :: u64) :: u32) = unat w"
  by (simp add: unsigned_ucast_eq take_bit_nat_eq_self)

lemma ind_run:
  assumes ok: "fs_ok fs" "block_size_ok (sup fs)" and l: "unat l < unat (super_block_size (sup fs)) div 4"
  obtains fs' where "inode_get_data_pblock_ind l b fs = Inr (follow fs b [unat l], fs')" "same_fs fs fs'"
proof -
  have "unat l < 2 ^ 14" using l block_size_bounds(2) [OF ok(2)] by simp
  then have x: "unat (ucast l * 4 :: u64) = 4 * unat l"
    by (subst unat_mult_small) (simp_all add: unat_ucast_up)
  have "unat (ucast l * 4 :: u64) < 2 ^ 40"
    unfolding x using \<open>unat l < 2 ^ 14\<close> by simp
  then obtain fs' where f: "disk_read_u32 (unat (BLOCKS2BYTES (ucast b) (sup fs) + ucast l * 4)) fs = Inr (follow fs b [unat l], fs')"
    "same_fs fs fs'"
    using index_read_run [OF ok x, of b] by blast
  have "ucast l < ADDRESSES_IN_IND_BLOCK (sup fs)"
    using l by (simp add: word_less_nat_alt unat_addresses [OF ok(2)] unat_ucast_up)
  then show ?thesis
    using f by (intro that [of fs']) (simp_all add: inode_get_data_pblock_ind_def del: follow.simps)
qed

text \<open>One level of the map: the index \<open>unat l div q\<close> in the block \<open>b\<close> of \<open>p\<close> numbers.\<close>

lemma level_words:
  fixes l :: u32 and q :: u64
  assumes "unat l < p * unat q" "p \<le> 2 ^ 14" "0 < unat q"
  shows "unat (ucast (ucast (ucast l div q * 4 :: u64) :: u32) :: u64) = 4 * (unat l div unat q)"
    "unat (ucast (ucast l mod q) :: u32) = unat l mod unat q" "unat l div unat q < p"
proof -
  show d: "unat l div unat q < p" using assms(1) by (simp add: less_mult_imp_div_less)
  then have "unat l div unat q < 2 ^ 14" using assms(2) by simp
  then have "unat (ucast l div q * 4 :: u64) = 4 * (unat l div unat q)"
    by (subst unat_mult_small) (simp_all add: unat_div unat_ucast_up)
  then show "unat (ucast (ucast (ucast l div q * 4 :: u64) :: u32) :: u64) = 4 * (unat l div unat q)"
    using \<open>unat l div unat q < 2 ^ 14\<close> by (simp only: unat_ucast_up) (subst unat_ucast_down; simp)
  have "unat l mod unat q \<le> unat l" by simp
  also have "\<dots> < 2 ^ LENGTH(32)" by (rule unsigned_less)
  finally show "unat (ucast (ucast l mod q) :: u32) = unat l mod unat q"
    by (subst unat_ucast_down) (simp_all add: unat_mod unat_ucast_up)
qed

lemma dind_run:
  assumes ok: "fs_ok fs" "block_size_ok (sup fs)" and p: "p = unat (super_block_size (sup fs)) div 4"
    and l: "unat l < p * p"
  obtains fs' where "inode_get_data_pblock_dind l b fs = Inr (follow fs b [unat l div p, unat l mod p], fs')" "same_fs fs fs'"
proof -
  note a = unat_addresses [OF ok(2), folded p]
  have pb: "p \<le> 2 ^ 14" "0 < p" using block_size_bounds [OF ok(2)] by (simp_all add: p)
  note w = level_words [of l p "ADDRESSES_IN_IND_BLOCK (sup fs)", unfolded a, OF l pb]
  obtain fs1 where f1: "disk_read_u32 (unat (BLOCKS2BYTES (ucast b) (sup fs) +
      ucast (ucast (ucast l div ADDRESSES_IN_IND_BLOCK (sup fs) * 4 :: u64) :: u32))) fs =
      Inr (follow fs b [unat l div p], fs1)" "same_fs fs fs1"
    using index_read_run [OF ok w(1), of b] w(1,3) pb(1) by auto
  have s1: "fs_ok fs1" "sup fs1 = sup fs" using f1(2) by (simp_all add: same_fs_def)
  obtain fs2 where f2: "inode_get_data_pblock_ind (ucast (ucast l mod ADDRESSES_IN_IND_BLOCK (sup fs)))
      (follow fs b [unat l div p]) fs1 = Inr (follow fs1 (follow fs b [unat l div p]) [unat l mod p], fs2)" "same_fs fs1 fs2"
    using ind_run [of fs1 "ucast (ucast l mod ADDRESSES_IN_IND_BLOCK (sup fs))" "follow fs b [unat l div p]"] s1 ok(2) w(2) pb(2) p
    by auto
  have "ucast l < ADDRESSES_IN_DIND_BLOCK (sup fs)"
    using l by (simp add: word_less_nat_alt a unat_ucast_up)
  then show ?thesis
    using f1(1) f2(1) same_fs_trans [OF f1(2) f2(2)] dev_u32_same [OF f1(2)] s1(2)
    by (intro that [of fs2]) (simp_all add: inode_get_data_pblock_dind_def Let_def)
qed

lemma tind_run:
  assumes ok: "fs_ok fs" "block_size_ok (sup fs)" and p: "p = unat (super_block_size (sup fs)) div 4"
    and l: "unat l < p * p * p"
  obtains fs' where "inode_get_data_pblock_tind l b fs =
    Inr (follow fs b [unat l div (p * p), unat l mod (p * p) div p, unat l mod p], fs')" "same_fs fs fs'"
proof -
  note a = unat_addresses [OF ok(2), folded p]
  have pb: "p \<le> 2 ^ 14" "0 < p * p" using block_size_bounds [OF ok(2)] by (simp_all add: p)
  note w = level_words [of l p "ADDRESSES_IN_DIND_BLOCK (sup fs)", unfolded a, OF l [unfolded mult.assoc] pb]
  obtain fs1 where f1: "disk_read_u32 (unat (BLOCKS2BYTES (ucast b) (sup fs) +
      ucast (ucast (ucast l div ADDRESSES_IN_DIND_BLOCK (sup fs) * 4 :: u64) :: u32))) fs =
      Inr (follow fs b [unat l div (p * p)], fs1)" "same_fs fs fs1"
    using index_read_run [OF ok w(1), of b] w(1,3) pb(1) by auto
  have s1: "fs_ok fs1" "sup fs1 = sup fs" using f1(2) by (simp_all add: same_fs_def)
  have m: "unat (ucast (ucast l mod ADDRESSES_IN_DIND_BLOCK (sup fs)) :: u32) < p * p"
    using w(2) pb(2) by simp
  obtain fs2 where f2: "inode_get_data_pblock_dind (ucast (ucast l mod ADDRESSES_IN_DIND_BLOCK (sup fs)))
      (follow fs b [unat l div (p * p)]) fs1 =
      Inr (follow fs1 (follow fs b [unat l div (p * p)]) [unat l mod (p * p) div p, unat l mod (p * p) mod p], fs2)" "same_fs fs1 fs2"
    using dind_run [OF s1(1) _ _ m, where b = "follow fs b [unat l div (p * p)]"] s1(2) ok(2) w(2) p
    by (metis (no_types))
  have "ucast l < ADDRESSES_IN_TIND_BLOCK (sup fs)"
    using l by (simp add: word_less_nat_alt a unat_ucast_up)
  moreover have "unat l mod (p * p) mod p = unat l mod p"
    by (simp add: mod_mod_cancel)
  ultimately show ?thesis
    using f1(1) f2(1) same_fs_trans [OF f1(2) f2(2)] follow_same [OF f1(2)]
    by (intro that [of fs2]) (simp_all add: inode_get_data_pblock_tind_def Let_def del: follow.simps, simp)
qed

lemma unat_max_blocks:
  assumes "block_size_ok s" and p: "p = unat (super_block_size s) div 4"
  shows "unat (MAX_IND_BLOCK s) = 12 + p" "unat (MAX_DIND_BLOCK s) = 12 + p + p * p"
    "unat (MAX_TIND_BLOCK s) = 12 + p + p * p + p * p * p"
proof -
  note a = unat_addresses [OF assms(1), folded p]
  have b: "p \<le> 2 ^ 14" using block_size_bounds(2) [OF assms(1)] by (simp add: p)
  have b2: "p * p \<le> 2 ^ 14 * 2 ^ 14" using b b by (rule mult_le_mono)
  have b3: "p * p * p \<le> 2 ^ 14 * 2 ^ 14 * 2 ^ 14" using b2 b by (rule mult_le_mono)
  show 1: "unat (MAX_IND_BLOCK s) = 12 + p"
    unfolding MAX_IND_BLOCK_def by (subst unat_add_small) (use a b in simp_all)
  show 2: "unat (MAX_DIND_BLOCK s) = 12 + p + p * p"
    unfolding MAX_DIND_BLOCK_def by (subst unat_add_small) (use a b b2 1 in simp_all)
  show "unat (MAX_TIND_BLOCK s) = 12 + p + p * p + p * p * p"
    unfolding MAX_TIND_BLOCK_def by (subst unat_add_small) (use a b b2 b3 2 in simp_all)
qed

lemma unat_sub_blocks:
  fixes l :: u32 and m :: u64
  assumes "unat m \<le> unat l"
  shows "unat (ucast (ucast l - m) :: u32) = unat l - unat m"
proof -
  have e: "unat (ucast l - m) = unat l - unat m"
    using assms by (subst unat_sub) (simp_all add: word_le_nat_alt unat_ucast_up)
  moreover have "unat l < 2 ^ LENGTH(32)" by (rule unsigned_less)
  ultimately show ?thesis by (subst unat_ucast_down) simp_all
qed

lemma data_pblock_mapped:
  assumes ok: "fs_ok fs" "block_size_ok (sup fs)" and ext: "i_flags (raw_inode inode) AND EXT4_EXTENTS_FL = 0"
    and sz: "ucast lblock \<le> BYTES2BLOCKS (inode_get_size inode) (sup fs)" and l: "ucast lblock < MAX_TIND_BLOCK (sup fs)"
  shows "\<exists>fs'. inode_get_data_pblock lblock extent_len False (inode, fs) =
      Inr ((ucast (mapped_block fs inode (unat lblock)), map_option (\<lambda>_. 1) extent_len), inode, fs') \<and> same_fs fs fs'"
proof -
  define p where "p = unat (super_block_size (sup fs)) div 4"
  note mx = unat_max_blocks [OF ok(2) p_def]
  have lt: "ucast lblock < MAX_IND_BLOCK (sup fs) \<longleftrightarrow> unat lblock < 12 + p"
    "ucast lblock < MAX_DIND_BLOCK (sup fs) \<longleftrightarrow> unat lblock < 12 + p + p * p"
    "lblock < 12 \<longleftrightarrow> unat lblock < 12" "unat lblock < 12 + p + p * p + p * p * p"
    using l by (simp_all add: word_less_nat_alt unat_ucast_up mx)
  note map = mapped_block_def [of fs inode "unat lblock", folded p_def, unfolded Let_def]
  note defs = inode_get_data_pblock_def Let_def ext sz lt(1-3) l map
  consider "unat lblock < 12" | "12 \<le> unat lblock" "unat lblock < 12 + p" | "12 + p \<le> unat lblock" "unat lblock < 12 + p + p * p"
    | "12 + p + p * p \<le> unat lblock" by linarith
  then show ?thesis
  proof cases
    case 1
    then show ?thesis using same_fs_refl [OF ok(1)] by (simp add: defs)
  next
    case 2
    then have u: "unat (lblock - 12) = unat lblock - 12" by (subst unat_sub) (simp_all add: word_le_nat_alt)
    have "unat (lblock - 12) < p" using u 2 by simp
    then obtain fs' where f: "inode_get_data_pblock_ind (lblock - 12) (i_data inode 12) fs =
        Inr (follow fs (i_data inode 12) [unat lblock - 12], fs')" "same_fs fs fs'"
      using ind_run [OF ok, of "lblock - 12" "i_data inode 12"] unfolding u p_def by blast
    then show ?thesis using 2 by (intro exI [of _ fs']) (simp add: defs del: follow.simps)
  next
    case 3
    define m where "m = (ucast (ucast lblock - MAX_IND_BLOCK (sup fs)) :: u32)"
    have u: "unat m = unat lblock - 12 - p"
      using 3 mx(1) unat_sub_blocks [of "MAX_IND_BLOCK (sup fs)" lblock] by (simp add: m_def)
    have "unat m < p * p" using u 3 by simp
    then obtain fs' where f: "inode_get_data_pblock_dind m (i_data inode 13) fs =
        Inr (follow fs (i_data inode 13) [unat m div p, unat m mod p], fs')" "same_fs fs fs'"
      using dind_run [OF ok p_def, of m "i_data inode 13"] by blast
    then show ?thesis using 3 by (intro exI [of _ fs']) (simp add: defs u flip: m_def del: follow.simps)
  next
    case 4
    define m where "m = (ucast (ucast lblock - MAX_DIND_BLOCK (sup fs)) :: u32)"
    have u: "unat m = unat lblock - 12 - p - p * p"
      using 4 mx(2) unat_sub_blocks [of "MAX_DIND_BLOCK (sup fs)" lblock] by (simp add: m_def)
    have "unat m < p * p * p" using u 4 lt(4) by linarith
    then obtain fs' where f: "inode_get_data_pblock_tind m (i_data inode 14) fs =
        Inr (follow fs (i_data inode 14) [unat m div (p * p), unat m mod (p * p) div p, unat m mod p], fs')" "same_fs fs fs'"
      using tind_run [OF ok p_def, of m "i_data inode 14"] by blast
    then show ?thesis using 4 by (intro exI [of _ fs']) (simp add: defs u flip: m_def del: follow.simps)
  qed
qed

text \<open>C30: For a file without extents inode_get_data_pblock() computes the classical block map: the block
  number is found in the inode or through one, two or three index blocks, at the indices of the reference
  \<open>mapped_block\<close>, and reading the index blocks changes nothing.\<close>

theorem inode_get_data_pblock_mapped:
  assumes ok: "fs_ok fs" "block_size_ok (sup fs)" and ext: "i_flags (raw_inode inode) AND EXT4_EXTENTS_FL = 0"
    and sz: "ucast lblock \<le> BYTES2BLOCKS (inode_get_size inode) (sup fs)" and l: "ucast lblock < MAX_TIND_BLOCK (sup fs)"
  shows "\<exists>fs'. inode_get_data_pblock lblock extent_len False (inode, fs) =
      Inr ((ucast (mapped_block fs inode (unat lblock)), map_option (\<lambda>_. 1) extent_len), inode, fs') \<and> same_fs fs fs'"
  by (rule data_pblock_mapped [OF assms])

text \<open>A file of 512000 bytes whose first block is block 9.\<close>

definition demo_mapped :: ext4_inode where
  "demo_mapped = (inode_of (replicate 156 0))\<lparr>i_size_lo := 512000, i_block := [9, 0, 0, 0] @ replicate 56 0\<rparr>"

lemma demo_block_size_ok: "block_size_ok (sup demo_fs)"
  by (simp add: block_size_ok_def demo_fs_ok) (intro exI [of _ 10], simp)

lemma demo_mapped_facts:
  "i_flags demo_mapped = 0" "inode_get_size (inode_get n demo_mapped) = 512000"
  by (simp_all add: demo_mapped_def inode_of_def inode_get_def inode_get_size_def ld_zeros)

lemma demo_max_tind: "ucast (300 :: u32) < MAX_TIND_BLOCK (sup demo_fs)"
  by (simp add: word_less_nat_alt unat_ucast_up unat_max_blocks [OF demo_block_size_ok refl] demo_fs_ok)

lemma inode_get_raw [simp]: "raw_inode (inode_get n r) = r"
  by (simp add: inode_get_def)

theorem inode_get_data_pblock_mapped_witness:
  "\<exists>fs'. inode_get_data_pblock 300 None False (inode_get 12 demo_mapped, demo_fs) =
      Inr ((ucast (mapped_block demo_fs (inode_get 12 demo_mapped) 300), None), inode_get 12 demo_mapped, fs') \<and>
    same_fs demo_fs fs'"
  using inode_get_data_pblock_mapped [OF demo_fs_ok(1) demo_block_size_ok, of "inode_get 12 demo_mapped" 300 None] demo_max_tind
  by (simp add: demo_mapped_facts BYTES2BLOCKS_def demo_fs_ok)

end
