(* ===== verification/E4F_Read.thy ===== *)
theory E4F_Read
  imports E4F_Files E4F_Exttree
begin

text \<open>
  What op_read() of src/op_read.c returns for files with the classical block map, and where it fails: holes
  and offsets beyond 4 GiB.
\<close>

section \<open>The content of a file\<close>

abbreviation (input) bsize :: "fs \<Rightarrow> nat" where
  "bsize fs \<equiv> unat (super_block_size (sup fs))"

definition file_byte :: "fs \<Rightarrow> inode \<Rightarrow> nat \<Rightarrow> u8" where
  "file_byte fs inode i = fs_flat fs (unat (mapped_block fs inode (i div bsize fs)) * bsize fs + i mod bsize fs)"

text \<open>A file of at most 4 GiB without extents whose bytes from \<open>a\<close> to \<open>e\<close> exist and are in no hole.\<close>

definition readable :: "fs \<Rightarrow> inode \<Rightarrow> nat \<Rightarrow> nat \<Rightarrow> bool" where
  "readable fs inode a e \<longleftrightarrow> fs_ok fs \<and> block_size_ok (sup fs) \<and> i_flags (raw_inode inode) AND EXT4_EXTENTS_FL = 0 \<and>
     e \<le> unat (inode_get_size inode) \<and> unat (inode_get_size inode) \<le> 2 ^ 32 \<and>
     (\<forall>l. a div bsize fs \<le> l \<and> l * bsize fs < e \<longrightarrow> mapped_block fs inode l \<noteq> 0)"

lemma mapped_block_same:
  assumes "same_fs fs fs'"
  shows "mapped_block fs' inode l = mapped_block fs inode l"
proof -
  have "sup fs' = sup fs" using assms by (simp add: same_fs_def)
  then show ?thesis
    by (simp add: mapped_block_def Let_def follow_same [OF assms] del: follow.simps)
qed

lemma block_lookup:
  assumes r: "readable fs inode a e" and i: "i < e" and s: "same_fs fs fs1"
  obtains fs2 where "inode_get_data_pblock (of_nat (i div bsize fs)) len False (inode, fs1) =
    Inr ((ucast (mapped_block fs inode (i div bsize fs)), map_option (\<lambda>_. 1) len), inode, fs2)" "same_fs fs fs2"
proof -
  define l where "l = i div bsize fs"
  define p where "p = bsize fs div 4"
  have ok: "fs_ok fs1" "block_size_ok (sup fs1)" "sup fs1 = sup fs" and bok: "block_size_ok (sup fs)"
    and ext: "i_flags (raw_inode inode) AND EXT4_EXTENTS_FL = 0"
    and sz: "e \<le> unat (inode_get_size inode)" "unat (inode_get_size inode) \<le> 2 ^ 32"
    using r s by (auto simp: readable_def same_fs_def)
  note bs = block_size_bounds [OF bok]
  have i32: "i < 2 ^ 32" using i sz by linarith
  have l: "l < 2 ^ 22"
  proof -
    have "i < 2 ^ 22 * 1024" using i32 by simp
    also have "\<dots> \<le> 2 ^ 22 * bsize fs" using bs by (intro mult_le_mono) simp_all
    finally show ?thesis by (simp add: l_def less_mult_imp_div_less)
  qed
  have ul: "unat (of_nat l :: u32) = l"
    using l by (simp add: unat_of_nat)
  have p: "256 \<le> p" using bs(1) by (simp add: p_def)
  have "256 * 256 * 256 \<le> p * p * p"
    using p by (intro mult_le_mono)
  then have mx: "ucast (of_nat l :: u32) < MAX_TIND_BLOCK (sup fs1)"
    using l by (simp add: word_less_nat_alt unat_ucast_up ul ok(3) unat_max_blocks(3) [OF bok p_def])
  have d: "unat (inode_get_size inode div ucast (super_block_size (sup fs))) = unat (inode_get_size inode) div bsize fs"
    by (simp add: unat_div unat_ucast_up)
  have dl: "unat (inode_get_size inode) div bsize fs \<le> 2 ^ 32"
    using sz(2) div_le_dividend le_trans by blast
  have "l \<le> unat (inode_get_size inode) div bsize fs"
    using i sz by (simp add: l_def div_le_mono)
  also have "\<dots> \<le> unat (BYTES2BLOCKS (inode_get_size inode) (sup fs1))"
    using dl unfolding BYTES2BLOCKS_def ok(3) by (subst unat_add_small) (auto simp: d)
  finally have le: "ucast (of_nat l :: u32) \<le> BYTES2BLOCKS (inode_get_size inode) (sup fs1)"
    by (simp add: word_le_nat_alt unat_ucast_up ul)
  obtain fs2 where f: "inode_get_data_pblock (of_nat l) len False (inode, fs1) =
      Inr ((ucast (mapped_block fs1 inode l), map_option (\<lambda>_. 1) len), inode, fs2)" "same_fs fs1 fs2"
    using data_pblock_mapped [OF ok(1,2) ext le mx, of len] ul by auto
  then show ?thesis
    using same_fs_trans [OF s f(2)] mapped_block_same [OF s] by (intro that [of fs2]) (simp_all add: l_def)
qed

lemma block_transfer:
  assumes r: "readable fs inode a e" and s: "same_fs fs fs1" and n: "i mod bsize fs + n \<le> bsize fs"
  obtains fs2 where "disk_read (unat (mapped_block fs inode (i div bsize fs)) * bsize fs + i mod bsize fs) n fs1 =
      Inr (map (file_byte fs inode) [i ..< i + n], fs2)" "same_fs fs fs2"
proof -
  let ?b = "mapped_block fs inode (i div bsize fs)" and ?bs = "bsize fs"
  let ?w = "unat ?b * ?bs + i mod ?bs"
  have bok: "block_size_ok (sup fs)" and ok: "fs_ok fs1" "sup fs1 = sup fs" "fs_flat fs1 = fs_flat fs"
    using r s by (auto simp: readable_def same_fs_def)
  note bs = block_size_bounds [OF bok]
  have "unat ?b < 2 ^ LENGTH(32)" by (rule unsigned_less)
  then have "unat ?b * ?bs \<le> 2 ^ 32 * 2 ^ 16"
    using bs by (intro mult_le_mono) simp_all
  moreover have "i mod ?bs < ?bs" using bs by simp
  ultimately have "?w + n < 2 ^ 63" using n bs by simp
  then have "servable fs1 ?w n"
    using n bs ok by (intro servable_small) simp_all
  then obtain fs2 where f: "disk_read ?w n fs1 = Inr (map (fs_flat fs1) [?w ..< ?w + n], fs2)" "fs_ok fs2" "sup fs2 = sup fs1"
      "view (bdev fs2) = view (bdev fs1)"
    using disk_read_ok [OF ok(1)] by blast
  have "map (fs_flat fs1) [?w ..< ?w + n] = map (file_byte fs inode) [i ..< i + n]"
  proof (rule nth_equalityI)
    fix j assume "j < length (map (fs_flat fs1) [?w ..< ?w + n])"
    then have j: "j < n" by simp
    have m: "i mod ?bs + j < ?bs" using j n by simp
    have ij: "i + j = i div ?bs * ?bs + (i mod ?bs + j)" by simp
    have "(q * c + x) div c = q \<and> (q * c + x) mod c = x" if "x < c" for q c x :: nat
      using that by simp
    then have "(i + j) div ?bs = i div ?bs" "(i + j) mod ?bs = i mod ?bs + j"
      using m unfolding ij by blast+
    then show "map (fs_flat fs1) [?w ..< ?w + n] ! j = map (file_byte fs inode) [i ..< i + n] ! j"
      using j by (simp add: file_byte_def ok add.assoc)
  qed simp
  moreover have "same_fs fs fs2"
    using f ok by (simp add: same_fs_def fs_flat_def)
  ultimately show ?thesis using f(1) by (intro that [of fs2]) simp_all
qed

section \<open>The first, unaligned part\<close>

definition head_len :: "fs \<Rightarrow> nat \<Rightarrow> nat \<Rightarrow> nat" where
  "head_len fs o' n = (if o' mod bsize fs = 0 then 0 else min n (bsize fs - o' mod bsize fs))"

lemma block_word_wide:
  assumes "unat (super_block_size s) = b" "unat w div b < 2 ^ 32"
  shows "unat (w div ucast (super_block_size s) :: u64) = unat w div b" "(ucast (w div ucast (super_block_size s)) :: u32) = of_nat (unat w div b)"
    "unat (w mod ucast (super_block_size s) :: u64) = unat w mod b"
proof -
  show d: "unat (w div ucast (super_block_size s) :: u64) = unat w div b" and "unat (w mod ucast (super_block_size s) :: u64) = unat w mod b"
    using assms(1) by (simp_all add: unat_div unat_mod unat_ucast_up)
  show "(ucast (w div ucast (super_block_size s)) :: u32) = of_nat (unat w div b)"
    using assms(2) by (intro word_unat_eq_iff [THEN iffD2]) (simp add: unat_ucast_down d unat_of_nat)
qed

lemma block_word:
  assumes "unat (super_block_size s) = b" "unat w < 2 ^ 32"
  shows "unat (w div ucast (super_block_size s) :: u64) = unat w div b" "(ucast (w div ucast (super_block_size s)) :: u32) = of_nat (unat w div b)"
    "unat (w mod ucast (super_block_size s) :: u64) = unat w mod b"
proof -
  have "unat w div b < 2 ^ 32"
    using assms(2) div_le_dividend le_less_trans by blast
  note block_word_wide [OF assms(1) this]
  then show "unat (w div ucast (super_block_size s) :: u64) = unat w div b" "(ucast (w div ucast (super_block_size s)) :: u32) = of_nat (unat w div b)"
    "unat (w mod ucast (super_block_size s) :: u64) = unat w mod b" by blast+
qed

lemma same_block_iff:
  fixes a n b :: nat
  assumes "0 < b" "0 < n"
  shows "(a + n - 1) div b = a div b \<longleftrightarrow> a mod b + n \<le> b"
proof -
  have e: "a + n - 1 = a div b * b + (a mod b + n - 1)"
    using assms(2) div_mult_mod_eq [of a b] by linarith
  have "(a + n - 1) div b = a div b + (a mod b + n - 1) div b"
    unfolding e using assms(1) by (simp only: div_mult_self3)
  then show ?thesis
    using assms by (auto simp: div_eq_0_iff)
qed

lemma align_step:
  assumes s: "block_size_ok s" and o: "unat offset < 2 ^ 32" "unat offset mod unat (super_block_size s) \<noteq> 0"
  shows "unat (ALIGN_TO_BLOCKSIZE offset s - offset) = unat (super_block_size s) - unat offset mod unat (super_block_size s)"
    "(offset + (ALIGN_TO_BLOCKSIZE offset s - offset)) mod ucast (super_block_size s) = 0"
proof -
  obtain k where k: "k \<le> 16" "unat (super_block_size s) = 2 ^ k"
    using s by (auto simp: block_size_ok_def)
  note o = o [unfolded k]
  have "unat offset mod 2 ^ 32 = unat offset" using o(1) by simp
  then have a: "unat (ALIGN_TO_BLOCKSIZE offset s) = unat offset div 2 ^ k * 2 ^ k + 2 ^ k"
    using align_unaligned [OF k(2) _ o(2)] k(1) by simp
  have e: "unat offset = unat offset div 2 ^ k * 2 ^ k + unat offset mod 2 ^ k"
    by (rule div_mult_mod_eq [symmetric])
  have m: "unat offset mod 2 ^ k < 2 ^ k" by simp
  have "unat offset \<le> unat (ALIGN_TO_BLOCKSIZE offset s)"
    unfolding a using e m by linarith
  then have "unat (ALIGN_TO_BLOCKSIZE offset s - offset) = unat (ALIGN_TO_BLOCKSIZE offset s) - unat offset"
    by (subst unat_sub) (simp_all add: word_le_nat_alt)
  then show "unat (ALIGN_TO_BLOCKSIZE offset s - offset) = unat (super_block_size s) - unat offset mod unat (super_block_size s)"
    unfolding a k using e m by linarith
  show "(offset + (ALIGN_TO_BLOCKSIZE offset s - offset)) mod ucast (super_block_size s) = 0"
    using a by (intro word_unat_eq_iff [THEN iffD2]) (simp add: unat_mod unat_ucast_up k)
qed

lemma em_fs_run: "f (snd z) = Inr (x, fs') \<Longrightarrow> em_fs f z = Inr (x, fst z, fs')"
  by (cases z) (simp add: em_fs_def)

lemma first_read_run:
  assumes r: "readable fs inode (unat offset) e" and e: "unat offset + unat sz = e" "0 < unat sz"
    and s: "same_fs fs fs1" and buf: "unat sz \<le> length buf"
  defines "m \<equiv> head_len fs (unat offset) (unat sz)"
  shows "\<exists>fs2. first_read buf sz offset (inode, fs1) =
      Inr ((of_nat m, splice buf 0 (map (file_byte fs inode) [unat offset ..< unat offset + m])), inode, fs2) \<and> same_fs fs fs2"
proof -
  define o' n bs where "o' = unat offset" and "n = unat sz" and "bs = bsize fs"
  have ok: "sup fs1 = sup fs" "block_size_ok (sup fs)" using r s by (auto simp: readable_def same_fs_def)
  have bs: "0 < bs" "bs \<le> 65536" using block_size_bounds [OF ok(2)] by (simp_all add: bs_def)
  have lim: "e \<le> 2 ^ 32" using r by (auto simp: readable_def)
  have o32: "unat offset < 2 ^ 32" using lim e by linarith
  have e1: "unat (offset + (sz - 1)) = o' + n - 1"
  proof -
    have "unat (sz - 1) = n - 1" using e(2) by (subst unat_sub) (simp_all add: n_def word_le_nat_alt)
    then show ?thesis using lim e by (subst unat_add_small) (simp_all add: o'_def n_def)
  qed
  have e32: "unat (offset + (sz - 1)) < 2 ^ 32" unfolding e1 using lim e by (simp add: o'_def n_def)
  note wo = block_word [OF bs_def [symmetric] o32, folded o'_def] and we = block_word [OF bs_def [symmetric] e32, unfolded e1]
  have off: "(ucast (offset mod ucast (super_block_size (sup fs))) :: u32) = 0 \<longleftrightarrow> o' mod bs = 0"
    and uoff: "unat (ucast (ucast (offset mod ucast (super_block_size (sup fs))) :: u32) :: u64) = o' mod bs"
  proof -
    have "o' mod bs < 65536" using bs mod_less_divisor [OF bs(1), of o'] by linarith
    then have u: "unat (ucast (offset mod ucast (super_block_size (sup fs))) :: u32) = o' mod bs"
      by (subst unat_ucast_down) (simp_all add: wo)
    then show "(ucast (offset mod ucast (super_block_size (sup fs))) :: u32) = 0 \<longleftrightarrow> o' mod bs = 0"
      by (simp add: word_unat_eq_iff)
    show "unat (ucast (ucast (offset mod ucast (super_block_size (sup fs))) :: u32) :: u64) = o' mod bs"
      by (simp only: unat_ucast_up u)
  qed
  have small: "a div bs < 2 ^ 32" if "a < 2 ^ 32" for a :: nat
    using that div_le_dividend le_less_trans by blast
  have same: "(of_nat (o' div bs) :: u32) = of_nat ((o' + n - 1) div bs) \<longleftrightarrow> o' mod bs + n \<le> bs"
  proof -
    have "(of_nat (o' div bs) :: u32) = of_nat ((o' + n - 1) div bs) \<longleftrightarrow> o' div bs = (o' + n - 1) div bs"
      using small [of o'] small [of "o' + n - 1"] o32 e32 by (simp add: o'_def e1 n_def word_unat_eq_iff unat_of_nat)
    then show ?thesis
      using same_block_iff [of bs n o'] bs e(2) by (auto simp: n_def)
  qed
  show ?thesis
  proof (cases "o' mod bs = 0")
    case True
    then have "m = 0" by (simp add: m_def head_len_def o'_def bs_def)
    then show ?thesis
      using True s by (intro exI [of _ fs1]) (simp add: first_read_def em_run ok off Let_def splice_def)
  next
    case False
    obtain fs2 where f2: "inode_get_data_pblock (of_nat (o' div bs)) None False (inode, fs1) =
        Inr ((ucast (mapped_block fs inode (o' div bs)), None), inode, fs2)" "same_fs fs fs2"
      using block_lookup [OF r _ s, of "unat offset" None] e by (auto simp: o'_def bs_def)
    have m: "m = min n (bs - o' mod bs)"
      using False by (simp add: m_def head_len_def o'_def bs_def n_def)
    have mb: "o' mod bs + m \<le> bs" "m \<le> length buf" "m \<le> n"
      using m bs buf mod_less_divisor [OF bs(1), of o'] by (simp_all add: n_def)
    have pos: "unat (BLOCKS2BYTES (ucast (mapped_block fs inode (o' div bs))) (sup fs) +
        ucast (ucast (offset mod ucast (super_block_size (sup fs))) :: u32)) = unat (mapped_block fs inode (o' div bs)) * bs + o' mod bs"
      using block_pos_word(1) [OF ok(2), of "ucast (ucast (offset mod ucast (super_block_size (sup fs))) :: u32)" "mapped_block fs inode (o' div bs)"]
        mod_less_divisor [OF bs(1), of o'] bs(2) by (simp add: uoff bs_def)
    obtain fs3 where f3: "disk_read (unat (mapped_block fs inode (o' div bs)) * bs + o' mod bs) m fs2 =
        Inr (map (file_byte fs inode) [o' ..< o' + m], fs3)" "same_fs fs fs3"
      using block_transfer [OF r f2(2), of o' m] mb(1) by (auto simp: bs_def)
    define w where "w = (if o' mod bs + n \<le> bs then sz else ALIGN_TO_BLOCKSIZE offset (sup fs) - offset)"
    note al = align_step [OF ok(2) o32, folded bs_def o'_def, OF False]
    have w: "unat w = m"
      using m al(1) by (auto simp: w_def n_def)
    have res: "em_bind (em_lift (c_defined (unat w \<le> length buf))) (\<lambda>_.
        em_bind (em_fs (disk_read (unat (BLOCKS2BYTES (ucast (mapped_block fs inode (o' div bs))) (sup fs) +
        ucast (ucast (offset mod ucast (super_block_size (sup fs))) :: u32))) (unat w))) (\<lambda>xs.
        em_bind (em_lift (buf_store buf 0 xs)) (\<lambda>buf. em_return (w, buf)))) (inode, fs2) =
        Inr ((w, splice buf 0 (map (file_byte fs inode) [o' ..< o' + m])), inode, fs3)"
      using mb f3(1) by (simp add: em_run w pos em_fs_run buf_store_def)
    have wm: "w = of_nat m" unfolding w [symmetric] by simp
    have E: "(ucast (offset div ucast (super_block_size (sup fs))) :: u32) =
        ucast ((offset + (sz - 1)) div ucast (super_block_size (sup fs))) \<longleftrightarrow> o' mod bs + n \<le> bs"
      unfolding wo(2) we(2) by (rule same)
    have "sz \<noteq> 0" using e(2) by auto
    then have "first_read buf sz offset (inode, fs1) =
        Inr ((w, splice buf 0 (map (file_byte fs inode) [o' ..< o' + m])), inode, fs3)"
      using f2(1) [folded wo(2)] res al(2) False
      by (cases "o' mod bs + n \<le> bs") (simp_all add: first_read_def em_run ok off Let_def E w_def)
    then show ?thesis
      unfolding wm o'_def using f3(2) by blast
  qed
qed

section \<open>The loop over the blocks\<close>

lemma splice_append:
  "a + length xs + length ys \<le> length m \<Longrightarrow> splice (splice m a xs) (a + length xs) ys = splice m a (xs @ ys)"
  by (simp add: splice_def ac_simps)

lemma read_loop_run:
  assumes r: "readable fs inode o' e" and e: "e = o' + n" and len: "n \<le> length buf"
    and pos: "r0 \<le> n" "r0 < n \<Longrightarrow> (o' + r0) mod bsize fs = 0 \<and> lblock = of_nat ((o' + r0) div bsize fs)"
    and s: "same_fs fs fs1" and rounds: "n - r0 < rounds"
  shows "\<exists>fs2. read_loop rounds buf lblock (of_nat n) (of_nat r0) (inode, fs1) =
      Inr ((of_nat n, splice buf r0 (map (file_byte fs inode) [o' + r0 ..< e])), inode, fs2) \<and> same_fs fs fs2"
  using len pos s rounds
proof (induction rounds arbitrary: buf lblock r0 fs1)
  case 0
  then show ?case by simp
next
  case (Suc rounds)
  have ok: "sup fs1 = sup fs" "block_size_ok (sup fs)" using r Suc.prems by (auto simp: readable_def same_fs_def)
  define bs where "bs = bsize fs"
  have bs: "1024 \<le> bs" "bs \<le> 65536" using block_size_bounds [OF ok(2)] by (simp_all add: bs_def)
  have n32: "n \<le> 2 ^ 32" using r e by (auto simp: readable_def)
  have u: "unat (of_nat n :: u64) = n" "unat (of_nat r0 :: u64) = r0"
    using n32 Suc.prems(2) by (simp_all add: unat_of_nat)
  show ?case
  proof (cases "r0 < n")
    case False
    then have "r0 = n" using Suc.prems by simp
    then show ?thesis using Suc.prems e by (intro exI [of _ fs1]) (simp add: em_run splice_def)
  next
    case True
    define i k where "i = o' + r0" and "k = min (n - r0) bs"
    have i: "i mod bs = 0" "lblock = of_nat (i div bs)" "i < e"
      using Suc.prems(3) [OF True] True e by (simp_all add: i_def bs_def)
    let ?b = "mapped_block fs inode (i div bs)"
    obtain fs2 where f2: "inode_get_data_pblock lblock (Some 0) False (inode, fs1) = Inr ((ucast ?b, Some 1), inode, fs2)" "same_fs fs fs2"
      using block_lookup [OF r i(3) Suc.prems(4), of "Some 0"] by (auto simp: i(2) bs_def)
    have "o' div bs \<le> i div bs"
      by (simp add: i_def div_le_mono)
    moreover have "i div bs * bs < e"
      using div_times_less_eq_dividend i(3) by (rule le_less_trans)
    ultimately have "?b \<noteq> 0" using r by (simp add: readable_def bs_def)
    then have nz: "(ucast ?b :: u64) \<noteq> 0" by (simp add: word_unat_eq_iff unat_ucast_up)
    have k: "i mod bs + k \<le> bs" "r0 + k \<le> n" "0 < k" using i True bs by (simp_all add: k_def)
    obtain fs3 where f3: "disk_read (unat ?b * bs) k fs2 = Inr (map (file_byte fs inode) [i ..< i + k], fs3)" "same_fs fs fs3"
      using block_transfer [OF r f2(2), of i k] k(1) i(1) by (auto simp: bs_def)
    have w: "unat (BLOCKS2BYTES (ucast ?b) (sup fs)) = unat ?b * bs"
      using block_pos_word(1) [OF ok(2), of 0 ?b] by (simp add: bs_def)
    have d: "unat (of_nat n - of_nat r0 :: u64) = n - r0"
      using True by (subst unat_sub) (simp_all add: word_le_nat_alt u)
    have lt: "(of_nat r0 :: u64) < of_nat n" using True by (simp add: word_less_nat_alt u)
    let ?xs = "map (file_byte fs inode) [i ..< i + k]"
    have ctx: "disk_ctx_create (unat (BLOCKS2BYTES (ucast ?b) (sup fs))) bs 1 = Inr \<lparr>ctx_cur = unat ?b * bs, ctx_size = bs\<rparr>"
      using bs by (simp add: disk_ctx_create_def w)
    have rd: "disk_ctx_read \<lparr>ctx_cur = unat ?b * bs, ctx_size = bs\<rparr> (n - r0) fs2 =
        Inr (\<lparr>ctx_cur = unat ?b * bs + k, ctx_size = bs - k\<rparr>, ?xs, fs3)"
      using f3(1) bs by (simp add: disk_ctx_read_def Let_def k_def min_def split: if_splits)
    have st: "buf_store buf r0 ?xs = Inr (splice buf r0 ?xs)"
      using k Suc.prems(1) by (simp add: buf_store_def)
    have step: "read_loop (Suc rounds) buf lblock (of_nat n) (of_nat r0) (inode, fs1) =
        read_loop rounds (splice buf r0 ?xs) (lblock + 1) (of_nat n) (of_nat (r0 + k)) (inode, fs3)"
      using lt f2(1) nz ctx rd st by (simp add: em_run ok d em_fs_run u flip: bs_def)
    have nx: "(o' + (r0 + k)) mod bs = 0 \<and> lblock + 1 = of_nat ((o' + (r0 + k)) div bs)" if "r0 + k < n"
    proof -
      have "k = bs" using that by (simp add: k_def)
      then have "o' + (r0 + k) = i + bs" by (simp add: i_def)
      moreover have "bs \<noteq> 0" using bs by linarith
      then have "(i + bs) div bs = i div bs + 1" by (rule div_add_self2)
      ultimately show ?thesis using i(1,2) by (simp add: add.commute)
    qed
    have len: "n \<le> length (splice buf r0 ?xs)" using k Suc.prems(1) by simp
    have rr: "n - (r0 + k) < rounds" using True k(3) Suc.prems(5) by linarith
    obtain fs4 where f4: "read_loop rounds (splice buf r0 ?xs) (lblock + 1) (of_nat n) (of_nat (r0 + k)) (inode, fs3) =
        Inr ((of_nat n, splice (splice buf r0 ?xs) (r0 + k) (map (file_byte fs inode) [o' + (r0 + k) ..< e])), inode, fs4)" "same_fs fs fs4"
      using Suc.IH [OF len k(2) _ f3(2) rr, of "lblock + 1"] nx by (auto simp: bs_def)
    have "[i ..< e] = [i ..< i + k] @ [o' + (r0 + k) ..< e]"
      using k(2) e upt_add_eq_append [of i "i + k" "e - (i + k)"] by (simp add: i_def add.assoc)
    then have up: "map (file_byte fs inode) [i ..< e] = ?xs @ map (file_byte fs inode) [o' + (r0 + k) ..< e]"
      by (simp only: map_append)
    have "splice (splice buf r0 ?xs) (r0 + k) (map (file_byte fs inode) [o' + (r0 + k) ..< e]) =
        splice buf r0 (map (file_byte fs inode) [i ..< e])"
      unfolding up using splice_append [of r0 ?xs "map (file_byte fs inode) [o' + (r0 + k) ..< e]" buf] k(2) Suc.prems(1)
      by (simp add: e)
    then show ?thesis
      using step f4 by (intro exI [of _ fs4]) (simp add: i_def)
  qed
qed

section \<open>op_read()\<close>

lemma inode_put_clean [simp]: "inode_put (inode_get n raw) fs = Inr fs"
  by (simp add: inode_put_def inode_get_def)

lemma truncate_size_nat:
  assumes "length buf < 2 ^ 31" "unat offset \<le> unat (inode_get_size inode)" "unat (inode_get_size inode) \<le> 2 ^ 32"
  shows "truncate_size inode (of_nat (length buf)) offset = of_nat (min (length buf) (unat (inode_get_size inode) - unat offset))"
proof -
  let ?s = "inode_get_size inode" and ?n = "length buf"
  have u: "unat (of_nat ?n :: u64) = ?n" using assms(1) by (simp add: unat_of_nat)
  have a: "unat (offset + of_nat ?n) = unat offset + ?n"
    using assms by (subst unat_add_small) (simp_all add: u)
  have d: "unat (?s - offset) = unat ?s - unat offset"
    by (rule unat_sub) (simp add: word_le_nat_alt assms(2))
  have m: "unat (of_nat (min ?n (unat ?s - unat offset)) :: u64) = min ?n (unat ?s - unat offset)"
    using assms(1) by (simp add: unat_of_nat)
  show ?thesis
    by (rule word_unat_eq_iff [THEN iffD2]) (auto simp: truncate_size_def Let_def word_le_nat_alt a d m u)
qed

text \<open>C7: Reading a file with the classical block map returns the bytes of the file: op_read() reads the
  unaligned head and then block after block, stops at the end of the file, returns the number of bytes,
  stores exactly them at the start of the buffer and changes nothing. The range may not touch a hole,
  the file is at most 4 GiB long and the buffer shorter than 2 GiB.\<close>

theorem op_read_returns_content:
  assumes get: "inode_get_by_number (ucast fh) raw0 fs0 = Inr (0, raw, fs)"
    and inode: "inode = inode_get (ucast fh) raw" and n: "n = min (length buf) (unat (inode_get_size inode) - unat offset)"
    and r: "readable fs inode (unat offset) (unat offset + n)" and buf: "length buf < 2 ^ 31"
  shows "\<exists>fs'. op_read buf offset fh raw0 fs0 =
      Inr (int n, splice buf 0 (map (file_byte fs inode) [unat offset ..< unat offset + n]), fs') \<and> same_fs fs fs'"
proof -
  define o' m where "o' = unat offset" and "m = head_len fs o' n"
  have sz: "unat (inode_get_size inode) \<le> 2 ^ 32" "o' + n \<le> unat (inode_get_size inode)" and ok: "fs_ok fs" "block_size_ok (sup fs)"
    using r by (simp_all add: readable_def o'_def)
  have n32: "n < 2 ^ 31" using n buf by simp
  have un: "unat (of_nat n :: u64) = n" using n32 by (simp add: unat_of_nat)
  have m: "m \<le> n" by (simp add: m_def head_len_def)
  have um: "unat (of_nat m :: u64) = m" using n32 m by (simp add: unat_of_nat)
  have ts: "truncate_size inode (of_nat (length buf)) offset = of_nat n"
    unfolding n by (rule truncate_size_nat) (use buf sz o'_def in simp_all)
  obtain fs1 where f1: "first_read buf (of_nat n) offset (inode, fs) =
      Inr ((of_nat m, splice buf 0 (map (file_byte fs inode) [o' ..< o' + m])), inode, fs1)" "same_fs fs fs1"
  proof (cases "n = 0")
    case True
    then show thesis
      using that [of fs] m same_fs_refl [OF ok(1)] by (simp add: first_read_def em_run Let_def splice_def)
  next
    case False
    then show thesis
      using that first_read_run [OF r, of "of_nat n" fs buf] un n same_fs_refl [OF ok(1)] by (auto simp: m_def o'_def)
  qed
  let ?buf = "splice buf 0 (map (file_byte fs inode) [o' ..< o' + m])"
  let ?lb = "ucast ((offset + of_nat m) div ucast (super_block_size (sup fs))) :: u32"
  have nb: "n \<le> length buf" using n by simp
  then have len: "n \<le> length ?buf" using m by simp
  have pos: "(o' + m) mod bsize fs = 0 \<and> ?lb = of_nat ((o' + m) div bsize fs)" if "m < n"
  proof -
    have "unat (offset + of_nat m) = o' + m"
      using sz m by (subst unat_add_small) (simp_all add: um o'_def)
    then have "?lb = of_nat ((o' + m) div bsize fs)"
      using block_word(2) [OF refl, of "offset + of_nat m"] sz that by simp
    moreover have "(o' + m) mod bsize fs = 0"
    proof (cases "o' mod bsize fs = 0")
      case True
      then show ?thesis by (simp add: m_def head_len_def)
    next
      case False
      then have "m = bsize fs - o' mod bsize fs" using that by (simp add: m_def head_len_def min_def split: if_splits)
      moreover have "o' mod bsize fs < bsize fs" using block_size_bounds(1) [OF ok(2)] by simp
      ultimately have "o' + m = o' div bsize fs * bsize fs + bsize fs"
        using div_mult_mod_eq [of o' "bsize fs"] by linarith
      then show ?thesis by simp
    qed
    ultimately show ?thesis by simp
  qed
  obtain fs2 where f2: "read_loop (Suc n) ?buf ?lb (of_nat n) (of_nat m) (inode, fs1) =
      Inr ((of_nat n, splice ?buf m (map (file_byte fs inode) [o' + m ..< o' + n])), inode, fs2)" "same_fs fs fs2"
    using read_loop_run [OF r [folded o'_def] refl len m pos f1(2), of "Suc n"] by (metis diff_le_self le_imp_less_Suc)
  have up: "[o' ..< o' + n] = [o' ..< o' + m] @ [o' + m ..< o' + n]"
    using m upt_add_eq_append [of o' "o' + m" "n - m"] by simp
  have sp: "splice ?buf m (map (file_byte fs inode) [o' + m ..< o' + n]) = splice buf 0 (map (file_byte fs inode) [o' ..< o' + n])"
    unfolding up using splice_append [of 0 "map (file_byte fs inode) [o' ..< o' + m]" "map (file_byte fs inode) [o' + m ..< o' + n]" buf] m nb
    by simp
  have s1: "sup fs1 = sup fs" using f1(2) by (simp add: same_fs_def)
  have "sint (ucast (of_nat n :: u64) :: u32) = int n"
  proof -
    have "ucast (of_nat n :: u64) = (word_of_int (int n) :: u32)"
      using n32 by (intro word_unat_eq_iff [THEN iffD2]) (simp add: unat_ucast_down un unat_of_nat)
    moreover have "signed_take_bit 31 (int n) = int n"
      using n32 by (intro signed_take_bit_int_eq_self) simp_all
    ultimately show ?thesis by (simp only: sint_sbintrunc') simp
  qed
  moreover have "inode_put inode fs2 = Inr fs2" by (simp add: inode)
  ultimately show ?thesis
    using get f1(1) f2 sp un s1
    by (intro exI [of _ fs2]) (simp add: op_read_def ts Let_def flip: inode o'_def del: read_loop.simps)
qed

lemma inode_get_run:
  assumes ok: "fs_ok fs" and off: "inode_offset (n - 1) (sup fs) = Inr off" "n \<noteq> 0"
    and sv: "servable fs (unat off) (inode_disk_size (sup fs))"
  obtains fs' where "inode_get_by_number n raw fs =
    Inr (0, inode_of (splice (inode_bytes raw) 0 (map (fs_flat fs) [unat off ..< unat off + inode_disk_size (sup fs)])), fs')"
    "same_fs fs fs'"
proof -
  obtain fs' where "disk_read (unat off) (inode_disk_size (sup fs)) fs =
      Inr (map (fs_flat fs) [unat off ..< unat off + inode_disk_size (sup fs)], fs')" "fs_ok fs'" "sup fs' = sup fs"
      "view (bdev fs') = view (bdev fs)"
    using disk_read_ok [OF ok sv] by blast
  then show ?thesis
    using off by (intro that [of fs']) (simp_all add: inode_get_by_number_def same_fs_def fs_flat_def)
qed

text \<open>A device whose inode 12 is the file of 512000 bytes with data in its first block.\<close>

definition demo_file_fs :: fs where
  "demo_file_fs = \<lparr>sup = demo_super, bdev = fs_cache_init 10
     (\<lambda>b. if b = 6 then replicate 384 0 @ take 128 (inode_bytes demo_mapped) @ replicate 512 0
          else if b = 9 then map of_nat [0 ..< 1024] else replicate 1024 0) (\<lambda>_. 0) (\<lambda>_. replicate 1024 0)\<rparr>"

lemma demo_mapped_wf: "inode_wf demo_mapped"
  by (simp add: inode_wf_def demo_mapped_def)

lemma le_0: "le n 0 = replicate n 0"
  by (induction n) auto

lemma demo_mapped_tail: "drop 128 (inode_bytes demo_mapped) = replicate 28 0"
  by (simp add: inode_bytes_def demo_mapped_def inode_of_def ld_zeros le_0 flip: replicate_add)

lemma demo_file_ok:
  "fs_ok demo_file_fs" "sup demo_file_fs = sup demo_fs"
  "view (bdev demo_file_fs) = (\<lambda>b. if b = 6 then replicate 384 0 @ take 128 (inode_bytes demo_mapped) @ replicate 512 0
     else if b = 9 then map of_nat [0 ..< 1024] else replicate 1024 0)" (is "_ = ?v")
proof -
  have "\<forall>b. length (?v b) = 2 ^ 10"
    by (simp add: length_inode_bytes [OF demo_mapped_wf])
  note init = cache_init_inv [OF this, of "\<lambda>_. replicate 1024 0"]
  show "fs_ok demo_file_fs" "sup demo_file_fs = sup demo_fs" "view (bdev demo_file_fs) = ?v"
    using init by (simp_all add: fs_ok_def demo_file_fs_def demo_fs_def demo_super_eval fs_cache_init_def bdev_alloc_def)
qed

lemma demo_file_flat:
  assumes "x < 1024"
  shows "fs_flat demo_file_fs (b * 1024 + x) = view (bdev demo_file_fs) (of_nat b) ! x"
  using assms by (simp add: fs_flat_def flat_def demo_file_ok(2) demo_fs_ok)

lemma demo_file_inode:
  assumes w: "w = 6528"
  shows "map (fs_flat demo_file_fs) [w ..< w + 128] = take 128 (inode_bytes demo_mapped)"
proof (rule nth_equalityI)
  fix j assume "j < length (map (fs_flat demo_file_fs) [w ..< w + 128])"
  then have j: "j < 128" by simp
  have "fs_flat demo_file_fs (6 * 1024 + (384 + j)) = take 128 (inode_bytes demo_mapped) ! j"
    using j by (subst demo_file_flat) (simp_all add: demo_file_ok nth_append length_inode_bytes [OF demo_mapped_wf])
  moreover have "6 * 1024 + (384 + j) = w + j" by (simp add: w)
  ultimately have "fs_flat demo_file_fs (w + j) = take 128 (inode_bytes demo_mapped) ! j"
    by (simp only:)
  then show "map (fs_flat demo_file_fs) [w ..< w + 128] ! j = take 128 (inode_bytes demo_mapped) ! j"
    using j by simp
qed (simp add: length_inode_bytes [OF demo_mapped_wf])

lemma demo_file_get:
  obtains fs where "inode_get_by_number 12 (inode_of (replicate 156 0)) demo_file_fs = Inr (0, demo_mapped, fs)" "same_fs demo_file_fs fs"
proof -
  have b: "inode_bytes (inode_of (replicate 156 0)) = replicate 156 0"
    by (simp add: inode_bytes_of)
  have "take 128 (inode_bytes demo_mapped) @ replicate 28 0 = inode_bytes demo_mapped"
    by (simp flip: demo_mapped_tail)
  then have e: "inode_of (splice (replicate 156 0) 0 (take 128 (inode_bytes demo_mapped))) = demo_mapped"
    by (simp add: splice_0 length_inode_bytes [OF demo_mapped_wf] inode_of_bytes [OF demo_mapped_wf])
  have sv: "servable demo_file_fs (unat (6528 :: u64)) (inode_disk_size (sup demo_file_fs))"
    by (rule servable_small) (simp_all add: demo_file_ok demo_inode_offset demo_fs_ok)
  have off: "inode_offset (12 - 1) (sup demo_file_fs) = Inr 6528"
    using demo_inode_offset by (simp add: demo_file_ok)
  have m: "map (fs_flat demo_file_fs) [unat (6528 :: u64) ..< unat (6528 :: u64) + inode_disk_size (sup demo_file_fs)] =
      take 128 (inode_bytes demo_mapped)"
    unfolding demo_file_ok(2) demo_inode_offset by (rule demo_file_inode) simp
  obtain fs where "inode_get_by_number 12 (inode_of (replicate 156 0)) demo_file_fs = Inr (0, demo_mapped, fs)" "same_fs demo_file_fs fs"
    by (rule inode_get_run [OF demo_file_ok(1) off _ sv, of "inode_of (replicate 156 0)", unfolded m b e]) simp
  then show thesis by (rule that)
qed

lemma demo_file_readable:
  assumes "same_fs demo_file_fs fs"
  shows "readable fs (inode_get 12 demo_mapped) 5 8" "mapped_block fs (inode_get 12 demo_mapped) 0 = 9"
proof -
  have s: "sup fs = sup demo_fs" using assms demo_file_ok by (simp add: same_fs_def)
  have "(4 :: nat) = Suc (Suc (Suc (Suc 0)))" by simp
  then have "ld 4 ([9, 0, 0, 0] @ xs) 0 = (9 :: u32)" for xs
    by (simp only: ld.simps) simp
  then show 9: "mapped_block fs (inode_get 12 demo_mapped) 0 = 9"
    by (simp add: mapped_block_def i_data_def demo_mapped_def)
  have "l = 0" if "l * 1024 < 8" for l :: nat using that by (cases l) auto
  then have "mapped_block fs (inode_get 12 demo_mapped) l \<noteq> 0" if "l * 1024 < 8" for l
    using 9 that by simp
  moreover have "fs_ok fs" using assms by (simp add: same_fs_def)
  ultimately show "readable fs (inode_get 12 demo_mapped) 5 8"
    by (simp add: readable_def s demo_block_size_ok demo_mapped_facts demo_fs_ok)
qed

theorem op_read_returns_content_witness:
  "\<exists>fs'. op_read [0, 0, 0] 5 12 (inode_of (replicate 156 0)) demo_file_fs = Inr (3, [5, 6, 7], fs')"
proof -
  obtain fs where g: "inode_get_by_number 12 (inode_of (replicate 156 0)) demo_file_fs = Inr (0, demo_mapped, fs)"
    and s: "same_fs demo_file_fs fs" by (rule demo_file_get)
  note r = demo_file_readable [OF s]
  have fl: "fs_flat fs = fs_flat demo_file_fs" "sup fs = sup demo_fs" using s demo_file_ok by (simp_all add: same_fs_def)
  have fb: "file_byte fs (inode_get 12 demo_mapped) i = of_nat i" if "i < 1024" for i
    using that demo_file_flat [of i 9] by (simp add: file_byte_def fl r(2) demo_fs_ok demo_file_ok)
  show ?thesis
    using op_read_returns_content [of 12 "inode_of (replicate 156 0)" demo_file_fs demo_mapped fs "inode_get 12 demo_mapped" 3 "[0, 0, 0]" 5]
      g r(1) by (auto simp: demo_mapped_facts fb numeral_3_eq_3 splice_def upt_rec)
qed

section \<open>Where reading fails\<close>

text \<open>C37: Reading less than a block from a block aligned position in a hole is undefined behaviour: the zeros
  of a whole block are stored in a buffer that is shorter.\<close>

theorem op_read_hole_overflows:
  assumes get: "inode_get_by_number (ucast fh) raw0 fs0 = Inr (0, raw, fs)" and ok: "fs_ok fs" "block_size_ok (sup fs)"
    and plain: "i_flags raw AND EXT4_EXTENTS_FL = 0" "unat (inode_get_size (inode_get (ucast fh) raw)) \<le> 2 ^ 32"
    and pos: "unat offset < unat (inode_get_size (inode_get (ucast fh) raw))" "unat offset mod bsize fs = 0"
    and hole: "mapped_block fs (inode_get (ucast fh) raw) (unat offset div bsize fs) = 0"
    and buf: "buf \<noteq> []" "length buf < bsize fs"
  shows "op_read buf offset fh raw0 fs0 = Inl Undefined"
proof -
  define inode n where "inode = inode_get (ucast fh) raw" and "n = min (length buf) (unat (inode_get_size inode) - unat offset)"
  have bs: "1024 \<le> bsize fs" "bsize fs \<le> 65536" using block_size_bounds [OF ok(2)] by simp_all
  have n: "0 < n" "n \<le> length buf" using buf pos by (simp_all add: n_def inode_def)
  have un: "unat (of_nat n :: u64) = n" using n(2) buf(2) bs by (simp add: unat_of_nat)
  have ts: "truncate_size inode (of_nat (length buf)) offset = of_nat n"
    unfolding n_def by (rule truncate_size_nat) (use buf bs pos plain in \<open>simp_all add: inode_def\<close>)
  have o32: "unat offset < 2 ^ 32" using pos(1) plain(2) by linarith
  note wo = block_word [OF refl o32, of "sup fs"]
  have "offset mod ucast (super_block_size (sup fs)) = 0"
    by (rule word_unat_eq_iff [THEN iffD2]) (use wo(3) pos(2) in simp)
  then have fr: "first_read buf (of_nat n) offset (inode, fs) = Inr ((0, buf), inode, fs)"
    by (simp add: first_read_def em_run Let_def)
  have "\<not> l * bsize fs < unat offset + 1" if "unat offset + 1 \<le> l" for l
  proof -
    have "(unat offset + 1) * 1 \<le> l * bsize fs" using that bs by (intro mult_le_mono) simp_all
    then show ?thesis by simp
  qed
  then have r: "readable fs inode ((unat offset + 1) * bsize fs) (unat offset + 1)"
    using ok plain pos(1) bs by (auto simp: readable_def inode_def)
  obtain fs2 where f2: "inode_get_data_pblock (of_nat (unat offset div bsize fs)) (Some 0) False (inode, fs) =
      Inr ((0, Some 1), inode, fs2)" "same_fs fs fs2"
    using block_lookup [OF r _ same_fs_refl [OF ok(1)], of "unat offset" "Some 0"] hole by (auto simp: inode_def)
  have "buf_store buf 0 (replicate (bsize fs) 0) = Inl Undefined"
    using buf by (simp add: buf_store_def c_defined_def)
  then have "read_loop (Suc n) buf (of_nat (unat offset div bsize fs)) (of_nat n) 0 (inode, fs) = Inl Undefined"
    using f2(1) n un by (simp add: em_run word_less_nat_alt em_lift_def)
  then show ?thesis
    using get fr un by (simp add: op_read_def ts Let_def wo(2) flip: inode_def del: read_loop.simps)
qed

theorem op_read_hole_overflows_witness:
  "op_read [1, 2, 3] 1024 12 (inode_of (replicate 156 0)) demo_file_fs = Inl Undefined"
proof -
  obtain fs where g: "inode_get_by_number 12 (inode_of (replicate 156 0)) demo_file_fs = Inr (0, demo_mapped, fs)"
    and s: "same_fs demo_file_fs fs" by (rule demo_file_get)
  have fs: "fs_ok fs" "sup fs = sup demo_fs" using s demo_file_ok by (simp_all add: same_fs_def)
  have "(4 :: nat) = Suc (Suc (Suc (Suc 0)))" by simp
  then have "ld 4 ([9, 0, 0, 0] @ replicate 56 0) 4 = (0 :: u32)"
    by (simp only: ld.simps) simp
  then have "mapped_block fs (inode_get 12 demo_mapped) 1 = 0"
    by (simp add: mapped_block_def i_data_def demo_mapped_def)
  then show ?thesis
    using op_read_hole_overflows [of 12 "inode_of (replicate 156 0)" demo_file_fs demo_mapped fs 1024 "[1, 2, 3]"] g fs
    by (simp add: demo_block_size_ok demo_mapped_facts demo_fs_ok)
qed

text \<open>Reading from an unaligned offset of at least 4 GiB across a block boundary is undefined behaviour:
  the length of the first part is the difference of an end that lost its high bits and the offset, which
  wraps to a huge number of bytes.\<close>

theorem first_read_beyond_4G:
  assumes s: "block_size_ok (sup fs)"
    and o4: "2 ^ 32 \<le> unat offset" "unat offset + unat sz \<le> 2 ^ 32 * bsize fs"
    and across: "unat offset mod bsize fs \<noteq> 0" "bsize fs < unat offset mod bsize fs + unat sz"
    and look: "inode_get_data_pblock (of_nat (unat offset div bsize fs)) None False (inode, fs) = Inr ((pblock, len), inode', fs')"
    and buf: "length buf < 2 ^ 63"
  shows "first_read buf sz offset (inode, fs) = Inl Undefined"
proof -
  obtain k where k: "k \<le> 16" "bsize fs = 2 ^ k"
    using s by (auto simp: block_size_ok_def)
  have bs: "bsize fs \<le> 65536" "1024 \<le> bsize fs" using block_size_bounds [OF s] by simp_all
  define w where "w = ALIGN_TO_BLOCKSIZE offset (sup fs) - offset"
  have sz: "0 < unat sz"
    using across(2) mod_less_divisor [of "bsize fs" "unat offset"] bs by linarith
  have lim: "unat offset + unat sz \<le> 2 ^ 48"
  proof -
    have "2 ^ 32 * bsize fs \<le> 2 ^ 32 * 65536" using bs(1) by (intro mult_le_mono2)
    with o4(2) show ?thesis by simp
  qed
  have al: "unat (ALIGN_TO_BLOCKSIZE offset (sup fs)) = unat offset mod 2 ^ 32 div 2 ^ k * 2 ^ k + 2 ^ k"
    using align_unaligned [OF k(2)] k across(1) by simp
  have le: "unat (ALIGN_TO_BLOCKSIZE offset (sup fs)) \<le> 2 ^ 32"
    unfolding al by (rule round_up_le) (use k in simp_all)
  have am: "unat (ALIGN_TO_BLOCKSIZE offset (sup fs)) mod bsize fs = 0"
    by (simp add: al k)
  then have "unat offset \<noteq> unat (ALIGN_TO_BLOCKSIZE offset (sup fs))"
    using across(1) by metis
  then have less: "\<not> unat offset \<le> unat (ALIGN_TO_BLOCKSIZE offset (sup fs))"
    using le o4(1) by linarith
  have "unat w = unat (ALIGN_TO_BLOCKSIZE offset (sup fs)) + 2 ^ 64 - unat offset"
    using less by (simp add: w_def unat_sub_if')
  then have big: "\<not> unat w \<le> length buf"
    using lim buf by simp
  have e1: "unat (offset + (sz - 1)) = unat offset + unat sz - 1"
  proof -
    have "unat (sz - 1) = unat sz - 1" using sz by (subst unat_sub) (simp_all add: word_le_nat_alt)
    then show ?thesis using lim sz by (subst unat_add_small) simp_all
  qed
  have d: "unat offset div bsize fs < 2 ^ 32" "(unat offset + unat sz - 1) div bsize fs < 2 ^ 32"
    using o4(2) sz bs by (auto simp: less_mult_imp_div_less)
  note wo = block_word_wide [OF refl d(1)] and we = block_word_wide [OF refl d(2) [folded e1], unfolded e1]
  have ne: "(of_nat (unat offset div bsize fs) :: u32) \<noteq> of_nat ((unat offset + unat sz - 1) div bsize fs)"
    using d same_block_iff [of "bsize fs" "unat sz" "unat offset"] across(2) bs sz by (simp add: word_unat_eq_iff unat_of_nat)
  have E: "(ucast (offset div ucast (super_block_size (sup fs))) :: u32) \<noteq>
      ucast ((offset + (sz - 1)) div ucast (super_block_size (sup fs)))"
    unfolding wo(2) we(2) by (rule ne)
  have "unat offset mod bsize fs < 65536"
    using mod_less_divisor [of "bsize fs" "unat offset"] bs by linarith
  then have off: "(ucast (offset mod ucast (super_block_size (sup fs))) :: u32) \<noteq> 0"
    using across(1) by (simp add: word_unat_eq_iff unat_ucast_down wo(3))
  have as: "(offset + w) mod ucast (super_block_size (sup fs)) = 0"
    by (rule word_unat_eq_iff [THEN iffD2]) (simp add: w_def unat_mod unat_ucast_up am)
  have "sz \<noteq> 0" using sz by auto
  then show ?thesis
    using look [folded wo(2)] E off as big by (simp add: first_read_def em_run Let_def em_lift_def c_defined_def flip: w_def)
qed

theorem first_read_beyond_4G_witness:
  "first_read (replicate 2000 0) 2000 0x100000001 (inode_get 12 ((inode_of (replicate 156 0))\<lparr>i_size_high := 2\<rparr>), demo_fs) = Inl Undefined"
proof -
  define raw where "raw = (inode_of (replicate 156 0))\<lparr>i_size_high := 2\<rparr>"
  have raw: "i_flags raw = 0" "inode_get_size (inode_get 12 raw) = 0x200000000"
    by (simp_all add: raw_def inode_of_def inode_get_def inode_get_size_def ld_zeros)
  have "ucast (0x400000 :: u32) < MAX_TIND_BLOCK (sup demo_fs)"
    by (simp add: word_less_nat_alt unat_ucast_up unat_max_blocks [OF demo_block_size_ok refl] demo_fs_ok)
  then obtain fs' where "inode_get_data_pblock 0x400000 None False (inode_get 12 raw, demo_fs) =
      Inr ((ucast (mapped_block demo_fs (inode_get 12 raw) 0x400000), None), inode_get 12 raw, fs')"
    using data_pblock_mapped [OF demo_fs_ok(1) demo_block_size_ok, of "inode_get 12 raw" "0x400000" None] raw
    by (auto simp: BYTES2BLOCKS_def demo_fs_ok)
  then show ?thesis
    unfolding raw_def [symmetric]
    by (intro first_read_beyond_4G [OF demo_block_size_ok]) (simp_all add: demo_fs_ok)
qed

end
