(* ===== verification/E4F_Rbtree.thy ===== *)
theory E4F_Rbtree
  imports E4F_Prelude
begin

text \<open>
  The red-black tree of src/rbtree.c and src/types/rbtree.h, which indexes the buffer heads of a device
  by block number (src/buffer.c). Nodes live in a heap; a pointer is a 64-bit address and 0 is NULL. The
  two branches of a function that are the same text with left and right exchanged are one definition with
  the side as an argument. A loop has a counter of rounds; the theorems give how many rounds are enough.
\<close>

section \<open>Nodes\<close>

record rb_node =
  rb_parent_color :: u64
  rb_right :: u64
  rb_left :: u64

record rb_root =
  root_node :: u64
  rb_leftmost :: u64
  rb_rightmost :: u64
  nodes :: "u64 \<rightharpoonup> rb_node"

datatype side = L | R

fun opp :: "side \<Rightarrow> side" where
  "opp L = R" | "opp R = L"

definition child :: "side \<Rightarrow> rb_node \<Rightarrow> u64" where
  "child d n = (case d of L \<Rightarrow> rb_left n | R \<Rightarrow> rb_right n)"

definition with_child :: "side \<Rightarrow> u64 \<Rightarrow> rb_node \<Rightarrow> rb_node" where
  "with_child d p n = (case d of L \<Rightarrow> n\<lparr>rb_left := p\<rparr> | R \<Rightarrow> n\<lparr>rb_right := p\<rparr>)"

definition rb_parent :: "rb_node \<Rightarrow> u64" where
  "rb_parent n = rb_parent_color n AND NOT 3"

definition rb_color :: "rb_node \<Rightarrow> u64" where
  "rb_color n = rb_parent_color n AND 1"

abbreviation (input) EVENT_RB_BLACK :: u64 where "EVENT_RB_BLACK \<equiv> 1"

definition rb_is_black :: "rb_node \<Rightarrow> bool" where
  "rb_is_black n \<longleftrightarrow> rb_color n \<noteq> 0"

definition rb_is_red :: "rb_node \<Rightarrow> bool" where
  "rb_is_red n \<longleftrightarrow> rb_color n = 0"

text \<open>Loads and stores through a pointer.\<close>

definition rd :: "u64 \<Rightarrow> rb_root \<Rightarrow> rb_node res" where
  "rd p s = (case nodes s p of Some n \<Rightarrow> if p = 0 then Inl Undefined else Inr n | None \<Rightarrow> Inl Undefined)"

definition upd :: "u64 \<Rightarrow> (rb_node \<Rightarrow> rb_node) \<Rightarrow> rb_root \<Rightarrow> rb_root res" where
  "upd p f s = res_bind (rd p s) (\<lambda>n. Inr (s\<lparr>nodes := (nodes s)(p \<mapsto> f n)\<rparr>))"

definition rb_set_red :: "u64 \<Rightarrow> rb_root \<Rightarrow> rb_root res" where
  "rb_set_red p = upd p (\<lambda>n. n\<lparr>rb_parent_color := rb_parent_color n AND NOT 1\<rparr>)"

definition rb_set_black :: "u64 \<Rightarrow> rb_root \<Rightarrow> rb_root res" where
  "rb_set_black p = upd p (\<lambda>n. n\<lparr>rb_parent_color := rb_parent_color n OR 1\<rparr>)"

definition rb_set_color :: "u64 \<Rightarrow> u64 \<Rightarrow> rb_root \<Rightarrow> rb_root res" where
  "rb_set_color p color = upd p (\<lambda>n. n\<lparr>rb_parent_color := (rb_parent_color n AND NOT 1) OR color\<rparr>)"

definition rb_set_parent :: "u64 \<Rightarrow> u64 \<Rightarrow> rb_root \<Rightarrow> rb_root res" where
  "rb_set_parent p q = upd p (\<lambda>n. n\<lparr>rb_parent_color := (rb_parent_color n AND 3) OR q\<rparr>)"

definition EVENT_RB_EMPTY_ROOT :: "rb_root \<Rightarrow> bool" where
  "EVENT_RB_EMPTY_ROOT s \<longleftrightarrow> root_node s = 0"

definition rb_init_node :: "u64 \<Rightarrow> rb_root \<Rightarrow> rb_root res" where
  "rb_init_node p s =
     res_bind (upd p (\<lambda>_. \<lparr>rb_parent_color = 0, rb_right = 0, rb_left = 0\<rparr>) s) (rb_set_parent p p)"

section \<open>Rotations\<close>

text \<open>The store that makes \<open>new\<close> the child of \<open>parent\<close> in place of \<open>old\<close>; the code tests side \<open>d\<close> first.\<close>

definition replace_child :: "side \<Rightarrow> u64 \<Rightarrow> u64 \<Rightarrow> u64 \<Rightarrow> rb_root \<Rightarrow> rb_root res" where
  "replace_child d parent old new s =
     (if parent = 0 then Inr (s\<lparr>root_node := new\<rparr>)
      else res_bind (rd parent s) (\<lambda>p. upd parent (with_child (if old = child d p then d else opp d) new) s))"

text \<open>\<open>rb_rotate L\<close> is __rb_rotate_left() and \<open>rb_rotate R\<close> is __rb_rotate_right().\<close>

definition rb_rotate :: "side \<Rightarrow> u64 \<Rightarrow> rb_root \<Rightarrow> rb_root res" where
  "rb_rotate d node s =
     res_bind (rd node s) (\<lambda>n.
     (let right = child (opp d) n; parent = rb_parent n
      in res_bind (rd right s) (\<lambda>r.
         res_bind (upd node (with_child (opp d) (child d r)) s) (\<lambda>s.
         res_bind (if child d r \<noteq> 0 then rb_set_parent (child d r) node s else Inr s) (\<lambda>s.
         res_bind (upd right (with_child d node) s) (\<lambda>s.
         res_bind (rb_set_parent right parent s) (\<lambda>s.
         res_bind (replace_child d parent node right s) (\<lambda>s.
           rb_set_parent node right s))))))))"

section \<open>Insertion\<close>

definition red_at :: "u64 \<Rightarrow> rb_root \<Rightarrow> bool res" where
  "red_at p s = (if p = 0 then Inr False else res_bind (rd p s) (\<lambda>n. Inr (rb_is_red n)))"

fun rb_insert_loop :: "nat \<Rightarrow> u64 \<Rightarrow> rb_root \<Rightarrow> rb_root res" where
  "rb_insert_loop 0 node s = Inl Diverge"
| "rb_insert_loop (Suc rounds) node s =
     res_bind (rd node s) (\<lambda>n.
     (let parent = rb_parent n
      in res_bind (red_at parent s) (\<lambda>red.
         if \<not> red then Inr s
         else
           res_bind (rd parent s) (\<lambda>p.
           (let gparent = rb_parent p
            in res_bind (rd gparent s) (\<lambda>g.
              (let d = (if parent = rb_left g then L else R); uncle = child (opp d) g
               in res_bind (red_at uncle s) (\<lambda>red.
                  if red then
                    res_bind (rb_set_black uncle s) (\<lambda>s.
                    res_bind (rb_set_black parent s) (\<lambda>s.
                    res_bind (rb_set_red gparent s) (\<lambda>s.
                      rb_insert_loop rounds gparent s)))
                  else
                    res_bind (if child (opp d) p = node
                              then res_bind (rb_rotate d parent s) (\<lambda>s. Inr (node, parent, s))
                              else Inr (parent, node, s)) (\<lambda>(parent, node, s).
                    res_bind (rb_set_black parent s) (\<lambda>s.
                    res_bind (rb_set_red gparent s) (\<lambda>s.
                    res_bind (rb_rotate (opp d) gparent s) (\<lambda>s.
                      rb_insert_loop rounds node s))))))))))))"

definition rb_insert_color :: "nat \<Rightarrow> u64 \<Rightarrow> rb_root \<Rightarrow> rb_root res" where
  "rb_insert_color fuel node s =
     res_bind (rb_insert_loop fuel node s) (\<lambda>s. rb_set_black (root_node s) s)"

text \<open>A link is the address of a child pointer: the root pointer (None) or a child of a node.\<close>

definition rb_link_node :: "u64 \<Rightarrow> u64 \<Rightarrow> (u64 \<times> side) option \<Rightarrow> rb_root \<Rightarrow> rb_root res" where
  "rb_link_node node parent rb_link s =
     res_bind (upd node (\<lambda>_. \<lparr>rb_parent_color = parent, rb_right = 0, rb_left = 0\<rparr>) s) (\<lambda>s.
       case rb_link of
         None \<Rightarrow> Inr (s\<lparr>root_node := node\<rparr>)
       | Some (p, d) \<Rightarrow> upd p (with_child d node) s)"

definition load_link :: "(u64 \<times> side) option \<Rightarrow> rb_root \<Rightarrow> u64 res" where
  "load_link lnk s =
     (case lnk of None \<Rightarrow> Inr (root_node s) | Some (p, d) \<Rightarrow> res_bind (rd p s) (\<lambda>n. Inr (child d n)))"

text \<open>The search loop of rb_insert(); None is the early return at an equal node.\<close>

fun rb_place_loop ::
  "nat \<Rightarrow> (u64 \<Rightarrow> u64 \<Rightarrow> int) \<Rightarrow> u64 \<Rightarrow> (u64 \<times> side) option \<Rightarrow> u64 \<Rightarrow> bool \<Rightarrow> bool \<Rightarrow> rb_root \<Rightarrow>
   ((u64 \<times> side) option \<times> u64 \<times> bool \<times> bool) option res" where
  "rb_place_loop 0 cmp node new parent leftmost rightmost s = Inl Diverge"
| "rb_place_loop (Suc rounds) cmp node new parent leftmost rightmost s =
     res_bind (load_link new s) (\<lambda>p.
       if p = 0 then Inr (Some (new, parent, leftmost, rightmost))
       else
         res_bind (rd p s) (\<lambda>_.
         (let result = cmp node p
          in if result < 0 then rb_place_loop rounds cmp node (Some (p, L)) p leftmost False s
             else if result > 0 then rb_place_loop rounds cmp node (Some (p, R)) p False rightmost s
             else Inr None)))"

definition rb_insert :: "nat \<Rightarrow> (u64 \<Rightarrow> u64 \<Rightarrow> int) \<Rightarrow> u64 \<Rightarrow> rb_root \<Rightarrow> rb_root res" where
  "rb_insert fuel cmp node s =
     res_bind (rb_place_loop fuel cmp node None 0 True True s) (\<lambda>place.
       case place of
         None \<Rightarrow> Inr s
       | Some (new, parent, leftmost, rightmost) \<Rightarrow>
          (let s = (if rightmost then s\<lparr>rb_rightmost := node\<rparr> else s);
               s = (if leftmost then s\<lparr>rb_leftmost := node\<rparr> else s)
           in res_bind (rb_link_node node parent new s) (\<lambda>s. rb_insert_color fuel node s)))"

section \<open>Walking the tree\<close>

text \<open>Going down from \<open>n\<close> on side \<open>d\<close> as far as possible.\<close>

fun rb_down :: "nat \<Rightarrow> side \<Rightarrow> u64 \<Rightarrow> rb_root \<Rightarrow> u64 res" where
  "rb_down 0 d p s = Inl Diverge"
| "rb_down (Suc rounds) d p s =
     res_bind (rd p s) (\<lambda>n. if child d n = 0 then Inr p else rb_down rounds d (child d n) s)"

definition rb_first :: "nat \<Rightarrow> rb_root \<Rightarrow> u64 res" where
  "rb_first fuel s = (if root_node s = 0 then Inr 0 else rb_down fuel L (root_node s) s)"

definition rb_last :: "nat \<Rightarrow> rb_root \<Rightarrow> u64 res" where
  "rb_last fuel s = (if root_node s = 0 then Inr 0 else rb_down fuel R (root_node s) s)"

text \<open>Going up as long as the node is the child of its parent on side \<open>d\<close>.\<close>

fun rb_up :: "nat \<Rightarrow> side \<Rightarrow> u64 \<Rightarrow> rb_root \<Rightarrow> u64 res" where
  "rb_up 0 d node s = Inl Diverge"
| "rb_up (Suc rounds) d node s =
     res_bind (rd node s) (\<lambda>n.
     (let parent = rb_parent n
      in if parent = 0 then Inr 0
         else res_bind (rd parent s) (\<lambda>p. if node = child d p then rb_up rounds d parent s else Inr parent)))"

definition rb_step :: "nat \<Rightarrow> side \<Rightarrow> u64 \<Rightarrow> rb_root \<Rightarrow> u64 res" where
  "rb_step fuel d node s =
     res_bind (rd node s) (\<lambda>n.
       if rb_parent n = node then Inr 0
       else if child d n \<noteq> 0 then rb_down fuel (opp d) (child d n) s
       else rb_up fuel d node s)"

definition rb_next :: "nat \<Rightarrow> u64 \<Rightarrow> rb_root \<Rightarrow> u64 res" where
  "rb_next fuel = rb_step fuel R"

definition rb_prev :: "nat \<Rightarrow> u64 \<Rightarrow> rb_root \<Rightarrow> u64 res" where
  "rb_prev fuel = rb_step fuel L"

section \<open>Removal\<close>

text \<open>The start of a round of __rb_erase_color(): the sibling of the node, after a rotation if it is red.\<close>

definition rb_erase_sibling :: "side \<Rightarrow> u64 \<Rightarrow> rb_root \<Rightarrow> (u64 \<times> rb_root) res" where
  "rb_erase_sibling d parent s =
     res_bind (rd parent s) (\<lambda>p.
     (let other = child (opp d) p
      in res_bind (rd other s) (\<lambda>x.
         if rb_is_red x then
           res_bind (rb_set_black other s) (\<lambda>s.
           res_bind (rb_set_red parent s) (\<lambda>s.
           res_bind (rb_rotate d parent s) (\<lambda>s.
           res_bind (rd parent s) (\<lambda>p. Inr (child (opp d) p, s)))))
         else Inr (other, s))))"

text \<open>The branch that ends the loop: the sibling has a red child.\<close>

definition rb_erase_rotate :: "side \<Rightarrow> u64 \<Rightarrow> u64 \<Rightarrow> rb_root \<Rightarrow> rb_root res" where
  "rb_erase_rotate d parent other s =
     res_bind (rd other s) (\<lambda>x.
     res_bind (red_at (child (opp d) x) s) (\<lambda>red.
     res_bind (if red then Inr (other, s)
               else
                 res_bind (rb_set_black (child d x) s) (\<lambda>s.
                 res_bind (rb_set_red other s) (\<lambda>s.
                 res_bind (rb_rotate (opp d) other s) (\<lambda>s.
                 res_bind (rd parent s) (\<lambda>p. Inr (child (opp d) p, s)))))) (\<lambda>(other, s).
     res_bind (rd parent s) (\<lambda>p.
     res_bind (rb_set_color other (rb_color p) s) (\<lambda>s.
     res_bind (rb_set_black parent s) (\<lambda>s.
     res_bind (rd other s) (\<lambda>x.
     res_bind (rb_set_black (child (opp d) x) s) (\<lambda>s.
       rb_rotate d parent s))))))))"

text \<open>The loop of __rb_erase_color(); the result is the variable node at its end.\<close>

fun rb_erase_loop :: "nat \<Rightarrow> u64 \<Rightarrow> u64 \<Rightarrow> rb_root \<Rightarrow> (u64 \<times> rb_root) res" where
  "rb_erase_loop 0 node parent s = Inl Diverge"
| "rb_erase_loop (Suc rounds) node parent s =
     res_bind (red_at node s) (\<lambda>red.
       if red \<or> node = root_node s then Inr (node, s)
       else
         res_bind (rd parent s) (\<lambda>p.
         (let d = (if rb_left p = node then L else R)
          in res_bind (rb_erase_sibling d parent s) (\<lambda>(other, s).
             res_bind (rd other s) (\<lambda>x.
             res_bind (red_at (rb_left x) s) (\<lambda>red.
             res_bind (if red then Inr True else red_at (rb_right x) s) (\<lambda>red.
               if \<not> red then
                 res_bind (rb_set_red other s) (\<lambda>s.
                 res_bind (rd parent s) (\<lambda>p. rb_erase_loop rounds parent (rb_parent p) s))
               else
                 res_bind (rb_erase_rotate d parent other s) (\<lambda>s. Inr (root_node s, s)))))))))"

definition rb_erase_color :: "nat \<Rightarrow> u64 \<Rightarrow> u64 \<Rightarrow> rb_root \<Rightarrow> rb_root res" where
  "rb_erase_color fuel node parent s =
     res_bind (rb_erase_loop fuel node parent s) (\<lambda>(node, s). if node \<noteq> 0 then rb_set_black node s else Inr s)"

text \<open>The node \<open>old\<close> has two children: its successor takes its place. The result is the child, the parent
  and the colour with which __rb_erase() goes on.\<close>

definition rb_splice_successor :: "nat \<Rightarrow> u64 \<Rightarrow> rb_root \<Rightarrow> (u64 \<times> u64 \<times> u64 \<times> rb_root) res" where
  "rb_splice_successor fuel old s =
     res_bind (rd old s) (\<lambda>x.
     res_bind (rb_down fuel L (rb_right x) s) (\<lambda>node.
     res_bind (replace_child L (rb_parent x) old node s) (\<lambda>s.
     res_bind (rd node s) (\<lambda>n.
     (let child = rb_right n; parent = rb_parent n; color = rb_color n
      in res_bind (if parent = old then Inr (node, s)
                   else
                     res_bind (if child \<noteq> 0 then rb_set_parent child parent s else Inr s) (\<lambda>s.
                     res_bind (upd parent (with_child L child) s) (\<lambda>s.
                     res_bind (rd old s) (\<lambda>x.
                     res_bind (upd node (with_child R (rb_right x)) s) (\<lambda>s.
                     res_bind (rb_set_parent (rb_right x) node s) (\<lambda>s. Inr (parent, s))))))) (\<lambda>(parent, s).
         res_bind (rd old s) (\<lambda>x.
         res_bind (upd node (\<lambda>n. n\<lparr>rb_parent_color := rb_parent_color x, rb_left := rb_left x\<rparr>) s) (\<lambda>s.
         res_bind (rb_set_parent (rb_left x) node s) (\<lambda>s. Inr (child, parent, color, s))))))))))"

text \<open>__rb_erase().\<close>

definition rb_erase_node :: "nat \<Rightarrow> u64 \<Rightarrow> rb_root \<Rightarrow> rb_root res" where
  "rb_erase_node fuel node s =
     res_bind (rd node s) (\<lambda>n.
     res_bind (if rb_left n \<noteq> 0 \<and> rb_right n \<noteq> 0 then rb_splice_successor fuel node s
               else
                (let child = (if rb_left n = 0 then rb_right n else rb_left n); parent = rb_parent n; color = rb_color n
                 in res_bind (if child \<noteq> 0 then rb_set_parent child parent s else Inr s) (\<lambda>s.
                    res_bind (replace_child L parent node child s) (\<lambda>s. Inr (child, parent, color, s))))) (\<lambda>(child, parent, color, s).
       if color = EVENT_RB_BLACK then rb_erase_color fuel child parent s else Inr s))"

definition rb_erase :: "nat \<Rightarrow> u64 \<Rightarrow> rb_root \<Rightarrow> rb_root res" where
  "rb_erase fuel node s =
     res_bind (if node = rb_leftmost s then res_bind (rb_next fuel node s) (\<lambda>p. Inr (s\<lparr>rb_leftmost := p\<rparr>)) else Inr s) (\<lambda>s.
     res_bind (if node = rb_rightmost s then res_bind (rb_prev fuel node s) (\<lambda>p. Inr (s\<lparr>rb_rightmost := p\<rparr>)) else Inr s) (\<lambda>s.
       rb_erase_node fuel node s))"

definition rb_replace_node :: "u64 \<Rightarrow> u64 \<Rightarrow> rb_root \<Rightarrow> rb_root res" where
  "rb_replace_node victim new s =
     res_bind (rd victim s) (\<lambda>v.
     res_bind (replace_child L (rb_parent v) victim new s) (\<lambda>s.
     res_bind (rd victim s) (\<lambda>v.
     res_bind (if rb_left v \<noteq> 0 then rb_set_parent (rb_left v) new s else Inr s) (\<lambda>s.
     res_bind (if rb_right v \<noteq> 0 then rb_set_parent (rb_right v) new s else Inr s) (\<lambda>s.
     res_bind (rd victim s) (\<lambda>v. upd new (\<lambda>_. v) s))))))"

section \<open>Augmented trees\<close>

text \<open>The callback of an augmented tree changes data of its own, which is threaded through.\<close>

fun rb_augment_path :: "nat \<Rightarrow> u64 \<Rightarrow> (u64 \<Rightarrow> 'd \<Rightarrow> 'd) \<Rightarrow> rb_root \<Rightarrow> 'd \<Rightarrow> 'd res" where
  "rb_augment_path 0 node func s data = Inl Diverge"
| "rb_augment_path (Suc rounds) node func s data =
     (let data = func node data
      in res_bind (rd node s) (\<lambda>n.
         (let parent = rb_parent n
          in if parent = 0 then Inr data
             else
               res_bind (rd parent s) (\<lambda>p.
                 rb_augment_path rounds parent func s
                   (if node = rb_left p \<and> rb_right p \<noteq> 0 then func (rb_right p) data
                    else if rb_left p \<noteq> 0 then func (rb_left p) data else data)))))"

definition rb_augment_insert :: "nat \<Rightarrow> u64 \<Rightarrow> (u64 \<Rightarrow> 'd \<Rightarrow> 'd) \<Rightarrow> rb_root \<Rightarrow> 'd \<Rightarrow> 'd res" where
  "rb_augment_insert fuel node func s data =
     res_bind (rd node s) (\<lambda>n.
       rb_augment_path fuel (if rb_left n \<noteq> 0 then rb_left n else if rb_right n \<noteq> 0 then rb_right n else node) func s data)"

definition rb_augment_erase_begin :: "nat \<Rightarrow> u64 \<Rightarrow> rb_root \<Rightarrow> u64 res" where
  "rb_augment_erase_begin fuel node s =
     res_bind (rd node s) (\<lambda>n.
       if rb_right n = 0 \<and> rb_left n = 0 then Inr (rb_parent n)
       else if rb_right n = 0 then Inr (rb_left n)
       else if rb_left n = 0 then Inr (rb_right n)
       else
         res_bind (rb_next fuel node s) (\<lambda>deepest.
         res_bind (rd deepest s) (\<lambda>m.
           Inr (if rb_right m \<noteq> 0 then rb_right m else if rb_parent m \<noteq> node then rb_parent m else deepest))))"

definition rb_augment_erase_end :: "nat \<Rightarrow> u64 \<Rightarrow> (u64 \<Rightarrow> 'd \<Rightarrow> 'd) \<Rightarrow> rb_root \<Rightarrow> 'd \<Rightarrow> 'd res" where
  "rb_augment_erase_end fuel node func s data = (if node \<noteq> 0 then rb_augment_path fuel node func s data else Inr data)"

section \<open>The index of the buffer cache\<close>

text \<open>
  A buffer head contains its node; \<open>blocknr\<close> gives the block number of the buffer head around a node.
  The difference of two block numbers is read as a signed number.
\<close>

definition buffer_blocknr_cmp :: "(u64 \<Rightarrow> u64) \<Rightarrow> u64 \<Rightarrow> u64 \<Rightarrow> int" where
  "buffer_blocknr_cmp blocknr a b =
     (if sint (blocknr a - blocknr b) < 0 then -1 else if sint (blocknr a - blocknr b) > 0 then 1 else 0)"

fun rb_buffer_search :: "nat \<Rightarrow> (u64 \<Rightarrow> u64) \<Rightarrow> u64 \<Rightarrow> u64 \<Rightarrow> rb_root \<Rightarrow> u64 res" where
  "rb_buffer_search 0 blocknr new b s = Inl Diverge"
| "rb_buffer_search (Suc rounds) blocknr new b s =
     (if new = 0 then Inr 0
      else
        res_bind (rd new s) (\<lambda>n.
        (let result = sint (b - blocknr new)
         in if result < 0 then rb_buffer_search rounds blocknr (rb_left n) b s
            else if result > 0 then rb_buffer_search rounds blocknr (rb_right n) b s
            else Inr new)))"

definition rb_find_buffer :: "nat \<Rightarrow> (u64 \<Rightarrow> u64) \<Rightarrow> u64 \<Rightarrow> rb_root \<Rightarrow> u64 res" where
  "rb_find_buffer fuel blocknr b s = rb_buffer_search fuel blocknr (root_node s) b s"

end
