(* ===== verification/E4F_Rbshape.thy ===== *)
theory E4F_Rbshape
  imports E4F_Rbtree
begin

text \<open>
  The tree that a heap of nodes represents, its contexts (the path from a position back to the root), and
  what the rotations and the changes of colours and links do to it.
\<close>

section \<open>Trees and contexts\<close>

datatype ptree = Tip | Node ptree u64 bool ptree

text \<open>The flag of a node is true for black.\<close>

fun rootp :: "ptree \<Rightarrow> u64" where
  "rootp Tip = 0"
| "rootp (Node l a c r) = a"

fun inorder :: "ptree \<Rightarrow> u64 list" where
  "inorder Tip = []"
| "inorder (Node l a c r) = inorder l @ a # inorder r"

text \<open>A node with the child \<open>t\<close> on side \<open>d\<close> and \<open>u\<close> on the other one.\<close>

fun join :: "side \<Rightarrow> u64 \<Rightarrow> bool \<Rightarrow> ptree \<Rightarrow> ptree \<Rightarrow> ptree" where
  "join L a c t u = Node t a c u"
| "join R a c t u = Node u a c t"

text \<open>A frame is an ancestor: the side of the position, its address and colour, and its other child.\<close>

datatype frame = Frame side u64 bool ptree

fun plug :: "ptree \<Rightarrow> frame list \<Rightarrow> ptree" where
  "plug t [] = t"
| "plug t (Frame d a c u # k) = plug (join d a c t u) k"

fun up :: "frame list \<Rightarrow> u64" where
  "up [] = 0"
| "up (Frame d a c u # k) = a"

definition node_of :: "u64 \<Rightarrow> bool \<Rightarrow> u64 \<Rightarrow> u64 \<Rightarrow> rb_node" where
  "node_of p c l r = \<lparr>rb_parent_color = p OR (if c then 1 else 0), rb_right = r, rb_left = l\<rparr>"

definition node_on :: "side \<Rightarrow> u64 \<Rightarrow> bool \<Rightarrow> u64 \<Rightarrow> u64 \<Rightarrow> rb_node" where
  "node_on d p c x y = (case d of L \<Rightarrow> node_of p c x y | R \<Rightarrow> node_of p c y x)"

fun laid :: "(u64 \<rightharpoonup> rb_node) \<Rightarrow> u64 \<Rightarrow> ptree \<Rightarrow> bool" where
  "laid h p Tip \<longleftrightarrow> True"
| "laid h p (Node l a c r) \<longleftrightarrow> h a = Some (node_of p c (rootp l) (rootp r)) \<and> laid h a l \<and> laid h a r"

text \<open>Addresses are not NULL, aligned to four bytes, and those of different nodes differ.\<close>

definition good_addrs :: "u64 list \<Rightarrow> bool" where
  "good_addrs as \<longleftrightarrow> distinct as \<and> (\<forall>a\<in>set as. a \<noteq> 0 \<and> a AND 3 = 0)"

definition rep :: "rb_root \<Rightarrow> ptree \<Rightarrow> bool" where
  "rep s t \<longleftrightarrow> root_node s = rootp t \<and> laid (nodes s) 0 t \<and> good_addrs (inorder t)"

text \<open>The frames of a context lie in the heap \<open>h\<close> with the root pointer \<open>r\<close>, and \<open>q\<close> is at its position.\<close>

fun ctx_laid :: "(u64 \<rightharpoonup> rb_node) \<Rightarrow> u64 \<Rightarrow> u64 \<Rightarrow> frame list \<Rightarrow> bool" where
  "ctx_laid h r q [] \<longleftrightarrow> r = q"
| "ctx_laid h r q (Frame d a c u # k) \<longleftrightarrow>
     h a = Some (node_on d (up k) c q (rootp u)) \<and> laid h a u \<and> ctx_laid h r a k"

fun addrs :: "frame list \<Rightarrow> u64 list" where
  "addrs [] = []"
| "addrs (Frame d a c u # k) = a # inorder u @ addrs k"

lemma rootp_join [simp]: "rootp (join d a c t u) = a"
  by (cases d) auto

lemma set_inorder_join [simp]: "set (inorder (join d a c t u)) = insert a (set (inorder t) \<union> set (inorder u))"
  by (cases d) auto

lemma distinct_inorder_join [simp]:
  "distinct (inorder (join d a c t u)) \<longleftrightarrow> distinct (a # inorder t @ inorder u)"
  by (cases d) auto

lemma laid_join [simp]:
  "laid h p (join d a c t u) \<longleftrightarrow> h a = Some (node_on d p c (rootp t) (rootp u)) \<and> laid h a t \<and> laid h a u"
  by (cases d) (auto simp: node_on_def)

lemma laid_plug_iff:
  "laid h 0 (plug t k) \<and> r = rootp (plug t k) \<longleftrightarrow> laid h (up k) t \<and> ctx_laid h r (rootp t) k"
proof (induction k arbitrary: t)
  case (Cons f k)
  then show ?case by (cases f) (auto simp: conj_ac)
qed auto

lemma set_inorder_plug [simp]: "set (inorder (plug t k)) = set (inorder t) \<union> set (addrs k)"
proof (induction k arbitrary: t)
  case (Cons f k)
  then show ?case by (cases f) auto
qed simp

lemma distinct_inorder_plug [simp]: "distinct (inorder (plug t k)) \<longleftrightarrow> distinct (inorder t @ addrs k)"
proof (induction k arbitrary: t)
  case (Cons f k)
  then show ?case by (cases f) auto
qed simp

lemma good_addrs_plug: "good_addrs (inorder (plug t k)) \<longleftrightarrow> good_addrs (inorder t @ addrs k)"
  by (simp add: good_addrs_def)

lemma rep_plug:
  "rep s (plug t k) \<longleftrightarrow> laid (nodes s) (up k) t \<and> ctx_laid (nodes s) (root_node s) (rootp t) k \<and>
     good_addrs (inorder t @ addrs k)"
  using laid_plug_iff [of "nodes s" t k "root_node s"] by (auto simp: rep_def good_addrs_plug)

lemma laid_upd [simp]: "a \<notin> set (inorder t) \<Longrightarrow> laid (h(a \<mapsto> v)) p t = laid h p t"
  by (induction t arbitrary: p) auto

lemma ctx_laid_upd [simp]: "a \<notin> set (addrs k) \<Longrightarrow> ctx_laid (h(a \<mapsto> v)) r q k = ctx_laid h r q k"
proof (induction k arbitrary: q)
  case (Cons f k)
  then show ?case by (cases f) (simp del: fun_upd_apply, auto)
qed simp

section \<open>Packed words\<close>

lemma packed:
  fixes p :: u64
  assumes "p AND 3 = 0"
  shows "(p OR (if c then 1 else 0)) AND NOT 3 = p" "(p OR (if c then 1 else 0)) AND 1 = (if c then 1 else 0)"
    "(p OR (if c then 1 else 0)) AND 3 = (if c then 1 else 0)" "(p OR (if c then 1 else 0)) AND NOT 1 = p"
proof -
  have "(3 :: u64) = mask 2"
    by (simp add: mask_eq_exp_minus_1)
  then have b3: "bit (3 :: u64) i \<longleftrightarrow> i < 2" for i
    by (simp only: bit_mask_iff) auto
  have b: "\<not> bit p i" if "i < 2" for i
    using assms that by (metis b3 bit_0_eq bit_and_iff bot_apply bot_bool_def)
  show "(p OR (if c then 1 else 0)) AND NOT 3 = p"
    by (rule bit_word_eqI) (use b b3 in \<open>auto simp: bit_simps intro!: gr0I\<close>)
  show "(p OR (if c then 1 else 0)) AND 1 = (if c then 1 else 0)"
    by (rule bit_word_eqI) (use b in \<open>auto simp: bit_simps intro!: gr0I\<close>)
  show "(p OR (if c then 1 else 0)) AND 3 = (if c then 1 else 0)"
    by (rule bit_word_eqI) (use b b3 in \<open>auto simp: bit_simps intro!: gr0I\<close>)
  show "(p OR (if c then 1 else 0)) AND NOT 1 = p"
    by (rule bit_word_eqI) (use b in \<open>auto simp: bit_simps intro!: gr0I\<close>)
qed

section \<open>Nodes and their fields\<close>

lemma opp_opp [simp]: "opp (opp d) = d" by (cases d) auto
lemma opp_neq [simp]: "opp d \<noteq> d" "d \<noteq> opp d" by (cases d; simp)+

lemma node_on_opp [simp]: "node_on (opp d) p c x y = node_on d p c y x"
  by (cases d) (auto simp: node_on_def)

lemma join_opp: "join (opp d) a c t u = join d a c u t"
  by (cases d) auto

lemma child_node_on [simp]: "child d (node_on d p c x y) = x" "child (opp d) (node_on d p c x y) = y"
  by (cases d; simp add: child_def node_on_def node_of_def)+

lemma with_child_node_on [simp]:
  "with_child d z (node_on d p c x y) = node_on d p c z y" "with_child (opp d) z (node_on d p c x y) = node_on d p c x z"
  by (cases d; simp add: with_child_def node_on_def node_of_def)+

lemma node_on_fields [simp]:
  assumes "p AND 3 = 0"
  shows "rb_parent (node_on d p c x y) = p" "rb_is_red (node_on d p c x y) \<longleftrightarrow> \<not> c"
    "rb_is_black (node_on d p c x y) \<longleftrightarrow> c" "rb_color (node_on d p c x y) = (if c then 1 else 0)"
  using packed [OF assms, of c]
  by (cases d; simp add: rb_parent_def rb_is_red_def rb_is_black_def rb_color_def node_on_def node_of_def split: if_splits)+

lemma node_on_color [simp]: "rb_parent_color (node_on d p c x y) = p OR (if c then 1 else 0)"
  by (cases d) (auto simp: node_on_def node_of_def)

lemma set_color_node_on:
  assumes "p AND 3 = 0"
  shows "(node_on d p c x y)\<lparr>rb_parent_color := (p OR (if c then 1 else 0)) AND NOT 1\<rparr> = node_on d p False x y"
    "(node_on d p c x y)\<lparr>rb_parent_color := (p OR (if c then 1 else 0)) OR 1\<rparr> = node_on d p True x y"
    "(node_on d p c x y)\<lparr>rb_parent_color := ((p OR (if c then 1 else 0)) AND 3) OR q\<rparr> = node_on d q c x y"
  unfolding packed [OF assms]
  by (cases d; simp add: node_on_def node_of_def or.assoc or.commute)+

lemma node_of_on: "node_of p c l r = node_on L p c l r"
  by (simp add: node_on_def)

lemma rd_Some [simp]: "nodes s p = Some n \<Longrightarrow> p \<noteq> 0 \<Longrightarrow> rd p s = Inr n"
  by (simp add: rd_def)

lemma upd_Some: "nodes s p = Some n \<Longrightarrow> p \<noteq> 0 \<Longrightarrow> upd p f s = Inr (s\<lparr>nodes := (nodes s)(p \<mapsto> f n)\<rparr>)"
  by (simp add: upd_def)

lemma set_parent_run:
  "nodes s a = Some (node_on d p c x y) \<Longrightarrow> a \<noteq> 0 \<Longrightarrow> p AND 3 = 0 \<Longrightarrow>
    rb_set_parent a q s = Inr (s\<lparr>nodes := (nodes s)(a \<mapsto> node_on d q c x y)\<rparr>)"
  by (simp add: rb_set_parent_def upd_Some set_color_node_on)

lemma set_black_run:
  "nodes s a = Some (node_on d p c x y) \<Longrightarrow> a \<noteq> 0 \<Longrightarrow> p AND 3 = 0 \<Longrightarrow>
    rb_set_black a s = Inr (s\<lparr>nodes := (nodes s)(a \<mapsto> node_on d p True x y)\<rparr>)"
  by (simp add: rb_set_black_def upd_Some set_color_node_on)

lemma set_red_run:
  "nodes s a = Some (node_on d p c x y) \<Longrightarrow> a \<noteq> 0 \<Longrightarrow> p AND 3 = 0 \<Longrightarrow>
    rb_set_red a s = Inr (s\<lparr>nodes := (nodes s)(a \<mapsto> node_on d p False x y)\<rparr>)"
  using set_color_node_on(1) [where p = p and c = c and d = d and x = x and y = y] by (cases c) (simp_all add: rb_set_red_def upd_Some)

section \<open>Links between a tree and its context\<close>

fun reparent :: "u64 \<Rightarrow> ptree \<Rightarrow> (u64 \<rightharpoonup> rb_node) \<Rightarrow> (u64 \<rightharpoonup> rb_node)" where
  "reparent q Tip h = h"
| "reparent q (Node l a c r) h = h(a \<mapsto> node_of q c (rootp l) (rootp r))"

fun relink :: "u64 \<Rightarrow> frame list \<Rightarrow> rb_root \<Rightarrow> rb_root" where
  "relink q [] s = s\<lparr>root_node := q\<rparr>"
| "relink q (Frame d a c u # k) s = s\<lparr>nodes := (nodes s)(a \<mapsto> node_on d (up k) c q (rootp u))\<rparr>"

lemma laid_cong: "\<forall>a\<in>set (inorder t). h a = h' a \<Longrightarrow> laid h p t = laid h' p t"
  by (induction t arbitrary: p) auto

lemma ctx_laid_cong: "\<forall>a\<in>set (addrs k). h a = h' a \<Longrightarrow> ctx_laid h r q k = ctx_laid h' r q k"
proof (induction k arbitrary: q)
  case (Cons f k)
  obtain d a c u where f: "f = Frame d a c u" by (cases f)
  show ?case using Cons laid_cong [of u h h'] by (simp add: f)
qed simp

lemma reparent_other [simp]: "a \<notin> set (inorder t) \<Longrightarrow> reparent q t h a = h a"
  by (cases t) auto

lemma reparent_laid [simp]: "laid h p t \<Longrightarrow> distinct (inorder t) \<Longrightarrow> laid (reparent q t h) q t"
  by (cases t) auto

lemma relink_other [simp]: "a \<notin> set (addrs k) \<Longrightarrow> nodes (relink q k s) a = nodes s a"
  by (cases "(q, k, s)" rule: relink.cases) auto

lemma relink_frame [simp]:
  "rb_leftmost (relink q k s) = rb_leftmost s" "rb_rightmost (relink q k s) = rb_rightmost s"
  by (cases "(q, k, s)" rule: relink.cases; simp)+

lemma good_addrs_append:
  "good_addrs (xs @ ys) \<longleftrightarrow> good_addrs xs \<and> good_addrs ys \<and> set xs \<inter> set ys = {}"
  by (auto simp: good_addrs_def)

lemma good_addrs_Cons:
  "good_addrs (a # xs) \<longleftrightarrow> a \<noteq> 0 \<and> a AND 3 = 0 \<and> a \<notin> set xs \<and> good_addrs xs"
  by (auto simp: good_addrs_def)

lemma up_aligned [simp]: "good_addrs (addrs k) \<Longrightarrow> up k AND 3 = 0"
  by (cases k rule: addrs.cases) (auto simp: good_addrs_Cons)

lemma relink_ctx [simp]:
  "ctx_laid (nodes s) (root_node s) p k \<Longrightarrow> good_addrs (addrs k) \<Longrightarrow>
    ctx_laid (nodes (relink q k s)) (root_node (relink q k s)) q k"
  by (cases k rule: addrs.cases) (auto simp: good_addrs_Cons good_addrs_append fun_upd_same simp del: fun_upd_apply)

lemma rootp_in: "rootp t \<noteq> 0 \<Longrightarrow> rootp t \<in> set (inorder t)"
  by (cases t) auto

lemma rootp_0 [simp]: "good_addrs (inorder t) \<Longrightarrow> rootp t = 0 \<longleftrightarrow> t = Tip"
  by (cases t) (auto simp: good_addrs_def)

lemma side_cases: "d = d' \<or> d = opp d'"
  by (cases d; cases d') auto

lemma replace_child_run:
  assumes k: "ctx_laid (nodes s) (root_node s) old k" "good_addrs (addrs k)" and old: "old \<noteq> 0" "old \<notin> set (addrs k)"
  shows "replace_child d (up k) old new s = Inr (relink new k s)"
proof (cases k rule: addrs.cases)
  case 1
  then show ?thesis by (simp add: replace_child_def)
next
  case (2 d' a c u k')
  have "old \<noteq> rootp u"
    using old rootp_in [of u] by (auto simp: 2)
  then show ?thesis
    using k old side_cases [of d d'] by (auto simp: 2 replace_child_def good_addrs_Cons upd_Some)
qed

lemma reparent_run:
  assumes "laid (nodes s) p t" "good_addrs (inorder t)" "p AND 3 = 0"
  shows "(if rootp t \<noteq> 0 then rb_set_parent (rootp t) q s else Inr s) = Inr (s\<lparr>nodes := reparent q t (nodes s)\<rparr>)"
  using assms by (cases t) (auto simp: node_of_on set_parent_run good_addrs_def)

section \<open>Rotation\<close>

definition same_ends :: "rb_root \<Rightarrow> rb_root \<Rightarrow> bool" where
  "same_ends s s' \<longleftrightarrow> rb_leftmost s' = rb_leftmost s \<and> rb_rightmost s' = rb_rightmost s"

lemma rotate_run:
  assumes r: "rep s (plug (join d x c A (join d y e B C)) k)"
  obtains s' where "rb_rotate d x s = Inr s'" "rep s' (plug (join d y e (join d x c A B) C) k)" "same_ends s s'"
proof -
  let ?X = "node_on d (up k) c (rootp A) y" and ?Y = "node_on d x e (rootp B) (rootp C)"
  have h: "nodes s x = Some ?X" "nodes s y = Some ?Y" "laid (nodes s) x A" "laid (nodes s) y B" "laid (nodes s) y C"
    "ctx_laid (nodes s) (root_node s) x k"
    and g: "good_addrs (inorder (join d x c A (join d y e B C)) @ addrs k)"
    using r by (auto simp: rep_plug)
  have g': "x \<noteq> 0" "x AND 3 = 0" "y \<noteq> 0" "y AND 3 = 0" "x \<noteq> y" "good_addrs (inorder A)" "good_addrs (inorder B)"
    "good_addrs (inorder C)" "good_addrs (addrs k)" "x \<notin> set (inorder A)" "x \<notin> set (inorder B)" "x \<notin> set (inorder C)"
    "x \<notin> set (addrs k)" "y \<notin> set (inorder A)" "y \<notin> set (inorder B)" "y \<notin> set (inorder C)" "y \<notin> set (addrs k)"
    "set (inorder A) \<inter> set (inorder B) = {}" "set (inorder B) \<inter> set (inorder C) = {}"
    "set (inorder B) \<inter> set (addrs k) = {}"  "set (inorder A) \<inter> set (addrs k) = {}" "set (inorder C) \<inter> set (addrs k) = {}"
    using g by (auto simp: good_addrs_def)
  define s1 where "s1 = s\<lparr>nodes := (nodes s)(x \<mapsto> node_on d (up k) c (rootp A) (rootp B))\<rparr>"
  define s2 where "s2 = s1\<lparr>nodes := reparent x B (nodes s1)\<rparr>"
  define s3 where "s3 = s2\<lparr>nodes := (nodes s2)(y \<mapsto> node_on d x e x (rootp C))\<rparr>"
  define s4 where "s4 = s3\<lparr>nodes := (nodes s3)(y \<mapsto> node_on d (up k) e x (rootp C))\<rparr>"
  define s5 where "s5 = relink y k s4"
  define s6 where "s6 = s5\<lparr>nodes := (nodes s5)(x \<mapsto> node_on d y c (rootp A) (rootp B))\<rparr>"
  have 1: "upd x (with_child (opp d) (rootp B)) s = Inr s1"
    using h g' by (simp add: upd_Some s1_def)
  have 2: "(if rootp B \<noteq> 0 then rb_set_parent (rootp B) x s1 else Inr s1) = Inr s2"
    unfolding s2_def by (rule reparent_run [where p = y]) (use h g' in \<open>simp_all add: s1_def\<close>)
  have n2: "nodes s2 y = Some ?Y" "nodes s2 x = Some (node_on d (up k) c (rootp A) (rootp B))"
    using h g' by (simp_all add: s2_def s1_def)
  have 3: "upd y (with_child d x) s2 = Inr s3"
    using n2 g' by (simp add: upd_Some s3_def)
  have 4: "rb_set_parent y (up k) s3 = Inr s4"
    using n2 g' by (simp add: s3_def s4_def set_parent_run)
  have fr: "nodes s4 a = nodes s a" if "a \<noteq> x" "a \<noteq> y" "a \<notin> set (inorder B)" for a
    using that by (simp add: s4_def s3_def s2_def s1_def)
  have root4: "root_node s4 = root_node s"
    by (simp add: s4_def s3_def s2_def s1_def)
  have "\<forall>a\<in>set (addrs k). nodes s a = nodes s4 a"
    using fr g' by (metis IntI empty_iff)
  then have c4: "ctx_laid (nodes s4) (root_node s4) x k"
    using h(6) ctx_laid_cong [of k "nodes s" "nodes s4"] root4 by simp
  have 5: "replace_child d (up k) x y s4 = Inr s5"
    unfolding s5_def by (rule replace_child_run) (use c4 g' in auto)
  have n5: "nodes s5 x = Some (node_on d (up k) c (rootp A) (rootp B))" "nodes s5 y = Some (node_on d (up k) e x (rootp C))"
    using n2 g' by (simp_all add: s5_def s4_def s3_def)
  have 6: "rb_set_parent x y s5 = Inr s6"
    using n5 g' by (simp add: s6_def set_parent_run)
  have run: "rb_rotate d x s = Inr s6"
    using h(1,2) g'(1-5,7,9) 1 2 3 4 5 6 by (cases "B = Tip") (simp_all add: rb_rotate_def Let_def)
  have c6: "ctx_laid (nodes s6) (root_node s6) y k"
    using relink_ctx [OF c4, of y] g' by (simp add: s6_def s5_def)
  have nodes_s4: "nodes s4 = (nodes s2)(y \<mapsto> node_on d (up k) e x (rootp C))"
    by (simp add: s4_def s3_def)
  have fr6: "nodes s6 a = nodes s4 a" if "a \<noteq> x" "a \<notin> set (addrs k)" for a
    using that by (simp add: s6_def s5_def)
  have "\<forall>a\<in>set (inorder A). nodes s a = nodes s6 a" "\<forall>a\<in>set (inorder C). nodes s a = nodes s6 a"
    using fr fr6 g' by (metis IntI empty_iff)+
  then have A: "laid (nodes s6) x A" and C: "laid (nodes s6) y C"
    using h(3,5) laid_cong by blast+
  have "laid (nodes s2) x B"
    using h(4) g' by (simp add: s2_def s1_def good_addrs_def)
  moreover have "\<forall>a\<in>set (inorder B). nodes s2 a = nodes s6 a"
    using fr6 g' by (metis (no_types, lifting) IntI empty_iff fun_upd_other nodes_s4)
  ultimately have B: "laid (nodes s6) x B"
    using laid_cong by blast
  have "rep s6 (plug (join d y e (join d x c A B) C) k)"
    using A B C c6 n5 g' g by (auto simp: rep_plug s6_def good_addrs_def)
  with run show ?thesis
    by (rule that) (simp add: same_ends_def s6_def s5_def s4_def s3_def s2_def s1_def)
qed

section \<open>Loads and colours\<close>

fun is_red :: "ptree \<Rightarrow> bool" where
  "is_red Tip \<longleftrightarrow> False"
| "is_red (Node l a c r) \<longleftrightarrow> \<not> c"

fun paint :: "bool \<Rightarrow> ptree \<Rightarrow> ptree" where
  "paint c' Tip = Tip"
| "paint c' (Node l a c r) = Node l a c' r"

fun sub :: "side \<Rightarrow> ptree \<Rightarrow> ptree" where
  "sub d Tip = Tip"
| "sub L (Node l a c r) = l"
| "sub R (Node l a c r) = r"

lemma join_sub: "Node l a c r = join d a c (sub d (Node l a c r)) (sub (opp d) (Node l a c r))"
  by (cases d) auto

lemma is_red_join [simp]: "is_red (join d a c t u) \<longleftrightarrow> \<not> c" by (cases d) auto
lemma paint_join [simp]: "paint c' (join d a c t u) = join d a c' t u" by (cases d) auto
lemma join_neq_Tip [simp]: "join d a c t u \<noteq> Tip" "Tip \<noteq> join d a c t u" by (cases d; simp)+

lemma ptree_join_cases: obtains "t = Tip" | a c t1 t2 where "t = join d a c t1 t2"
  by (cases t; cases d) (auto intro: that)

lemma rep_rd:
  assumes "rep s (plug (join d a c t u) k)"
  shows "rd a s = Inr (node_on d (up k) c (rootp t) (rootp u))" "a \<noteq> 0" "up k AND 3 = 0" "rootp t \<noteq> a" "rootp u \<noteq> a"
    "rootp t = 0 \<longleftrightarrow> t = Tip" "rootp u = 0 \<longleftrightarrow> u = Tip" "rootp t = rootp u \<longleftrightarrow> t = Tip \<and> u = Tip"
proof -
  have g: "good_addrs (inorder (join d a c t u) @ addrs k)" and h: "nodes s a = Some (node_on d (up k) c (rootp t) (rootp u))"
    using assms by (auto simp: rep_plug)
  have g': "good_addrs (addrs k)" "good_addrs (inorder t)" "good_addrs (inorder u)" "set (inorder t) \<inter> set (inorder u) = {}"
    using g by (auto simp: good_addrs_def)
  show a: "a \<noteq> 0" and "up k AND 3 = 0"
    using g g' by (auto simp: good_addrs_def)
  then show "rd a s = Inr (node_on d (up k) c (rootp t) (rootp u))"
    using h by simp
  show "rootp t = 0 \<longleftrightarrow> t = Tip" "rootp u = 0 \<longleftrightarrow> u = Tip"
    using g' by simp_all
  show "rootp t \<noteq> a" "rootp u \<noteq> a"
    using a g rootp_in [of t] rootp_in [of u] by (auto simp: good_addrs_def)
  show "rootp t = rootp u \<longleftrightarrow> t = Tip \<and> u = Tip"
    using g' rootp_in [of t] rootp_in [of u] rootp_0 [of t] rootp_0 [of u] by (metis IntI empty_iff rootp.simps(1))
qed

lemma red_at_run:
  assumes "rep s (plug t k)"
  shows "red_at (rootp t) s = Inr (is_red t)"
proof (cases t rule: ptree_join_cases [where d = L])
  case 1
  then show ?thesis by (simp add: red_at_def)
next
  case (2 a c t1 t2)
  then show ?thesis
    using rep_rd [of s L a c t1 t2 k] assms by (simp add: red_at_def)
qed

lemma recolor:
  assumes r: "rep s (plug (join d a c t u) k)"
  shows "rep (s\<lparr>nodes := (nodes s)(a \<mapsto> node_on d (up k) c' (rootp t) (rootp u))\<rparr>) (plug (join d a c' t u) k)"
  using r by (auto simp: rep_plug good_addrs_def fun_upd_same simp del: fun_upd_apply)

lemma paint_run:
  assumes r: "rep s (plug t k)" and t: "t \<noteq> Tip"
  obtains s' where "(if c then rb_set_black (rootp t) s else rb_set_red (rootp t) s) = Inr s'"
    "rep s' (plug (paint c t) k)" "same_ends s s'"
proof (cases t rule: ptree_join_cases [where d = L])
  case 1
  with t show ?thesis by simp
next
  case (2 a c0 t1 t2)
  let ?s = "s\<lparr>nodes := (nodes s)(a \<mapsto> node_on L (up k) c (rootp t1) (rootp t2))\<rparr>"
  have "nodes s a = Some (node_on L (up k) c0 (rootp t1) (rootp t2))" "a \<noteq> 0" "up k AND 3 = 0"
    using rep_rd(2,3) [OF r [unfolded 2]] r by (simp_all add: 2 rep_plug node_of_on)
  then have "(if c then rb_set_black (rootp t) s else rb_set_red (rootp t) s) = Inr ?s"
    using 2 by (simp add: set_black_run set_red_run)
  then show ?thesis
    by (rule that) (use recolor [of s L a c0 t1 t2 k c] r 2 in \<open>auto simp: same_ends_def\<close>)
qed

lemmas blacken_run = paint_run [where c = True, simplified]
lemmas redden_run = paint_run [where c = False, simplified]

lemma same_ends_trans [trans]: "same_ends s s' \<Longrightarrow> same_ends s' s'' \<Longrightarrow> same_ends s s''"
  by (simp add: same_ends_def)

lemma same_ends_refl [simp]: "same_ends s s"
  by (simp add: same_ends_def)

end
