(* ===== verification/E4F_Rbinsert.thy ===== *)
theory E4F_Rbinsert
  imports E4F_Rbshape
begin

text \<open>
  Insertion into the red-black tree of src/rbtree.c: what the repair loop does to the tree that the heap
  represents, that the red-black properties hold afterwards, and that insertion and search implement a
  map from block numbers to nodes.
\<close>

section \<open>The repair loop on trees\<close>

text \<open>The red tree \<open>t\<close> at a position whose parent may be red.\<close>

fun ins_fix :: "ptree \<Rightarrow> frame list \<Rightarrow> ptree" where
  "ins_fix t [] = t"
| "ins_fix t [f] = plug t [f]"
| "ins_fix t (Frame d p cp u # Frame d' g cg v # k) =
     (if cp then plug t (Frame d p cp u # Frame d' g cg v # k)
      else if is_red v then ins_fix (join d' g False (join d p True t u) (paint True v)) k
      else if d = d' then plug (join d' p True t (join d' g False u v)) k
      else plug (join d' (rootp t) True (join d' p False u (sub d' t)) (join d' g False (sub d t) v)) k)"

fun root_black :: "frame list \<Rightarrow> bool" where
  "root_black [] \<longleftrightarrow> True"
| "root_black [Frame d a c u] \<longleftrightarrow> c"
| "root_black (f # k) \<longleftrightarrow> root_black k"

lemma node_at:
  assumes "rep s (plug t k)" "t = join d a c x y"
  shows "rd a s = Inr (node_on d (up k) c (rootp x) (rootp y))"
  using rep_rd(1) assms by blast

lemma insert_stop:
  assumes r: "rep s (plug (join e a False x y) k)" and k: "k = [] \<or> (\<exists>d p u k'. k = Frame d p True u # k')"
  shows "rb_insert_loop (Suc n) a s = Inr s"
proof -
  note a = rep_rd(1,3) [OF r]
  show ?thesis
  proof (cases "k = []")
    case True
    then show ?thesis using a by (simp add: red_at_def)
  next
    case False
    then obtain d p u k' where k': "k = Frame d p True u # k'" using k by blast
    have "rep s (plug (join d p True (join e a False x y) u) k')"
      using r by (simp add: k')
    note p = rep_rd(1,2,3) [OF this]
    then show ?thesis using a by (simp add: k' red_at_def)
  qed
qed

lemma insert_loop_run:
  assumes "rep s (plug t k)" "is_red t" "root_black k" "length k < n"
  shows "\<exists>s'. rb_insert_loop n (rootp t) s = Inr s' \<and> rep s' (ins_fix t k) \<and> same_ends s s'"
  using assms
proof (induction t k arbitrary: s n rule: ins_fix.induct)
  case (1 t)
  obtain m where n: "n = Suc m" using 1 by (cases n) auto
  obtain a x y where t: "t = join L a False x y" using 1 by (cases t) auto
  have "rb_insert_loop n (rootp t) s = Inr s"
    unfolding n t rootp_join by (rule insert_stop [where e = L and x = x and y = y and k = "[]"]) (use 1 t in auto)
  then show ?case using 1 by simp
next
  case (2 t f)
  obtain m where n: "n = Suc m" using 2 by (cases n) auto
  obtain a x y where t: "t = join L a False x y" using 2 by (cases t) auto
  obtain d p u where f: "f = Frame d p True u" using 2 by (cases f) auto
  have "rb_insert_loop n (rootp t) s = Inr s"
    unfolding n t rootp_join by (rule insert_stop [where e = L and x = x and y = y and k = "[f]"]) (use 2 t f in auto)
  then show ?case using 2 by (auto simp: f)
next
  case (3 t d p cp u d' g cg v k)
  obtain m where n: "n = Suc m" using 3 by (cases n) auto
  obtain a x y where t: "t = join d' a False x y" using 3 by (cases t; cases d') auto
  show ?case
  proof (cases cp)
    case True
    have "rb_insert_loop n (rootp t) s = Inr s"
      unfolding n t rootp_join by (rule insert_stop [where e = d' and x = x and y = y and k = "Frame d p cp u # Frame d' g cg v # k"]) (use 3 True t in auto)
    then show ?thesis using 3 True by auto
  next
    case False
    let ?P = "join d p False t u"
    have rP: "rep s (plug ?P (Frame d' g cg v # k))" and rG: "rep s (plug (join d' g cg ?P v) k)"
      using 3 False by simp_all
    have rV: "rep s (plug v (Frame (opp d') g cg ?P # k))"
      using rG by (simp add: join_opp)
    note rt = 3(2) [unfolded t]
    note A = rep_rd [OF rt] and P = rep_rd [OF rP] and G = rep_rd [OF rG]
    have pl: "(if p = rb_left (node_on d' (up k) cg p (rootp v)) then L else R) = d'"
      using G by (cases d') (auto simp: node_on_def node_of_def)
    have redp: "red_at p s = Inr True"
      using P by (simp add: red_at_def)
    have aP: "child (opp d') (node_on d g False (rootp t) (rootp u)) = a \<longleftrightarrow> d \<noteq> d'"
      using P side_cases [of d d'] by (auto simp: t)
    show ?thesis
    proof (cases "is_red v")
      case True
      then have "v \<noteq> Tip" by auto
      obtain s1 where s1: "rb_set_black (rootp v) s = Inr s1" "rep s1 (plug (paint True v) (Frame (opp d') g cg ?P # k))" "same_ends s s1"
        using blacken_run [OF rV \<open>v \<noteq> Tip\<close>] by blast
      have "rep s1 (plug ?P (Frame d' g cg (paint True v) # k))"
        using s1(2) by (simp add: join_opp)
      then obtain s2 where s2: "rb_set_black p s1 = Inr s2" "rep s2 (plug (join d p True t u) (Frame d' g cg (paint True v) # k))" "same_ends s1 s2"
        using blacken_run [of s1 ?P "Frame d' g cg (paint True v) # k"] by auto
      obtain s3 where s3: "rb_set_red g s2 = Inr s3" "rep s3 (plug (join d' g False (join d p True t u) (paint True v)) k)" "same_ends s2 s3"
        using redden_run [of s2 "join d' g cg (join d p True t u) (paint True v)" k] s2(2) by auto
      have "root_black k" "length k < m"
        using 3 n by (cases k; auto)+
      then obtain s' where s': "rb_insert_loop m g s3 = Inr s'" "rep s' (ins_fix (join d' g False (join d p True t u) (paint True v)) k)" "same_ends s3 s'"
        using 3(1) [OF False True s3(2)] by auto
      have "rb_insert_loop n (rootp t) s = Inr s'"
        using A P G pl redp red_at_run [OF rV] True s1(1) s2(1) s3(1) s'(1) by (simp add: n t Let_def)
      then show ?thesis
        using s' s1(3) s2(3) s3(3) False True by (auto simp: same_ends_def)
    next
      case nred: False
      show ?thesis
      proof (cases "d = d'")
        case True
        obtain s1 where s1: "rb_set_black p s = Inr s1" "rep s1 (plug (join d p True t u) (Frame d' g cg v # k))" "same_ends s s1"
          using blacken_run [OF rP] by auto
        obtain s2 where s2: "rb_set_red g s1 = Inr s2" "rep s2 (plug (join d' g False (join d p True t u) v) k)" "same_ends s1 s2"
          using redden_run [of s1 "join d' g cg (join d p True t u) v" k] s1(2) by auto
        have "rep s2 (plug (join (opp d') g False v (join (opp d') p True u t)) k)"
          using s2(2) True by (simp add: join_opp)
        then obtain s3 where s3: "rb_rotate (opp d') g s2 = Inr s3" "rep s3 (plug (join (opp d') p True (join (opp d') g False v u) t) k)" "same_ends s2 s3"
          by (rule rotate_run)
        have r3: "rep s3 (plug (join d' p True t (join d' g False u v)) k)"
          using s3(2) by (simp add: join_opp)
        have "rb_insert_loop m a s3 = Inr s3"
        proof -
          obtain m' where "m = Suc m'" using 3 n by (cases m) auto
          then show ?thesis using insert_stop [of s3 d' a x y "Frame d' p True (join d' g False u v) # k" m'] r3 t by simp
        qed
        then have "rb_insert_loop n (rootp t) s = Inr s3"
          using A P G pl redp red_at_run [OF rV] nred aP True s1(1) s2(1) s3(1) by (simp add: n t Let_def)
        then show ?thesis
          using r3 s1(3) s2(3) s3(3) False nred True by (auto simp: same_ends_def)
      next
        case diff: False
        then have d: "d = opp d'" using side_cases [of d d'] by simp
        have "rep s (plug (join d' p False u (join d' a False x y)) (Frame d' g cg v # k))"
          using rP by (simp add: d join_opp t)
        then obtain s0 where s0: "rb_rotate d' p s = Inr s0" "rep s0 (plug (join d' a False (join d' p False u x) y) (Frame d' g cg v # k))" "same_ends s s0"
          by (rule rotate_run)
        obtain s1 where s1: "rb_set_black a s0 = Inr s1" "rep s1 (plug (join d' a True (join d' p False u x) y) (Frame d' g cg v # k))" "same_ends s0 s1"
          using blacken_run [OF s0(2)] by auto
        obtain s2 where s2: "rb_set_red g s1 = Inr s2" "rep s2 (plug (join d' g False (join d' a True (join d' p False u x) y) v) k)" "same_ends s1 s2"
          using redden_run [of s1 "join d' g cg (join d' a True (join d' p False u x) y) v" k] s1(2) by auto
        have "rep s2 (plug (join (opp d') g False v (join (opp d') a True y (join d' p False u x))) k)"
          using s2(2) by (simp add: join_opp)
        then obtain s3 where s3: "rb_rotate (opp d') g s2 = Inr s3" "rep s3 (plug (join (opp d') a True (join (opp d') g False v y) (join d' p False u x)) k)" "same_ends s2 s3"
          by (rule rotate_run)
        have r3: "rep s3 (plug (join d' a True (join d' p False u x) (join d' g False y v)) k)"
          using s3(2) by (simp add: join_opp)
        have "rb_insert_loop m p s3 = Inr s3"
        proof -
          obtain m' where "m = Suc m'" using 3 n by (cases m) auto
          then show ?thesis using insert_stop [of s3 d' p u x "Frame d' a True (join d' g False y v) # k" m'] r3 by simp
        qed
        then have run: "rb_insert_loop n (rootp t) s = Inr s3"
          using A P G pl redp red_at_run [OF rV] nred aP diff s0(1) s1(1) s2(1) s3(1) by (simp add: n t Let_def)
        have "sub d' t = x" "sub d t = y"
          by (cases d'; simp add: t d)+
        then show ?thesis
          using run r3 s0(3) s1(3) s2(3) s3(3) False nred diff by (auto simp: t same_ends_def)
      qed
    qed
  qed
qed

section \<open>Order and balance\<close>

fun before :: "frame list \<Rightarrow> u64 list" where
  "before [] = []"
| "before (Frame d a c u # k) = before k @ (case d of L \<Rightarrow> [] | R \<Rightarrow> inorder u @ [a])"

fun behind :: "frame list \<Rightarrow> u64 list" where
  "behind [] = []"
| "behind (Frame d a c u # k) = (case d of L \<Rightarrow> a # inorder u | R \<Rightarrow> []) @ behind k"

text \<open>The black height, the same on all paths, and no red node with a red child.\<close>

fun bheight :: "ptree \<Rightarrow> nat" where
  "bheight Tip = 0"
| "bheight (Node l a c r) = bheight l + of_bool c"

fun invh :: "ptree \<Rightarrow> bool" where
  "invh Tip \<longleftrightarrow> True"
| "invh (Node l a c r) \<longleftrightarrow> bheight l = bheight r \<and> invh l \<and> invh r"

fun invc :: "ptree \<Rightarrow> bool" where
  "invc Tip \<longleftrightarrow> True"
| "invc (Node l a c r) \<longleftrightarrow> (\<not> c \<longrightarrow> \<not> is_red l \<and> \<not> is_red r) \<and> invc l \<and> invc r"

definition red_black :: "ptree \<Rightarrow> bool" where
  "red_black t \<longleftrightarrow> invc t \<and> invh t \<and> \<not> is_red t"

fun ctx_h :: "nat \<Rightarrow> frame list \<Rightarrow> bool" where
  "ctx_h b [] \<longleftrightarrow> True"
| "ctx_h b (Frame d a c u # k) \<longleftrightarrow> invh u \<and> bheight u = b \<and> ctx_h (b + of_bool c) k"

fun ctx_c :: "bool \<Rightarrow> frame list \<Rightarrow> bool" where
  "ctx_c red [] \<longleftrightarrow> True"
| "ctx_c red (Frame d a c u # k) \<longleftrightarrow> invc u \<and> (\<not> c \<longrightarrow> \<not> is_red u \<and> \<not> red) \<and> ctx_c (\<not> c) k"

lemma inorder_plug: "inorder (plug t k) = before k @ inorder t @ behind k"
proof (induction k arbitrary: t)
  case (Cons f k)
  obtain d a c u where "f = Frame d a c u" by (cases f)
  then show ?case using Cons by (cases d) auto
qed simp

lemma bheight_join [simp]: "invh (join d a c t u) \<Longrightarrow> bheight (join d a c t u) = bheight t + of_bool c"
  by (cases d) auto

lemma invh_join [simp]: "invh (join d a c t u) \<longleftrightarrow> bheight t = bheight u \<and> invh t \<and> invh u"
  by (cases d) auto

lemma invc_join [simp]:
  "invc (join d a c t u) \<longleftrightarrow> (\<not> c \<longrightarrow> \<not> is_red t \<and> \<not> is_red u) \<and> invc t \<and> invc u"
  by (cases d) auto

lemma invh_plug: "invh (plug t k) \<longleftrightarrow> invh t \<and> ctx_h (bheight t) k"
proof (induction k arbitrary: t)
  case (Cons f k)
  obtain d a c u where f: "f = Frame d a c u" by (cases f)
  show ?case using Cons [of "join d a c t u"] by (cases "bheight t = bheight u") (auto simp: f)
qed simp

lemma invc_plug: "invc (plug t k) \<longleftrightarrow> invc t \<and> ctx_c (is_red t) k"
proof (induction k arbitrary: t)
  case (Cons f k)
  then show ?case by (cases f) auto
qed simp

lemma ctx_c_mono: "ctx_c r k \<Longrightarrow> ctx_c False k"
  by (cases k rule: addrs.cases) auto

lemma paint_facts [simp]: "inorder (paint c t) = inorder t" "\<not> is_red (paint True t)" "invh (paint c t) = invh t"
  by (cases t; simp)+

lemma paint_black: "is_red t \<Longrightarrow> bheight (paint True t) = Suc (bheight t)" "invc t \<Longrightarrow> invc (paint True t)"
  by (cases t; simp)+

lemma red_bheight: "is_red t \<Longrightarrow> invh t \<Longrightarrow> bheight t = bheight (sub d t) \<and> bheight (sub d t) = bheight (sub (opp d) t)"
  by (cases t; cases d) auto

lemma sub_facts: "invc t \<Longrightarrow> invc (sub d t)" "invh t \<Longrightarrow> invh (sub d t)" "is_red t \<Longrightarrow> invc t \<Longrightarrow> \<not> is_red (sub d t)"
  by (cases t; cases d; simp)+

lemma inorder_sub: "is_red t \<Longrightarrow> inorder t = inorder (sub L t) @ rootp t # inorder (sub R t)"
  by (cases t) auto

lemma inorder_ins_fix: "is_red t \<Longrightarrow> inorder (ins_fix t k) = inorder (plug t k)"
proof (induction t k rule: ins_fix.induct)
  case (3 t d p cp u d' g cg v k)
  have 1: "inorder (join d' g False (join d p True t u) (paint True v)) = inorder (join d' g cg (join d p cp t u) v)"
    by (cases d; cases d') auto
  have 2: "inorder (join d' p True t (join d' g False u v)) = inorder (join d' g cg (join d' p cp t u) v)"
    by (cases d') auto
  have 3: "inorder (join d' (rootp t) True (join d' p False u (sub d' t)) (join d' g False (sub d t) v))
      = inorder (join d' g cg (join d p cp t u) v)" if "d \<noteq> d'"
    using that inorder_sub [OF 3(2)] by (cases d; cases d') auto
  show ?case
    using 1 2 3 "3.IH" by (auto simp: inorder_plug)
qed auto

lemma ins_fix_balanced:
  "is_red t \<Longrightarrow> invc t \<Longrightarrow> ctx_c False k \<Longrightarrow> invh t \<Longrightarrow> ctx_h (bheight t) k \<Longrightarrow> root_black k \<Longrightarrow>
    invc (ins_fix t k) \<and> invh (ins_fix t k)"
proof (induction t k rule: ins_fix.induct)
  case (2 t f)
  then show ?case by (cases f) auto
next
  case (3 t d p cp u d' g cg v k)
  note h = "3.prems"
  have cg: "cg" if "\<not> cp" using h that by auto
  show ?case
  proof (cases cp)
    case True
    have "invc (plug t (Frame d p cp u # Frame d' g cg v # k))"
      using h True by (simp add: invc_plug)
    moreover have "invh (plug t (Frame d p cp u # Frame d' g cg v # k))"
      using h by (simp only: invh_plug)
    ultimately show ?thesis using True by simp
  next
    case False
    note h' = h [simplified] False cg [OF False]
    have k: "ctx_c False k" using h' by simp
    show ?thesis
    proof (cases "is_red v")
      case True
      let ?t = "join d' g False (join d p True t u) (paint True v)"
      have "root_black k" using h by (cases k) auto
      then show ?thesis
        using "3.IH" [OF False True] h' True k paint_black [of v] by (simp add: ac_simps)
    next
      case nred: False
      show ?thesis
      proof (cases "d = d'")
        case True
        then show ?thesis
          using h' nred k False by (simp add: invc_plug invh_plug ac_simps)
      next
        case False
        have d: "d = opp d'" using side_cases [of d d'] False by simp
        have "bheight (sub d' t) = bheight t" "bheight (sub d t) = bheight t"
          using red_bheight [of t d'] h d by auto
        then show ?thesis
          using h' nred k False sub_facts [of t d] sub_facts [of t d'] by (simp add: invc_plug invh_plug ac_simps)
      qed
    qed
  qed
qed auto

section \<open>Finding the place\<close>

lemma blocknr_sub:
  fixes a b :: u64
  assumes "unat a < 2 ^ 63" "unat b < 2 ^ 63"
  shows "sint (a - b) = uint a - uint b"
proof -
  have ab: "a - b = word_of_int (uint a - uint b)"
    by (simp only: word_sub_wi)
  have "uint a < 2 ^ 63" "uint b < 2 ^ 63"
    using assms by (metis uint_nat of_nat_less_iff of_nat_numeral of_nat_power)+
  moreover have "0 \<le> uint a" "0 \<le> uint b"
    by simp_all
  ultimately have "- (2 ^ 63) \<le> uint a - uint b \<and> uint a - uint b < 2 ^ 63"
    by linarith
  then have "signed_take_bit 63 (uint a - uint b) = uint a - uint b"
    by (blast intro: signed_take_bit_int_eq_self)
  then show ?thesis
    unfolding ab by (simp only: sint_sbintrunc') simp
qed

definition ordered :: "(u64 \<Rightarrow> u64) \<Rightarrow> u64 list \<Rightarrow> bool" where
  "ordered blocknr xs \<longleftrightarrow> sorted_wrt (\<lambda>a b. blocknr a < blocknr b) xs \<and> (\<forall>a\<in>set xs. unat (blocknr a) < 2 ^ 63)"

lemma ordered_append:
  "ordered f (xs @ ys) \<longleftrightarrow> ordered f xs \<and> ordered f ys \<and> (\<forall>x\<in>set xs. \<forall>y\<in>set ys. f x < f y)"
  by (auto simp: ordered_def sorted_wrt_append)

lemma ordered_Cons:
  "ordered f (x # xs) \<longleftrightarrow> unat (f x) < 2 ^ 63 \<and> (\<forall>y\<in>set xs. f x < f y) \<and> ordered f xs"
  by (auto simp: ordered_def)

lemma blocknr_cmp:
  assumes "unat (f a) < 2 ^ 63" "unat (f b) < 2 ^ 63"
  shows "buffer_blocknr_cmp f a b = (if f a < f b then -1 else if f b < f a then 1 else 0)"
  using assms by (simp add: buffer_blocknr_cmp_def blocknr_sub word_less_def)

fun link_of :: "frame list \<Rightarrow> (u64 \<times> side) option" where
  "link_of [] = None"
| "link_of (Frame d a c u # k) = Some (a, d)"

lemma load_link_run:
  assumes "rep s (plug t k)"
  shows "load_link (link_of k) s = Inr (rootp t)"
proof (cases k rule: link_of.cases)
  case 1
  then show ?thesis using assms by (simp add: load_link_def rep_def)
next
  case (2 d a c u k')
  then have "rep s (plug (join d a c t u) k')" using assms by simp
  from rep_rd(1) [OF this] show ?thesis by (simp add: 2 load_link_def)
qed

lemma place_run:
  assumes "rep s (plug t k)" "ordered f (inorder t)" "unat (f x) < 2 ^ 63" "f x \<notin> f ` set (inorder t)"
    "\<forall>y\<in>set (before k). f y < f x" "\<forall>y\<in>set (behind k). f x < f y" "length (inorder t) < n"
  shows "\<exists>k'. rb_place_loop n (buffer_blocknr_cmp f) x (link_of k) (up k) (before k = []) (behind k = []) s =
      Inr (Some (link_of k', up k', before k' = [], behind k' = [])) \<and> plug Tip k' = plug t k \<and>
      (\<forall>y\<in>set (before k'). f y < f x) \<and> (\<forall>y\<in>set (behind k'). f x < f y)"
  using assms
proof (induction t arbitrary: k n)
  case Tip
  obtain m where n: "n = Suc m" using Tip by (cases n) auto
  show ?case
    using Tip load_link_run [of s Tip k] by (intro exI [of _ k]) (simp add: n)
next
  case (Node l a c r)
  note prems = Node.prems
  obtain m where n: "n = Suc m" using prems by (cases n) auto
  have r: "rep s (plug (join L a c l r) k)" using prems by simp
  note a = rep_rd(1,2) [OF r]
  have fa: "unat (f a) < 2 ^ 63" "f x \<noteq> f a" using prems by (auto simp: ordered_append ordered_Cons)
  note c = blocknr_cmp [of f, OF prems(3) fa(1)]
  show ?case
  proof (cases "f x < f a")
    case True
    have "\<forall>y\<in>set (behind (Frame L a c r # k)). f x < f y" "ordered f (inorder l)" "f x \<notin> f ` set (inorder l)"
      using prems(2,4,6) True by (auto simp: ordered_append ordered_Cons)
    then obtain k' where k': "rb_place_loop m (buffer_blocknr_cmp f) x (link_of (Frame L a c r # k)) (up (Frame L a c r # k))
          (before (Frame L a c r # k) = []) (behind (Frame L a c r # k) = []) s =
        Inr (Some (link_of k', up k', before k' = [], behind k' = []))" "plug Tip k' = plug l (Frame L a c r # k)"
        "\<forall>y\<in>set (before k'). f y < f x" "\<forall>y\<in>set (behind k'). f x < f y"
      using Node.IH(1) [of "Frame L a c r # k" m] prems(1,3,5,7) n by auto
    then show ?thesis
      using load_link_run [OF r] a c True by (intro exI [of _ k']) (simp add: n Let_def)
  next
    case False
    then have gt: "f a < f x" using fa by simp
    have "\<forall>y\<in>set (before (Frame R a c l # k)). f y < f x" "ordered f (inorder r)" "f x \<notin> f ` set (inorder r)"
      using prems(2,4,5) gt by (auto simp: ordered_append ordered_Cons dest: order.strict_trans)
    then obtain k' where k': "rb_place_loop m (buffer_blocknr_cmp f) x (link_of (Frame R a c l # k)) (up (Frame R a c l # k))
          (before (Frame R a c l # k) = []) (behind (Frame R a c l # k) = []) s =
        Inr (Some (link_of k', up k', before k' = [], behind k' = []))" "plug Tip k' = plug r (Frame R a c l # k)"
        "\<forall>y\<in>set (before k'). f y < f x" "\<forall>y\<in>set (behind k'). f x < f y"
      using Node.IH(2) [of "Frame R a c l # k" m] prems(1,3,6,7) n by auto
    then show ?thesis
      using load_link_run [OF r] a c gt False by (intro exI [of _ k']) (simp add: n Let_def)
  qed
qed

lemma link_run:
  assumes r: "rep s (plug Tip k)" and x: "nodes s x \<noteq> None" "x \<noteq> 0" "x AND 3 = 0" "x \<notin> set (addrs k)"
  obtains s' where "rb_link_node x (up k) (link_of k) s = Inr s'" "rep s' (plug (Node Tip x False Tip) k)" "same_ends s s'"
proof -
  let ?s = "s\<lparr>nodes := (nodes s)(x \<mapsto> node_on L (up k) False 0 0)\<rparr>"
  have g: "good_addrs (addrs k)" and k: "ctx_laid (nodes s) (root_node s) 0 k"
    using r by (auto simp: rep_plug)
  have k1: "ctx_laid (nodes ?s) (root_node ?s) 0 k"
    using k x by (simp del: fun_upd_apply)
  have "upd x (\<lambda>_. \<lparr>rb_parent_color = up k, rb_right = 0, rb_left = 0\<rparr>) s = Inr ?s"
    using x by (auto simp: upd_Some node_on_def node_of_def)
  then have "rb_link_node x (up k) (link_of k) s = Inr (relink x k ?s)"
    using k1 g by (cases k rule: link_of.cases) (auto simp: rb_link_node_def upd_Some good_addrs_Cons)
  moreover have "rep (relink x k ?s) (plug (Node Tip x False Tip) k)"
    using relink_ctx [OF k1 g, of x] g x by (simp add: rep_plug good_addrs_Cons node_of_on)
  ultimately show ?thesis
    by (rule that) (simp add: same_ends_def)
qed

section \<open>The index as a map\<close>

text \<open>
  The state \<open>s\<close> is an index with the tree \<open>t\<close>: the heap represents \<open>t\<close>, which is a red-black tree ordered
  by block number, and the two shortcuts point to its ends. Its map gives the node of a block number.
\<close>

definition rb_index :: "(u64 \<Rightarrow> u64) \<Rightarrow> rb_root \<Rightarrow> ptree \<Rightarrow> bool" where
  "rb_index f s t \<longleftrightarrow> rep s t \<and> red_black t \<and> ordered f (inorder t) \<and>
     (inorder t \<noteq> [] \<longrightarrow> rb_leftmost s = hd (inorder t) \<and> rb_rightmost s = last (inorder t))"

definition index_map :: "(u64 \<Rightarrow> u64) \<Rightarrow> ptree \<Rightarrow> u64 \<rightharpoonup> u64" where
  "index_map f t = map_of (map (\<lambda>a. (f a, a)) (inorder t))"

definition fresh_node :: "(u64 \<Rightarrow> u64) \<Rightarrow> rb_root \<Rightarrow> ptree \<Rightarrow> u64 \<Rightarrow> bool" where
  "fresh_node f s t x \<longleftrightarrow> nodes s x \<noteq> None \<and> x \<noteq> 0 \<and> x AND 3 = 0 \<and> x \<notin> set (inorder t) \<and>
     unat (f x) < 2 ^ 63 \<and> f x \<notin> f ` set (inorder t)"

lemma length_frames: "length k \<le> length (inorder (plug t k))"
proof (induction k arbitrary: t)
  case (Cons f k)
  have le: "length (inorder t) \<le> length (inorder (plug t k))" for t k
    by (simp add: inorder_plug)
  obtain d a c u where f: "f = Frame d a c u" by (cases f)
  have "length (addrs k) \<ge> length k" for k
    by (induction k rule: addrs.induct) auto
  moreover have "length (before k) + length (behind k) = length (addrs k)" for k
  proof (induction k)
    case (Cons f k)
    then show ?case by (cases f) (auto split: side.splits)
  qed simp
  ultimately have "length (f # k) \<le> length (before (f # k)) + length (behind (f # k))"
    by metis
  then show ?case by (simp add: inorder_plug del: before.simps behind.simps)
qed simp

lemma root_black_plug: "\<not> is_red (plug t k) \<Longrightarrow> root_black k"
proof (induction k arbitrary: t rule: root_black.induct)
  case (3 f g k)
  obtain d a c u where "f = Frame d a c u" by (cases f)
  then show ?case using 3 by auto
qed auto

lemma map_of_insert:
  "f x \<notin> f ` set (xs @ ys) \<Longrightarrow>
    map_of (map (\<lambda>a. (f a, a)) (xs @ x # ys)) = (map_of (map (\<lambda>a. (f a, a)) (xs @ ys)))(f x \<mapsto> x)"
  by (induction xs) auto

lemma insert_color_run:
  assumes r: "rep s (plug (Node Tip x False Tip) k)" and b: "invc (plug Tip k)" "invh (plug Tip k)" "\<not> is_red (plug Tip k)"
    and n: "length k < n"
  shows "\<exists>s' t'. rb_insert_color n x s = Inr s' \<and> rep s' t' \<and> red_black t' \<and> inorder t' = before k @ x # behind k \<and> same_ends s s'"
proof -
  let ?t = "Node Tip x False Tip" and ?t' = "ins_fix (Node Tip x False Tip) k"
  have k: "root_black k" "ctx_c False k" "ctx_h 0 k"
    using b root_black_plug [of Tip k] by (auto simp: invc_plug invh_plug)
  obtain s1 where s1: "rb_insert_loop n x s = Inr s1" "rep s1 ?t'" "same_ends s s1"
    using insert_loop_run [OF r _ k(1) n] by auto
  have bal: "invc ?t'" "invh ?t'"
    using ins_fix_balanced [of ?t k] k by auto
  have io: "inorder ?t' = before k @ x # behind k"
    by (simp add: inorder_ins_fix inorder_plug)
  then have "?t' \<noteq> Tip" by auto
  then obtain s2 where s2: "rb_set_black (rootp ?t') s1 = Inr s2" "rep s2 (paint True ?t')" "same_ends s1 s2"
    using blacken_run [of s1 ?t' "[]"] s1(2) by auto
  have "rb_insert_color n x s = Inr s2"
    using s1 s2 by (simp add: rb_insert_color_def rep_def)
  then show ?thesis
    using s2 s1(3) bal io paint_black(2) by (auto simp: red_black_def intro: same_ends_trans intro!: exI [of _ "paint True ?t'"])
qed

lemma insert_index:
  assumes i: "rb_index f s t" and x: "fresh_node f s t x" and n: "length (inorder t) < n"
  shows "\<exists>s' t'. rb_insert n (buffer_blocknr_cmp f) x s = Inr s' \<and> rb_index f s' t' \<and>
    index_map f t' = (index_map f t)(f x \<mapsto> x) \<and> length (inorder t') = Suc (length (inorder t))"
proof -
  have t: "rep s t" "red_black t" "ordered f (inorder t)"
    and ends: "inorder t \<noteq> [] \<longrightarrow> rb_leftmost s = hd (inorder t) \<and> rb_rightmost s = last (inorder t)"
    using i by (auto simp: rb_index_def)
  obtain k where k: "rb_place_loop n (buffer_blocknr_cmp f) x None 0 True True s =
      Inr (Some (link_of k, up k, before k = [], behind k = []))" "plug Tip k = t"
      "\<forall>y\<in>set (before k). f y < f x" "\<forall>y\<in>set (behind k). f x < f y"
    using place_run [of s t "[]" f x n] t x n by (auto simp: fresh_node_def)
  have io: "inorder t = before k @ behind k"
    using k(2) inorder_plug [of Tip k] by simp
  have k_addrs: "x \<notin> set (addrs k)"
    using x set_inorder_plug [of Tip k] k(2) by (simp add: fresh_node_def)
  define s0 where "s0 = (if behind k = [] then s\<lparr>rb_rightmost := x\<rparr> else s)"
  define s1 where "s1 = (if before k = [] then s0\<lparr>rb_leftmost := x\<rparr> else s0)"
  have "rep s1 (plug Tip k)" "nodes s1 = nodes s"
    using t k(2) by (auto simp: s1_def s0_def rep_def)
  then obtain s2 where s2: "rb_link_node x (up k) (link_of k) s1 = Inr s2" "rep s2 (plug (Node Tip x False Tip) k)" "same_ends s1 s2"
    using link_run [of s1 k x] x k_addrs by (auto simp: fresh_node_def)
  have "length k < n"
    using length_frames [of k Tip] k(2) n by simp
  then obtain s3 t' where s3: "rb_insert_color n x s2 = Inr s3" "rep s3 t'" "red_black t'" "inorder t' = before k @ x # behind k" "same_ends s2 s3"
    using insert_color_run [OF s2(2), of n] t(2) k(2) by (auto simp: red_black_def)
  have run: "rb_insert n (buffer_blocknr_cmp f) x s = Inr s3"
    using k(1) s2(1) s3(1) s1_def
    by (cases "before k = []") (simp_all add: rb_insert_def Let_def flip: s0_def)
  have ord: "ordered f (inorder t')"
    using t(3) x k(3,4) by (auto simp: s3(4) io ordered_append ordered_Cons fresh_node_def dest: order.strict_trans)
  have "rb_leftmost s3 = hd (inorder t') \<and> rb_rightmost s3 = last (inorder t')"
    using ends s2(3) s3(5) by (cases "before k"; cases "behind k" rule: rev_cases)
      (auto simp: io s3(4) same_ends_def s1_def s0_def)
  then have "rb_index f s3 t'"
    using s3 ord by (simp add: rb_index_def)
  moreover have "index_map f t' = (index_map f t)(f x \<mapsto> x)"
    using map_of_insert [of f x "before k" "behind k"] x by (simp add: index_map_def s3(4) io fresh_node_def)
  ultimately show ?thesis
    using run by (auto simp: s3(4) io)
qed

fun height :: "ptree \<Rightarrow> nat" where
  "height Tip = 0"
| "height (Node l a c r) = Suc (max (height l) (height r))"

lemma search_run:
  assumes "rep s (plug t k)" "ordered f (inorder t)" "unat b < 2 ^ 63" "height t < n"
  shows "rb_buffer_search n f (rootp t) b s = Inr (case index_map f t b of None \<Rightarrow> 0 | Some a \<Rightarrow> a)"
  using assms
proof (induction t arbitrary: k n)
  case Tip
  then show ?case by (cases n) (auto simp: index_map_def)
next
  case (Node l a c r)
  obtain m where n: "n = Suc m" using Node.prems by (cases n) auto
  have r: "rep s (plug (join L a c l r) k)" "rep s (plug l (Frame L a c r # k))" "rep s (plug r (Frame R a c l # k))"
    using Node.prems by simp_all
  note a = rep_rd(1,2) [OF r(1)]
  have o: "ordered f (inorder l)" "ordered f (inorder r)" "unat (f a) < 2 ^ 63" "\<forall>x\<in>set (inorder l). f x < f a" "\<forall>x\<in>set (inorder r). f a < f x"
    using Node.prems by (auto simp: ordered_append ordered_Cons)
  have none: "index_map f u b = None" if "\<forall>x\<in>set (inorder u). f x \<noteq> b" for u
    using that by (auto simp: index_map_def map_of_eq_None_iff)
  have m: "index_map f (Node l a c r) b = (if b < f a then index_map f l b else if f a < b then index_map f r b else Some a)"
  proof -
    have lr: "index_map f (Node l a c r) b = (case index_map f l b of Some v \<Rightarrow> Some v | None \<Rightarrow>
        if b = f a then Some a else index_map f r b)"
      by (simp add: index_map_def map_add_def split: option.splits)
    consider "b < f a" | "b = f a" | "f a < b" by (rule linorder_cases)
    then show ?thesis
    proof cases
      case 1
      with o(5) have "index_map f r b = None" by (intro none) auto
      with 1 lr show ?thesis by (auto split: option.splits)
    next
      case 2
      with o(4) have "index_map f l b = None" by (intro none) auto
      with 2 lr show ?thesis by simp
    next
      case 3
      with o(4) have "index_map f l b = None" by (intro none) auto
      with 3 lr show ?thesis by auto
    qed
  qed
  have sg: "sint (b - f a) < 0 \<longleftrightarrow> b < f a" "0 < sint (b - f a) \<longleftrightarrow> f a < b"
    using blocknr_sub [OF Node.prems(3) o(3)] by (simp_all add: word_less_def)
  show ?case
    using Node.IH(1) [OF r(2) o(1) Node.prems(3), of m] Node.IH(2) [OF r(3) o(2) Node.prems(3), of m] Node.prems(4) a m sg
    by (auto simp: n Let_def node_on_def node_of_def)
qed

lemma height_le_length: "height t \<le> length (inorder t)"
  by (induction t) auto

lemma height_le_bheight: "invc t \<Longrightarrow> invh t \<Longrightarrow> height t \<le> 2 * bheight t + of_bool (is_red t)"
proof (induction t)
  case (Node l a c r)
  then show ?case by (cases c; cases "is_red l"; cases "is_red r") (auto simp: max_def split: if_splits)
qed simp

lemma bheight_le_length: "invh t \<Longrightarrow> 2 ^ bheight t \<le> length (inorder t) + 1"
proof (induction t)
  case (Node l a c r)
  then show ?case by (cases c) auto
qed simp

lemma red_black_height:
  assumes "red_black t" "length (inorder t) + 1 < 2 ^ m"
  shows "height t < 2 * m"
proof -
  have "invh t"
    using assms(1) by (simp add: red_black_def)
  then have "(2 :: nat) ^ bheight t < 2 ^ m"
    using assms(2) by (rule le_less_trans [OF bheight_le_length])
  then have "bheight t < m"
    by (rule power_less_imp_less_exp [rotated]) simp
  then show ?thesis
    using height_le_bheight [of t] assms(1) by (simp add: red_black_def)
qed

lemma find_buffer_run:
  assumes "rb_index f s t" "unat b < 2 ^ 63" "length (inorder t) < n"
  shows "rb_find_buffer n f b s = Inr (case index_map f t b of None \<Rightarrow> 0 | Some a \<Rightarrow> a)"
  using search_run [of s t "[]" f b n] assms height_le_length [of t]
  by (simp add: rb_find_buffer_def rb_index_def rep_def)

text \<open>C3: The red-black tree implements the map that the cache uses as its index: inserting the node of a
  new buffer head keeps the tree ordered, balanced and correctly linked, with its shortcuts to both ends,
  and afterwards a search finds that node for its block number and for every other block number what it
  found before. Block numbers must be below 2^63, since the code compares them by a signed difference.\<close>

theorem rb_insert_then_search:
  assumes "rb_index f s t" "fresh_node f s t x" "unat b < 2 ^ 63" "length (inorder t) + 1 < n"
  shows "\<exists>s' t'. rb_insert n (buffer_blocknr_cmp f) x s = Inr s' \<and> rb_index f s' t' \<and>
    length (inorder t') = Suc (length (inorder t)) \<and>
    rb_find_buffer n f b s' = (if b = f x then Inr x else rb_find_buffer n f b s)"
proof -
  obtain s' t' where s': "rb_insert n (buffer_blocknr_cmp f) x s = Inr s'" "rb_index f s' t'"
    "index_map f t' = (index_map f t)(f x \<mapsto> x)" "length (inorder t') = Suc (length (inorder t))"
    using insert_index [OF assms(1,2), of n] assms(4) by auto
  then have "length (inorder t') < n" "length (inorder t) < n" using assms(4) by simp_all
  from find_buffer_run [OF s'(2) assms(3) this(1)] find_buffer_run [OF assms(1,3) this(2)] show ?thesis
    using s' assms(4) by (intro exI [of _ s'] exI [of _ t']) simp
qed

text \<open>A tree of three buffers, and the node of a fourth one in the heap.\<close>

definition demo_rb_tree :: ptree where
  "demo_rb_tree = Node (Node Tip 8 False Tip) 16 True (Node Tip 24 False Tip)"

definition demo_rb_heap :: rb_root where
  "demo_rb_heap = \<lparr>root_node = 16, rb_leftmost = 8, rb_rightmost = 24,
     nodes = [8 \<mapsto> node_of 16 False 0 0, 16 \<mapsto> node_of 0 True 8 24, 24 \<mapsto> node_of 16 False 0 0, 32 \<mapsto> node_of 0 False 0 0]\<rparr>"

lemma demo_rb_index: "rb_index (\<lambda>a. a) demo_rb_heap demo_rb_tree" "fresh_node (\<lambda>a. a) demo_rb_heap demo_rb_tree 32"
  by (simp_all add: rb_index_def rep_def demo_rb_heap_def demo_rb_tree_def good_addrs_def red_black_def ordered_def fresh_node_def)

theorem rb_insert_then_search_witness:
  "\<exists>s' t'. rb_insert 9 (buffer_blocknr_cmp (\<lambda>a. a)) 32 demo_rb_heap = Inr s' \<and> rb_index (\<lambda>a. a) s' t' \<and>
    length (inorder t') = Suc (length (inorder demo_rb_tree)) \<and>
    rb_find_buffer 9 (\<lambda>a. a) 32 s' = (if (32 :: u64) = 32 then Inr 32 else rb_find_buffer 9 (\<lambda>a. a) 32 demo_rb_heap)"
  by (rule rb_insert_then_search [OF demo_rb_index]) (simp_all add: demo_rb_tree_def)

text \<open>A search in the index visits at most 2 m - 1 nodes when the index has fewer than 2^m - 1 of them.\<close>

theorem rb_search_bound:
  assumes "rb_index f s t" "unat b < 2 ^ 63" "length (inorder t) + 1 < 2 ^ m"
  shows "rb_find_buffer (2 * m) f b s = Inr (case index_map f t b of None \<Rightarrow> 0 | Some a \<Rightarrow> a)"
  using search_run [of s t "[]" f b "2 * m"] red_black_height [of t m] assms
  by (simp add: rb_find_buffer_def rb_index_def rep_def)

theorem rb_search_bound_witness:
  "rb_find_buffer (2 * 3) (\<lambda>a. a) 24 demo_rb_heap =
    Inr (case index_map (\<lambda>a. a) demo_rb_tree 24 of None \<Rightarrow> 0 | Some a \<Rightarrow> a)"
  by (rule rb_search_bound [OF demo_rb_index(1)]) (simp_all add: demo_rb_tree_def)

end
