(* ===== verification/E4F_Rberase.thy ===== *)
theory E4F_Rberase
  imports E4F_Rbinsert
begin

text \<open>
  Removal from the red-black tree of src/rbtree.c: what the repair loop of __rb_erase_color() does to the
  tree that the heap represents, the unlinking of a node, and that removal keeps the index and removes one
  block number from its map.
\<close>

section \<open>The repair loop on trees\<close>

definition black_nephews :: "ptree \<Rightarrow> bool" where
  "black_nephews u \<longleftrightarrow> \<not> is_red (sub L u) \<and> \<not> is_red (sub R u)"

text \<open>The sibling \<open>u\<close> is black and has a red child: one or two rotations end the loop.\<close>

definition del_rot :: "ptree \<Rightarrow> side \<Rightarrow> u64 \<Rightarrow> bool \<Rightarrow> ptree \<Rightarrow> ptree" where
  "del_rot t d p cp u =
     (let near = sub d u; far = sub (opp d) u
      in if is_red far then join d (rootp u) cp (join d p True t near) (paint True far)
         else join d (rootp near) cp (join d p True t (sub d near)) (join d (rootp u) True (sub (opp d) near) far))"

text \<open>The tree \<open>t\<close> lacks one black node on each path.\<close>

fun del_fix :: "ptree \<Rightarrow> frame list \<Rightarrow> ptree" where
  "del_fix t [] = paint True t"
| "del_fix t (Frame d p cp u # k) =
     (if is_red t then plug (paint True t) (Frame d p cp u # k)
      else if is_red u then
       (let u' = sub d u; k' = Frame d (rootp u) True (sub (opp d) u) # k
        in if black_nephews u' then plug (join d p True t (paint False u')) k'
           else paint True (plug (del_rot t d p False u') k'))
      else if black_nephews u then del_fix (join d p cp t (paint False u)) k
      else paint True (plug (del_rot t d p cp u) k))"

lemma black_nephews_join [simp]: "black_nephews (join d a c t u) \<longleftrightarrow> \<not> is_red t \<and> \<not> is_red u"
  by (cases d) (auto simp: black_nephews_def)

lemma sub_join [simp]: "sub d (join d a c t u) = t" "sub (opp d) (join d a c t u) = u"
  by (cases d; simp)+

lemma set_color_run:
  assumes "nodes s a = Some (node_on d p c x y)" "a \<noteq> 0" "p AND 3 = 0"
  shows "rb_set_color a (if c' then 1 else 0) s = Inr (s\<lparr>nodes := (nodes s)(a \<mapsto> node_on d p c' x y)\<rparr>)"
proof -
  have "(node_on d p c x y)\<lparr>rb_parent_color := (p OR (if c then 1 else 0)) AND NOT 1 OR (if c' then 1 else 0)\<rparr> = node_on d p c' x y"
    unfolding packed [OF assms(3)] by (cases d) (simp_all add: node_on_def node_of_def)
  then show ?thesis
    using assms by (cases c) (simp_all add: rb_set_color_def upd_Some)
qed

lemma color_run:
  assumes r: "rep s (plug (join d a c0 t u) k)"
  obtains s' where "rb_set_color a (if c then 1 else 0) s = Inr s'" "rep s' (plug (join d a c t u) k)" "same_ends s s'"
proof -
  have "nodes s a = Some (node_on d (up k) c0 (rootp t) (rootp u))" "a \<noteq> 0" "up k AND 3 = 0"
    using rep_rd(2,3) [OF r] r by (simp_all add: rep_plug)
  from set_color_run [OF this, of c] recolor [OF r, of c] show ?thesis
    by (rule that) (simp add: same_ends_def)
qed

lemma red_near_far:
  assumes "rep s (plug (join d a c t u) k)"
  shows "res_bind (red_at (rootp (sub L (join d a c t u))) s) (\<lambda>red. if red then Inr True else red_at (rootp (sub R (join d a c t u))) s) =
    Inr (is_red t \<or> is_red u)" "red_at (rootp t) s = Inr (is_red t)" "red_at (rootp u) s = Inr (is_red u)"
proof -
  have r: "rep s (plug t (Frame d a c u # k))" "rep s (plug u (Frame (opp d) a c t # k))"
    using assms by (simp_all add: join_opp)
  show t: "red_at (rootp t) s = Inr (is_red t)" and u: "red_at (rootp u) s = Inr (is_red u)"
    by (rule red_at_run [OF r(1)], rule red_at_run [OF r(2)])
  show "res_bind (red_at (rootp (sub L (join d a c t u))) s) (\<lambda>red. if red then Inr True else red_at (rootp (sub R (join d a c t u))) s) =
    Inr (is_red t \<or> is_red u)"
    using t u by (cases d) auto
qed
lemma sibling_black_run:
  assumes "rep s (plug (join d p cp t u) k)" "u \<noteq> Tip" "\<not> is_red u"
  shows "rb_erase_sibling d p s = Inr (rootp u, s)"
proof -
  obtain o' A B where u: "u = join d o' True A B"
    using assms(2,3) by (cases u rule: ptree_join_cases [where d = d]) auto
  have r: "rep s (plug u (Frame (opp d) p cp t # k))" using assms(1) by (simp add: join_opp)
  show ?thesis
    using rep_rd(1) [OF assms(1)] rep_rd(1,3) [OF r [unfolded u]] by (simp add: rb_erase_sibling_def u)
qed

lemma sibling_red_run:
  assumes r: "rep s (plug (join d p cp t (join d o' False A B)) k)"
  obtains s' where "rb_erase_sibling d p s = Inr (rootp A, s')" "rep s' (plug (join d p False t A) (Frame d o' True B # k))"
    "same_ends s s'"
proof -
  let ?u = "join d o' False A B"
  have r': "rep s (plug ?u (Frame (opp d) p cp t # k))" using r by (simp add: join_opp)
  obtain s1 where s1: "rb_set_black o' s = Inr s1" "rep s1 (plug (join d o' True A B) (Frame (opp d) p cp t # k))" "same_ends s s1"
    using blacken_run [OF r'] by auto
  have "rep s1 (plug (join d p cp t (join d o' True A B)) k)" using s1(2) by (simp add: join_opp)
  then obtain s2 where s2: "rb_set_red p s1 = Inr s2" "rep s2 (plug (join d p False t (join d o' True A B)) k)" "same_ends s1 s2"
    using redden_run [of s1 "join d p cp t (join d o' True A B)" k] by auto
  obtain s3 where s3: "rb_rotate d p s2 = Inr s3" "rep s3 (plug (join d o' True (join d p False t A) B) k)" "same_ends s2 s3"
    by (rule rotate_run [OF s2(2)])
  have r3: "rep s3 (plug (join d p False t A) (Frame d o' True B # k))" using s3(2) by simp
  have "rb_erase_sibling d p s = Inr (rootp A, s3)"
    using rep_rd(1) [OF r] rep_rd(1,3) [OF r'] rep_rd(1) [OF r3] s1(1) s2(1) s3(1) by (simp add: rb_erase_sibling_def)
  then show ?thesis
    using that r3 s1(3) s2(3) s3(3) same_ends_trans by blast
qed

lemma erase_rotate_far:
  assumes r: "rep s (plug (join d p cp t (join d o' co A B)) k)" and B: "is_red B"
  obtains s1 s2 s3 s4 where "rb_set_color o' (rb_color (node_on d (up k) cp (rootp t) o')) s = Inr s1" "rb_set_black p s1 = Inr s2"
    "rd o' s2 = Inr (node_on d p cp (rootp A) (rootp B))" "rb_set_black (rootp B) s2 = Inr s3" "rb_rotate d p s3 = Inr s4"
    "rep s4 (plug (join d o' cp (join d p True t A) (paint True B)) k)" "same_ends s s4"
proof -
  have r': "rep s (plug (join d o' co A B) (Frame (opp d) p cp t # k))" using r by (simp add: join_opp)
  have "B \<noteq> Tip" using B by auto
  obtain s1 where s1: "rb_set_color o' (if cp then 1 else 0) s = Inr s1" "rep s1 (plug (join d o' cp A B) (Frame (opp d) p cp t # k))" "same_ends s s1"
    using color_run [OF r', of cp] by blast
  have "rep s1 (plug (join d p cp t (join d o' cp A B)) k)" using s1(2) by (simp add: join_opp)
  then obtain s2 where s2: "rb_set_black p s1 = Inr s2" "rep s2 (plug (join d p True t (join d o' cp A B)) k)" "same_ends s1 s2"
    using blacken_run [of s1 "join d p cp t (join d o' cp A B)" k] by auto
  have r2: "rep s2 (plug (join d o' cp A B) (Frame (opp d) p True t # k))" using s2(2) by (simp add: join_opp)
  then have "rep s2 (plug B (Frame (opp d) o' cp A # Frame (opp d) p True t # k))" by (simp add: join_opp)
  then obtain s3 where s3: "rb_set_black (rootp B) s2 = Inr s3" "rep s3 (plug (paint True B) (Frame (opp d) o' cp A # Frame (opp d) p True t # k))"
    "same_ends s2 s3"
    using blacken_run \<open>B \<noteq> Tip\<close> by blast
  have "rep s3 (plug (join d p True t (join d o' cp A (paint True B))) k)"
    using s3(2) by (simp add: join_opp)
  then obtain s4 where s4: "rb_rotate d p s3 = Inr s4" "rep s4 (plug (join d o' cp (join d p True t A) (paint True B)) k)" "same_ends s3 s4"
    by (rule rotate_run)
  have "rb_color (node_on d (up k) cp (rootp t) o') = (if cp then 1 else 0)"
    using rep_rd(3) [OF r] by simp
  then show ?thesis
    using s1 s2 s3 s4 rep_rd(1) [OF r2] by (intro that [of s1 s2 s3 s4]) (simp_all add: same_ends_def)
qed

lemma erase_rotate_run:
  assumes r: "rep s (plug (join d p cp t u) k)" and u: "u = join d o' True A B" "is_red A \<or> is_red B"
  obtains s' where "rb_erase_rotate d p o' s = Inr s'" "rep s' (plug (del_rot t d p cp u) k)" "same_ends s s'"
proof -
  have r': "rep s (plug (join d o' True A B) (Frame (opp d) p cp t # k))" using r by (simp add: join_opp u)
  note o' = rep_rd [OF r'] and nf = red_near_far [OF r']
  show ?thesis
  proof (cases "is_red B")
    case True
    obtain s1 s2 s3 s4 where f: "rb_set_color o' (rb_color (node_on d (up k) cp (rootp t) o')) s = Inr s1" "rb_set_black p s1 = Inr s2"
      "rd o' s2 = Inr (node_on d p cp (rootp A) (rootp B))" "rb_set_black (rootp B) s2 = Inr s3" "rb_rotate d p s3 = Inr s4"
      "rep s4 (plug (join d o' cp (join d p True t A) (paint True B)) k)" "same_ends s s4"
      by (rule erase_rotate_far [OF r [unfolded u(1)] True])
    have "rb_erase_rotate d p o' s = Inr s4"
      using o'(1) nf(3) True f rep_rd(1) [OF r] by (simp add: rb_erase_rotate_def u)
    then show ?thesis
      using that f True by (simp add: del_rot_def u Let_def)
  next
    case False
    then have "is_red A" using u by simp
    then obtain a A1 A2 where A: "A = join (opp d) a False A2 A1"
      by (cases A rule: ptree_join_cases [where d = "opp d"]) auto
    have rA: "rep s (plug A (Frame d o' True B # Frame (opp d) p cp t # k))" using r' by simp
    have "A \<noteq> Tip" using A by simp
    then obtain s1 where s1: "rb_set_black (rootp A) s = Inr s1" "rep s1 (plug (paint True A) (Frame d o' True B # Frame (opp d) p cp t # k))" "same_ends s s1"
      using blacken_run [OF rA] by blast
    have "rep s1 (plug (join d o' True (paint True A) B) (Frame (opp d) p cp t # k))" using s1(2) by simp
    then obtain s2 where s2: "rb_set_red o' s1 = Inr s2" "rep s2 (plug (join d o' False (paint True A) B) (Frame (opp d) p cp t # k))" "same_ends s1 s2"
      using redden_run [of s1 "join d o' True (paint True A) B" "Frame (opp d) p cp t # k"] by auto
    have "rep s2 (plug (join (opp d) o' False B (join (opp d) a True A2 A1)) (Frame (opp d) p cp t # k))"
      using s2(2) by (simp only: join_opp paint_join A)
    then obtain s3 where s3: "rb_rotate (opp d) o' s2 = Inr s3"
      "rep s3 (plug (join (opp d) a True (join (opp d) o' False B A2) A1) (Frame (opp d) p cp t # k))" "same_ends s2 s3"
      by (rule rotate_run)
    let ?B = "join d o' False A2 B"
    have r3: "rep s3 (plug (join d p cp t (join d a True A1 ?B)) k)"
      using s3(2) by (simp add: join_opp)
    obtain s4 s5 s6 s7 where f: "rb_set_color a (rb_color (node_on d (up k) cp (rootp t) a)) s3 = Inr s4" "rb_set_black p s4 = Inr s5"
      "rd a s5 = Inr (node_on d p cp (rootp A1) (rootp ?B))" "rb_set_black (rootp ?B) s5 = Inr s6" "rb_rotate d p s6 = Inr s7"
      "rep s7 (plug (join d a cp (join d p True t A1) (paint True ?B)) k)" "same_ends s3 s7"
      by (rule erase_rotate_far [OF r3]) simp
    have "rb_erase_rotate d p o' s = Inr s7"
      using o'(1) nf(3) False f s1(1) s2(1) s3(1) rep_rd(1) [OF r3] by (simp add: rb_erase_rotate_def u A)
    moreover have "del_rot t d p cp u = join d a cp (join d p True t A1) (paint True ?B)"
      using False by (simp add: del_rot_def u A join_opp Let_def)
    ultimately show ?thesis
      using that f(6,7) s1(3) s2(3) s3(3) by (metis same_ends_trans)
  qed
qed

lemma nephews_run:
  assumes "rep s (plug (join d a c A B) k)"
  shows "res_bind (red_at (rb_left (node_on d q c' (rootp A) (rootp B))) s) (\<lambda>red.
      res_bind (if red then Inr True else red_at (rb_right (node_on d q c' (rootp A) (rootp B))) s) F) = F (is_red A \<or> is_red B)"
  using red_near_far(2,3) [OF assms] by (cases d; cases "is_red A"; cases "is_red B") (simp_all add: node_on_def node_of_def)

lemma rootp_plug_in: "k \<noteq> [] \<Longrightarrow> rootp (plug t k) \<in> set (addrs k)"
proof (induction k arbitrary: t)
  case (Cons f k)
  obtain d a c u where f: "f = Frame d a c u" by (cases f)
  show ?case using Cons.IH by (cases "k = []") (auto simp: f)
qed simp

lemma not_root:
  assumes "rep s (plug t k)" "k \<noteq> []"
  shows "rootp t \<noteq> root_node s"
proof -
  have g: "good_addrs (inorder t @ addrs k)" using assms(1) by (simp add: rep_plug)
  have "root_node s \<in> set (addrs k)"
    using assms rootp_plug_in [OF assms(2), of t] by (simp add: rep_def)
  then have "root_node s \<noteq> 0" "root_node s \<notin> set (inorder t)"
    using g by (auto simp: good_addrs_def)
  then show ?thesis using rootp_in [of t] by metis
qed

text \<open>One round at a black position below the frame of \<open>p\<close>, up to the test of the nephews.\<close>

lemma round_start:
  assumes r: "rep s (plug (join d p cp t u) k)" and t: "\<not> is_red t" and u: "u \<noteq> Tip"
    and sib: "rb_erase_sibling d p s = Inr (a, s1)"
    and r1: "rep s1 (plug (join d p cp' t (join d a True A B)) k')"
  shows "rb_erase_loop (Suc n) (rootp t) p s =
    (if \<not> is_red A \<and> \<not> is_red B then res_bind (rb_set_red a s1) (\<lambda>s. res_bind (rd p s) (\<lambda>x. rb_erase_loop n p (rb_parent x) s))
     else res_bind (rb_erase_rotate d p a s1) (\<lambda>s. Inr (root_node s, s)))"
proof -
  have rt: "rep s (plug t (Frame d p cp u # k))" using r by simp
  have side: "(if rb_left (node_on d (up k) cp (rootp t) (rootp u)) = rootp t then L else R) = d"
    using rep_rd(8) [OF r] u by (cases d) (auto simp: node_on_def node_of_def)
  have "rep s1 (plug (join d a True A B) (Frame (opp d) p cp' t # k'))"
    using r1 by (simp add: join_opp)
  note a = rep_rd(1) [OF this] and nephews = nephews_run [OF this]
  show ?thesis
    by (cases "is_red A"; cases "is_red B") (simp_all add: red_at_run [OF rt] not_root [OF rt] t rep_rd(1) [OF r] Let_def side sib a nephews del: if_split split del: if_split)
qed

lemma erase_loop_run:
  assumes "rep s (plug t k)" "invh t" "ctx_h (bheight t + 1) k" "ctx_c False k" "length k < n"
  shows "\<exists>s' t' k'. rb_erase_loop n (rootp t) (up k) s = Inr (rootp t', s') \<and> rep s' (plug t' k') \<and>
    del_fix t k = plug (paint True t') k' \<and> same_ends s s'"
  using assms
proof (induction t k arbitrary: s n rule: del_fix.induct)
  case (1 t)
  then obtain m where n: "n = Suc m" by (cases n) auto
  show ?case
    using 1 red_at_run [of s t "[]"] by (intro exI [of _ s] exI [of _ t] exI [of _ "[]"]) (simp add: n rep_def)
next
  case (2 t d p cp u k)
  note r = "2.prems"(1) and h = "2.prems"(2-4)
  obtain m where n: "n = Suc (Suc m)" using "2.prems"(5) by (cases n; cases "n - 1") auto
  have rP: "rep s (plug (join d p cp t u) k)" using r by simp
  have u: "u \<noteq> Tip" "invh u" "bheight u = bheight t + 1" "invc u" using h by auto
  show ?case
  proof (cases "is_red t")
    case True
    then show ?thesis
      using red_at_run [OF r] r n
      by (intro exI [of _ s] exI [of _ t] exI [of _ "Frame d p cp u # k"]) simp
  next
    case nred: False
    show ?thesis
    proof (cases "is_red u")
      case True
      then obtain o' A B where ju: "u = join d o' False A B" by (cases u rule: ptree_join_cases [where d = d]) auto
      let ?k = "Frame d o' True B # k"
      have AB: "\<not> is_red A" "\<not> is_red B" "A \<noteq> Tip" using u by (auto simp: ju)
      obtain a A1 A2 where A: "A = join d a True A1 A2" using AB by (cases A rule: ptree_join_cases [where d = d]) auto
      obtain s1 where s1: "rb_erase_sibling d p s = Inr (a, s1)" "rep s1 (plug (join d p False t A) ?k)" "same_ends s s1"
        using sibling_red_run [OF rP [unfolded ju]] unfolding A by auto
      note start = round_start [OF rP nred u(1) s1(1) s1(2) [unfolded A], of "Suc m"]
      show ?thesis
      proof (cases "is_red A1 \<or> is_red A2")
        case False
        have "rep s1 (plug A (Frame (opp d) p False t # ?k))" using s1(2) by (simp add: join_opp)
        then obtain s2 where s2: "rb_set_red a s1 = Inr s2" "rep s2 (plug (paint False A) (Frame (opp d) p False t # ?k))" "same_ends s1 s2"
          using redden_run [of s1 A "Frame (opp d) p False t # ?k"] A by auto
        have r2: "rep s2 (plug (join d p False t (paint False A)) ?k)" using s2(2) by (simp add: join_opp)
        have "rb_erase_loop n (rootp t) p s = Inr (p, s2)"
          using start False s2(1) rep_rd(1,3) [OF r2] red_at_run [OF r2] by (simp add: n)
        then show ?thesis
          using r2 False nred True s1(3) s2(3)
          by (intro exI [of _ s2] exI [of _ "join d p False t (paint False A)"] exI [of _ ?k])
            (auto simp: ju A Let_def intro: same_ends_trans)
      next
        case red: True
        obtain s2 where s2: "rb_erase_rotate d p a s1 = Inr s2" "rep s2 (plug (del_rot t d p False A) ?k)" "same_ends s1 s2"
          using erase_rotate_run [OF s1(2) A red] by blast
        have "rb_erase_loop n (rootp t) p s = Inr (rootp (plug (del_rot t d p False A) ?k), s2)"
          using start red s2(1,2) by (auto simp: n rep_def)
        then show ?thesis
          using s2 red nred True s1(3)
          by (intro exI [of _ s2] exI [of _ "plug (del_rot t d p False A) ?k"] exI [of _ "[]"])
            (auto simp: ju A Let_def intro: same_ends_trans)
      qed
    next
      case ublack: False
      obtain o' A B where ju: "u = join d o' True A B" using u(1) ublack by (cases u rule: ptree_join_cases [where d = d]) auto
      have sib: "rb_erase_sibling d p s = Inr (o', s)"
        using sibling_black_run [OF rP u(1) ublack] by (simp add: ju)
      note start = round_start [OF rP nred u(1) sib rP [unfolded ju], of "Suc m"]
      show ?thesis
      proof (cases "is_red A \<or> is_red B")
        case red: True
        obtain s2 where s2: "rb_erase_rotate d p o' s = Inr s2" "rep s2 (plug (del_rot t d p cp u) k)" "same_ends s s2"
          using erase_rotate_run [OF rP ju red] by blast
        have "rb_erase_loop n (rootp t) p s = Inr (rootp (plug (del_rot t d p cp u) k), s2)"
          using start red s2(1,2) by (auto simp: n rep_def)
        then show ?thesis
          using s2 red nred ublack
          by (intro exI [of _ s2] exI [of _ "plug (del_rot t d p cp u) k"] exI [of _ "[]"]) (auto simp: ju)
      next
        case black: False
        have "rep s (plug u (Frame (opp d) p cp t # k))" using rP by (simp add: join_opp)
        then obtain s2 where s2: "rb_set_red o' s = Inr s2" "rep s2 (plug (paint False u) (Frame (opp d) p cp t # k))" "same_ends s s2"
          using redden_run [of s u "Frame (opp d) p cp t # k"] ju by auto
        let ?t = "join d p cp t (paint False u)"
        have r2: "rep s2 (plug ?t k)" using s2(2) by (simp add: join_opp)
        have bn: "black_nephews u" using black by (simp add: ju)
        have bh: "invh ?t" "bheight ?t = bheight t + of_bool cp"
          using h(1) u by (auto simp: ju)
        have "ctx_h (bheight ?t + 1) k" "ctx_c False k" "length k < Suc m"
          using h bh "2.prems"(5) ctx_c_mono by (auto simp: n ac_simps)
        from "2.IH" [OF nred ublack bn r2 bh(1) this] obtain s3 t' k' where
          f: "rb_erase_loop (Suc m) p (up k) s2 = Inr (rootp t', s3)" "rep s3 (plug t' k')" "del_fix ?t k = plug (paint True t') k'" "same_ends s2 s3"
          unfolding rootp_join by blast
        have "rb_erase_loop n (rootp t) p s = Inr (rootp t', s3)"
          using start black s2(1) rep_rd(1,3) [OF r2] f(1) by (simp add: n del: rb_erase_loop.simps)
        then show ?thesis
          using f(2,3) same_ends_trans [OF s2(3) f(4)] nred ublack bn
          by (intro exI [of _ s3] exI [of _ t'] exI [of _ k']) (simp del: rb_erase_loop.simps)
      qed
    qed
  qed
qed

lemma erase_color_run:
  assumes "rep s (plug t k)" "invh t" "ctx_h (bheight t + 1) k" "ctx_c False k" "length k < n"
  obtains s' where "rb_erase_color n (rootp t) (up k) s = Inr s'" "rep s' (del_fix t k)" "same_ends s s'"
proof -
  obtain s1 t' k' where f: "rb_erase_loop n (rootp t) (up k) s = Inr (rootp t', s1)" "rep s1 (plug t' k')"
    "del_fix t k = plug (paint True t') k'" "same_ends s s1"
    using erase_loop_run [OF assms] by blast
  show ?thesis
  proof (cases "t' = Tip")
    case True
    then show ?thesis using f by (intro that [of s1]) (simp_all add: rb_erase_color_def)
  next
    case False
    obtain s2 where s2: "rb_set_black (rootp t') s1 = Inr s2" "rep s2 (plug (paint True t') k')" "same_ends s1 s2"
      using blacken_run [OF f(2) False] by blast
    have "rootp t' \<noteq> 0"
      using f(2) False by (auto simp: rep_plug good_addrs_append)
    then show ?thesis
      using f s2 same_ends_trans [OF f(4) s2(3)] by (intro that [of s2]) (simp_all add: rb_erase_color_def)
  qed
qed

section \<open>Order and balance\<close>

lemma plug_root_black: "root_black k \<Longrightarrow> k \<noteq> [] \<Longrightarrow> \<not> is_red (plug t k)"
proof (induction k arbitrary: t rule: root_black.induct)
  case (3 f g k)
  then show ?case by (cases f) auto
qed auto

lemma root_black_Cons: "root_black (Frame d a c u # k) \<longleftrightarrow> (if k = [] then c else root_black k)"
  by (cases k) auto

lemma paint_balanced: "invc (paint True t) \<Longrightarrow> invh t \<Longrightarrow> red_black (paint True t)"
  by (simp add: red_black_def)

lemma paint_True_black: "\<not> is_red t \<Longrightarrow> paint True t = t"
  by (cases t) auto

lemma del_rot_all:
  assumes t: "invh t" "invc t" "\<not> is_red t" and u: "u = join d o' True A B" "is_red A \<or> is_red B" "invh u" "invc u" "bheight u = bheight t + 1"
  shows "inorder (plug (del_rot t d p cp u) k) = inorder (plug (join d p cp t u) k) \<and> invh (del_rot t d p cp u) \<and>
      invc (del_rot t d p cp u) \<and> bheight (del_rot t d p cp u) = bheight t + 1 + of_bool cp \<and> is_red (del_rot t d p cp u) = (\<not> cp)"
proof -
  have h: "bheight A = bheight t" "bheight B = bheight t" "invh A" "invh B" "invc A" "invc B"
    using u by auto
  show ?thesis
  proof (cases "is_red B")
    case True
    then have e: "del_rot t d p cp u = join d o' cp (join d p True t A) (paint True B)"
      by (simp add: del_rot_def u(1) Let_def)
    have "inorder (join d o' cp (join d p True t A) (paint True B)) = inorder (join d p cp t u)"
      by (cases d) (simp_all add: u(1))
    then show ?thesis
      using h t True paint_black [of B] by (simp add: e inorder_plug)
  next
    case False
    then obtain a A1 A2 where A: "A = join d a False A1 A2"
      using u(2) by (cases A rule: ptree_join_cases [where d = d]) auto
    have e: "del_rot t d p cp u = join d a cp (join d p True t A1) (join d o' True A2 B)"
      using False by (simp add: del_rot_def u(1) A Let_def)
    have "inorder (join d a cp (join d p True t A1) (join d o' True A2 B)) = inorder (join d p cp t u)"
      by (cases d) (simp_all add: u(1) A)
    then show ?thesis
      using h t False by (auto simp: e inorder_plug A)
  qed
qed

lemma del_rot_facts:
  assumes t: "invh t" "invc t" "\<not> is_red t" and u: "u = join d o' True A B" "is_red A \<or> is_red B" "invh u" "invc u" "bheight u = bheight t + 1"
  shows "inorder (plug (del_rot t d p cp u) k) = inorder (plug (join d p cp t u) k)" "invh (del_rot t d p cp u)" "invc (del_rot t d p cp u)"
    "bheight (del_rot t d p cp u) = bheight t + 1 + of_bool cp" "is_red (del_rot t d p cp u) \<longleftrightarrow> \<not> cp"
  using del_rot_all [OF assms] by blast+

lemma del_fix_balanced:
  assumes "invh t" "invc (paint True t)" "ctx_h (bheight t + 1) k" "ctx_c False k" "root_black k"
  shows "red_black (del_fix t k) \<and> inorder (del_fix t k) = before k @ inorder t @ behind k"
  using assms
proof (induction t k rule: del_fix.induct)
  case (1 t)
  then show ?case using paint_balanced by simp
next
  case (2 t d p cp u k)
  note h = "2.prems"
  have u: "u \<noteq> Tip" "invh u" "bheight u = bheight t + 1" "invc u" using h by auto
  show ?case
  proof (cases "is_red t")
    case True
    have "\<not> is_red (plug (paint True t) (Frame d p cp u # k))"
      using h(5) by (intro plug_root_black) simp_all
    moreover have "invh (plug (paint True t) (Frame d p cp u # k))"
      unfolding invh_plug using h True paint_black(1) [OF True] by (simp del: ctx_h.simps)
    moreover have "invc (plug (paint True t) (Frame d p cp u # k))"
      unfolding invc_plug using h by (simp del: ctx_c.simps)
    ultimately show ?thesis
      using True inorder_plug [of "paint True t" "Frame d p cp u # k"]
      by (simp add: red_black_def del: plug.simps before.simps behind.simps)
  next
    case nred: False
    then have invc: "invc t" using h(2) paint_True_black by simp
    show ?thesis
    proof (cases "is_red u")
      case True
      then obtain o' A B where ju: "u = join d o' False A B" by (cases u rule: ptree_join_cases [where d = d]) auto
      let ?k = "Frame d o' True B # k"
      have AB: "\<not> is_red A" "\<not> is_red B" "A \<noteq> Tip" "invh A" "invh B" "invc A" "invc B" "bheight A = bheight t + 1" "bheight B = bheight t + 1"
        using u by (auto simp: ju)
      have cp: cp using h(4) True by auto
      have ctx: "ctx_h (bheight t + 1) ?k" "ctx_c True ?k" "root_black ?k"
        using h AB cp by (auto simp: root_black_Cons split: if_splits)
      have io: "inorder (plug (join d p c t A) ?k) = before (Frame d p cp u # k) @ inorder t @ behind (Frame d p cp u # k)" for c
        by (cases d) (simp_all add: inorder_plug ju)
      obtain a A1 A2 where A: "A = join d a True A1 A2" using AB by (cases A rule: ptree_join_cases [where d = d]) auto
      show ?thesis
      proof (cases "is_red A1 \<or> is_red A2")
        case False
        let ?t = "join d p True t (paint False A)"
        have "invh ?t" "invc ?t" "bheight ?t = bheight t + 1"
          using AB h(1) invc False by (auto simp: A)
        then have "invh (plug ?t ?k)" "invc (plug ?t ?k)"
          unfolding invh_plug invc_plug using ctx by (simp_all add: ctx_c_mono del: ctx_h.simps)
        moreover have "\<not> is_red (plug ?t ?k)"
          using ctx(3) by (intro plug_root_black) simp_all
        moreover have "inorder (plug ?t ?k) = inorder (plug (join d p True t A) ?k)"
          unfolding inorder_plug by (cases d) simp_all
        ultimately show ?thesis
          using nred False io [of True] by (simp add: ju A red_black_def Let_def del: plug.simps before.simps behind.simps)
      next
        case red: True
        note R = del_rot_facts [OF h(1) invc nred A red AB(4,6,8), of p False]
        have "invh (plug (del_rot t d p False A) ?k)" "invc (plug (del_rot t d p False A) ?k)"
          unfolding invh_plug invc_plug using R ctx by (simp_all del: ctx_h.simps ctx_c.simps)
        then show ?thesis
          using paint_balanced [OF paint_black(2)] nred True red R(1) [of ?k] io [of False]
          by (auto simp: ju A Let_def simp del: plug.simps before.simps behind.simps)
      qed
    next
      case ublack: False
      obtain o' A B where ju: "u = join d o' True A B" using u(1) ublack by (cases u rule: ptree_join_cases [where d = d]) auto
      have io: "inorder (plug (join d p cp t u) k) = before (Frame d p cp u # k) @ inorder t @ behind (Frame d p cp u # k)"
        using inorder_plug [of t "Frame d p cp u # k"] by simp
      show ?thesis
      proof (cases "is_red A \<or> is_red B")
        case red: True
        note R = del_rot_facts [OF h(1) invc nred ju red u(2,4,3), of p cp]
        have "invh (plug (del_rot t d p cp u) k)" "invc (plug (del_rot t d p cp u) k)"
          unfolding invh_plug invc_plug using R h by (simp_all add: ac_simps)
        then show ?thesis
          using paint_balanced [OF paint_black(2)] nred ublack red R(1) [of k] io by (auto simp: ju simp del: before.simps behind.simps)
      next
        case black: False
        let ?t = "join d p cp t (paint False u)"
        have bn: "black_nephews u" using black by (simp add: ju)
        have "invh ?t" "invc (paint True ?t)" "bheight ?t = bheight t + of_bool cp"
          using h(1) invc u black nred by (auto simp: ju)
        moreover have "ctx_h (bheight t + 1 + of_bool cp) k" "ctx_c False k" "root_black k"
          using h ctx_c_mono by (auto simp: root_black_Cons split: if_splits)
        ultimately have "red_black (del_fix ?t k) \<and> inorder (del_fix ?t k) = before k @ inorder ?t @ behind k"
          using "2.IH" [OF nred ublack bn] by (simp add: ac_simps)
        moreover have "before k @ inorder ?t @ behind k = inorder (plug (join d p cp t u) k)"
          by (cases d) (simp_all add: inorder_plug)
        ultimately show ?thesis
          using nred ublack bn io by (simp del: before.simps behind.simps)
      qed
    qed
  qed
qed

section \<open>Neighbours\<close>

lemma plug_append: "plug t (k1 @ k2) = plug (plug t k1) k2"
proof (induction k1 arbitrary: t)
  case (Cons f k)
  then show ?case by (cases f) simp
qed simp

lemma before_append: "before (k1 @ k2) = before k2 @ before k1"
proof (induction k1)
  case (Cons f k)
  then show ?case by (cases f) simp
qed simp

lemma behind_append: "behind (k1 @ k2) = behind k1 @ behind k2"
proof (induction k1)
  case (Cons f k)
  then show ?case by (cases f) simp
qed simp

lemma up_append: "up (k1 @ k2) = (if k1 = [] then up k2 else up k1)"
  by (cases k1 rule: addrs.cases) auto

lemma addrs_append [simp]: "addrs (k1 @ k2) = addrs k1 @ addrs k2"
proof (induction k1)
  case (Cons f k)
  then show ?case by (cases f) simp
qed simp

text \<open>The walk down to the leftmost node.\<close>

lemma down_left_run:
  assumes "rep s (plug t k)" "t \<noteq> Tip" "height t \<le> n"
  shows "\<exists>y cy ry kl. rb_down n L (rootp t) s = Inr y \<and> t = plug (Node Tip y cy ry) kl \<and> before kl = [] \<and>
    (kl = [] \<or> (\<exists>z cz uz kl'. kl = Frame L z cz uz # kl'))"
  using assms
proof (induction t arbitrary: k n)
  case (Node l a c r)
  obtain m where n: "n = Suc m" using Node.prems(3) by (cases n) auto
  have ra: "rep s (plug (join L a c l r) k)" using Node.prems by simp
  note a = rep_rd [OF ra]
  have lf: "child L (node_on L (up k) c (rootp l) (rootp r)) = rootp l" by simp
  show ?case
  proof (cases "l = Tip")
    case True
    then show ?thesis using a lf by (intro exI [of _ a] exI [of _ c] exI [of _ r] exI [of _ "[]"]) (simp add: n)
  next
    case False
    have "rep s (plug l (Frame L a c r # k))" using Node.prems by simp
    moreover have "height l \<le> m" using Node.prems(3) n by simp
    ultimately obtain y cy ry kl where
      f: "rb_down m L (rootp l) s = Inr y" "l = plug (Node Tip y cy ry) kl" "before kl = []"
        "kl = [] \<or> (\<exists>z cz uz kl'. kl = Frame L z cz uz # kl')"
      using Node.IH(1) False by blast
    have "rb_down n L (rootp (Node l a c r)) s = Inr y"
      using a lf f(1) False by (simp add: n)
    moreover have "Node l a c r = plug (Node Tip y cy ry) (kl @ [Frame L a c r])" "before (kl @ [Frame L a c r]) = []"
      using f(2,3) by (simp_all add: plug_append before_append)
    ultimately show ?thesis
      using f(4) by (intro exI [of _ y] exI [of _ cy] exI [of _ ry] exI [of _ "kl @ [Frame L a c r]"]) auto
  qed
qed simp

definition end_of :: "side \<Rightarrow> u64 list \<Rightarrow> u64" where
  "end_of d xs = (if xs = [] then 0 else case d of L \<Rightarrow> hd xs | R \<Rightarrow> last xs)"

lemma down_run:
  assumes "rep s (plug t k)" "t \<noteq> Tip" "height t \<le> n"
  shows "rb_down n d (rootp t) s = Inr (end_of d (inorder t))"
  using assms
proof (induction t arbitrary: k n)
  case (Node l a c r)
  obtain m where n: "n = Suc m" using Node.prems(3) by (cases n) auto
  have ra: "rep s (plug (join L a c l r) k)" and rl: "rep s (plug l (Frame L a c r # k))" and rr: "rep s (plug r (Frame R a c l # k))"
    using Node.prems by simp_all
  note a = rep_rd [OF ra]
  have lf: "child L (node_on L (up k) c (rootp l) (rootp r)) = rootp l" "child R (node_on L (up k) c (rootp l) (rootp r)) = rootp r"
    by (simp_all add: child_def node_on_def node_of_def)
  have ne: "t \<noteq> Tip \<Longrightarrow> inorder t \<noteq> []" for t by (cases t) auto
  have "height l \<le> m" "height r \<le> m" using Node.prems(3) n by simp_all
  then show ?case
    using a lf Node.IH(1) [OF rl, of m] Node.IH(2) [OF rr, of m] ne [of l] ne [of r]
    by (cases d; cases "l = Tip"; cases "r = Tip") (auto simp: n end_of_def)
qed simp

lemma up_run:
  assumes "rep s (plug t k)" "t \<noteq> Tip" "length k < n"
  shows "rb_up n d (rootp t) s = Inr (case d of L \<Rightarrow> end_of R (before k) | R \<Rightarrow> end_of L (behind k))"
  using assms
proof (induction k arbitrary: t n)
  case Nil
  obtain m where n: "n = Suc m" using Nil by (cases n) auto
  obtain a c t1 t2 where t: "t = join L a c t1 t2" using Nil by (cases t rule: ptree_join_cases [where d = L]) auto
  show ?case using rep_rd(1) [OF Nil(1) [unfolded t]] by (cases d) (simp_all add: n t end_of_def)
next
  case (Cons f k)
  obtain m where n: "n = Suc m" using Cons.prems by (cases n) auto
  obtain d' p cp u where f: "f = Frame d' p cp u" by (cases f)
  obtain a c t1 t2 where t: "t = join L a c t1 t2" using Cons.prems by (cases t rule: ptree_join_cases [where d = L]) auto
  have ra: "rep s (plug (join L a c t1 t2) (f # k))" and rp: "rep s (plug (join d' p cp t u) k)"
    using Cons.prems by (simp_all add: t f)
  note A = rep_rd [OF ra] and P = rep_rd [OF rp]
  have step: "rb_up n d (rootp t) s = (if d = d' then rb_up m d p s else Inr p)"
    using A P side_cases [of d d'] Cons.prems(2) by (auto simp: n f t)
  show ?case
  proof (cases "d = d'")
    case True
    then show ?thesis
      using step Cons.IH [OF rp, of m] Cons.prems(3) n by (cases d) (simp_all add: f)
  next
    case False
    then show ?thesis
      using step by (cases d; cases d') (simp_all add: f end_of_def)
  qed
qed

lemma step_run:
  assumes r: "rep s (plug (Node l x c r) k)" and n: "length (inorder (plug (Node l x c r) k)) < n"
  shows "rb_next n x s = Inr (end_of L (inorder r @ behind k))" "rb_prev n x s = Inr (end_of R (before k @ inorder l))"
proof -
  have rx: "rep s (plug (join L x c l r) k)" and rl: "rep s (plug l (Frame L x c r # k))" and rr: "rep s (plug r (Frame R x c l # k))"
    using r by simp_all
  note X = rep_rd [OF rx]
  have g: "good_addrs (inorder (Node l x c r) @ addrs k)" using r by (simp only: rep_plug)
  have "up k \<noteq> x"
    using X(2) g by (cases k rule: addrs.cases) (auto simp: good_addrs_def)
  moreover have ch: "child L (node_on L (up k) c (rootp l) (rootp r)) = rootp l" "child R (node_on L (up k) c (rootp l) (rootp r)) = rootp r"
    by (simp_all add: child_def node_on_def node_of_def)
  moreover have h: "height l \<le> n" "height r \<le> n" "length k < n"
    using n height_le_length [of l] height_le_length [of r] length_frames [of k "Node l x c r"] by (simp_all add: inorder_plug)
  moreover have "t \<noteq> Tip \<Longrightarrow> inorder t \<noteq> []" for t by (cases t) auto
  ultimately show "rb_next n x s = Inr (end_of L (inorder r @ behind k))" "rb_prev n x s = Inr (end_of R (before k @ inorder l))"
    using X up_run [OF r, of n] down_run [OF rl _ h(1)] down_run [OF rr _ h(2)]
    by (auto simp: rb_next_def rb_prev_def rb_step_def end_of_def)
qed

section \<open>Unlinking a node\<close>

lemma unlink_single_run:
  assumes r: "rep s (plug (Node l x c r) k)" and t: "l = Tip \<and> t = r \<or> r = Tip \<and> t = l"
  obtains s' where "res_bind (if rootp t \<noteq> 0 then rb_set_parent (rootp t) (up k) s else Inr s) (replace_child L (up k) x (rootp t)) = Inr s'"
    "rep s' (plug t k)" "same_ends s s'"
proof -
  have g: "good_addrs (inorder (Node l x c r) @ addrs k)" and lt: "laid (nodes s) x t" and ck: "ctx_laid (nodes s) (root_node s) x k"
    using r t by (auto simp: rep_plug)
  have g': "good_addrs (inorder t)" "good_addrs (addrs k)" "x \<noteq> 0" "x AND 3 = 0" "x \<notin> set (inorder t)" "x \<notin> set (addrs k)"
    "set (inorder t) \<inter> set (addrs k) = {}" "good_addrs (inorder t @ addrs k)"
    using g t by (auto simp: good_addrs_def)
  define s1 where "s1 = s\<lparr>nodes := reparent (up k) t (nodes s)\<rparr>"
  have 1: "(if rootp t \<noteq> 0 then rb_set_parent (rootp t) (up k) s else Inr s) = Inr s1"
    unfolding s1_def by (rule reparent_run [OF lt g'(1,4)])
  have dj: "a \<notin> set (inorder t)" if "a \<in> set (addrs k)" for a
    using g'(7) that by blast
  then have "\<forall>a\<in>set (addrs k). nodes s a = nodes s1 a"
    by (simp add: s1_def)
  then have ck1: "ctx_laid (nodes s1) (root_node s1) x k"
    using ck ctx_laid_cong by (simp add: s1_def) blast
  have 2: "replace_child L (up k) x (rootp t) s1 = Inr (relink (rootp t) k s1)"
    by (rule replace_child_run [OF ck1 g'(2,3,6)])
  have "laid (nodes s1) (up k) t"
    using lt g'(1) by (simp add: s1_def good_addrs_def)
  moreover have "\<forall>a\<in>set (inorder t). nodes s1 a = nodes (relink (rootp t) k s1) a"
    using g'(7) by (auto simp: disjoint_iff)
  ultimately have "laid (nodes (relink (rootp t) k s1)) (up k) t"
    using laid_cong by blast
  then have "rep (relink (rootp t) k s1) (plug t k)"
    using relink_ctx [OF ck1 g'(2), of "rootp t"] g'(8) by (simp add: rep_plug)
  then show ?thesis
    by (rule that [rotated]) (simp_all only: 1 2 res_bind.simps, simp add: same_ends_def s1_def)
qed

text \<open>A piece of a context whose uppermost frame has the parent \<open>p\<close>.\<close>

fun seg :: "(u64 \<rightharpoonup> rb_node) \<Rightarrow> u64 \<Rightarrow> u64 \<Rightarrow> frame list \<Rightarrow> bool" where
  "seg h p q [] \<longleftrightarrow> True"
| "seg h p q (Frame d a c u # k) \<longleftrightarrow>
     h a = Some (node_on d (if k = [] then p else up k) c q (rootp u)) \<and> laid h a u \<and> seg h p a k"

fun topmost :: "u64 \<Rightarrow> frame list \<Rightarrow> u64" where
  "topmost q [] = q"
| "topmost q (Frame d a c u # k) = topmost a k"

lemma ctx_laid_append: "ctx_laid h r q (k1 @ k2) \<longleftrightarrow> seg h (up k2) q k1 \<and> ctx_laid h r (topmost q k1) k2"
proof (induction k1 arbitrary: q)
  case (Cons f k)
  then show ?case by (cases f) (auto simp: up_append)
qed simp

lemma seg_cong: "\<forall>a\<in>set (addrs k). h a = h' a \<Longrightarrow> seg h p q k = seg h' p q k"
proof (induction k arbitrary: q)
  case (Cons f k)
  obtain d a c u where f: "f = Frame d a c u" by (cases f)
  show ?case using Cons laid_cong [of u h h'] by (simp add: f)
qed simp

lemma seg_upd [simp]: "a \<notin> set (addrs k) \<Longrightarrow> seg (h(a \<mapsto> v)) p q k = seg h p q k"
  by (rule seg_cong) auto

lemma rootp_plug: "rootp (plug t k) = topmost (rootp t) k"
proof (induction k arbitrary: t)
  case (Cons f k)
  then show ?case by (cases f) simp
qed simp

text \<open>Changing the parent of the uppermost frame.\<close>

lemma seg_reparent:
  assumes "seg h p q k" "k \<noteq> []" "distinct (addrs k)"
  shows "\<exists>d c x y. h (topmost q k) = Some (node_on d p c x y) \<and> seg (h(topmost q k \<mapsto> node_on d p' c x y)) p' q k \<and>
    topmost q k \<in> set (addrs k)"
  using assms
proof (induction k arbitrary: q)
  case (Cons f k)
  obtain d a c u where f: "f = Frame d a c u" by (cases f)
  show ?case
  proof (cases "k = []")
    case True
    then show ?thesis
      using Cons.prems by (intro exI [of _ d] exI [of _ c] exI [of _ q] exI [of _ "rootp u"])
        (auto simp: f fun_upd_same simp del: fun_upd_apply)
  next
    case False
    obtain d1 c1 x1 y1 where i: "h (topmost a k) = Some (node_on d1 p c1 x1 y1)"
      "seg (h(topmost a k \<mapsto> node_on d1 p' c1 x1 y1)) p' a k" "topmost a k \<in> set (addrs k)"
      using Cons.IH [of a] Cons.prems(1,3) False by (auto simp: f simp del: fun_upd_apply)
    have "topmost a k \<noteq> a" "topmost a k \<notin> set (inorder u)"
      using i(3) Cons.prems(3) by (auto simp: f)
    then show ?thesis
      using Cons.prems i False by (intro exI [of _ d1] exI [of _ c1] exI [of _ x1] exI [of _ y1])
        (auto simp: f fun_upd_other simp del: fun_upd_apply)
  qed
qed simp

lemma topmost_Cons: "k \<noteq> [] \<Longrightarrow> topmost q k = topmost q' k"
  by (cases k rule: addrs.cases) auto

text \<open>The last steps: the successor \<open>y\<close>, with right child \<open>b\<close>, takes colour, parent and left child of \<open>x\<close>.\<close>

lemma take_place_run:
  assumes x: "nodes s x = Some (node_on R (up k) c b0 (rootp l))" "x \<noteq> 0" and y: "nodes s y = Some (node_on R py cy b 0)" "y \<noteq> 0"
    and l: "laid (nodes s) x l" "l \<noteq> Tip" "good_addrs (inorder l)" "x AND 3 = 0" "y \<notin> set (inorder l)"
  obtains s' where "res_bind (rd x s) (\<lambda>x. res_bind (upd y (\<lambda>n. n\<lparr>rb_parent_color := rb_parent_color x, rb_left := rb_left x\<rparr>) s) (\<lambda>s.
      res_bind (rb_set_parent (rb_left x) y s) (\<lambda>s. Inr (ch, pr, color, s)))) = Inr (ch, pr, color, s')"
    "nodes s' = reparent y l ((nodes s)(y \<mapsto> node_on R (up k) c b (rootp l)))" "root_node s' = root_node s" "same_ends s s'"
    "laid (nodes s') y l" "nodes s' y = Some (node_on R (up k) c b (rootp l))"
proof -
  define s1 where "s1 = s\<lparr>nodes := (nodes s)(y \<mapsto> node_on R (up k) c b (rootp l))\<rparr>"
  define s2 where "s2 = s1\<lparr>nodes := reparent y l (nodes s1)\<rparr>"
  have lf: "rb_left (node_on R (up k) c b0 (rootp l)) = rootp l"
    by (simp add: node_on_def node_of_def)
  have nd: "(node_on R py cy b 0)\<lparr>rb_parent_color := rb_parent_color (node_on R (up k) c b0 (rootp l)), rb_left := rootp l\<rparr> =
      node_on R (up k) c b (rootp l)"
    by (simp add: node_on_def node_of_def)
  have 1: "upd y (\<lambda>n. n\<lparr>rb_parent_color := rb_parent_color (node_on R (up k) c b0 (rootp l)), rb_left := rootp l\<rparr>) s = Inr s1"
    using y nd by (simp add: upd_Some s1_def)
  have l1: "laid (nodes s1) x l" using l by (simp add: s1_def)
  have 2: "rb_set_parent (rootp l) y s1 = Inr s2"
    using reparent_run [OF l1 l(3,4), of y] l(2,3) by (simp add: s2_def)
  have "laid (nodes s2) y l"
    using l1 l(3) by (simp add: s2_def good_addrs_def)
  then show ?thesis
    using x 1 2 l(5) by (intro that [of s2]) (simp_all add: lf s1_def s2_def same_ends_def)
qed

lemma splice_adjacent_run:
  assumes r: "rep s (plug (Node l x c (Node Tip y cy ry)) k)" and l: "l \<noteq> Tip" and d: "rb_down n L y s = Inr y"
  obtains s' where "rb_splice_successor n x s = Inr (rootp ry, y, if cy then 1 else 0, s')"
    "rep s' (plug ry (Frame R y c l # k))" "same_ends s s'"
proof -
  have "rep s (plug (Node Tip y cy ry) (Frame R x c l # k))" using r by simp
  then have h: "nodes s y = Some (node_of x cy 0 (rootp ry))" "laid (nodes s) y ry" "nodes s x = Some (node_on R (up k) c y (rootp l))"
    "laid (nodes s) x l" "ctx_laid (nodes s) (root_node s) x k" and g: "good_addrs (y # inorder ry @ x # inorder l @ addrs k)"
    unfolding rep_plug by simp_all
  have g': "x \<noteq> 0" "y \<noteq> 0" "x AND 3 = 0" "y AND 3 = 0" "x \<noteq> y" "good_addrs (inorder l)" "good_addrs (addrs k)" "up k AND 3 = 0"
    "y \<notin> set (inorder l)" "y \<notin> set (addrs k)" "x \<notin> set (addrs k)" "y \<notin> set (inorder ry)" "x \<notin> set (inorder ry)"
    "good_addrs (inorder ry @ y # inorder l @ addrs k)" and dj: "set (inorder ry) \<inter> set (addrs k) = {}" "set (inorder l) \<inter> set (addrs k) = {}"
      "set (inorder ry) \<inter> set (inorder l) = {}"
    using g by (auto simp: good_addrs_Cons good_addrs_append)
  define s1 where "s1 = relink y k s"
  have 1: "replace_child L (up k) x y s = Inr s1"
    unfolding s1_def by (rule replace_child_run) (use h g' in simp_all)
  have fr1: "nodes s1 a = nodes s a" if "a \<notin> set (addrs k)" for a
    using that by (simp add: s1_def)
  have x1: "nodes s1 x = Some (node_on R (up k) c y (rootp l))" and y1: "nodes s1 y = Some (node_on R x cy (rootp ry) 0)"
    using h g' fr1 by (simp_all add: node_on_def)
  have "\<forall>a\<in>set (inorder l). nodes s a = nodes s1 a" "\<forall>a\<in>set (inorder ry). nodes s a = nodes s1 a"
    using fr1 dj by (metis IntI empty_iff)+
  then have l1: "laid (nodes s1) x l" "laid (nodes s1) y ry" using h laid_cong by blast+
  obtain s2 where s2: "res_bind (rd x s1) (\<lambda>x. res_bind (upd y (\<lambda>n. n\<lparr>rb_parent_color := rb_parent_color x, rb_left := rb_left x\<rparr>) s1) (\<lambda>s.
      res_bind (rb_set_parent (rb_left x) y s) (\<lambda>s. Inr (rootp ry, y, if cy then 1 else 0 :: u64, s)))) = Inr (rootp ry, y, if cy then 1 else 0, s2)"
    "nodes s2 = reparent y l ((nodes s1)(y \<mapsto> node_on R (up k) c (rootp ry) (rootp l)))" "root_node s2 = root_node s1" "same_ends s1 s2"
    "laid (nodes s2) y l" "nodes s2 y = Some (node_on R (up k) c (rootp ry) (rootp l))"
    by (rule take_place_run [OF x1 g'(1) y1 g'(2) l1(1) l g'(6,3,9), where ch = "rootp ry" and pr = y and color = "if cy then 1 else 0"])
  have fr2: "nodes s2 a = nodes s1 a" if "a \<noteq> y" "a \<notin> set (inorder l)" for a
    using that by (simp add: s2(2))
  have "\<forall>a\<in>set (inorder ry). nodes s1 a = nodes s2 a" "\<forall>a\<in>set (addrs k). nodes s1 a = nodes s2 a"
    using fr2 dj g' by (metis IntI empty_iff)+
  moreover have "ctx_laid (nodes s1) (root_node s1) y k"
    unfolding s1_def by (rule relink_ctx) (use h g' in simp_all)
  ultimately have "laid (nodes s2) y ry" "ctx_laid (nodes s2) (root_node s2) y k"
    using l1(2) laid_cong ctx_laid_cong s2(3) by metis+
  then have rep: "rep s2 (plug ry (Frame R y c l # k))"
    using s2(5,6) g'(14) unfolding rep_plug by simp
  have nx: "rb_right (node_on R (up k) c y (rootp l)) = y" by (simp add: node_on_def node_of_def)
  have px: "rb_parent (node_on R (up k) c y (rootp l)) = up k" by (rule node_on_fields(1) [OF g'(8)])
  have ny: "rb_right (node_on R x cy (rootp ry) 0) = rootp ry" by (simp add: node_on_def node_of_def)
  have rx: "rd x s = Inr (node_on R (up k) c y (rootp l))" "rd y s1 = Inr (node_on R x cy (rootp ry) 0)"
    using h(3) y1 g' by simp_all
  have "rb_splice_successor n x s = Inr (rootp ry, y, if cy then 1 else 0, s2)"
    using d 1 s2(1) g'(3) by (simp add: rb_splice_successor_def rx nx px ny split del: if_split)
  then show ?thesis
    by (rule that [OF _ rep]) (use s2(4) in \<open>simp add: same_ends_def s1_def\<close>)
qed

text \<open>A successor further down is cut out of the right subtree, whose path \<open>kl\<close> gets the parent \<open>y\<close>.\<close>

lemma detach_run:
  assumes sg: "seg (nodes s) x y kl" and kl: "kl = Frame L z cz uz # kl'" and ry: "laid (nodes s) y ry"
    and y: "nodes s y = Some (node_on R z cy (rootp ry) 0)" and x: "nodes s x = Some (node_on R px c (topmost y kl) q)"
    and g: "good_addrs (x # y # inorder ry @ addrs kl)"
  obtains s' where "res_bind (if rootp ry \<noteq> 0 then rb_set_parent (rootp ry) z s else Inr s) (\<lambda>s.
      res_bind (upd z (with_child L (rootp ry)) s) (\<lambda>s. res_bind (rd x s) (\<lambda>x.
      res_bind (upd y (with_child R (rb_right x)) s) (\<lambda>s.
      res_bind (rb_set_parent (rb_right x) y s) (\<lambda>s. Inr (z, s)))))) = Inr (z, s')"
    "laid (nodes s') z ry" "seg (nodes s') y (rootp ry) kl" "nodes s' y = Some (node_on R z cy (topmost y kl) 0)"
    "\<forall>a. a \<noteq> y \<and> a \<notin> set (inorder ry) \<and> a \<notin> set (addrs kl) \<longrightarrow> nodes s' a = nodes s a"
    "root_node s' = root_node s" "same_ends s s'"
proof -
  let ?pz = "if kl' = [] then x else up kl'" and ?b = "topmost y kl"
  have g': "x \<noteq> 0" "x AND 3 = 0" "y \<noteq> 0" "y AND 3 = 0" "z \<noteq> 0" "x \<noteq> y" "x \<noteq> z" "y \<noteq> z" "x \<notin> set (inorder ry)" "y \<notin> set (inorder ry)"
    "z \<notin> set (inorder ry)" "x \<notin> set (addrs kl)" "y \<notin> set (addrs kl)" "good_addrs (inorder ry)" "good_addrs (addrs kl)"
    "set (inorder ry) \<inter> set (addrs kl) = {}" "z \<notin> set (inorder uz)" "z \<notin> set (addrs kl')"
    using g by (auto simp: kl good_addrs_def)
  define s2 where "s2 = s\<lparr>nodes := reparent z ry (nodes s)\<rparr>"
  define s3 where "s3 = s2\<lparr>nodes := (nodes s2)(z \<mapsto> node_on L ?pz cz (rootp ry) (rootp uz))\<rparr>"
  define s4 where "s4 = s3\<lparr>nodes := (nodes s3)(y \<mapsto> node_on R z cy ?b 0)\<rparr>"
  have 2: "(if rootp ry \<noteq> 0 then rb_set_parent (rootp ry) z s else Inr s) = Inr s2"
    unfolding s2_def by (rule reparent_run [OF ry g'(14,4)])
  have "a \<notin> set (inorder ry)" if "a \<in> set (addrs kl)" for a using that g'(16) by blast
  then have "\<forall>a\<in>set (addrs kl). nodes s a = nodes s2 a" by (simp add: s2_def)
  then have sg2: "seg (nodes s2) x y kl"
    using seg_cong sg by blast
  have z2: "nodes s2 z = Some (node_on L ?pz cz y (rootp uz))"
    using sg2 by (simp add: kl)
  have 3: "upd z (with_child L (rootp ry)) s2 = Inr s3"
    using z2 g' by (simp add: upd_Some s3_def)
  have x3: "nodes s3 x = Some (node_on R px c ?b q)" and y3: "nodes s3 y = Some (node_on R z cy (rootp ry) 0)"
    using x y g' by (simp_all add: s3_def s2_def)
  have 4: "upd y (with_child R ?b) s3 = Inr s4"
    using y3 g' by (simp add: upd_Some s4_def)
  have "seg (nodes s3) x (rootp ry) kl"
    using sg2 g' by (auto simp: s3_def kl fun_upd_same simp del: fun_upd_apply)
  then have "seg (nodes s4) x (rootp ry) kl"
    using g' by (simp add: s4_def del: fun_upd_apply)
  moreover have "distinct (addrs kl)" using g' by (simp add: good_addrs_def)
  ultimately obtain d1 c1 x1 y1 where b: "nodes s4 (topmost (rootp ry) kl) = Some (node_on d1 x c1 x1 y1)"
    "seg ((nodes s4)(topmost (rootp ry) kl \<mapsto> node_on d1 y c1 x1 y1)) y (rootp ry) kl" "topmost (rootp ry) kl \<in> set (addrs kl)"
    using seg_reparent [of "nodes s4" x "rootp ry" kl y] kl by blast
  have tb: "topmost (rootp ry) kl = ?b" using kl by (intro topmost_Cons) simp
  define s5 where "s5 = s4\<lparr>nodes := (nodes s4)(?b \<mapsto> node_on d1 y c1 x1 y1)\<rparr>"
  have "?b \<noteq> 0" using b(3) g'(15) tb by (auto simp: good_addrs_def)
  then have 5: "rb_set_parent ?b y s4 = Inr s5"
    using b(1) g'(2) tb by (simp add: set_parent_run s5_def)
  have rx: "rb_right (node_on R px c ?b q) = ?b" by (simp add: node_on_def node_of_def)
  have bny: "?b \<noteq> y" "?b \<notin> set (inorder ry)" using b(3) g' tb by auto
  have "laid (nodes s2) z ry" using ry g'(14) by (simp add: s2_def good_addrs_def)
  then have l5: "laid (nodes s5) z ry"
    using bny g' by (simp add: s5_def s4_def s3_def del: fun_upd_apply)
  have "seg (nodes s5) y (rootp ry) kl" using b(2) by (simp add: s5_def tb del: fun_upd_apply)
  moreover have "nodes s5 y = Some (node_on R z cy ?b 0)" using bny by (simp add: s5_def s4_def)
  moreover have "nodes s5 a = nodes s a" if "a \<noteq> y" "a \<notin> set (inorder ry)" "a \<notin> set (addrs kl)" for a
    using that b(3) tb by (auto simp: s5_def s4_def s3_def s2_def kl)
  moreover have "root_node s5 = root_node s" "same_ends s s5"
    by (simp_all add: s5_def s4_def s3_def s2_def same_ends_def)
  moreover have "rd x s3 = Inr (node_on R px c ?b q)" using x3 g' by simp
  ultimately show ?thesis
    using l5 2 3 4 5 rx by (intro that [of s5]) simp_all
qed

lemma splice_far_run:
  assumes r: "rep s (plug (Node Tip y cy ry) (kl @ Frame R x c l # k))" and kl: "kl = Frame L z cz uz # kl'"
    and l: "l \<noteq> Tip" and d: "rb_down n L (topmost y kl) s = Inr y"
  obtains s' where "rb_splice_successor n x s = Inr (rootp ry, z, if cy then 1 else 0, s')"
    "rep s' (plug ry (kl @ Frame R y c l # k))" "same_ends s s'"
proof -
  let ?b = "topmost y kl"
  have h: "nodes s y = Some (node_of z cy 0 (rootp ry))" "laid (nodes s) y ry" "seg (nodes s) x y kl"
    "nodes s x = Some (node_on R (up k) c ?b (rootp l))" "laid (nodes s) x l" "ctx_laid (nodes s) (root_node s) x k"
    and g: "good_addrs (y # inorder ry @ addrs kl @ x # inorder l @ addrs k)"
    using r unfolding rep_plug ctx_laid_append by (simp_all add: kl addrs_append)
  have g': "x \<noteq> 0" "y \<noteq> 0" "x AND 3 = 0" "y AND 3 = 0" "z AND 3 = 0" "x \<noteq> y" "x \<noteq> z" "good_addrs (inorder l)" "good_addrs (addrs k)"
    "up k AND 3 = 0" "y \<notin> set (inorder l)" "y \<notin> set (addrs k)" "x \<notin> set (addrs k)" "x \<notin> set (inorder ry)" "x \<notin> set (addrs kl)"
    "good_addrs (x # y # inorder ry @ addrs kl)" "good_addrs (inorder ry @ addrs kl @ y # inorder l @ addrs k)"
    using g by (auto simp: good_addrs_Cons good_addrs_append kl)
  have dj: "a \<notin> set (addrs k)" "a \<notin> set (inorder l)" if "a = y \<or> a \<in> set (inorder ry) \<or> a \<in> set (addrs kl)" for a
    using that g by (auto simp: good_addrs_Cons good_addrs_append)
  have dl: "a \<notin> set (addrs k)" if "a \<in> set (inorder l)" for a
    using that g by (auto simp: good_addrs_Cons good_addrs_append)
  define s1 where "s1 = relink y k s"
  have 1: "replace_child L (up k) x y s = Inr s1"
    unfolding s1_def by (rule replace_child_run) (use h g' in simp_all)
  have fr1: "nodes s1 a = nodes s a" if "a \<notin> set (addrs k)" for a
    using that by (simp add: s1_def)
  have x1: "nodes s1 x = Some (node_on R (up k) c ?b (rootp l))" and y1: "nodes s1 y = Some (node_on R z cy (rootp ry) 0)"
    using h g' fr1 by (simp_all add: node_on_def)
  have "\<forall>a\<in>set (inorder ry). nodes s a = nodes s1 a" "\<forall>a\<in>set (addrs kl). nodes s a = nodes s1 a" "\<forall>a\<in>set (inorder l). nodes s a = nodes s1 a"
    using fr1 dj dl by metis+
  then have l1: "laid (nodes s1) y ry" "seg (nodes s1) x y kl" "laid (nodes s1) x l"
    using h laid_cong seg_cong by blast+
  obtain s5 where s5: "res_bind (if rootp ry \<noteq> 0 then rb_set_parent (rootp ry) z s1 else Inr s1) (\<lambda>s.
      res_bind (upd z (with_child L (rootp ry)) s) (\<lambda>s. res_bind (rd x s) (\<lambda>x.
      res_bind (upd y (with_child R (rb_right x)) s) (\<lambda>s.
      res_bind (rb_set_parent (rb_right x) y s) (\<lambda>s. Inr (z, s)))))) = Inr (z, s5)"
    "laid (nodes s5) z ry" "seg (nodes s5) y (rootp ry) kl" "nodes s5 y = Some (node_on R z cy ?b 0)"
    "\<forall>a. a \<noteq> y \<and> a \<notin> set (inorder ry) \<and> a \<notin> set (addrs kl) \<longrightarrow> nodes s5 a = nodes s1 a"
    "root_node s5 = root_node s1" "same_ends s1 s5"
    by (rule detach_run [OF l1(2) kl l1(1) y1 x1 g'(16)])
  have "\<forall>a\<in>set (inorder l). nodes s1 a = nodes s5 a" "\<forall>a\<in>set (addrs k). nodes s1 a = nodes s5 a"
    using s5(5) dj by metis+
  moreover have "ctx_laid (nodes s1) (root_node s1) y k"
    unfolding s1_def by (rule relink_ctx) (use h g' in simp_all)
  ultimately have l5: "laid (nodes s5) x l" "ctx_laid (nodes s5) (root_node s5) y k"
    using l1(3) laid_cong ctx_laid_cong s5(6) by metis+
  have x5: "nodes s5 x = Some (node_on R (up k) c ?b (rootp l))" using x1 s5(5) g' by simp
  obtain s6 where s6: "res_bind (rd x s5) (\<lambda>x. res_bind (upd y (\<lambda>n. n\<lparr>rb_parent_color := rb_parent_color x, rb_left := rb_left x\<rparr>) s5) (\<lambda>s.
      res_bind (rb_set_parent (rb_left x) y s) (\<lambda>s. Inr (rootp ry, z, if cy then 1 else 0 :: u64, s)))) = Inr (rootp ry, z, if cy then 1 else 0, s6)"
    "nodes s6 = reparent y l ((nodes s5)(y \<mapsto> node_on R (up k) c ?b (rootp l)))" "root_node s6 = root_node s5" "same_ends s5 s6"
    "laid (nodes s6) y l" "nodes s6 y = Some (node_on R (up k) c ?b (rootp l))"
    by (rule take_place_run [OF x5 g'(1) s5(4) g'(2) l5(1) l g'(8,3,11), where ch = "rootp ry" and pr = z and color = "if cy then 1 else 0"])
  have fr6: "nodes s6 a = nodes s5 a" if "a \<noteq> y" "a \<notin> set (inorder l)" for a
    using that by (simp add: s6(2))
  have "\<forall>a\<in>set (inorder ry). nodes s5 a = nodes s6 a" "\<forall>a\<in>set (addrs k). nodes s5 a = nodes s6 a" "\<forall>a\<in>set (addrs kl). nodes s5 a = nodes s6 a"
    using fr6 dj dl g' by (metis good_addrs_Cons good_addrs_append UnCI set_append list.set_intros)+
  then have "laid (nodes s6) z ry" "ctx_laid (nodes s6) (root_node s6) y k" "seg (nodes s6) y (rootp ry) kl"
    using s5(2,3) l5(2) laid_cong ctx_laid_cong seg_cong s6(3) by metis+
  moreover have "topmost (rootp ry) kl = ?b" using kl by (intro topmost_Cons) simp
  ultimately have rep: "rep s6 (plug ry (kl @ Frame R y c l # k))"
    using s6(5,6) g'(17) unfolding rep_plug ctx_laid_append by (simp add: kl addrs_append)
  have nx: "rb_right (node_on R (up k) c ?b (rootp l)) = ?b" by (simp add: node_on_def node_of_def)
  have px: "rb_parent (node_on R (up k) c ?b (rootp l)) = up k" by (rule node_on_fields(1) [OF g'(10)])
  have ny: "rb_right (node_on R z cy (rootp ry) 0) = rootp ry" by (simp add: node_on_def node_of_def)
  have rx: "rd x s = Inr (node_on R (up k) c ?b (rootp l))" "rd y s1 = Inr (node_on R z cy (rootp ry) 0)"
    using h(4) y1 g' by simp_all
  have "rb_splice_successor n x s = Inr (rootp ry, z, if cy then 1 else 0, s6)"
    using d 1 s5(1) s6(1) g'(5,7) by (simp add: rb_splice_successor_def rx nx px ny split del: if_split)
  then show ?thesis
    by (rule that [OF _ rep]) (use s5(7) s6(4) in \<open>simp add: same_ends_def s1_def\<close>)
qed

section \<open>Removal\<close>

lemma frame_address:
  "ctx_h b (k1 @ Frame d a c u # k) = ctx_h b (k1 @ Frame d a' c u # k)"
  "ctx_c red (k1 @ Frame d a c u # k) = ctx_c red (k1 @ Frame d a' c u # k)"
  "root_black (k1 @ Frame d a c u # k) = root_black (k1 @ Frame d a' c u # k)"
proof (induction k1 arbitrary: b red)
  case (Cons f k1)
  { case 1 show ?case using Cons.IH(1) by (cases f) simp }
  { case 2 show ?case using Cons.IH(2) by (cases f) simp }
  { case 3 show ?case using Cons.IH(3) by (cases f) (simp add: root_black_Cons) }
qed (simp_all add: root_black_Cons)

text \<open>A node of colour \<open>c\<close> has gone from above \<open>t\<close>.\<close>

definition unlinked :: "bool \<Rightarrow> ptree \<Rightarrow> frame list \<Rightarrow> bool" where
  "unlinked c t k \<longleftrightarrow> invh t \<and> invc t \<and> ctx_h (bheight t + of_bool c) k \<and> ctx_c False k \<and> root_black k \<and>
     (\<not> c \<longrightarrow> \<not> is_red t \<and> k \<noteq> [])"

lemma unlinked_fix:
  assumes r: "rep s (plug t k)" and u: "unlinked c t k" and n: "length k < n"
  shows "\<exists>s' t'. (if (if c then 1 else 0) = EVENT_RB_BLACK then rb_erase_color n (rootp t) (up k) s else Inr s) = Inr s' \<and>
    rep s' t' \<and> red_black t' \<and> inorder t' = inorder (plug t k) \<and> same_ends s s'"
proof (cases c)
  case True
  then have u': "invh t" "invc (paint True t)" "ctx_h (bheight t + 1) k" "ctx_c False k" "root_black k"
    using u paint_black(2) [of t] paint_True_black [of t] by (cases "is_red t"; simp add: unlinked_def)+
  obtain s' where s': "rb_erase_color n (rootp t) (up k) s = Inr s'" "rep s' (del_fix t k)" "same_ends s s'"
    by (rule erase_color_run [OF r u'(1,3,4) n])
  then show ?thesis
    using True del_fix_balanced [OF u'] by (intro exI [of _ s'] exI [of _ "del_fix t k"]) (simp add: inorder_plug)
next
  case False
  then have "red_black (plug t k)"
    using u plug_root_black [of k t] by (simp add: unlinked_def red_black_def invh_plug invc_plug)
  then show ?thesis
    using False r by (intro exI [of _ s] exI [of _ "plug t k"]) simp
qed

lemma unlinked_single:
  assumes b: "red_black (plug (Node l x c r) k)" and t: "l = Tip \<and> t = r \<or> r = Tip \<and> t = l"
  shows "unlinked c t k"
proof -
  have "invc (Node l x c r)" "invh (Node l x c r)" "ctx_h (bheight l + of_bool c) k" "ctx_c (\<not> c) k" "k = [] \<longrightarrow> c"
    using b by (auto simp: red_black_def invh_plug invc_plug)
  then show ?thesis
    using b t root_black_plug ctx_c_mono by (auto simp: unlinked_def red_black_def)
qed

lemma unlinked_successor:
  assumes b: "red_black (plug (Node Tip y cy ry) (kl @ Frame R x c l # k))"
  shows "unlinked cy ry (kl @ Frame R y c l # k)"
proof -
  have "invc (Node Tip y cy ry)" "invh (Node Tip y cy ry)" "ctx_h (0 + of_bool cy) (kl @ Frame R x c l # k)" "ctx_c (\<not> cy) (kl @ Frame R x c l # k)"
      "root_black (kl @ Frame R x c l # k)"
    using b root_black_plug by (auto simp: red_black_def invh_plug invc_plug)
  note h = this [unfolded frame_address [where a = x and a' = y]]
  show ?thesis
    using h ctx_c_mono [OF h(4)] by (simp add: unlinked_def)
qed

lemma rb_erase_node_run:
  assumes r: "rep s (plug (Node l x c r) k)" and b: "red_black (plug (Node l x c r) k)"
    and n: "length (inorder (plug (Node l x c r) k)) < n"
  shows "\<exists>s' t'. rb_erase_node n x s = Inr s' \<and> rep s' t' \<and> red_black t' \<and>
    inorder t' = before k @ inorder l @ inorder r @ behind k \<and> same_ends s s'"
proof -
  have rx: "rep s (plug (join L x c l r) k)" using r by simp
  note X = rep_rd [OF rx]
  have fl: "rb_left (node_on L p c' a b) = a" "rb_right (node_on L p c' a b) = b" for p c' a b
    by (simp_all add: node_on_def node_of_def)
  have kn: "length k < n" using length_frames [of k "Node l x c r"] n by simp
  show ?thesis
  proof (cases "l \<noteq> Tip \<and> r \<noteq> Tip")
    case False
    define t where "t = (if l = Tip then r else l)"
    have t: "l = Tip \<and> t = r \<or> r = Tip \<and> t = l" using False by (auto simp: t_def)
    have rt: "rootp t = (if rootp l = 0 then rootp r else rootp l)" using X(6) by (auto simp: t_def)
    obtain s1 where s1: "res_bind (if rootp t \<noteq> 0 then rb_set_parent (rootp t) (up k) s else Inr s) (replace_child L (up k) x (rootp t)) = Inr s1"
      "rep s1 (plug t k)" "same_ends s s1"
      by (rule unlink_single_run [OF r t])
    obtain s' t' where s': "(if (if c then 1 else 0) = EVENT_RB_BLACK then rb_erase_color n (rootp t) (up k) s1 else Inr s1) = Inr s'"
      "rep s' t'" "red_black t'" "inorder t' = inorder (plug t k)" "same_ends s1 s'"
      using unlinked_fix [OF s1(2) unlinked_single [OF b t] kn] by blast
    obtain s0 where s0: "(if rootp t \<noteq> 0 then rb_set_parent (rootp t) (up k) s else Inr s) = Inr s0" "replace_child L (up k) x (rootp t) s0 = Inr s1"
      using s1(1) unfolding res_bind_Inr_iff by blast
    have "rb_erase_node n x s = Inr s'"
      using X(1,3,6,7) False s0 s'(1) by (cases c; cases "l = Tip"; cases "r = Tip") (simp_all add: rb_erase_node_def fl rt Let_def)
    then show ?thesis
      using s' same_ends_trans [OF s1(3) s'(5)] t by (intro exI [of _ s'] exI [of _ t']) (auto simp: inorder_plug)
  next
    case True
    have rr: "rep s (plug r (Frame R x c l # k))" using r by simp
    have "height r \<le> n" using height_le_length [of r] n by (simp add: inorder_plug)
    then obtain y cy ry kl where d: "rb_down n L (rootp r) s = Inr y" "r = plug (Node Tip y cy ry) kl" "before kl = []"
      "kl = [] \<or> (\<exists>z cz uz kl'. kl = Frame L z cz uz # kl')"
      using down_left_run [OF rr, of n] True by blast
    let ?k = "kl @ Frame R y c l # k"
    have r': "rep s (plug (Node Tip y cy ry) (kl @ Frame R x c l # k))" using rr by (simp add: d(2) plug_append)
    have b': "red_black (plug (Node Tip y cy ry) (kl @ Frame R x c l # k))" using b by (simp add: d(2) plug_append)
    have "\<exists>s1. rb_splice_successor n x s = Inr (rootp ry, up ?k, if cy then 1 else 0, s1) \<and> rep s1 (plug ry ?k) \<and> same_ends s s1"
    proof (cases "kl = []")
      case True
      then have rk: "rep s (plug (Node l x c (Node Tip y cy ry)) k)" and dk: "rb_down n L y s = Inr y" using r d by simp_all
      show ?thesis
        by (rule splice_adjacent_run [OF rk _ dk]) (use \<open>l \<noteq> Tip \<and> r \<noteq> Tip\<close> True in auto)
    next
      case False
      then obtain z cz uz kl' where kl: "kl = Frame L z cz uz # kl'" using d(4) by blast
      have dk: "rb_down n L (topmost y kl) s = Inr y" using d(1,2) rootp_plug [of "Node Tip y cy ry" kl] by simp
      show ?thesis
        by (rule splice_far_run [OF r' kl _ dk]) (use \<open>l \<noteq> Tip \<and> r \<noteq> Tip\<close> kl in auto)
    qed
    then obtain s1 where s1: "rb_splice_successor n x s = Inr (rootp ry, up ?k, if cy then 1 else 0, s1)" "rep s1 (plug ry ?k)" "same_ends s s1"
      by blast
    have io: "inorder (plug ry ?k) = before k @ inorder l @ inorder r @ behind k"
      by (simp add: inorder_plug before_append behind_append d(2,3))
    have "length (inorder (plug ry ?k)) < n" unfolding io using n by (simp add: inorder_plug)
    then have "length ?k < n"
      using length_frames [of ?k ry] by (rule le_less_trans [rotated])
    then obtain s' t' where s': "(if (if cy then 1 else 0) = EVENT_RB_BLACK then rb_erase_color n (rootp ry) (up ?k) s1 else Inr s1) = Inr s'"
      "rep s' t'" "red_black t'" "inorder t' = inorder (plug ry ?k)" "same_ends s1 s'"
      using unlinked_fix [OF s1(2) unlinked_successor [OF b']] by blast
    have "rb_erase_node n x s = Inr s'"
      using X(1,6,7) True s1(1) s'(1) by (cases cy) (simp_all add: rb_erase_node_def fl)
    then show ?thesis
      using s' same_ends_trans [OF s1(3) s'(5)] io by (intro exI [of _ s'] exI [of _ t']) simp
  qed
qed

lemma node_in_context:
  "x \<in> set (inorder t) \<Longrightarrow> \<exists>l c r k. t = plug (Node l x c r) k"
proof (induction t)
  case (Node l a c r)
  consider "x = a" | "x \<in> set (inorder l)" | "x \<in> set (inorder r)" using Node.prems by auto
  then show ?case
  proof cases
    case 1
    then have "Node l a c r = plug (Node l x c r) []" by simp
    then show ?thesis by blast
  next
    case 2
    then obtain l' c' r' k where "l = plug (Node l' x c' r') k" using Node.IH(1) by blast
    then have "Node l a c r = plug (Node l' x c' r') (k @ [Frame L a c r])" by (simp add: plug_append)
    then show ?thesis by blast
  next
    case 3
    then obtain l' c' r' k where "r = plug (Node l' x c' r') k" using Node.IH(2) by blast
    then have "Node l a c r = plug (Node l' x c' r') (k @ [Frame R a c l])" by (simp add: plug_append)
    then show ?thesis by blast
  qed
qed simp

lemma map_of_erase:
  "inj_on f (set (xs @ x # ys)) \<Longrightarrow> distinct (xs @ x # ys) \<Longrightarrow>
    map_of (map (\<lambda>a. (f a, a)) (xs @ ys)) = (map_of (map (\<lambda>a. (f a, a)) (xs @ x # ys)))(f x := None)"
proof (induction xs)
  case Nil
  then have "f x \<notin> f ` set ys" by (auto simp: inj_on_def)
  then show ?case by (auto simp: map_of_eq_None_iff image_image fun_eq_iff)
next
  case (Cons a xs)
  then have "f a \<noteq> f x" by (auto simp: inj_on_def)
  moreover have "map_of (map (\<lambda>a. (f a, a)) (xs @ ys)) = (map_of (map (\<lambda>a. (f a, a)) (xs @ x # ys)))(f x := None)"
    by (rule Cons.IH) (use Cons.prems in auto)
  ultimately show ?case by (simp only: append_Cons list.map map_of.simps fst_conv snd_conv fun_upd_twist [of "f a" "f x"] not_False_eq_True)
qed

lemma ordered_inj: "ordered f xs \<Longrightarrow> inj_on f (set xs)"
proof (induction xs)
  case (Cons x xs)
  then show ?case by (auto simp: ordered_Cons)
qed simp

lemma erase_index:
  assumes i: "rb_index f s t" and x: "x \<in> set (inorder t)" and n: "length (inorder t) < n"
  shows "\<exists>s' t'. rb_erase n x s = Inr s' \<and> rb_index f s' t' \<and> index_map f t' = (index_map f t)(f x := None) \<and>
    Suc (length (inorder t')) = length (inorder t)"
proof -
  have t: "rep s t" "red_black t" "ordered f (inorder t)"
    and ends: "rb_leftmost s = hd (inorder t)" "rb_rightmost s = last (inorder t)"
    using i x by (auto simp: rb_index_def)
  obtain l c r k where k: "t = plug (Node l x c r) k" using node_in_context [OF x] by blast
  define xs where "xs = before k @ inorder l"
  define ys where "ys = inorder r @ behind k"
  have io: "inorder t = xs @ x # ys" by (simp add: k inorder_plug xs_def ys_def)
  have dist: "distinct (xs @ x # ys)" using t(1) by (simp add: rep_def good_addrs_def flip: io)
  have lft: "x = rb_leftmost s \<longleftrightarrow> xs = []"
    using dist ends(1) by (cases xs) (auto simp: io)
  have rgt: "x = rb_rightmost s \<longleftrightarrow> ys = []"
    using dist ends(2) by (cases ys rule: rev_cases) (auto simp: io)
  define s1 where "s1 = (if xs = [] then s\<lparr>rb_leftmost := end_of L ys\<rparr> else s)"
  define s2 where "s2 = (if ys = [] then s1\<lparr>rb_rightmost := end_of R xs\<rparr> else s1)"
  have r0: "rep s (plug (Node l x c r) k)" and r1: "rep s1 (plug (Node l x c r) k)" and r2: "rep s2 (plug (Node l x c r) k)"
    using t(1) by (auto simp: s1_def s2_def rep_def k)
  have nk: "length (inorder (plug (Node l x c r) k)) < n" using n k by simp
  obtain s' t' where s': "rb_erase_node n x s2 = Inr s'" "rep s' t'" "red_black t'" "inorder t' = xs @ ys" "same_ends s2 s'"
    using rb_erase_node_run [OF r2 _ nk] t(2) by (auto simp: k xs_def ys_def)
  have 1: "(if x = rb_leftmost s then res_bind (rb_next n x s) (\<lambda>p. Inr (s\<lparr>rb_leftmost := p\<rparr>)) else Inr s) = Inr s1"
    using step_run(1) [OF r0 nk] by (simp add: lft s1_def ys_def)
  have "rb_rightmost s1 = rb_rightmost s" by (simp add: s1_def)
  then have 2: "(if x = rb_rightmost s1 then res_bind (rb_prev n x s1) (\<lambda>p. Inr (s1\<lparr>rb_rightmost := p\<rparr>)) else Inr s1) = Inr s2"
    using step_run(2) [OF r1 nk] by (simp add: rgt s2_def xs_def)
  have run: "rb_erase n x s = Inr s'"
    unfolding rb_erase_def 1 using 2 s'(1) by simp
  have ord: "ordered f (inorder t')"
    using t(3) by (auto simp: s'(4) io ordered_append ordered_Cons)
  have "xs @ ys \<noteq> [] \<longrightarrow> rb_leftmost s' = hd (xs @ ys) \<and> rb_rightmost s' = last (xs @ ys)"
    using ends s'(5) by (cases xs; cases ys) (auto simp: io same_ends_def s1_def s2_def end_of_def)
  then have "rb_index f s' t'"
    using s' ord by (simp add: rb_index_def)
  moreover have "index_map f t' = (index_map f t)(f x := None)"
    using map_of_erase [OF _ dist, of f] ordered_inj [OF t(3)] by (simp add: index_map_def s'(4) io)
  ultimately show ?thesis
    using run by (auto simp: s'(4) io)
qed

text \<open>C4: Removing a buffer head from the index (rb_erase(), as remove_buffer_from_hash() calls it) keeps the
  tree ordered, balanced and correctly linked, with its shortcuts to both ends, and afterwards a search finds
  nothing for the block number of that buffer and for every other block number what it found before. The
  loops end within as many rounds as the tree has nodes.\<close>

theorem rb_erase_then_search:
  assumes "rb_index f s t" "x \<in> set (inorder t)" "unat b < 2 ^ 63" "length (inorder t) < n"
  shows "\<exists>s' t'. rb_erase n x s = Inr s' \<and> rb_index f s' t' \<and> Suc (length (inorder t')) = length (inorder t) \<and>
    rb_find_buffer n f b s' = (if b = f x then Inr 0 else rb_find_buffer n f b s)"
proof -
  obtain s' t' where s': "rb_erase n x s = Inr s'" "rb_index f s' t'" "index_map f t' = (index_map f t)(f x := None)"
    "Suc (length (inorder t')) = length (inorder t)"
    using erase_index [OF assms(1,2,4)] by blast
  then have "length (inorder t') < n" using assms(4) by simp
  from find_buffer_run [OF s'(2) assms(3) this] find_buffer_run [OF assms(1,3,4)] show ?thesis
    using s' by (intro exI [of _ s'] exI [of _ t']) simp
qed

theorem rb_erase_then_search_witness:
  "\<exists>s' t'. rb_erase 9 16 demo_rb_heap = Inr s' \<and> rb_index (\<lambda>a. a) s' t' \<and> Suc (length (inorder t')) = length (inorder demo_rb_tree) \<and>
    rb_find_buffer 9 (\<lambda>a. a) 24 s' = (if (24 :: u64) = 16 then Inr 0 else rb_find_buffer 9 (\<lambda>a. a) 24 demo_rb_heap)"
  by (rule rb_erase_then_search [OF demo_rb_index(1)]) (simp_all add: demo_rb_tree_def)

end
