(* ===== verification/E4F_Index.thy ===== *)
theory E4F_Index
  imports E4F_Rberase
begin

text \<open>
  The index of the buffer cache: buffer_insert(), __buffer_remove() and __buffer_search() of src/buffer.c on
  the red-black tree, with the memory of the nodes, as a client sees them: a set of buffer heads that is
  searched by block number.
\<close>

section \<open>The contract\<close>

text \<open>The buffer head \<open>x\<close> is allocated and inserted, or removed and freed.\<close>

datatype index_op = Insert u64 | Remove u64

fun index_run :: "(u64 \<Rightarrow> 's \<Rightarrow> 's res) \<Rightarrow> (u64 \<Rightarrow> 's \<Rightarrow> 's res) \<Rightarrow> index_op list \<Rightarrow> 's \<Rightarrow> 's res" where
  "index_run ins rem [] s = Inr s"
| "index_run ins rem (Insert x # ops) s = res_bind (ins x s) (index_run ins rem ops)"
| "index_run ins rem (Remove x # ops) s = res_bind (rem x s) (index_run ins rem ops)"

text \<open>
  The buffer heads after some operations, when these are legal: an address is that of an object that is not
  in use, no two buffers have the same block number, and there are at most \<open>room\<close> of them.
\<close>

definition can_insert :: "(u64 \<Rightarrow> u64) \<Rightarrow> nat \<Rightarrow> u64 list \<Rightarrow> u64 \<Rightarrow> bool" where
  "can_insert key room as x \<longleftrightarrow> x \<noteq> 0 \<and> x AND 3 = 0 \<and> x \<notin> set as \<and> unat (key x) < 2 ^ 63 \<and> key x \<notin> key ` set as \<and> length as < room"

fun index_spec :: "(u64 \<Rightarrow> u64) \<Rightarrow> nat \<Rightarrow> index_op list \<Rightarrow> u64 list \<Rightarrow> u64 list option" where
  "index_spec key room [] as = Some as"
| "index_spec key room (Insert x # ops) as = (if can_insert key room as x then index_spec key room ops (x # as) else None)"
| "index_spec key room (Remove x # ops) as = (if x \<in> set as then index_spec key room ops (remove1 x as) else None)"

definition index_find :: "(u64 \<Rightarrow> u64) \<Rightarrow> u64 \<Rightarrow> u64 list \<Rightarrow> u64" where
  "index_find key b as = (case find (\<lambda>a. key a = b) as of None \<Rightarrow> 0 | Some a \<Rightarrow> a)"

locale block_index =
  fixes state :: "'s \<Rightarrow> u64 list \<Rightarrow> bool" and key :: "u64 \<Rightarrow> u64" and room :: nat
    and ins :: "u64 \<Rightarrow> 's \<Rightarrow> 's res" and rem :: "u64 \<Rightarrow> 's \<Rightarrow> 's res" and search :: "u64 \<Rightarrow> 's \<Rightarrow> u64 res"
  assumes ins_law: "state s as \<Longrightarrow> can_insert key room as x \<Longrightarrow> \<exists>s'. ins x s = Inr s' \<and> state s' (x # as)"
    and rem_law: "state s as \<Longrightarrow> x \<in> set as \<Longrightarrow> \<exists>s'. rem x s = Inr s' \<and> state s' (remove1 x as)"
    and search_law: "state s as \<Longrightarrow> unat b < 2 ^ 63 \<Longrightarrow> search b s = Inr (index_find key b as)"
begin

lemma run_refines:
  "state s as \<Longrightarrow> index_spec key room ops as = Some as' \<Longrightarrow> \<exists>s'. index_run ins rem ops s = Inr s' \<and> state s' as'"
proof (induction ops arbitrary: s as)
  case (Cons op ops)
  show ?case
  proof (cases op)
    case (Insert x)
    then have i: "can_insert key room as x" "index_spec key room ops (x # as) = Some as'"
      using Cons.prems(2) by (auto split: if_splits)
    obtain s1 where "ins x s = Inr s1" "state s1 (x # as)" using ins_law [OF Cons.prems(1) i(1)] by blast
    then show ?thesis using Cons.IH i(2) Insert by simp
  next
    case (Remove x)
    then have i: "x \<in> set as" "index_spec key room ops (remove1 x as) = Some as'"
      using Cons.prems(2) by (auto split: if_splits)
    obtain s1 where "rem x s = Inr s1" "state s1 (remove1 x as)" using rem_law [OF Cons.prems(1) i(1)] by blast
    then show ?thesis using Cons.IH i(2) Remove by simp
  qed
qed simp

lemma run_then_search:
  assumes "state s as" "index_spec key room ops as = Some as'"
  shows "\<exists>s'. index_run ins rem ops s = Inr s' \<and> (\<forall>b. unat b < 2 ^ 63 \<longrightarrow> search b s' = Inr (index_find key b as'))"
  using run_refines [OF assms] search_law by blast

end

section \<open>The tree as the index\<close>

definition rb_buffer_insert :: "nat \<Rightarrow> (u64 \<Rightarrow> u64) \<Rightarrow> u64 \<Rightarrow> rb_root \<Rightarrow> rb_root res" where
  "rb_buffer_insert fuel blocknr bh s = rb_insert fuel (buffer_blocknr_cmp blocknr) bh s"

definition rb_buffer_remove :: "nat \<Rightarrow> u64 \<Rightarrow> rb_root \<Rightarrow> rb_root res" where
  "rb_buffer_remove fuel bh s = rb_erase fuel bh s"

text \<open>A new buffer head is zeroed memory; a removed one is freed, so that a later access to it is undefined.\<close>

definition alloc_insert :: "nat \<Rightarrow> (u64 \<Rightarrow> u64) \<Rightarrow> u64 \<Rightarrow> rb_root \<Rightarrow> rb_root res" where
  "alloc_insert fuel blocknr bh s =
     rb_buffer_insert fuel blocknr bh (s\<lparr>nodes := (nodes s)(bh \<mapsto> \<lparr>rb_parent_color = 0, rb_right = 0, rb_left = 0\<rparr>)\<rparr>)"

definition remove_free :: "nat \<Rightarrow> u64 \<Rightarrow> rb_root \<Rightarrow> rb_root res" where
  "remove_free fuel bh s = res_bind (rb_buffer_remove fuel bh s) (\<lambda>s. Inr (s\<lparr>nodes := (nodes s)(bh := None)\<rparr>))"

definition rb_state :: "(u64 \<Rightarrow> u64) \<Rightarrow> nat \<Rightarrow> rb_root \<Rightarrow> u64 list \<Rightarrow> bool" where
  "rb_state f room s as \<longleftrightarrow> distinct as \<and> length as \<le> room \<and> (\<exists>t. rb_index f s t \<and> set (inorder t) = set as)"

lemma rb_index_other:
  assumes "rb_index f s t" "x \<notin> set (inorder t)"
  shows "rb_index f (s\<lparr>nodes := (nodes s)(x := v)\<rparr>) t"
proof -
  have "laid ((nodes s)(x := v)) 0 t = laid (nodes s) 0 t"
    by (rule laid_cong) (use assms(2) in auto)
  then show ?thesis using assms(1) by (simp add: rb_index_def rep_def del: fun_upd_apply)
qed

lemma rb_index_length:
  assumes "rb_index f s t" "distinct as" "set (inorder t) = set as"
  shows "length (inorder t) = length as"
proof -
  have "distinct (inorder t)" using assms(1) by (simp add: rb_index_def rep_def good_addrs_def)
  then show ?thesis using assms(2,3) by (metis distinct_card)
qed

lemma index_map_Some: "inj_on f (set xs) \<Longrightarrow> map_of (map (\<lambda>a. (f a, a)) xs) b = Some a \<longleftrightarrow> a \<in> set xs \<and> f a = b"
  by (induction xs) (auto simp: inj_on_def)

lemma in_index: "rb_index f s t \<Longrightarrow> a \<in> set (inorder t) \<longleftrightarrow> index_map f t (f a) = Some a"
proof -
  assume "rb_index f s t"
  then have "inj_on f (set (inorder t))" using ordered_inj by (simp add: rb_index_def)
  from index_map_Some [OF this] show ?thesis by (simp add: index_map_def)
qed

lemma index_find_map:
  assumes "rb_index f s t" "set (inorder t) = set as"
  shows "(case index_map f t b of None \<Rightarrow> 0 | Some a \<Rightarrow> a) = index_find f b as"
proof -
  have inj: "inj_on f (set (inorder t))" using assms(1) ordered_inj by (simp add: rb_index_def)
  have "index_map f t b = find (\<lambda>a. f a = b) as"
  proof (cases "find (\<lambda>a. f a = b) as")
    case None
    then have "b \<notin> f ` set (inorder t)" using assms(2) by (auto simp: find_None_iff)
    then show ?thesis using None by (auto simp: index_map_def map_of_eq_None_iff image_image)
  next
    case (Some a)
    then have "a \<in> set (inorder t)" "f a = b" using assms(2) by (auto simp: find_Some_iff)
    then show ?thesis using Some index_map_Some [OF inj] by (simp add: index_map_def)
  qed
  then show ?thesis by (simp add: index_find_def)
qed

interpretation rbi: block_index "rb_state f room" f room "alloc_insert (Suc room) f" "remove_free (Suc room)" "rb_find_buffer (Suc room) f"
  for f :: "u64 \<Rightarrow> u64" and room :: nat
proof (unfold_locales, goal_cases)
  case (1 s as x)
  then obtain t where t: "rb_index f s t" "set (inorder t) = set as" and as: "distinct as" "length as \<le> room"
    by (auto simp: rb_state_def)
  have x: "x \<notin> set (inorder t)" "length (inorder t) < Suc room" and c: "x \<noteq> 0" "x AND 3 = 0" "x \<notin> set as" "unat (f x) < 2 ^ 63" "f x \<notin> f ` set as" "length as < room"
    using 1(2) t(2) rb_index_length [OF t(1) as(1) t(2)] by (auto simp: can_insert_def)
  let ?s = "s\<lparr>nodes := (nodes s)(x \<mapsto> \<lparr>rb_parent_color = 0, rb_right = 0, rb_left = 0\<rparr>)\<rparr>"
  have i: "rb_index f ?s t" by (rule rb_index_other [OF t(1) x(1)])
  have "fresh_node f ?s t x" using c t(2) by (simp add: fresh_node_def)
  then obtain s' t' where s': "rb_insert (Suc room) (buffer_blocknr_cmp f) x ?s = Inr s'" "rb_index f s' t'" "index_map f t' = (index_map f t)(f x \<mapsto> x)"
    using insert_index [OF i _ x(2)] by blast
  have "a \<in> set (inorder t') \<longleftrightarrow> a \<in> set (x # as)" for a
  proof -
    have "f a \<noteq> f x" if "a \<in> set as" using c(5) imageI [OF that, of f] by metis
    then show ?thesis using t(2) in_index [OF s'(2), of a] in_index [OF t(1), of a] by (auto simp: s'(3) split: if_splits)
  qed
  then have "rb_state f room s' (x # as)" using s'(2) as c by (auto simp: rb_state_def)
  then show ?case using s'(1) by (auto simp: alloc_insert_def rb_buffer_insert_def)
next
  case (2 s as x)
  then obtain t where t: "rb_index f s t" "set (inorder t) = set as" and as: "distinct as" "length as \<le> room"
    by (auto simp: rb_state_def)
  have x: "x \<in> set (inorder t)" "length (inorder t) < Suc room"
    using 2(2) t(2) as(2) rb_index_length [OF t(1) as(1) t(2)] by simp_all
  obtain s' t' where s': "rb_erase (Suc room) x s = Inr s'" "rb_index f s' t'" "index_map f t' = (index_map f t)(f x := None)"
    using erase_index [OF t(1) x] by blast
  have e: "a \<in> set (inorder t') \<longleftrightarrow> a \<in> set (remove1 x as)" for a
    using in_index [OF s'(2), of a] in_index [OF t(1), of a] in_index [OF t(1), of x] x(1) t(2) as(1)
    by (auto simp: s'(3) split: if_splits)
  then have "x \<notin> set (inorder t')" using as(1) by simp
  then have "rb_state f room (s'\<lparr>nodes := (nodes s')(x := None)\<rparr>) (remove1 x as)"
    using rb_index_other [OF s'(2)] e as by (auto simp: rb_state_def length_remove1)
  then show ?case using s'(1) by (simp add: remove_free_def rb_buffer_remove_def)
next
  case (3 s as b)
  then obtain t where t: "rb_index f s t" "set (inorder t) = set as" and as: "distinct as" "length as \<le> room"
    by (auto simp: rb_state_def)
  then show ?case
    using find_buffer_run [OF t(1) 3(2), of "Suc room"] index_find_map [OF t] rb_index_length [OF t(1) as(1) t(2)] by simp
qed

text \<open>C5: Any legal sequence of insertions and removals of buffer heads, with the memory of a removed one
  freed, runs on the tree without an access to a wrong or freed node, and afterwards a search finds for
  each block number the buffer head that the sequence leaves for it, or NULL.\<close>

theorem rb_index_run_refines:
  assumes "rb_state f room s as" "index_spec f room ops as = Some as'"
  shows "\<exists>s'. index_run (alloc_insert (Suc room) f) (remove_free (Suc room)) ops s = Inr s' \<and>
    (\<forall>b. unat b < 2 ^ 63 \<longrightarrow> rb_find_buffer (Suc room) f b s' = Inr (index_find f b as'))"
  by (rule rbi.run_then_search [OF assms])

theorem rb_index_run_refines_witness:
  "\<exists>s'. index_run (alloc_insert 101 (\<lambda>a. a)) (remove_free 101) [Insert 40, Remove 16, Insert 64, Remove 8] demo_rb_heap = Inr s' \<and>
    rb_find_buffer 101 (\<lambda>a. a) 40 s' = Inr 40 \<and> rb_find_buffer 101 (\<lambda>a. a) 16 s' = Inr 0"
proof -
  have s: "rb_state (\<lambda>a. a) 100 demo_rb_heap [8, 16, 24]"
    using demo_rb_index(1) by (auto simp: rb_state_def demo_rb_tree_def)
  show ?thesis
    using rb_index_run_refines [OF s, of "[Insert 40, Remove 16, Insert 64, Remove 8]" "[64, 40, 24]"]
    by (auto simp: can_insert_def index_find_def)
qed

end
