(* ===== verification/E4F_List.thy ===== *)
theory E4F_List
  imports E4F_Cache
begin

text \<open>
  The intrusive lists of src/types/list.h: circular lists with two links per node, in a heap of list heads,
  and hash lists, in a memory of pointers. A pointer is a 64-bit address and 0 is NULL; an access through a
  pointer to no node is undefined. The lists of the buffer cache (src/buffer.c) are such lists; the model of
  the cache has HOL lists, which the last section justifies.
\<close>

section \<open>The nodes\<close>

record list_head =
  prev_ptr :: u64
  next_ptr :: u64

type_synonym lists = "u64 \<rightharpoonup> list_head"

text \<open>Loads and stores of a link through a pointer.\<close>

definition next_of :: "u64 \<Rightarrow> lists \<Rightarrow> u64 res" where
  "next_of p h = (case h p of Some n \<Rightarrow> if p = 0 then Inl Undefined else Inr (next_ptr n) | None \<Rightarrow> Inl Undefined)"

definition prev_of :: "u64 \<Rightarrow> lists \<Rightarrow> u64 res" where
  "prev_of p h = (case h p of Some n \<Rightarrow> if p = 0 then Inl Undefined else Inr (prev_ptr n) | None \<Rightarrow> Inl Undefined)"

definition set_next :: "u64 \<Rightarrow> u64 \<Rightarrow> lists \<Rightarrow> lists res" where
  "set_next p q h = (case h p of Some n \<Rightarrow> if p = 0 then Inl Undefined else Inr (h(p \<mapsto> n\<lparr>next_ptr := q\<rparr>)) | None \<Rightarrow> Inl Undefined)"

definition set_prev :: "u64 \<Rightarrow> u64 \<Rightarrow> lists \<Rightarrow> lists res" where
  "set_prev p q h = (case h p of Some n \<Rightarrow> if p = 0 then Inl Undefined else Inr (h(p \<mapsto> n\<lparr>prev_ptr := q\<rparr>)) | None \<Rightarrow> Inl Undefined)"

section \<open>Circular lists\<close>

definition INIT_LIST_HEAD :: "u64 \<Rightarrow> lists \<Rightarrow> lists res" where
  "INIT_LIST_HEAD list h = res_bind (set_next list list h) (set_prev list list)"

text \<open>__list_add().\<close>

definition list_add_between :: "u64 \<Rightarrow> u64 \<Rightarrow> u64 \<Rightarrow> lists \<Rightarrow> lists res" where
  "list_add_between new prev next h =
     res_bind (set_prev next new h) (\<lambda>h.
     res_bind (set_next new next h) (\<lambda>h.
     res_bind (set_prev new prev h) (\<lambda>h.
       set_next prev new h)))"

definition list_add :: "u64 \<Rightarrow> u64 \<Rightarrow> lists \<Rightarrow> lists res" where
  "list_add new head h = res_bind (next_of head h) (\<lambda>next. list_add_between new head next h)"

definition list_add_tail :: "u64 \<Rightarrow> u64 \<Rightarrow> lists \<Rightarrow> lists res" where
  "list_add_tail new head h = res_bind (prev_of head h) (\<lambda>prev. list_add_between new prev head h)"

text \<open>__list_del().\<close>

definition list_del_between :: "u64 \<Rightarrow> u64 \<Rightarrow> lists \<Rightarrow> lists res" where
  "list_del_between prev next h = res_bind (set_prev next prev h) (set_next prev next)"

text \<open>__list_del_entry().\<close>

definition list_del_entry :: "u64 \<Rightarrow> lists \<Rightarrow> lists res" where
  "list_del_entry entry h =
     res_bind (prev_of entry h) (\<lambda>prev. res_bind (next_of entry h) (\<lambda>next. list_del_between prev next h))"

definition list_del :: "u64 \<Rightarrow> lists \<Rightarrow> lists res" where
  "list_del entry h =
     res_bind (prev_of entry h) (\<lambda>prev.
     res_bind (next_of entry h) (\<lambda>next.
     res_bind (list_del_between prev next h) (\<lambda>h.
     res_bind (set_next entry 0 h) (\<lambda>h. set_prev entry 0 h))))"

definition list_replace :: "u64 \<Rightarrow> u64 \<Rightarrow> lists \<Rightarrow> lists res" where
  "list_replace old new h =
     res_bind (next_of old h) (\<lambda>next.
     res_bind (set_next new next h) (\<lambda>h.
     res_bind (next_of new h) (\<lambda>next.
     res_bind (set_prev next new h) (\<lambda>h.
     res_bind (prev_of old h) (\<lambda>prev.
     res_bind (set_prev new prev h) (\<lambda>h.
     res_bind (prev_of new h) (\<lambda>prev.
       set_next prev new h)))))))"

definition list_replace_init :: "u64 \<Rightarrow> u64 \<Rightarrow> lists \<Rightarrow> lists res" where
  "list_replace_init old new h = res_bind (list_replace old new h) (INIT_LIST_HEAD old)"

definition list_del_init :: "u64 \<Rightarrow> lists \<Rightarrow> lists res" where
  "list_del_init entry h = res_bind (list_del_entry entry h) (INIT_LIST_HEAD entry)"

definition list_move :: "u64 \<Rightarrow> u64 \<Rightarrow> lists \<Rightarrow> lists res" where
  "list_move list head h = res_bind (list_del_entry list h) (list_add list head)"

definition list_move_tail :: "u64 \<Rightarrow> u64 \<Rightarrow> lists \<Rightarrow> lists res" where
  "list_move_tail list head h = res_bind (list_del_entry list h) (list_add_tail list head)"

definition list_is_last :: "u64 \<Rightarrow> u64 \<Rightarrow> lists \<Rightarrow> bool res" where
  "list_is_last list head h = res_bind (next_of list h) (\<lambda>next. Inr (next = head))"

definition list_empty :: "u64 \<Rightarrow> lists \<Rightarrow> bool res" where
  "list_empty head h = res_bind (next_of head h) (\<lambda>next. Inr (next = head))"

definition list_empty_careful :: "u64 \<Rightarrow> lists \<Rightarrow> bool res" where
  "list_empty_careful head h =
     res_bind (next_of head h) (\<lambda>next.
       if next = head then res_bind (prev_of head h) (\<lambda>prev. Inr (next = prev)) else Inr False)"

definition list_rotate_left :: "u64 \<Rightarrow> lists \<Rightarrow> lists res" where
  "list_rotate_left head h =
     res_bind (list_empty head h) (\<lambda>e.
       if \<not> e then res_bind (next_of head h) (\<lambda>first. list_move_tail first head h) else Inr h)"

definition list_is_singular :: "u64 \<Rightarrow> lists \<Rightarrow> bool res" where
  "list_is_singular head h =
     res_bind (list_empty head h) (\<lambda>e.
       if e then Inr False
       else res_bind (next_of head h) (\<lambda>next. res_bind (prev_of head h) (\<lambda>prev. Inr (next = prev))))"

text \<open>__list_cut_position().\<close>

definition list_cut_at :: "u64 \<Rightarrow> u64 \<Rightarrow> u64 \<Rightarrow> lists \<Rightarrow> lists res" where
  "list_cut_at list head entry h =
     res_bind (next_of entry h) (\<lambda>new_first.
     res_bind (next_of head h) (\<lambda>next.
     res_bind (set_next list next h) (\<lambda>h.
     res_bind (next_of list h) (\<lambda>next.
     res_bind (set_prev next list h) (\<lambda>h.
     res_bind (set_prev list entry h) (\<lambda>h.
     res_bind (set_next entry list h) (\<lambda>h.
     res_bind (set_next head new_first h) (\<lambda>h.
       set_prev new_first head h))))))))"

definition list_cut_position :: "u64 \<Rightarrow> u64 \<Rightarrow> u64 \<Rightarrow> lists \<Rightarrow> lists res" where
  "list_cut_position list head entry h =
     res_bind (list_empty head h) (\<lambda>e.
     if e then Inr h
     else res_bind (list_is_singular head h) (\<lambda>single.
       res_bind (next_of head h) (\<lambda>next.
       if single \<and> next \<noteq> entry \<and> head \<noteq> entry then Inr h
       else if entry = head then INIT_LIST_HEAD list h
       else list_cut_at list head entry h)))"

text \<open>__list_splice().\<close>

definition list_splice_between :: "u64 \<Rightarrow> u64 \<Rightarrow> u64 \<Rightarrow> lists \<Rightarrow> lists res" where
  "list_splice_between list prev next h =
     res_bind (next_of list h) (\<lambda>first.
     res_bind (prev_of list h) (\<lambda>last.
     res_bind (set_prev first prev h) (\<lambda>h.
     res_bind (set_next prev first h) (\<lambda>h.
     res_bind (set_next last next h) (\<lambda>h.
       set_prev next last h)))))"

definition list_splice :: "u64 \<Rightarrow> u64 \<Rightarrow> lists \<Rightarrow> lists res" where
  "list_splice list head h =
     res_bind (list_empty list h) (\<lambda>e.
       if \<not> e then res_bind (next_of head h) (\<lambda>next. list_splice_between list head next h) else Inr h)"

definition list_splice_tail :: "u64 \<Rightarrow> u64 \<Rightarrow> lists \<Rightarrow> lists res" where
  "list_splice_tail list head h =
     res_bind (list_empty list h) (\<lambda>e.
       if \<not> e then res_bind (prev_of head h) (\<lambda>prev. list_splice_between list prev head h) else Inr h)"

definition list_splice_init :: "u64 \<Rightarrow> u64 \<Rightarrow> lists \<Rightarrow> lists res" where
  "list_splice_init list head h =
     res_bind (list_empty list h) (\<lambda>e.
       if \<not> e then
         res_bind (next_of head h) (\<lambda>next. res_bind (list_splice_between list head next h) (INIT_LIST_HEAD list))
       else Inr h)"

definition list_splice_tail_init :: "u64 \<Rightarrow> u64 \<Rightarrow> lists \<Rightarrow> lists res" where
  "list_splice_tail_init list head h =
     res_bind (list_empty list h) (\<lambda>e.
       if \<not> e then
         res_bind (prev_of head h) (\<lambda>prev. res_bind (list_splice_between list prev head h) (INIT_LIST_HEAD list))
       else Inr h)"

text \<open>The structure that contains a list head at offset \<open>off\<close>: container_of().\<close>

definition list_entry :: "u64 \<Rightarrow> u64 \<Rightarrow> u64" where
  "list_entry ptr off = ptr - off"

definition list_first_entry :: "u64 \<Rightarrow> u64 \<Rightarrow> lists \<Rightarrow> u64 res" where
  "list_first_entry ptr off h = res_bind (next_of ptr h) (\<lambda>next. Inr (list_entry next off))"

definition list_last_entry :: "u64 \<Rightarrow> u64 \<Rightarrow> lists \<Rightarrow> u64 res" where
  "list_last_entry ptr off h = res_bind (prev_of ptr h) (\<lambda>prev. Inr (list_entry prev off))"

definition list_first_entry_or_null :: "u64 \<Rightarrow> u64 \<Rightarrow> lists \<Rightarrow> u64 res" where
  "list_first_entry_or_null ptr off h =
     res_bind (list_empty ptr h) (\<lambda>e. if \<not> e then list_first_entry ptr off h else Inr 0)"

definition list_next_entry :: "u64 \<Rightarrow> u64 \<Rightarrow> lists \<Rightarrow> u64 res" where
  "list_next_entry pos off h = res_bind (next_of (pos + off) h) (\<lambda>next. Inr (list_entry next off))"

definition list_prev_entry :: "u64 \<Rightarrow> u64 \<Rightarrow> lists \<Rightarrow> u64 res" where
  "list_prev_entry pos off h = res_bind (prev_of (pos + off) h) (\<lambda>prev. Inr (list_entry prev off))"

text \<open>The loops over a list run a body that may change the lists and a state of its own.\<close>

fun for_each_loop :: "nat \<Rightarrow> (u64 \<Rightarrow> lists \<Rightarrow> u64 res) \<Rightarrow> (u64 \<Rightarrow> lists \<times> 'a \<Rightarrow> (lists \<times> 'a) res) \<Rightarrow> u64 \<Rightarrow> u64 \<Rightarrow>
    lists \<times> 'a \<Rightarrow> (lists \<times> 'a) res" where
  "for_each_loop 0 step body pos head z = Inl Diverge"
| "for_each_loop (Suc rounds) step body pos head z =
     (if pos = head then Inr z
      else
        res_bind (body pos z) (\<lambda>z.
        res_bind (step pos (fst z)) (\<lambda>pos. for_each_loop rounds step body pos head z)))"

definition list_for_each :: "nat \<Rightarrow> (u64 \<Rightarrow> lists \<times> 'a \<Rightarrow> (lists \<times> 'a) res) \<Rightarrow> u64 \<Rightarrow> lists \<times> 'a \<Rightarrow> (lists \<times> 'a) res" where
  "list_for_each fuel body head z = res_bind (next_of head (fst z)) (\<lambda>pos. for_each_loop fuel next_of body pos head z)"

definition list_for_each_prev :: "nat \<Rightarrow> (u64 \<Rightarrow> lists \<times> 'a \<Rightarrow> (lists \<times> 'a) res) \<Rightarrow> u64 \<Rightarrow> lists \<times> 'a \<Rightarrow> (lists \<times> 'a) res" where
  "list_for_each_prev fuel body head z = res_bind (prev_of head (fst z)) (\<lambda>pos. for_each_loop fuel prev_of body pos head z)"

text \<open>The safe variants read the link of the next round before the body runs.\<close>

fun for_each_safe_loop :: "nat \<Rightarrow> (u64 \<Rightarrow> lists \<Rightarrow> u64 res) \<Rightarrow> (u64 \<Rightarrow> lists \<times> 'a \<Rightarrow> (lists \<times> 'a) res) \<Rightarrow> u64 \<Rightarrow> u64 \<Rightarrow>
    u64 \<Rightarrow> lists \<times> 'a \<Rightarrow> (lists \<times> 'a) res" where
  "for_each_safe_loop 0 step body pos n head z = Inl Diverge"
| "for_each_safe_loop (Suc rounds) step body pos n head z =
     (if pos = head then Inr z
      else
        res_bind (body pos z) (\<lambda>z.
        res_bind (step n (fst z)) (\<lambda>n'. for_each_safe_loop rounds step body n n' head z)))"

definition list_for_each_safe :: "nat \<Rightarrow> (u64 \<Rightarrow> lists \<times> 'a \<Rightarrow> (lists \<times> 'a) res) \<Rightarrow> u64 \<Rightarrow> lists \<times> 'a \<Rightarrow> (lists \<times> 'a) res" where
  "list_for_each_safe fuel body head z =
     res_bind (next_of head (fst z)) (\<lambda>pos.
     res_bind (next_of pos (fst z)) (\<lambda>n. for_each_safe_loop fuel next_of body pos n head z))"

definition list_for_each_prev_safe :: "nat \<Rightarrow> (u64 \<Rightarrow> lists \<times> 'a \<Rightarrow> (lists \<times> 'a) res) \<Rightarrow> u64 \<Rightarrow> lists \<times> 'a \<Rightarrow> (lists \<times> 'a) res" where
  "list_for_each_prev_safe fuel body head z =
     res_bind (prev_of head (fst z)) (\<lambda>pos.
     res_bind (prev_of pos (fst z)) (\<lambda>n. for_each_safe_loop fuel prev_of body pos n head z))"

text \<open>The loops over the containing structures; \<open>off\<close> is the offset of the list head in them.\<close>

fun entry_loop :: "nat \<Rightarrow> (u64 \<Rightarrow> lists \<Rightarrow> u64 res) \<Rightarrow> (u64 \<Rightarrow> lists \<times> 'a \<Rightarrow> (lists \<times> 'a) res) \<Rightarrow> u64 \<Rightarrow> u64 \<Rightarrow> u64 \<Rightarrow>
    lists \<times> 'a \<Rightarrow> (lists \<times> 'a) res" where
  "entry_loop 0 step body pos head off z = Inl Diverge"
| "entry_loop (Suc rounds) step body pos head off z =
     (if pos + off = head then Inr z
      else
        res_bind (body pos z) (\<lambda>z.
        res_bind (step pos (fst z)) (\<lambda>pos. entry_loop rounds step body pos head off z)))"

fun entry_safe_loop :: "nat \<Rightarrow> (u64 \<Rightarrow> lists \<Rightarrow> u64 res) \<Rightarrow> (u64 \<Rightarrow> lists \<times> 'a \<Rightarrow> (lists \<times> 'a) res) \<Rightarrow> u64 \<Rightarrow> u64 \<Rightarrow>
    u64 \<Rightarrow> u64 \<Rightarrow> lists \<times> 'a \<Rightarrow> (lists \<times> 'a) res" where
  "entry_safe_loop 0 step body pos n head off z = Inl Diverge"
| "entry_safe_loop (Suc rounds) step body pos n head off z =
     (if pos + off = head then Inr z
      else
        res_bind (body pos z) (\<lambda>z.
        res_bind (step n (fst z)) (\<lambda>n'. entry_safe_loop rounds step body n n' head off z)))"

type_synonym 'a list_body = "u64 \<Rightarrow> lists \<times> 'a \<Rightarrow> (lists \<times> 'a) res"

definition list_for_each_entry :: "nat \<Rightarrow> 'a list_body \<Rightarrow> u64 \<Rightarrow> u64 \<Rightarrow> lists \<times> 'a \<Rightarrow> (lists \<times> 'a) res" where
  "list_for_each_entry fuel body head off z =
     res_bind (list_first_entry head off (fst z)) (\<lambda>pos.
       entry_loop fuel (\<lambda>pos. list_next_entry pos off) body pos head off z)"

definition list_for_each_entry_reverse :: "nat \<Rightarrow> 'a list_body \<Rightarrow> u64 \<Rightarrow> u64 \<Rightarrow> lists \<times> 'a \<Rightarrow> (lists \<times> 'a) res" where
  "list_for_each_entry_reverse fuel body head off z =
     res_bind (list_last_entry head off (fst z)) (\<lambda>pos.
       entry_loop fuel (\<lambda>pos. list_prev_entry pos off) body pos head off z)"

definition list_prepare_entry :: "u64 \<Rightarrow> u64 \<Rightarrow> u64 \<Rightarrow> u64" where
  "list_prepare_entry pos head off = (if pos \<noteq> 0 then pos else list_entry head off)"

definition list_for_each_entry_continue :: "nat \<Rightarrow> 'a list_body \<Rightarrow> u64 \<Rightarrow> u64 \<Rightarrow> u64 \<Rightarrow> lists \<times> 'a \<Rightarrow> (lists \<times> 'a) res" where
  "list_for_each_entry_continue fuel body pos head off z =
     res_bind (list_next_entry pos off (fst z)) (\<lambda>pos.
       entry_loop fuel (\<lambda>pos. list_next_entry pos off) body pos head off z)"

definition list_for_each_entry_continue_reverse ::
  "nat \<Rightarrow> 'a list_body \<Rightarrow> u64 \<Rightarrow> u64 \<Rightarrow> u64 \<Rightarrow> lists \<times> 'a \<Rightarrow> (lists \<times> 'a) res" where
  "list_for_each_entry_continue_reverse fuel body pos head off z =
     res_bind (list_prev_entry pos off (fst z)) (\<lambda>pos.
       entry_loop fuel (\<lambda>pos. list_prev_entry pos off) body pos head off z)"

definition list_for_each_entry_from :: "nat \<Rightarrow> 'a list_body \<Rightarrow> u64 \<Rightarrow> u64 \<Rightarrow> u64 \<Rightarrow> lists \<times> 'a \<Rightarrow> (lists \<times> 'a) res" where
  "list_for_each_entry_from fuel body pos head off z =
     entry_loop fuel (\<lambda>pos. list_next_entry pos off) body pos head off z"

definition list_for_each_entry_safe :: "nat \<Rightarrow> 'a list_body \<Rightarrow> u64 \<Rightarrow> u64 \<Rightarrow> lists \<times> 'a \<Rightarrow> (lists \<times> 'a) res" where
  "list_for_each_entry_safe fuel body head off z =
     res_bind (list_first_entry head off (fst z)) (\<lambda>pos.
     res_bind (list_next_entry pos off (fst z)) (\<lambda>n.
       entry_safe_loop fuel (\<lambda>n. list_next_entry n off) body pos n head off z))"

definition list_for_each_entry_safe_continue ::
  "nat \<Rightarrow> 'a list_body \<Rightarrow> u64 \<Rightarrow> u64 \<Rightarrow> u64 \<Rightarrow> lists \<times> 'a \<Rightarrow> (lists \<times> 'a) res" where
  "list_for_each_entry_safe_continue fuel body pos head off z =
     res_bind (list_next_entry pos off (fst z)) (\<lambda>pos.
     res_bind (list_next_entry pos off (fst z)) (\<lambda>n.
       entry_safe_loop fuel (\<lambda>n. list_next_entry n off) body pos n head off z))"

definition list_for_each_entry_safe_from :: "nat \<Rightarrow> 'a list_body \<Rightarrow> u64 \<Rightarrow> u64 \<Rightarrow> u64 \<Rightarrow> lists \<times> 'a \<Rightarrow> (lists \<times> 'a) res" where
  "list_for_each_entry_safe_from fuel body pos head off z =
     res_bind (list_next_entry pos off (fst z)) (\<lambda>n.
       entry_safe_loop fuel (\<lambda>n. list_next_entry n off) body pos n head off z)"

definition list_for_each_entry_safe_reverse :: "nat \<Rightarrow> 'a list_body \<Rightarrow> u64 \<Rightarrow> u64 \<Rightarrow> lists \<times> 'a \<Rightarrow> (lists \<times> 'a) res" where
  "list_for_each_entry_safe_reverse fuel body head off z =
     res_bind (list_last_entry head off (fst z)) (\<lambda>pos.
     res_bind (list_prev_entry pos off (fst z)) (\<lambda>n.
       entry_safe_loop fuel (\<lambda>n. list_prev_entry n off) body pos n head off z))"

definition list_safe_reset_next :: "u64 \<Rightarrow> u64 \<Rightarrow> lists \<Rightarrow> u64 res" where
  "list_safe_reset_next pos off h = list_next_entry pos off h"

section \<open>Hash lists\<close>

text \<open>
  A memory of pointers: the list head at \<open>h\<close> is the cell \<open>h\<close>, a node at \<open>n\<close> has its link in cell \<open>n\<close> and
  pprev, the address of the cell that points to it, in cell \<open>n + 8\<close>.
\<close>

type_synonym cells = "u64 \<rightharpoonup> u64"

definition cell :: "u64 \<Rightarrow> cells \<Rightarrow> u64 res" where
  "cell p m = (if p = 0 then Inl Undefined else case m p of Some v \<Rightarrow> Inr v | None \<Rightarrow> Inl Undefined)"

definition set_cell :: "u64 \<Rightarrow> u64 \<Rightarrow> cells \<Rightarrow> cells res" where
  "set_cell p v m = (if p = 0 \<or> m p = None then Inl Undefined else Inr (m(p \<mapsto> v)))"

definition INIT_HLIST_HEAD :: "u64 \<Rightarrow> cells \<Rightarrow> cells res" where
  "INIT_HLIST_HEAD ptr m = set_cell ptr 0 m"

definition INIT_HLIST_NODE :: "u64 \<Rightarrow> cells \<Rightarrow> cells res" where
  "INIT_HLIST_NODE h m = res_bind (set_cell h 0 m) (set_cell (h + 8) 0)"

definition hlist_unhashed :: "u64 \<Rightarrow> cells \<Rightarrow> bool res" where
  "hlist_unhashed h m = res_bind (cell (h + 8) m) (\<lambda>pprev. Inr (pprev = 0))"

definition hlist_empty :: "u64 \<Rightarrow> cells \<Rightarrow> bool res" where
  "hlist_empty h m = res_bind (cell h m) (\<lambda>first. Inr (first = 0))"

text \<open>__hlist_del().\<close>

definition hlist_unlink :: "u64 \<Rightarrow> cells \<Rightarrow> cells res" where
  "hlist_unlink n m =
     res_bind (cell n m) (\<lambda>next.
     res_bind (cell (n + 8) m) (\<lambda>pprev.
     res_bind (set_cell pprev next m) (\<lambda>m.
       if next \<noteq> 0 then set_cell (next + 8) pprev m else Inr m)))"

definition hlist_del :: "u64 \<Rightarrow> cells \<Rightarrow> cells res" where
  "hlist_del n m =
     res_bind (hlist_unlink n m) (\<lambda>m. res_bind (set_cell n 0 m) (set_cell (n + 8) 0))"

definition hlist_del_init :: "u64 \<Rightarrow> cells \<Rightarrow> cells res" where
  "hlist_del_init n m =
     res_bind (hlist_unhashed n m) (\<lambda>u. if \<not> u then res_bind (hlist_unlink n m) (INIT_HLIST_NODE n) else Inr m)"

definition hlist_add_head :: "u64 \<Rightarrow> u64 \<Rightarrow> cells \<Rightarrow> cells res" where
  "hlist_add_head n h m =
     res_bind (cell h m) (\<lambda>first.
     res_bind (set_cell n first m) (\<lambda>m.
     res_bind (if first \<noteq> 0 then set_cell (first + 8) n m else Inr m) (\<lambda>m.
     res_bind (set_cell h n m) (\<lambda>m. set_cell (n + 8) h m))))"

definition hlist_add_before :: "u64 \<Rightarrow> u64 \<Rightarrow> cells \<Rightarrow> cells res" where
  "hlist_add_before n next m =
     res_bind (cell (next + 8) m) (\<lambda>pprev.
     res_bind (set_cell (n + 8) pprev m) (\<lambda>m.
     res_bind (set_cell n next m) (\<lambda>m.
     res_bind (set_cell (next + 8) n m) (\<lambda>m.
     res_bind (cell (n + 8) m) (\<lambda>pprev. set_cell pprev n m)))))"

definition hlist_add_after :: "u64 \<Rightarrow> u64 \<Rightarrow> cells \<Rightarrow> cells res" where
  "hlist_add_after n next m =
     res_bind (cell n m) (\<lambda>n_next.
     res_bind (set_cell next n_next m) (\<lambda>m.
     res_bind (set_cell n next m) (\<lambda>m.
     res_bind (set_cell (next + 8) n m) (\<lambda>m.
     res_bind (cell next m) (\<lambda>next_next. if next_next \<noteq> 0 then set_cell (next_next + 8) next m else Inr m)))))"

definition hlist_add_fake :: "u64 \<Rightarrow> cells \<Rightarrow> cells res" where
  "hlist_add_fake n m = set_cell (n + 8) n m"

definition hlist_move_list :: "u64 \<Rightarrow> u64 \<Rightarrow> cells \<Rightarrow> cells res" where
  "hlist_move_list old new m =
     res_bind (cell old m) (\<lambda>first.
     res_bind (set_cell new first m) (\<lambda>m.
     res_bind (cell new m) (\<lambda>first.
     res_bind (if first \<noteq> 0 then set_cell (first + 8) new m else Inr m) (\<lambda>m. set_cell old 0 m))))"

fun hlist_for_each_loop :: "nat \<Rightarrow> (u64 \<Rightarrow> cells \<times> 'a \<Rightarrow> (cells \<times> 'a) res) \<Rightarrow> u64 \<Rightarrow> cells \<times> 'a \<Rightarrow> (cells \<times> 'a) res" where
  "hlist_for_each_loop 0 body pos z = Inl Diverge"
| "hlist_for_each_loop (Suc rounds) body pos z =
     (if pos = 0 then Inr z
      else
        res_bind (body pos z) (\<lambda>z.
        res_bind (cell pos (fst z)) (\<lambda>pos. hlist_for_each_loop rounds body pos z)))"

definition hlist_for_each :: "nat \<Rightarrow> (u64 \<Rightarrow> cells \<times> 'a \<Rightarrow> (cells \<times> 'a) res) \<Rightarrow> u64 \<Rightarrow> cells \<times> 'a \<Rightarrow> (cells \<times> 'a) res" where
  "hlist_for_each fuel body head z = res_bind (cell head (fst z)) (\<lambda>pos. hlist_for_each_loop fuel body pos z)"

section \<open>The lists of the cache\<close>

text \<open>
  How buffer.c uses the lists: a buffer head is on a list iff its own list head is not empty. \<open>entry\<close> is the
  address of that member, at offset \<open>off\<close> of the buffer head, \<open>head\<close> the list of the device.
\<close>

definition list_attach :: "u64 \<Rightarrow> u64 \<Rightarrow> lists \<Rightarrow> lists res" where
  "list_attach entry head h = res_bind (list_empty entry h) (\<lambda>e. if e then list_add_tail entry head h else Inr h)"

definition list_detach :: "u64 \<Rightarrow> lists \<Rightarrow> lists res" where
  "list_detach entry h = res_bind (list_empty entry h) (\<lambda>e. if \<not> e then list_del_init entry h else Inr h)"

definition list_take_first :: "u64 \<Rightarrow> u64 \<Rightarrow> lists \<Rightarrow> (u64 \<times> lists) res" where
  "list_take_first head off h =
     res_bind (list_empty head h) (\<lambda>e.
     if e then Inr (0, h)
     else res_bind (list_first_entry head off h) (\<lambda>bh.
          res_bind (list_del_init (bh + off) h) (\<lambda>h. Inr (bh, h))))"

text \<open>The queue of a build without USE_AIO.\<close>

definition add_buffer_to_ioqueue :: "u64 \<Rightarrow> u64 \<Rightarrow> lists \<Rightarrow> lists res" where
  "add_buffer_to_ioqueue entry bd_bh_ioqueue h = list_attach entry bd_bh_ioqueue h"

definition remove_first_buffer_from_ioqueue :: "u64 \<Rightarrow> u64 \<Rightarrow> lists \<Rightarrow> (u64 \<times> lists) res" where
  "remove_first_buffer_from_ioqueue bd_bh_ioqueue off h = list_take_first bd_bh_ioqueue off h"

end
