(* ===== verification/E4F_Ring.thy ===== *)
theory E4F_Ring
  imports E4F_List
begin

text \<open>
  What the operations of src/types/list.h do to the sequence of nodes of a circular list, and that the lists
  of the buffer cache implement the HOL lists in the model of the cache.
\<close>

section \<open>Links\<close>

definition nxt :: "lists \<Rightarrow> u64 \<rightharpoonup> u64" where
  "nxt h a = map_option next_ptr (h a)"

definition prv :: "lists \<Rightarrow> u64 \<rightharpoonup> u64" where
  "prv h a = map_option prev_ptr (h a)"

definition linked :: "lists \<Rightarrow> u64 \<Rightarrow> u64 \<Rightarrow> bool" where
  "linked h a b \<longleftrightarrow> nxt h a = Some b \<and> prv h b = Some a"

text \<open>The list with the head \<open>a\<close> has the nodes \<open>xs\<close>, in the order of the next links.\<close>

definition ring :: "lists \<Rightarrow> u64 \<Rightarrow> u64 list \<Rightarrow> bool" where
  "ring h a xs \<longleftrightarrow> distinct (a # xs) \<and> 0 \<notin> set (a # xs) \<and> successively (linked h) (a # xs @ [a])"

definition put_next :: "u64 \<Rightarrow> u64 \<Rightarrow> lists \<Rightarrow> lists" where
  "put_next p q h = (case h p of None \<Rightarrow> h | Some n \<Rightarrow> h(p \<mapsto> n\<lparr>next_ptr := q\<rparr>))"

definition put_prev :: "u64 \<Rightarrow> u64 \<Rightarrow> lists \<Rightarrow> lists" where
  "put_prev p q h = (case h p of None \<Rightarrow> h | Some n \<Rightarrow> h(p \<mapsto> n\<lparr>prev_ptr := q\<rparr>))"

named_theorems link_run

lemma put_links [simp]:
  "h p \<noteq> None \<Longrightarrow> nxt (put_next p q h) = (nxt h)(p \<mapsto> q)" "prv (put_next p q h) = prv h"
  "h p \<noteq> None \<Longrightarrow> prv (put_prev p q h) = (prv h)(p \<mapsto> q)" "nxt (put_prev p q h) = nxt h"
  "put_next p q h a = None \<longleftrightarrow> h a = None" "put_prev p q h a = None \<longleftrightarrow> h a = None"
  by (auto simp: put_next_def put_prev_def nxt_def prv_def fun_eq_iff split: option.splits)

lemma set_links [link_run]:
  "h p \<noteq> None \<Longrightarrow> p \<noteq> 0 \<Longrightarrow> set_next p q h = Inr (put_next p q h)"
  "h p \<noteq> None \<Longrightarrow> p \<noteq> 0 \<Longrightarrow> set_prev p q h = Inr (put_prev p q h)"
  by (auto simp: set_next_def set_prev_def put_next_def put_prev_def)

lemma load_links [link_run]:
  "nxt h p = Some q \<Longrightarrow> p \<noteq> 0 \<Longrightarrow> next_of p h = Inr q" "prv h p = Some q \<Longrightarrow> p \<noteq> 0 \<Longrightarrow> prev_of p h = Inr q"
  by (auto simp: next_of_def prev_of_def nxt_def prv_def)

lemma link_present: "nxt h p = Some q \<Longrightarrow> h p \<noteq> None" "prv h p = Some q \<Longrightarrow> h p \<noteq> None"
  by (auto simp: nxt_def prv_def)

abbreviation chain :: "lists \<Rightarrow> u64 list \<Rightarrow> bool" where
  "chain h \<equiv> successively (linked h)"

text \<open>The next link of the last node and the previous link of the first one do not matter.\<close>

lemma chain_links:
  "\<forall>c\<in>set (butlast xs). nxt h' c = nxt h c \<Longrightarrow> \<forall>c\<in>set (tl xs). prv h' c = prv h c \<Longrightarrow> chain h' xs = chain h xs"
proof (induction xs)
  case (Cons x xs)
  show ?case
  proof (cases xs)
    case (Cons y ys)
    have "\<forall>c\<in>set (butlast xs). nxt h' c = nxt h c" "\<forall>c\<in>set (tl xs). prv h' c = prv h c"
      using Cons.prems Cons by simp_all
    then have "chain h' xs = chain h xs" by (rule Cons.IH)
    then show ?thesis using Cons.prems Cons by (simp add: linked_def)
  qed simp
qed simp

lemma chain_cong:
  assumes "distinct xs" "\<And>c. c \<in> set xs \<Longrightarrow> c \<noteq> last xs \<Longrightarrow> nxt h' c = nxt h c" "\<And>c. c \<in> set xs \<Longrightarrow> c \<noteq> hd xs \<Longrightarrow> prv h' c = prv h c"
  shows "chain h' xs = chain h xs"
proof (cases xs rule: rev_cases)
  case (snoc ys y)
  show ?thesis
    using assms by (intro chain_links) (cases ys; auto simp: snoc)+
qed simp

lemma ring_split:
  "ring h a (xs @ ys) \<longleftrightarrow> distinct (a # xs @ ys) \<and> 0 \<notin> set (a # xs @ ys) \<and> chain h (a # xs) \<and> chain h (ys @ [a]) \<and>
     linked h (last (a # xs)) (hd (ys @ [a]))"
proof -
  have "chain h (a # (xs @ ys) @ [a]) \<longleftrightarrow> chain h (a # xs) \<and> chain h (ys @ [a]) \<and> linked h (last (a # xs)) (hd (ys @ [a]))"
    using successively_append_iff [of "linked h" "a # xs" "ys @ [a]"] by simp
  then show ?thesis unfolding ring_def by blast
qed

lemma ring_Nil: "ring h a [] \<longleftrightarrow> a \<noteq> 0 \<and> linked h a a"
  by (auto simp: ring_def)

lemma ring_links:
  assumes "ring h a xs" "\<And>c. c \<in> set (a # xs) \<Longrightarrow> nxt h' c = nxt h c \<and> prv h' c = prv h c"
  shows "ring h' a xs"
proof -
  have "chain h' (a # xs) = chain h (a # xs)" "chain h' [a] = chain h [a]"
    using assms by (intro chain_links; auto dest: in_set_butlastD)+
  moreover have "linked h' (last (a # xs)) a = linked h (last (a # xs)) a"
    using assms(2) [of a] assms(2) [of "last (a # xs)"] last_in_set [of "a # xs"] by (simp add: linked_def)
  ultimately show ?thesis
    using assms(1) ring_split [of h a xs "[]"] ring_split [of h' a xs "[]"] by simp
qed

text \<open>The neighbours at a cut of the list.\<close>

lemma ring_cut:
  assumes "ring h a (xs @ ys)" "p = last (a # xs)" "q = hd (ys @ [a])"
  shows "linked h p q" "h p \<noteq> None" "h q \<noteq> None" "p \<noteq> 0" "q \<noteq> 0" "p \<in> set (a # xs)" "q \<in> set (ys @ [a])"
proof -
  show l: "linked h p q"
    using assms by (simp add: ring_split del: last.simps)
  then show "h p \<noteq> None" "h q \<noteq> None" by (auto simp: linked_def dest: link_present)
  show "p \<in> set (a # xs)" "q \<in> set (ys @ [a])"
    using assms(2,3) last_in_set [of "a # xs"] hd_in_set [of "ys @ [a]"] by simp_all
  then show "p \<noteq> 0" "q \<noteq> 0"
    using assms(1) by (auto simp: ring_def)
qed

section \<open>Insertion and removal\<close>

text \<open>A chain of nodes between two neighbours.\<close>

lemma ring_insert_chain:
  assumes r: "ring h a (xs @ ys)" and p: "p = last (a # xs)" and q: "q = hd (ys @ [a])"
    and s: "chain h' zs" "zs \<noteq> []" "distinct zs" "0 \<notin> set zs" "set zs \<inter> set (a # xs @ ys) = {}"
    and n: "\<And>c. c \<in> set (a # xs @ ys) \<Longrightarrow> nxt h' c = (if c = p then Some (hd zs) else nxt h c)" "nxt h' (last zs) = Some q"
    and v: "\<And>c. c \<in> set (a # xs @ ys) \<Longrightarrow> prv h' c = (if c = q then Some (last zs) else prv h c)" "prv h' (hd zs) = Some p"
  shows "ring h' a (xs @ zs @ ys)"
proof -
  note c = ring_cut [OF r p q]
  have d: "distinct (a # xs @ ys)" "0 \<notin> set (a # xs @ ys)" "chain h (a # xs)" "chain h (ys @ [a])" using r by (simp_all add: ring_split)
  have "q \<notin> set (a # xs) \<or> q = a" using c(7) d(1) by auto
  then have 1: "chain h' (a # xs)"
    using d(1,3) n(1) v(1) p by (subst chain_cong [where h = h]) auto
  have "p \<notin> set (ys @ [a]) \<or> p = a" using c(6) d(1) by auto
  then have 2: "chain h' (ys @ [a])"
    using d(1,4) n(1) v(1) q by (subst chain_cong [where h = h]) auto
  have "nxt h' p = Some (hd zs)" "prv h' q = Some (last zs)" using n(1) [of p] v(1) [of q] c(6,7) by auto
  then have l: "linked h' p (hd zs)" "linked h' (last zs) q" using n(2) v(2) by (simp_all add: linked_def)
  have "chain h' (zs @ ys @ [a])"
    using 2 s(1,2) l(2) q by (simp add: successively_append_iff)
  then show ?thesis
    unfolding ring_split using 1 l(1) s d(1,2) p by (auto simp: hd_append)
qed

lemma ring_delete_chain:
  assumes r: "ring h a (xs @ zs @ ys)" and p: "p = last (a # xs)" and q: "q = hd (ys @ [a])"
    and n: "\<And>c. c \<in> set (a # xs @ ys) \<Longrightarrow> nxt h' c = (if c = p then Some q else nxt h c)"
    and v: "\<And>c. c \<in> set (a # xs @ ys) \<Longrightarrow> prv h' c = (if c = q then Some p else prv h c)"
  shows "ring h' a (xs @ ys)"
proof -
  have s: "chain h (zs @ ys @ [a])" "chain h (a # xs)" and d: "distinct (a # xs @ ys)" "0 \<notin> set (a # xs @ ys)"
    using r by (auto simp: ring_split)
  have sy: "chain h (ys @ [a])" using s(1) by (auto simp: successively_append_iff)
  have mem: "p \<in> set (a # xs)" "q \<in> set (ys @ [a])"
    using last_in_set [of "a # xs"] hd_in_set [of "ys @ [a]"] p q by simp_all
  have "q \<notin> set (a # xs) \<or> q = a" using mem(2) d(1) by auto
  then have 1: "chain h' (a # xs)"
    using d(1) s(2) n v p by (subst chain_cong [where h = h]) auto
  have "p \<notin> set (ys @ [a]) \<or> p = a" using mem(1) d(1) by auto
  then have 2: "chain h' (ys @ [a])"
    using d(1) sy n v q by (subst chain_cong [where h = h]) auto
  have "linked h' p q" using n [of p] v [of q] mem by (auto simp: linked_def)
  then show ?thesis unfolding ring_split using 1 2 d p q by simp
qed

text \<open>The nodes outside of \<open>A\<close> keep their links, and the same nodes exist.\<close>

definition outside :: "u64 set \<Rightarrow> lists \<Rightarrow> lists \<Rightarrow> bool" where
  "outside A h h' \<longleftrightarrow> (\<forall>c. c \<notin> A \<longrightarrow> nxt h' c = nxt h c \<and> prv h' c = prv h c) \<and> (\<forall>c. h' c = None \<longleftrightarrow> h c = None)"

lemma outside_ring: "outside A h h' \<Longrightarrow> ring h b zs \<Longrightarrow> A \<inter> set (b # zs) = {} \<Longrightarrow> ring h' b zs"
  by (rule ring_links [of h]) (simp, simp add: outside_def disjoint_iff, metis)

lemma outside_trans: "outside A h h' \<Longrightarrow> outside A h' h'' \<Longrightarrow> outside A h h''"
  by (simp add: outside_def)

lemma outside_mono: "outside A h h' \<Longrightarrow> A \<subseteq> B \<Longrightarrow> outside B h h'"
  by (auto simp: outside_def)

lemma add_between_run:
  assumes r: "ring h a (xs @ ys)" and p: "p = last (a # xs)" and q: "q = hd (ys @ [a])"
    and new: "h new \<noteq> None" "new \<noteq> 0" "new \<notin> set (a # xs @ ys)"
  shows "\<exists>h'. list_add_between new p q h = Inr h' \<and> ring h' a (xs @ new # ys) \<and> outside (set (a # xs @ new # ys)) h h'"
proof -
  note c = ring_cut [OF r p q]
  have m: "p \<in> set (a # xs @ ys)" "q \<in> set (a # xs @ ys)" using c(6,7) by auto
  then have ne: "p \<noteq> new" "q \<noteq> new" using new(3) by auto
  define h' where "h' = put_next p new (put_prev new p (put_next new q (put_prev q new h)))"
  have run: "list_add_between new p q h = Inr h'"
    using c(2-5) new by (simp add: list_add_between_def link_run h'_def)
  have nv: "nxt h' = (nxt h)(new \<mapsto> q, p \<mapsto> new)" "prv h' = (prv h)(q \<mapsto> new, new \<mapsto> p)"
    using c(2-5) new by (simp_all add: h'_def)
  have "ring h' a (xs @ [new] @ ys)"
    by (rule ring_insert_chain [OF r p q]) (use new ne in \<open>auto simp: nv\<close>)
  moreover have "outside (set (a # xs @ new # ys)) h h'"
    using m by (auto simp: outside_def nv) (simp_all add: h'_def)
  ultimately show ?thesis using run by auto
qed

text \<open>list_add() and list_add_tail() put the new node at the front and at the end.\<close>

lemma list_add_run:
  assumes r: "ring h a xs" and new: "h new \<noteq> None" "new \<noteq> 0" "new \<notin> set (a # xs)"
  shows "\<exists>h'. list_add new a h = Inr h' \<and> ring h' a (new # xs) \<and> outside (set (a # new # xs)) h h'"
proof -
  have r': "ring h a ([] @ xs)" using r by simp
  note c = ring_cut [OF r' refl refl]
  have "next_of a h = Inr (hd (xs @ [a]))" using c(1,4) by (simp add: linked_def link_run)
  then show ?thesis
    using add_between_run [OF r' refl refl, of new] new by (auto simp: list_add_def)
qed

lemma list_add_tail_run:
  assumes r: "ring h a xs" and new: "h new \<noteq> None" "new \<noteq> 0" "new \<notin> set (a # xs)"
  shows "\<exists>h'. list_add_tail new a h = Inr h' \<and> ring h' a (xs @ [new]) \<and> outside (set (a # new # xs)) h h'"
proof -
  have r': "ring h a (xs @ [])" using r by simp
  note c = ring_cut [OF r' refl refl]
  have "prev_of a h = Inr (last (a # xs))" using c(1,5) by (simp add: linked_def link_run)
  moreover have "set (a # xs @ [new]) = set (a # new # xs)" by auto
  ultimately show ?thesis
    using add_between_run [OF r' refl refl, of new] new by (auto simp: list_add_tail_def)
qed

lemma del_entry_run:
  assumes r: "ring h a (xs @ x # ys)"
  shows "\<exists>h'. list_del_entry x h = Inr h' \<and> ring h' a (xs @ ys) \<and> outside (set (a # xs @ ys)) h h' \<and> h x \<noteq> None \<and> x \<noteq> 0 \<and>
    x \<notin> set (a # xs @ ys)"
proof -
  define p q where "p = last (a # xs)" and "q = hd (ys @ [a])"
  have r2: "ring h a ((xs @ [x]) @ ys)" using r by simp
  have 1: "linked h p x" "h p \<noteq> None" "h x \<noteq> None" "p \<noteq> 0" "x \<noteq> 0" "p \<in> set (a # xs)"
    using ring_cut [OF r, of p x] by (simp_all add: p_def)
  have 2: "linked h x q" "h q \<noteq> None" "q \<noteq> 0" "q \<in> set (ys @ [a])"
    using ring_cut [OF r2, of x q] by (simp_all add: q_def)
  define h' where "h' = put_next p q (put_prev q p h)"
  have "list_del_between p q h = Inr h'"
    using 1 2 by (simp add: list_del_between_def link_run h'_def)
  then have run: "list_del_entry x h = Inr h'"
    using 1 2 by (simp add: list_del_entry_def linked_def link_run)
  have nv: "nxt h' = (nxt h)(p \<mapsto> q)" "prv h' = (prv h)(q \<mapsto> p)"
    using 1 2 by (simp_all add: h'_def)
  have x: "x \<notin> set (a # xs @ ys)" using r by (auto simp: ring_def)
  have "ring h' a (xs @ ys)"
    by (rule ring_delete_chain [where h = h and zs = "[x]" and p = p and q = q]) (use r in \<open>simp_all add: p_def q_def nv\<close>)
  moreover have "outside (set (a # xs @ ys)) h h'"
    using 1 2 by (auto simp: outside_def nv) (simp_all add: h'_def)
  ultimately show ?thesis using run 1 x by blast
qed

lemma init_run:
  assumes "h x \<noteq> None" "x \<noteq> 0"
  shows "\<exists>h'. INIT_LIST_HEAD x h = Inr h' \<and> ring h' x [] \<and> outside {x} h h'"
  using assms by (intro exI [of _ "put_prev x x (put_next x x h)"])
    (auto simp: INIT_LIST_HEAD_def link_run linked_def outside_def ring_Nil)

text \<open>list_del_init() leaves the removed node as an empty list.\<close>

lemma list_del_init_run:
  assumes r: "ring h a (xs @ x # ys)"
  shows "\<exists>h'. list_del_init x h = Inr h' \<and> ring h' a (xs @ ys) \<and> ring h' x [] \<and> outside (set (a # xs @ x # ys)) h h'"
proof -
  obtain h1 where h1: "list_del_entry x h = Inr h1" "ring h1 a (xs @ ys)" "outside (set (a # xs @ ys)) h h1" "h x \<noteq> None" "x \<noteq> 0"
    "x \<notin> set (a # xs @ ys)"
    using del_entry_run [OF r] by blast
  have "h1 x \<noteq> None" using h1(3,4) by (simp add: outside_def)
  then obtain h2 where h2: "INIT_LIST_HEAD x h1 = Inr h2" "ring h2 x []" "outside {x} h1 h2"
    using init_run h1(5) by blast
  have "ring h2 a (xs @ ys)" by (rule outside_ring [OF h2(3) h1(2)]) (use h1(6) in auto)
  moreover have "outside (set (a # xs @ x # ys)) h h2"
    by (rule outside_trans [OF outside_mono [OF h1(3)] outside_mono [OF h2(3)]]) auto
  ultimately show ?thesis using h1(1) h2(1,2) by (simp add: list_del_init_def)
qed

section \<open>Queries\<close>

lemma next_run: "ring h a xs \<Longrightarrow> next_of a h = Inr (hd (xs @ [a]))"
  using ring_cut [of h a "[]" xs] by (simp add: linked_def link_run)

lemma prev_run: "ring h a xs \<Longrightarrow> prev_of a h = Inr (last (a # xs))"
  using ring_cut [of h a xs "[]"] by (simp add: linked_def link_run)

lemma hd_is_head: "ring h a xs \<Longrightarrow> hd (xs @ [a]) = a \<longleftrightarrow> xs = []"
  by (cases xs) (auto simp: ring_def)

lemma list_empty_run: "ring h a xs \<Longrightarrow> list_empty a h = Inr (xs = [])"
  by (simp add: list_empty_def next_run hd_is_head)

lemma list_singular_run: "ring h a xs \<Longrightarrow> list_is_singular a h = Inr (\<exists>x. xs = [x])"
proof (cases xs)
  case (Cons x zs)
  assume r: "ring h a xs"
  then have "distinct xs" by (simp add: ring_def)
  then have "x = last xs \<longleftrightarrow> zs = []" using Cons by auto
  then show ?thesis
    using next_run [OF r] prev_run [OF r] list_empty_run [OF r] by (simp add: list_is_singular_def Cons)
qed (simp add: list_is_singular_def list_empty_run)

section \<open>Joining and cutting lists\<close>

lemma splice_between_run:
  assumes r: "ring h a (xs @ ys)" and p: "p = last (a # xs)" and q: "q = hd (ys @ [a])"
    and l: "ring h l zs" "zs \<noteq> []" and dj: "set (l # zs) \<inter> set (a # xs @ ys) = {}"
  shows "\<exists>h'. list_splice_between l p q h = Inr h' \<and> ring h' a (xs @ zs @ ys) \<and> outside (set (a # xs @ zs @ ys)) h h'"
proof -
  note c = ring_cut [OF r p q]
  define f g where "f = hd zs" and "g = last zs"
  have fg: "f \<in> set zs" "g \<in> set zs" using l(2) by (simp_all add: f_def g_def)
  have z: "h f \<noteq> None" "h g \<noteq> None" "f \<noteq> 0" "g \<noteq> 0"
    using ring_cut [of h l "[]" zs] ring_cut [of h l zs "[]"] l by (simp_all add: f_def g_def)
  have fgl: "next_of l h = Inr f" "prev_of l h = Inr g"
    using next_run [OF l(1)] prev_run [OF l(1)] l(2) by (simp_all add: f_def g_def)
  have m: "p \<in> set (a # xs @ ys)" "q \<in> set (a # xs @ ys)" using c(6,7) by auto
  then have ne: "p \<notin> set zs" "q \<notin> set zs" using dj by auto
  define h' where "h' = put_prev q g (put_next g q (put_next p f (put_prev f p h)))"
  have run: "list_splice_between l p q h = Inr h'"
    using c(2-5) z by (simp add: list_splice_between_def fgl link_run h'_def)
  have nv: "nxt h' = (nxt h)(p \<mapsto> f, g \<mapsto> q)" "prv h' = (prv h)(f \<mapsto> p, q \<mapsto> g)"
    using c(2-5) z by (simp_all add: h'_def)
  have lz: "distinct zs" "0 \<notin> set zs" "chain h (zs @ [l])"
    using l(1) ring_split [of h l "[]" zs] by (auto simp: ring_def)
  then have "chain h zs" by (simp add: successively_append_iff)
  then have cz: "chain h' zs"
    using lz(1) ne by (subst chain_cong [where h = h]) (auto simp: nv f_def g_def)
  have "ring h' a (xs @ zs @ ys)"
    by (rule ring_insert_chain [OF r p q cz l(2) lz(1,2)]) (use dj fg ne in \<open>auto simp: nv f_def [symmetric] g_def [symmetric]\<close>)
  moreover have "outside (set (a # xs @ zs @ ys)) h h'"
    using m fg by (auto simp: outside_def nv) (simp_all add: h'_def)
  ultimately show ?thesis using run by blast
qed

lemma list_splice_run:
  assumes r: "ring h a xs" and l: "ring h l zs" and dj: "set (l # zs) \<inter> set (a # xs) = {}"
  shows "\<exists>h'. list_splice l a h = Inr h' \<and> ring h' a (zs @ xs) \<and> outside (set (a # zs @ xs)) h h'"
proof (cases "zs = []")
  case True
  then show ?thesis using r l by (intro exI [of _ h]) (simp add: list_splice_def list_empty_run outside_def)
next
  case False
  then show ?thesis
    using splice_between_run [of h a "[]" xs a "hd (xs @ [a])" l zs] assms
    by (simp add: list_splice_def list_empty_run next_run)
qed

lemma list_cut_run:
  assumes r: "ring h a (xs @ e # ys)" and l: "h l \<noteq> None" "l \<noteq> 0" "l \<notin> set (a # xs @ e # ys)"
  shows "\<exists>h'. list_cut_position l a e h = Inr h' \<and> ring h' l (xs @ [e]) \<and> ring h' a ys \<and> outside (set (l # a # xs @ e # ys)) h h'"
proof -
  have r0: "ring h a ([] @ (xs @ [e]) @ ys)" using r by simp
  have re: "ring h a ((xs @ [e]) @ ys)" using r by simp
  define f q where "f = hd (xs @ [e])" and "q = hd (ys @ [a])"
  have fm: "f \<in> set (xs @ [e])" unfolding f_def by (rule hd_in_set) simp
  have qm: "q \<in> set (ys @ [a])" unfolding q_def by (rule hd_in_set) simp
  have hf: "hd (((xs @ [e]) @ ys) @ [a]) = f" "hd ((xs @ e # ys) @ [a]) = f" unfolding f_def by (cases xs; simp)+
  have f: "next_of a h = Inr f" "h a \<noteq> None" "a \<noteq> 0" "h f \<noteq> None" "f \<noteq> 0"
    using ring_cut [OF r0, of a f] next_run [OF r, unfolded hf] hf(1) by simp_all
  have q: "next_of e h = Inr q" "h e \<noteq> None" "e \<noteq> 0" "h q \<noteq> None" "q \<noteq> 0"
    using ring_cut [OF re, of e q] by (simp_all add: q_def linked_def link_run)
  define h' where "h' = put_prev q a (put_next a q (put_next e l (put_prev l e (put_prev f l (put_next l f h)))))"
  have "nxt (put_next l f h) l = Some f" using l by simp
  then have "next_of l (put_next l f h) = Inr f" using l(2) by (rule load_links)
  then have run: "list_cut_at l a e h = Inr h'"
    using f q l by (simp add: list_cut_at_def link_run h'_def)
  have d: "distinct (a # xs @ e # ys)" "0 \<notin> set (a # xs @ e # ys)" using r by (simp_all add: ring_def)
  have ae: "a \<noteq> e" using d(1) by auto
  have cut: "list_cut_position l a e h = list_cut_at l a e h"
    using ae r by (cases xs) (auto simp: list_cut_position_def list_empty_run list_singular_run next_run)
  have nv: "nxt h' = (nxt h)(l \<mapsto> f, e \<mapsto> l, a \<mapsto> q)" "prv h' = (prv h)(f \<mapsto> l, l \<mapsto> e, q \<mapsto> a)"
    using f q l by (simp_all add: h'_def)
  have "ring h' a ([] @ ys)"
    by (rule ring_delete_chain [OF r0 _ q_def]) (use l d(1) fm in \<open>auto simp: nv\<close>)
  moreover have "ring h' l (xs @ [e])"
  proof -
    have "chain h ((xs @ [e]) @ ys @ [a])" using r0 unfolding ring_split by simp
    then have "chain h (xs @ [e])" by (simp only: successively_append_iff)
    then have 1: "chain h' (xs @ [e])"
      using d(1) l qm by (subst chain_cong [where h = h]) (auto simp: nv f_def)
    have "q \<noteq> f" "e \<noteq> l" "q \<noteq> l" "a \<noteq> l" "f \<noteq> l" using fm qm d(1) l by auto
    then have "linked h' l f" "linked h' e l" using ae by (simp_all add: linked_def nv)
    then show ?thesis
      using 1 d l unfolding ring_split [of h' l "xs @ [e]" "[]", simplified append_Nil2]
      by (cases xs) (auto simp: f_def)
  qed
  moreover have "outside (set (l # a # xs @ e # ys)) h h'"
    using fm qm by (auto simp: outside_def nv) (simp_all add: h'_def)
  ultimately show ?thesis using run cut by auto
qed

section \<open>Replacing and moving nodes\<close>

lemma list_replace_run:
  assumes r: "ring h a (xs @ old # ys)" and new: "h new \<noteq> None" "new \<noteq> 0" "new \<notin> set (a # xs @ old # ys)"
  shows "\<exists>h'. list_replace old new h = Inr h' \<and> ring h' a (xs @ new # ys) \<and> outside (set (a # xs @ new # ys)) h h'"
proof -
  define p q where "p = last (a # xs)" and "q = hd (ys @ [a])"
  have r1: "ring h a ((xs @ [old]) @ ys)" and r2: "ring h a (xs @ [old] @ ys)" using r by simp_all
  have 1: "linked h p old" "h p \<noteq> None" "p \<noteq> 0" "old \<noteq> 0" "p \<in> set (a # xs)"
    using ring_cut [OF r, of p old] by (simp_all add: p_def)
  have 2: "linked h old q" "h q \<noteq> None" "q \<noteq> 0" "q \<in> set (ys @ [a])"
    using ring_cut [OF r1, of old q] by (simp_all add: q_def)
  have d: "distinct (a # xs @ old # ys)" using r by (simp add: ring_def)
  have ne: "p \<noteq> new" "q \<noteq> new" "old \<noteq> new" "p \<noteq> old" "q \<noteq> old" using 1(5) 2(4) new(3) d by auto
  define h1 where "h1 = put_next new q h"
  define h2 where "h2 = put_prev q new h1"
  define h3 where "h3 = put_prev new p h2"
  define h' where "h' = put_next p new h3"
  have ex: "h1 c = None \<longleftrightarrow> h c = None" "h2 c = None \<longleftrightarrow> h c = None" "h3 c = None \<longleftrightarrow> h c = None" "h' c = None \<longleftrightarrow> h c = None" for c
    by (simp_all add: h1_def h2_def h3_def h'_def)
  have n1: "nxt h1 = (nxt h)(new \<mapsto> q)" "prv h1 = prv h" using new by (simp_all add: h1_def)
  have n2: "nxt h2 = nxt h1" "prv h2 = (prv h)(q \<mapsto> new)" using 2 ex by (simp_all add: h2_def n1)
  have n3: "nxt h3 = nxt h1" "prv h3 = (prv h)(q \<mapsto> new, new \<mapsto> p)" using new ex by (simp_all add: h3_def n2)
  have nv: "nxt h' = (nxt h)(new \<mapsto> q, p \<mapsto> new)" "prv h' = (prv h)(q \<mapsto> new, new \<mapsto> p)" using 1 ex by (simp_all add: h'_def n3 n1)
  have loads: "next_of old h = Inr q" "next_of new h1 = Inr q" "prev_of old h2 = Inr p" "prev_of new h3 = Inr p"
    using 1 2 new ne by (simp_all add: load_links linked_def n1 n2 n3)
  have stores: "set_next new q h = Inr h1" "set_prev q new h1 = Inr h2" "set_prev new p h2 = Inr h3" "set_next p new h3 = Inr h'"
    using 1 2 new by (simp_all add: h1_def h2_def h3_def h'_def link_run)
  have run: "list_replace old new h = Inr h'"
    by (simp add: list_replace_def loads stores)
  define h0 where "h0 = put_next p q (put_prev q p h)"
  have nv0: "nxt h0 = (nxt h)(p \<mapsto> q)" "prv h0 = (prv h)(q \<mapsto> p)"
    using 1 2 by (simp_all add: h0_def)
  have r0: "ring h0 a (xs @ ys)"
    by (rule ring_delete_chain [where h = h and zs = "[old]" and p = p and q = q]) (use r in \<open>simp_all add: p_def q_def nv0\<close>)
  have "ring h' a (xs @ [new] @ ys)"
    by (rule ring_insert_chain [OF r0 p_def q_def]) (use new ne in \<open>auto simp: nv nv0\<close>)
  moreover have "outside (set (a # xs @ new # ys)) h h'"
    using 1(5) 2(4) ex by (auto simp: outside_def nv)
  ultimately show ?thesis using run by auto
qed

text \<open>Moving a node to another list, to the end or to the front.\<close>

lemma list_move_tail_run:
  assumes r: "ring h a (xs @ x # ys)" and b: "ring h b zs" and dj: "set (b # zs) \<inter> set (a # xs @ x # ys) = {}"
  shows "\<exists>h'. list_move_tail x b h = Inr h' \<and> ring h' a (xs @ ys) \<and> ring h' b (zs @ [x]) \<and> outside (set (a # xs @ x # ys @ b # zs)) h h'"
proof -
  obtain h1 where h1: "list_del_entry x h = Inr h1" "ring h1 a (xs @ ys)" "outside (set (a # xs @ ys)) h h1" "h x \<noteq> None" "x \<noteq> 0"
    "x \<notin> set (a # xs @ ys)"
    using del_entry_run [OF r] by blast
  have b1: "ring h1 b zs" by (rule outside_ring [OF h1(3) b]) (use dj in auto)
  have x1: "h1 x \<noteq> None" using h1(3,4) by (simp add: outside_def)
  have xb: "x \<notin> set (b # zs)" using dj by auto
  obtain h2 where h2: "list_add_tail x b h1 = Inr h2" "ring h2 b (zs @ [x])" "outside (set (b # x # zs)) h1 h2"
    using list_add_tail_run [OF b1 x1 h1(5) xb] by blast
  have "ring h2 a (xs @ ys)" by (rule outside_ring [OF h2(3) h1(2)]) (use dj h1(6) in auto)
  moreover have "outside (set (a # xs @ x # ys @ b # zs)) h h2"
    by (rule outside_trans [OF outside_mono [OF h1(3)] outside_mono [OF h2(3)]]) auto
  ultimately show ?thesis using h1(1) h2(1,2) by (simp add: list_move_tail_def)
qed

lemma list_move_run:
  assumes r: "ring h a (xs @ x # ys)" and b: "ring h b zs" and dj: "set (b # zs) \<inter> set (a # xs @ x # ys) = {}"
  shows "\<exists>h'. list_move x b h = Inr h' \<and> ring h' a (xs @ ys) \<and> ring h' b (x # zs) \<and> outside (set (a # xs @ x # ys @ b # zs)) h h'"
proof -
  obtain h1 where h1: "list_del_entry x h = Inr h1" "ring h1 a (xs @ ys)" "outside (set (a # xs @ ys)) h h1" "h x \<noteq> None" "x \<noteq> 0"
    "x \<notin> set (a # xs @ ys)"
    using del_entry_run [OF r] by blast
  have b1: "ring h1 b zs" by (rule outside_ring [OF h1(3) b]) (use dj in auto)
  have x1: "h1 x \<noteq> None" using h1(3,4) by (simp add: outside_def)
  have xb: "x \<notin> set (b # zs)" using dj by auto
  obtain h2 where h2: "list_add x b h1 = Inr h2" "ring h2 b (x # zs)" "outside (set (b # x # zs)) h1 h2"
    using list_add_run [OF b1 x1 h1(5) xb] by blast
  have "ring h2 a (xs @ ys)" by (rule outside_ring [OF h2(3) h1(2)]) (use dj h1(6) in auto)
  moreover have "outside (set (a # xs @ x # ys @ b # zs)) h h2"
    by (rule outside_trans [OF outside_mono [OF h1(3)] outside_mono [OF h2(3)]]) auto
  ultimately show ?thesis using h1(1) h2(1,2) by (simp add: list_move_def)
qed

lemma list_rotate_left_run:
  assumes r: "ring h a (x # xs)"
  shows "\<exists>h'. list_rotate_left a h = Inr h' \<and> ring h' a (xs @ [x]) \<and> outside (set (a # x # xs)) h h'"
proof -
  obtain h1 where h1: "list_del_entry x h = Inr h1" "ring h1 a xs" "outside (set (a # xs)) h h1" "h x \<noteq> None" "x \<noteq> 0" "x \<notin> set (a # xs)"
    using del_entry_run [of h a "[]" x xs] r by auto
  have x1: "h1 x \<noteq> None" using h1(3,4) by (simp add: outside_def)
  obtain h2 where h2: "list_add_tail x a h1 = Inr h2" "ring h2 a (xs @ [x])" "outside (set (a # x # xs)) h1 h2"
    using list_add_tail_run [OF h1(2) x1 h1(5,6)] by blast
  have "outside (set (a # x # xs)) h h2"
    by (rule outside_trans [OF outside_mono [OF h1(3)] h2(3)]) auto
  then show ?thesis
    using h1(1) h2(1,2) next_run [OF r] list_empty_run [OF r] by (simp add: list_rotate_left_def list_move_tail_def)
qed

section \<open>Loops\<close>

lemma ring_next:
  assumes "ring h a (xs @ x # ys)"
  shows "next_of x h = Inr (hd (ys @ [a]))"
  using ring_cut [of h a "xs @ [x]" ys] assms by (simp add: linked_def link_run)

lemma ring_prev:
  assumes "ring h a (xs @ x # ys)"
  shows "prev_of x h = Inr (last (a # xs))"
  using ring_cut [of h a xs "x # ys"] assms by (simp add: linked_def link_run)

lemma for_each_forward:
  assumes "ring h a (xs @ ys)" "length ys < n"
  shows "for_each_loop n next_of (\<lambda>x (h, s). Inr (h, f x s)) (hd (ys @ [a])) a (h, s) = Inr (h, fold f ys s)"
  using assms
proof (induction ys arbitrary: xs n s)
  case Nil
  then show ?case by (cases n) simp_all
next
  case (Cons y ys)
  obtain m where n: "n = Suc m" using Cons.prems(2) by (cases n) auto
  have "y \<noteq> a" using Cons.prems(1) by (auto simp: ring_def)
  moreover have "ring h a ((xs @ [y]) @ ys)" using Cons.prems(1) by simp
  ultimately show ?case
    using Cons.IH [of "xs @ [y]" m] Cons.prems(2) ring_next [OF Cons.prems(1)] by (simp add: n)
qed

lemma for_each_backward:
  assumes "ring h a (xs @ ys)" "length xs < n"
  shows "for_each_loop n prev_of (\<lambda>x (h, s). Inr (h, f x s)) (last (a # xs)) a (h, s) = Inr (h, fold f (rev xs) s)"
  using assms
proof (induction xs arbitrary: ys n s rule: rev_induct)
  case Nil
  then show ?case by (cases n) simp_all
next
  case (snoc x xs)
  obtain m where n: "n = Suc m" using snoc.prems(2) by (cases n) auto
  have "x \<noteq> a" and r: "ring h a (xs @ x # ys)" using snoc.prems(1) by (auto simp: ring_def)
  then show ?case
    using snoc.IH [of "x # ys" m] snoc.prems(2) ring_prev [OF r] by (simp add: n)
qed

text \<open>The safe loop may remove the node it visits.\<close>

lemma safe_drain:
  assumes "ring h a xs" "length xs < n" "next_of (hd (xs @ [a])) h = Inr v"
  shows "\<exists>h'. for_each_safe_loop n next_of (\<lambda>x (h, s). res_bind (list_del_init x h) (\<lambda>h. Inr (h, f x s))) (hd (xs @ [a])) v a (h, s) =
      Inr (h', fold f xs s) \<and> ring h' a [] \<and> (\<forall>x\<in>set xs. ring h' x []) \<and> outside (set (a # xs)) h h'"
  using assms
proof (induction xs arbitrary: h n s v)
  case Nil
  then show ?case by (cases n) (auto simp: outside_def)
next
  case (Cons x xs)
  obtain m where n: "n = Suc m" using Cons.prems(2) by (cases n) auto
  have r: "ring h a ([] @ x # xs)" using Cons.prems(1) by simp
  have d: "x \<notin> set (a # xs)" using r by (auto simp: ring_def)
  have v: "v = hd (xs @ [a])" using Cons.prems(3) ring_next [OF r] by simp
  obtain h1 where h1: "list_del_init x h = Inr h1" "ring h1 a xs" "ring h1 x []" "outside (set (a # x # xs)) h h1"
    using list_del_init_run [OF r] by auto
  have "\<exists>v'. next_of (hd (xs @ [a])) h1 = Inr v'"
    using next_run [OF h1(2)] ring_next [of h1 a "[]" "hd xs" "tl xs"] h1(2) by (cases xs) simp_all
  then obtain v' where v': "next_of v h1 = Inr v'" using v by blast
  obtain h2 where h2: "for_each_safe_loop m next_of (\<lambda>x (h, s). res_bind (list_del_init x h) (\<lambda>h. Inr (h, f x s))) v v' a (h1, f x s) =
      Inr (h2, fold f xs (f x s))" "ring h2 a []" "\<forall>x\<in>set xs. ring h2 x []" "outside (set (a # xs)) h1 h2"
    using Cons.IH [OF h1(2), of m v' "f x s"] Cons.prems(2) v' by (auto simp: n v)
  have "ring h2 x []" by (rule outside_ring [OF h2(4) h1(3)]) (use d in auto)
  moreover have "outside (set (a # x # xs)) h h2"
    by (rule outside_trans [OF h1(4) outside_mono [OF h2(4)]]) auto
  ultimately show ?case
    using h1(1) h2 v' d by (intro exI [of _ h2]) (auto simp: n)
qed

lemma list_for_each_safe_run:
  assumes "ring h a xs" "length xs < n"
  shows "\<exists>h'. list_for_each_safe n (\<lambda>x (h, s). res_bind (list_del_init x h) (\<lambda>h. Inr (h, f x s))) a (h, s) =
      Inr (h', fold f xs s) \<and> ring h' a [] \<and> (\<forall>x\<in>set xs. ring h' x []) \<and> outside (set (a # xs)) h h'"
proof -
  obtain v where v: "next_of (hd (xs @ [a])) h = Inr v"
    using next_run [OF assms(1)] ring_next [of h a "[]" "hd xs" "tl xs"] assms(1) by (cases xs) auto
  then show ?thesis
    using safe_drain [OF assms v] next_run [OF assms(1)] by (simp add: list_for_each_safe_def)
qed

section \<open>Loops over the containing structures\<close>

text \<open>They are the loops over the list heads, with the body at the structure of each.\<close>

lemma entry_loop_eq:
  assumes "\<And>p h. step (p - off) h = res_bind (step' p h) (\<lambda>q. Inr (q - off))"
  shows "entry_loop n step body (p - off) head off z = for_each_loop n step' (\<lambda>p. body (p - off)) p head z"
proof (induction n arbitrary: p z)
  case (Suc n)
  have "res_bind (step (p - off) h) (\<lambda>pos. entry_loop n step body pos head off z) =
      res_bind (step' p h) (\<lambda>pos. for_each_loop n step' (\<lambda>p. body (p - off)) pos head z)" for z h
    using Suc.IH by (cases "step' p h") (simp_all add: assms)
  then show ?case by simp
qed simp

lemma entry_safe_loop_eq:
  assumes "\<And>p h. step (p - off) h = res_bind (step' p h) (\<lambda>q. Inr (q - off))"
  shows "entry_safe_loop n step body (p - off) (m - off) head off z = for_each_safe_loop n step' (\<lambda>p. body (p - off)) p m head z"
proof (induction n arbitrary: p m z)
  case (Suc n)
  have "res_bind (step (m - off) h) (\<lambda>m'. entry_safe_loop n step body (m - off) m' head off z) =
      res_bind (step' m h) (\<lambda>m'. for_each_safe_loop n step' (\<lambda>p. body (p - off)) m m' head z)" for z h
    using Suc.IH by (cases "step' m h") (simp_all add: assms)
  then show ?case by simp
qed simp

lemma entry_steps:
  "list_next_entry (p - off) off h = res_bind (next_of p h) (\<lambda>q. Inr (q - off))"
  "list_prev_entry (p - off) off h = res_bind (prev_of p h) (\<lambda>q. Inr (q - off))"
  by (simp_all add: list_next_entry_def list_prev_entry_def list_entry_def)

lemma entry_runs:
  "entry_loop n (\<lambda>pos. list_next_entry pos off) body (p - off) head off z = for_each_loop n next_of (\<lambda>p. body (p - off)) p head z"
  "entry_loop n (\<lambda>pos. list_prev_entry pos off) body (p - off) head off z = for_each_loop n prev_of (\<lambda>p. body (p - off)) p head z"
  "entry_safe_loop n (\<lambda>pos. list_next_entry pos off) body (p - off) (m - off) head off z =
    for_each_safe_loop n next_of (\<lambda>p. body (p - off)) p m head z"
  "entry_safe_loop n (\<lambda>pos. list_prev_entry pos off) body (p - off) (m - off) head off z =
    for_each_safe_loop n prev_of (\<lambda>p. body (p - off)) p m head z"
  by (rule entry_loop_eq entry_safe_loop_eq, rule entry_steps)+

lemma list_for_each_entry_eq:
  "list_for_each_entry n body head off z = list_for_each n (\<lambda>p. body (p - off)) head z"
  "list_for_each_entry_reverse n body head off z = list_for_each_prev n (\<lambda>p. body (p - off)) head z"
  by (cases "next_of head (fst z)"; cases "prev_of head (fst z)";
      simp add: list_for_each_entry_def list_for_each_entry_reverse_def list_for_each_def list_for_each_prev_def list_first_entry_def
        list_last_entry_def list_entry_def entry_runs)+

lemma list_for_each_entry_safe_eq:
  "list_for_each_entry_safe n body head off z = list_for_each_safe n (\<lambda>p. body (p - off)) head z"
  "list_for_each_entry_safe_reverse n body head off z = list_for_each_prev_safe n (\<lambda>p. body (p - off)) head z"
proof -
  show "list_for_each_entry_safe n body head off z = list_for_each_safe n (\<lambda>p. body (p - off)) head z"
  proof (cases "next_of head (fst z)")
    case (Inr p)
    then show ?thesis
      by (cases "next_of p (fst z)") (simp_all add: list_for_each_entry_safe_def list_for_each_safe_def list_first_entry_def list_entry_def
          entry_steps entry_runs)
  qed (simp add: list_for_each_entry_safe_def list_for_each_safe_def list_first_entry_def)
  show "list_for_each_entry_safe_reverse n body head off z = list_for_each_prev_safe n (\<lambda>p. body (p - off)) head z"
  proof (cases "prev_of head (fst z)")
    case (Inr p)
    then show ?thesis
      by (cases "prev_of p (fst z)") (simp_all add: list_for_each_entry_safe_reverse_def list_for_each_prev_safe_def list_last_entry_def list_entry_def
          entry_steps entry_runs)
  qed (simp add: list_for_each_entry_safe_reverse_def list_for_each_prev_safe_def list_last_entry_def)
qed

section \<open>The lists of the cache\<close>

text \<open>
  The buffers \<open>B\<close> have a list head each, that of buffer \<open>b\<close> at \<open>f b\<close>; those of \<open>bs\<close> are on the list \<open>a\<close>, in
  this order, and each other one is an empty list.
\<close>

definition on_list :: "(u64 \<Rightarrow> u64) \<Rightarrow> u64 \<Rightarrow> u64 set \<Rightarrow> lists \<Rightarrow> u64 list \<Rightarrow> bool" where
  "on_list f a B h bs \<longleftrightarrow> inj_on f B \<and> a \<notin> f ` B \<and> set bs \<subseteq> B \<and> ring h a (map f bs) \<and> (\<forall>b\<in>B - set bs. ring h (f b) [])"

lemma not_on_list: "inj_on f B \<Longrightarrow> a \<notin> f ` B \<Longrightarrow> set bs \<subseteq> B \<Longrightarrow> c \<in> B - set bs \<Longrightarrow> f c \<notin> set (a # map f bs)"
  by (auto dest: inj_onD)

lemma list_attach_run:
  assumes r: "on_list f a B h bs" and b: "b \<in> B"
  shows "\<exists>h'. list_attach (f b) a h = Inr h' \<and> on_list f a B h' (if b \<notin> set bs then bs @ [b] else bs)"
proof (cases "b \<in> set bs")
  case True
  then obtain xs ys where bs: "bs = xs @ b # ys" by (auto simp: in_set_conv_decomp)
  have r': "ring h a (map f xs @ f b # map f ys)" using r by (simp add: on_list_def bs)
  have "hd (map f ys @ [a]) \<in> set (map f ys @ [a])" by (rule hd_in_set) simp
  moreover have "f b \<notin> set (map f ys @ [a])" using r' by (auto simp: ring_def)
  ultimately have "hd (map f ys @ [a]) \<noteq> f b" by metis
  then have "list_empty (f b) h = Inr False" using ring_next [OF r'] by (simp add: list_empty_def)
  then show ?thesis using r True by (simp add: list_attach_def)
next
  case False
  have i: "inj_on f B" "a \<notin> f ` B" "set bs \<subseteq> B" and ra: "ring h a (map f bs)" and rb: "\<And>c. c \<in> B - set bs \<Longrightarrow> ring h (f c) []"
    using r by (auto simp: on_list_def)
  have fb: "ring h (f b) []" using rb b False by simp
  have n: "h (f b) \<noteq> None" "f b \<noteq> 0" using ring_cut [of h "f b" "[]" "[]"] fb by simp_all
  have "f b \<notin> set (a # map f bs)" using i b False by (auto simp: inj_on_def)
  then obtain h' where h': "list_add_tail (f b) a h = Inr h'" "ring h' a (map f bs @ [f b])" "outside (set (a # f b # map f bs)) h h'"
    using list_add_tail_run [OF ra n] by blast
  have "ring h' (f c) []" if "c \<in> B - set (bs @ [b])" for c
  proof (rule outside_ring [OF h'(3) rb])
    have "f c \<notin> set (a # map f (b # bs))" by (rule not_on_list [OF i(1,2)]) (use that i(3) b in auto)
    then show "set (a # f b # map f bs) \<inter> set [f c] = {}" by simp
  qed (use that in auto)
  then have "on_list f a B h' (bs @ [b])" using i b h'(2) by (simp add: on_list_def)
  then show ?thesis using h'(1) False list_empty_run [OF fb] by (simp add: list_attach_def)
qed

lemma del_on_list:
  assumes r: "on_list f a B h (xs @ b # ys)"
  shows "\<exists>h'. list_del_init (f b) h = Inr h' \<and> on_list f a B h' (xs @ ys)"
proof -
  have i: "inj_on f B" "a \<notin> f ` B" "set (xs @ b # ys) \<subseteq> B" and rb: "\<And>c. c \<in> B - set (xs @ b # ys) \<Longrightarrow> ring h (f c) []"
    using r by (auto simp: on_list_def)
  have ra: "ring h a (map f xs @ f b # map f ys)" using r by (simp add: on_list_def)
  obtain h' where h': "list_del_init (f b) h = Inr h'" "ring h' a (map f xs @ map f ys)" "ring h' (f b) []"
    "outside (set (a # map f xs @ f b # map f ys)) h h'"
    using list_del_init_run [OF ra] by blast
  have "ring h' (f c) []" if "c \<in> B - set (xs @ ys)" for c
  proof (cases "c = b")
    case False
    show ?thesis
    proof (rule outside_ring [OF h'(4) rb])
      have "f c \<notin> set (a # map f (xs @ b # ys))" by (rule not_on_list [OF i]) (use that False in simp)
      then show "set (a # map f xs @ f b # map f ys) \<inter> set [f c] = {}" by simp
    qed (use that False in auto)
  qed (use h'(3) in simp)
  then have "on_list f a B h' (xs @ ys)" using i h'(2) by (simp add: on_list_def)
  then show ?thesis using h'(1) by blast
qed

lemma on_list_distinct: "on_list f a B h bs \<Longrightarrow> distinct bs"
  by (auto simp: on_list_def ring_def distinct_map)

lemma list_detach_run:
  assumes r: "on_list f a B h bs" and b: "b \<in> B"
  shows "\<exists>h'. list_detach (f b) h = Inr h' \<and> on_list f a B h' (remove1 b bs)"
proof (cases "b \<in> set bs")
  case True
  then obtain xs ys where bs: "bs = xs @ b # ys" "b \<notin> set xs" by (auto dest: split_list_first)
  have r': "ring h a (map f xs @ f b # map f ys)" using r by (simp add: on_list_def bs)
  have "hd (map f ys @ [a]) \<in> set (map f ys @ [a])" by (rule hd_in_set) simp
  moreover have "f b \<notin> set (map f ys @ [a])" using r' by (auto simp: ring_def)
  ultimately have "hd (map f ys @ [a]) \<noteq> f b" by metis
  then have "list_empty (f b) h = Inr False" using ring_next [OF r'] by (simp add: list_empty_def)
  then show ?thesis using del_on_list [of f a B h xs b ys] r bs by (simp add: list_detach_def remove1_append)
next
  case False
  then have "ring h (f b) []" using r b by (simp add: on_list_def)
  then show ?thesis using r False list_empty_run by (simp add: list_detach_def remove1_idem)
qed

lemma list_take_first_run:
  assumes r: "on_list f a B h bs"
  shows "\<exists>h'. list_take_first a off h = Inr (if bs = [] then 0 else f (hd bs) - off, h') \<and> on_list f a B h' (tl bs)"
proof (cases bs)
  case Nil
  then show ?thesis using r list_empty_run [of h a "map f bs"] by (auto simp: list_take_first_def on_list_def)
next
  case (Cons b ys)
  have ra: "ring h a (map f bs)" using r by (simp add: on_list_def)
  then show ?thesis
    using del_on_list [of f a B h "[]" b ys] r list_empty_run [OF ra] next_run [OF ra]
    by (auto simp: list_take_first_def list_first_entry_def list_entry_def Cons)
qed

text \<open>A list at 16 with the nodes 32 and 48, and an empty one at 64.\<close>

definition demo_lists :: lists where
  "demo_lists = [16 \<mapsto> \<lparr>prev_ptr = 48, next_ptr = 32\<rparr>, 32 \<mapsto> \<lparr>prev_ptr = 16, next_ptr = 48\<rparr>,
     48 \<mapsto> \<lparr>prev_ptr = 32, next_ptr = 16\<rparr>, 64 \<mapsto> \<lparr>prev_ptr = 64, next_ptr = 64\<rparr>]"

lemma demo_ring: "ring demo_lists 16 [32, 48]" "ring demo_lists 64 []" "demo_lists 64 \<noteq> None"
  by (simp_all add: ring_def linked_def nxt_def prv_def demo_lists_def)

text \<open>C6: The free list and the writeback list of the cache are the sequences of buffers in the model of the cache: a
  buffer is on a list iff its list head is not empty, and each function of buffer.c that adds a buffer,
  removes a buffer or takes the first one changes the links as the model changes the sequence, without an
  access through a wrong pointer.\<close>

theorem cache_lists_refine:
  assumes "on_list f a B h (bd_bh_free d)" "on_list g w B k (bd_bh_dirty d)" "b \<in> B"
  shows "(\<exists>h'. list_attach (f b) a h = Inr h' \<and> on_list f a B h' (bd_bh_free (attach_bh_to_freelist b d))) \<and>
    (\<exists>h'. list_detach (f b) h = Inr h' \<and> on_list f a B h' (bd_bh_free (detach_bh_from_freelist b d))) \<and>
    (\<exists>h'. list_take_first a off h = Inr (if bd_bh_free d = [] then 0 else f (hd (bd_bh_free d)) - off, h') \<and>
       on_list f a B h' (bd_bh_free (remove_first_bh_from_freelist d))) \<and>
    (\<exists>k'. list_attach (g b) w k = Inr k' \<and> on_list g w B k' (bd_bh_dirty (move_buffer_to_writeback b d))) \<and>
    (\<exists>k'. list_detach (g b) k = Inr k' \<and> on_list g w B k' (bd_bh_dirty (remove_buffer_from_writeback b d))) \<and>
    (\<exists>k'. list_take_first w off k = Inr (case fst (remove_first_buffer_from_writeback d) of None \<Rightarrow> 0 | Some c \<Rightarrow> g c - off, k') \<and>
       on_list g w B k' (bd_bh_dirty (snd (remove_first_buffer_from_writeback d))))"
proof -
  have fields: "bd_bh_free (remove_first_bh_from_freelist d) = tl (bd_bh_free d)"
    by (auto simp: remove_first_bh_from_freelist_def buffer_remove_def split: list.split)
  have "bd_bh_free (detach_bh_from_freelist b d) = remove1 b (bd_bh_free d)" "bd_bh_dirty (remove_buffer_from_writeback b d) = remove1 b (bd_bh_dirty d)"
    by (auto simp: detach_bh_from_freelist_def remove_buffer_from_writeback_def remove1_idem)
  then show ?thesis
    using list_attach_run [OF assms(1,3)] list_detach_run [OF assms(1,3)] list_take_first_run [OF assms(1), of off]
      list_attach_run [OF assms(2,3)] list_detach_run [OF assms(2,3)] list_take_first_run [OF assms(2), of off]
    by (cases "bd_bh_dirty d") (auto simp: fields attach_bh_to_freelist_def move_buffer_to_writeback_def remove_first_buffer_from_writeback_def)
qed

theorem cache_lists_refine_witness:
  "\<exists>h'. list_detach (16 * 3) demo_lists = Inr h' \<and>
    on_list (\<lambda>b. 16 * b) 16 {2, 3, 4} h' (bd_bh_free (detach_bh_from_freelist 3 (tiny_cache\<lparr>bd_bh_free := [2, 3], bd_bh_dirty := [2, 3]\<rparr>)))"
proof -
  have "on_list (\<lambda>b. 16 * b) 16 {2, 3, 4} demo_lists [2, 3]"
    using demo_ring by (simp add: on_list_def inj_on_def)
  then show ?thesis
    using cache_lists_refine [of "\<lambda>b. 16 * b" 16 "{2, 3, 4}" demo_lists "tiny_cache\<lparr>bd_bh_free := [2, 3], bd_bh_dirty := [2, 3]\<rparr>" "\<lambda>b. 16 * b" 16 demo_lists 3]
    by simp
qed

text \<open>list_cut_position() moves the front of a list up to an entry to another list, and list_splice() puts it
  back; other lists do not change.\<close>

theorem list_cut_splice_round_trip:
  assumes "ring h a (xs @ e # ys)" "h l \<noteq> None" "l \<noteq> 0" "l \<notin> set (a # xs @ e # ys)"
  shows "\<exists>h1 h2. list_cut_position l a e h = Inr h1 \<and> ring h1 l (xs @ [e]) \<and> ring h1 a ys \<and>
    list_splice l a h1 = Inr h2 \<and> ring h2 a (xs @ e # ys) \<and>
    (\<forall>b zs. ring h b zs \<and> set (b # zs) \<inter> set (l # a # xs @ e # ys) = {} \<longrightarrow> ring h1 b zs \<and> ring h2 b zs)"
proof -
  obtain h1 where h1: "list_cut_position l a e h = Inr h1" "ring h1 l (xs @ [e])" "ring h1 a ys" "outside (set (l # a # xs @ e # ys)) h h1"
    using list_cut_run [OF assms] by blast
  have "distinct (a # xs @ e # ys)" using assms(1) by (simp add: ring_def)
  then have "set (l # xs @ [e]) \<inter> set (a # ys) = {}" using assms(4) by auto
  then obtain h2 where h2: "list_splice l a h1 = Inr h2" "ring h2 a ((xs @ [e]) @ ys)" "outside (set (a # (xs @ [e]) @ ys)) h1 h2"
    using list_splice_run [OF h1(3,2)] by blast
  have "outside (set (l # a # xs @ e # ys)) h h2"
    by (rule outside_trans [OF h1(4) outside_mono [OF h2(3)]]) auto
  then show ?thesis
    using h1 h2 outside_ring by (intro exI [of _ h1] exI [of _ h2]) (auto simp: Int_commute)
qed

theorem list_cut_splice_round_trip_witness:
  "\<exists>h1 h2. list_cut_position 64 16 32 demo_lists = Inr h1 \<and> ring h1 64 [32] \<and> ring h1 16 [48] \<and>
    list_splice 64 16 h1 = Inr h2 \<and> ring h2 16 [32, 48]"
  using list_cut_splice_round_trip [of demo_lists 16 "[]" 32 "[48]" 64] demo_ring by auto

text \<open>C40: The loops over a list of \<open>n\<close> nodes end after \<open>n\<close> rounds: they visit every node once in the order of the
  list or backwards, and with the safe loop the body may remove the node it visits, which empties the list. The
  loops over entries visit the containing structures.\<close>

theorem list_loops_visit:
  assumes "ring h a xs" "length xs < n"
  shows "list_for_each n (\<lambda>x (h, s). Inr (h, f x s)) a (h, s) = Inr (h, fold f xs s) \<and>
    list_for_each_prev n (\<lambda>x (h, s). Inr (h, f x s)) a (h, s) = Inr (h, fold f (rev xs) s) \<and>
    (\<exists>h'. list_for_each_safe n (\<lambda>x (h, s). res_bind (list_del_init x h) (\<lambda>h. Inr (h, f x s))) a (h, s) = Inr (h', fold f xs s) \<and>
       ring h' a [] \<and> (\<forall>x\<in>set xs. ring h' x [])) \<and>
    list_for_each_entry n (\<lambda>x (h, s). Inr (h, f x s)) a off (h, s) = Inr (h, fold (\<lambda>p. f (p - off)) xs s)"
  using for_each_forward [of h a "[]" xs n f s] for_each_forward [of h a "[]" xs n "\<lambda>p. f (p - off)" s] for_each_backward [of h a xs "[]" n f s] list_for_each_safe_run [OF assms, of f s] assms
    next_run [OF assms(1)] prev_run [OF assms(1)]
  by (auto simp: list_for_each_entry_eq list_for_each_def list_for_each_prev_def)

theorem list_loops_visit_witness:
  "list_for_each_prev 3 (\<lambda>x (h, s). Inr (h, x # s)) 16 (demo_lists, []) = Inr (demo_lists, [32, 48]) \<and>
    (\<exists>h'. list_for_each_safe 3 (\<lambda>x (h, s). res_bind (list_del_init x h) (\<lambda>h. Inr (h, x # s))) 16 (demo_lists, []) = Inr (h', [48, 32]) \<and>
       ring h' 16 [] \<and> ring h' 48 [])"
  using list_loops_visit [OF demo_ring(1), of 3 Cons "[]"] by auto

end
