(* ===== verification/E4F_Hlist.thy ===== *)
theory E4F_Hlist
  imports E4F_List
begin

text \<open>
  What the operations on hash lists of src/types/list.h do to the sequence of nodes: the head has one
  pointer, and a node knows the cell that points to it, so that it can be removed without the head.
\<close>

section \<open>The nodes of a hash list\<close>

text \<open>From cell \<open>p\<close> on, the nodes are \<open>xs\<close> and the last one points to \<open>q\<close>.\<close>

fun hseg :: "cells \<Rightarrow> u64 \<Rightarrow> u64 list \<Rightarrow> u64 \<Rightarrow> bool" where
  "hseg m p [] q \<longleftrightarrow> m p = Some q"
| "hseg m p (x # xs) q \<longleftrightarrow> m p = Some x \<and> m (x + 8) = Some p \<and> hseg m x xs q"

fun hcells :: "u64 list \<Rightarrow> u64 list" where
  "hcells [] = []"
| "hcells (x # xs) = x # (x + 8) # hcells xs"

definition hlist :: "cells \<Rightarrow> u64 \<Rightarrow> u64 list \<Rightarrow> bool" where
  "hlist m h xs \<longleftrightarrow> hseg m h xs 0 \<and> distinct (h # hcells xs) \<and> 0 \<notin> set (h # hcells xs)"

definition hfree :: "cells \<Rightarrow> u64 \<Rightarrow> u64 list \<Rightarrow> u64 \<Rightarrow> bool" where
  "hfree m h xs n \<longleftrightarrow> m n \<noteq> None \<and> m (n + 8) \<noteq> None \<and> distinct (n # (n + 8) # h # hcells xs) \<and> n \<noteq> 0 \<and> n + 8 \<noteq> 0"

lemma hcells_append [simp]: "hcells (xs @ ys) = hcells xs @ hcells ys"
  by (induction xs) auto

lemma in_hcells: "x \<in> set xs \<Longrightarrow> x \<in> set (hcells xs) \<and> x + 8 \<in> set (hcells xs)"
  by (induction xs) auto

lemma last_in_hcells: "last (p # xs) \<in> insert p (set (hcells xs))"
  using in_hcells [of "last xs" xs] by (cases "xs = []") auto

lemma hseg_append: "hseg m p (xs @ y # ys) q \<longleftrightarrow> hseg m p xs y \<and> m (y + 8) = Some (last (p # xs)) \<and> hseg m y ys q"
  by (induction xs arbitrary: p) auto

lemma hseg_cong: "\<forall>c\<in>insert p (set (hcells xs)). m' c = m c \<Longrightarrow> hseg m' p xs q = hseg m p xs q"
  by (induction xs arbitrary: p) auto

lemma hseg_upd [simp]: "c \<noteq> p \<Longrightarrow> c \<notin> set (hcells xs) \<Longrightarrow> hseg (m(c \<mapsto> v)) p xs q = hseg m p xs q"
  by (rule hseg_cong) auto

text \<open>Storing into the last link.\<close>

lemma hseg_last: "hseg m p xs q \<Longrightarrow> distinct (p # hcells xs) \<Longrightarrow> hseg (m(last (p # xs) \<mapsto> q')) p xs q'"
proof (induction xs arbitrary: p)
  case (Cons x xs)
  have "last (x # xs) \<in> insert x (set (hcells xs))" by (rule last_in_hcells)
  then have "last (x # xs) \<noteq> p" "last (x # xs) \<noteq> x + 8" using Cons.prems(2) by auto
  then show ?case using Cons by simp
qed simp

lemma hseg_end: "hseg m p xs q \<Longrightarrow> m (last (p # xs)) = Some q"
  by (induction xs arbitrary: p) auto

lemma cell_run: "m p = Some v \<Longrightarrow> p \<noteq> 0 \<Longrightarrow> cell p m = Inr v"
  by (simp add: cell_def)

lemma set_cell_run: "m p \<noteq> None \<Longrightarrow> p \<noteq> 0 \<Longrightarrow> set_cell p v m = Inr (m(p \<mapsto> v))"
  by (simp add: set_cell_def)

section \<open>Operations\<close>

lemma hlist_add_head_run:
  assumes l: "hlist m h xs" and n: "hfree m h xs n"
  shows "\<exists>m'. hlist_add_head n h m = Inr m' \<and> hlist m' h (n # xs)"
proof -
  have d: "distinct (h # hcells xs)" "0 \<notin> set (h # hcells xs)" "hseg m h xs 0" using l by (simp_all add: hlist_def)
  have f: "m n \<noteq> None" "m (n + 8) \<noteq> None" "n \<noteq> 0" "n + 8 \<noteq> 0" "n \<noteq> n + 8" "n \<noteq> h" "n + 8 \<noteq> h" "n \<notin> set (hcells xs)" "n + 8 \<notin> set (hcells xs)"
    using n by (auto simp: hfree_def)
  show ?thesis
  proof (cases xs)
    case Nil
    then have "m h = Some 0" "h \<noteq> 0" using d by simp_all
    then show ?thesis
      using f by (auto simp: hlist_add_head_def cell_run set_cell_run hlist_def Nil)
  next
    case (Cons x ys)
    have x: "m h = Some x" "m (x + 8) = Some h" "hseg m x ys 0" "x \<noteq> 0" "x + 8 \<noteq> 0" "h \<noteq> 0" using d by (simp_all add: Cons)
    define m' where "m' = m(n \<mapsto> x, x + 8 \<mapsto> n, h \<mapsto> n, n + 8 \<mapsto> h)"
    have "hlist_add_head n h m = Inr m'"
      using x f d(1) by (simp add: hlist_add_head_def cell_run set_cell_run m'_def Cons)
    moreover have "hseg m' x ys 0"
      using x(3) f d(1) by (simp add: m'_def Cons del: fun_upd_apply)
    then have "hlist m' h (n # xs)"
      using f d x by (auto simp: hlist_def Cons m'_def)
    ultimately show ?thesis by blast
  qed
qed

lemma hlist_unlink_run:
  assumes l: "hlist m h (xs @ x # ys)"
  shows "\<exists>m'. hlist_unlink x m = Inr m' \<and> hlist m' h (xs @ ys) \<and> m' x \<noteq> None \<and> m' (x + 8) \<noteq> None \<and>
    x \<notin> set (h # hcells (xs @ ys)) \<and> x + 8 \<notin> set (h # hcells (xs @ ys)) \<and> x \<noteq> 0 \<and> x + 8 \<noteq> 0 \<and> m (x + 8) \<noteq> Some 0"
proof -
  define p where "p = last (h # xs)"
  have s: "hseg m h xs x" "m (x + 8) = Some p" "hseg m x ys 0" using l by (simp_all add: hlist_def hseg_append p_def)
  have d: "distinct (h # hcells xs @ x # (x + 8) # hcells ys)" "0 \<notin> set (h # hcells xs @ x # (x + 8) # hcells ys)"
    using l by (simp_all add: hlist_def)
  have p: "p \<in> insert h (set (hcells xs))" unfolding p_def by (rule last_in_hcells)
  have pn: "p \<noteq> 0" "m p = Some x" "p \<noteq> x" "p \<noteq> x + 8" "p \<notin> set (hcells ys)" using p d hseg_end [OF s(1)] by (auto simp: p_def)
  have x0: "x \<noteq> 0" "x + 8 \<noteq> 0" using d by auto
  show ?thesis
  proof (cases ys)
    case Nil
    define m' where "m' = m(p \<mapsto> 0)"
    have "m x = Some 0" using s(3) by (simp add: Nil)
    then have "hlist_unlink x m = Inr m'"
      using s(2) pn x0 by (simp add: hlist_unlink_def cell_run set_cell_run m'_def)
    moreover have "hseg m' h xs 0" unfolding m'_def p_def by (rule hseg_last [OF s(1)]) (use d in simp)
    ultimately show ?thesis
      using d s pn \<open>m x = Some 0\<close> by (intro exI [of _ m']) (auto simp: hlist_def Nil m'_def)
  next
    case (Cons y zs)
    have y: "m x = Some y" "m (y + 8) = Some x" "hseg m y zs 0" "y \<noteq> 0" "y + 8 \<noteq> 0" "y + 8 \<noteq> p" using s(3) d pn by (auto simp: Cons)
    define m' where "m' = m(p \<mapsto> y, y + 8 \<mapsto> p)"
    have run: "hlist_unlink x m = Inr m'"
      using s(2) y pn x0 by (simp add: hlist_unlink_def cell_run set_cell_run m'_def)
    have "hseg (m(p \<mapsto> y)) h xs y" unfolding p_def by (rule hseg_last [OF s(1)]) (use d in simp)
    moreover have "y + 8 \<noteq> h" "y + 8 \<notin> set (hcells xs)" using d by (auto simp: Cons)
    ultimately have "hseg m' h xs y" by (simp add: m'_def del: fun_upd_apply)
    moreover have "hseg m' y zs 0" using y(3) d pn by (simp add: m'_def Cons del: fun_upd_apply)
    ultimately show ?thesis
      using d s(2) pn y run by (intro exI [of _ m']) (auto simp: hlist_def Cons m'_def hseg_append p_def)
  qed
qed

text \<open>A node that hlist_del_init() removed is unhashed, and removing it again does nothing.\<close>

lemma hlist_del_init_run:
  assumes l: "hlist m h (xs @ x # ys)"
  shows "\<exists>m'. hlist_del_init x m = Inr m' \<and> hlist m' h (xs @ ys) \<and> hlist_unhashed x m' = Inr True \<and> hlist_del_init x m' = Inr m' \<and>
    hfree m' h (xs @ ys) x"
proof -
  obtain m1 where m1: "hlist_unlink x m = Inr m1" "hlist m1 h (xs @ ys)" "m1 x \<noteq> None" "m1 (x + 8) \<noteq> None"
    "x \<notin> set (h # hcells (xs @ ys))" "x + 8 \<notin> set (h # hcells (xs @ ys))" "x \<noteq> 0" "x + 8 \<noteq> 0" "m (x + 8) \<noteq> Some 0"
    using hlist_unlink_run [OF l] by blast
  have x: "m (x + 8) = Some (last (h # xs))" "x \<noteq> x + 8" using l by (auto simp: hlist_def hseg_append)
  define m' where "m' = m1(x \<mapsto> 0, x + 8 \<mapsto> 0)"
  have "INIT_HLIST_NODE x m1 = Inr m'"
    using m1 by (simp add: INIT_HLIST_NODE_def set_cell_run m'_def)
  then have run: "hlist_del_init x m = Inr m'"
    using m1 x by (simp add: hlist_del_init_def hlist_unhashed_def cell_run)
  have u: "hlist_unhashed x m' = Inr True" using m1(8) by (simp add: hlist_unhashed_def cell_def m'_def)
  have "hlist m' h (xs @ ys)"
    using m1(2,5,6) by (simp add: hlist_def m'_def del: fun_upd_apply)
  moreover have "distinct (h # hcells (xs @ ys))" using m1(2) by (simp add: hlist_def)
  then have "hfree m' h (xs @ ys) x"
    using m1(3-8) x(2) by (auto simp: hfree_def m'_def)
  ultimately show ?thesis
    using run u by (intro exI [of _ m']) (simp add: hlist_del_init_def)
qed
lemma hlist_for_each_run:
  assumes "hseg m p xs 0" "0 \<notin> set (p # hcells xs)" "length xs < n"
  shows "hlist_for_each n (\<lambda>x (m, s). Inr (m, f x s)) p (m, s) = Inr (m, fold f xs s)"
proof -
  have "hlist_for_each_loop n (\<lambda>x (m, s). Inr (m, f x s)) (hd (xs @ [0])) (m, s) = Inr (m, fold f xs s)"
    using assms
  proof (induction xs arbitrary: p n s)
    case Nil
    then show ?case by (cases n) simp_all
  next
    case (Cons x xs)
    obtain k where n: "n = Suc k" using Cons.prems(3) by (cases n) auto
    have "cell x m = Inr (hd (xs @ [0]))" using Cons.prems by (cases xs) (simp_all add: cell_run)
    then show ?case using Cons.IH [of x k "f x s"] Cons.prems n by simp
  qed
  moreover have "cell p m = Inr (hd (xs @ [0]))" using assms by (cases xs) (simp_all add: cell_run)
  ultimately show ?thesis by (simp add: hlist_for_each_def)
qed

text \<open>A hash list at 8 with the nodes 16 and 32, and an unhashed node 48.\<close>

definition demo_cells :: cells where
  "demo_cells = [8 \<mapsto> 16, 16 \<mapsto> 32, 24 \<mapsto> 8, 32 \<mapsto> 0, 40 \<mapsto> 16, 48 \<mapsto> 0, 56 \<mapsto> 0]"

text \<open>A hash list is the sequence of its nodes: hlist_add_head() puts a node in front, a loop then visits the new
  node and the old ones in their order, and hlist_del_init() takes any of them out without the list head
  and leaves it unhashed.\<close>

theorem hlist_add_visit_remove:
  assumes "hlist m h xs" "hfree m h xs n" "x \<in> set (n # xs)" "Suc (length xs) < k"
  shows "\<exists>m1 m2. hlist_add_head n h m = Inr m1 \<and> hlist_for_each k (\<lambda>x (m, s). Inr (m, f x s)) h (m1, s) = Inr (m1, fold f (n # xs) s) \<and>
    hlist_del_init x m1 = Inr m2 \<and> hlist m2 h (remove1 x (n # xs)) \<and> hlist_unhashed x m2 = Inr True \<and> hlist_del_init x m2 = Inr m2"
proof -
  obtain m1 where m1: "hlist_add_head n h m = Inr m1" "hlist m1 h (n # xs)"
    using hlist_add_head_run [OF assms(1,2)] by blast
  obtain us vs where x: "n # xs = us @ x # vs" "x \<notin> set us"
    using split_list_first [OF assms(3)] by blast
  then have "remove1 x (n # xs) = us @ vs" by (simp add: remove1_append)
  moreover have "hlist m1 h (us @ x # vs)" using m1(2) x(1) by simp
  ultimately show ?thesis
    using m1 hlist_del_init_run [of m1 h us x vs] hlist_for_each_run [of m1 h "n # xs" k f s] assms(4)
    by (auto simp: hlist_def)
qed

theorem hlist_add_visit_remove_witness:
  "\<exists>m1 m2. hlist_add_head 48 8 demo_cells = Inr m1 \<and>
    hlist_for_each 4 (\<lambda>x (m, s). Inr (m, x # s)) 8 (m1, []) = Inr (m1, [32, 16, 48]) \<and>
    hlist_del_init 16 m1 = Inr m2 \<and> hlist m2 8 [48, 32]"
proof -
  have "hlist demo_cells 8 [16, 32]" "hfree demo_cells 8 [16, 32] 48"
    by (simp_all add: hlist_def hfree_def demo_cells_def)
  then show ?thesis
    using hlist_add_visit_remove [of demo_cells 8 "[16, 32]" 48 16 4 Cons "[]"] by auto
qed

end
