(* ===== verification/E4F_Blockmap.thy ===== *)
theory E4F_Blockmap
  imports E4F_Read
begin

text \<open>
  The blocks of a file as inode_get_data_pblock() of src/inode.c finds them, whether the inode has the
  classical block map or a tree of extents: the interface that the readers of directories rely on.
\<close>

section \<open>The blocks of a file, with and without extents\<close>

definition fsize :: "ext4_inode \<Rightarrow> nat" where
  "fsize raw = unat (inode_get_size (inode_get 0 raw))"

definition root_depth :: "ext4_inode \<Rightarrow> nat" where
  "root_depth raw = unat (eh_depth (eh_of (i_block raw)))"

definition file_block :: "fs \<Rightarrow> ext4_inode \<Rightarrow> nat \<Rightarrow> u64" where
  "file_block fs raw l =
    (if i_flags raw AND EXT4_EXTENTS_FL \<noteq> 0
     then (case find (ext_covers (of_nat l)) (tree_exts (view (bdev fs)) (root_depth raw) (i_block raw)) of
             None \<Rightarrow> 0 | Some x \<Rightarrow> ext4_ext_pblock x + ucast (of_nat l - ee_block x))
     else ucast (mapped_block fs (inode_get 0 raw) l))"

text \<open>The device can serve the file: less than 4 GiB, with a well-formed tree of extents if it uses one,
  and blocks that the 63 bits of an offset can name.\<close>

definition file_ok :: "fs \<Rightarrow> ext4_inode \<Rightarrow> bool" where
  "file_ok fs raw \<longleftrightarrow> fs_ok fs \<and> block_size_ok (sup fs) \<and> fsize raw < 2 ^ 32 \<and>
     (i_flags raw AND EXT4_EXTENTS_FL \<noteq> 0 \<longrightarrow> tree_wf (view (bdev fs)) (root_depth raw) (i_block raw) 0 (2 ^ 32)) \<and>
     (\<forall>l. l * bsize fs < fsize raw \<longrightarrow> unat (file_block fs raw l) < 2 ^ 40)"

lemma same_fs_view:
  assumes "fs_ok fs" "same_fs fs fs'"
  shows "view (bdev fs') = view (bdev fs)"
proof
  fix b
  define bs where "bs = bsize fs"
  have ok: "fs_ok fs'" "sup fs' = sup fs" "fs_flat fs' = fs_flat fs" using assms(2) by (simp_all add: same_fs_def)
  have len: "length (view (bdev fs) b) = bs" "length (view (bdev fs') b) = bs" and bs: "0 < bs"
    using bs.vw_length [of "bdev fs" b] bs.vw_length [of "bdev fs'" b] assms(1) ok by (auto simp: fs_ok_def bs_def)
  show "view (bdev fs') b = view (bdev fs) b"
  proof (rule nth_equalityI)
    fix i assume "i < length (view (bdev fs') b)"
    then have i: "i < bs" using len by simp
    have "fs_flat fs' (unat b * bs + i) = fs_flat fs (unat b * bs + i)" using ok(3) by simp
    then show "view (bdev fs') b ! i = view (bdev fs) b ! i"
      using i by (simp add: fs_flat_def flat_def ok(2) flip: bs_def)
  qed (simp add: len)
qed


text \<open>
  What the readers of directories rely on: a map from the blocks of a file to blocks of the device that
  the block lookup of the code computes without changing what the device holds.
\<close>

locale block_map =
  fixes blk :: "fs \<Rightarrow> ext4_inode \<Rightarrow> nat \<Rightarrow> u64"
    and ok :: "fs \<Rightarrow> ext4_inode \<Rightarrow> bool"
  assumes ok_law: "ok fs raw \<Longrightarrow> fs_ok fs \<and> block_size_ok (sup fs) \<and> fsize raw < 2 ^ 32"
    and get_law: "ok fs raw \<Longrightarrow> same_fs fs fs1 \<Longrightarrow> l * bsize fs < fsize raw \<Longrightarrow>
      \<exists>fs2. inode_get_data_pblock (of_nat l) None False (inode_get 0 raw, fs1) = Inr ((blk fs raw l, None), inode_get 0 raw, fs2) \<and>
        same_fs fs fs2 \<and> unat (blk fs raw l) < 2 ^ 40"

lemma file_block_get:
  assumes ok: "file_ok fs raw" and s: "same_fs fs fs1" and l: "l * bsize fs < fsize raw"
  shows "\<exists>fs2. inode_get_data_pblock (of_nat l) None False (inode_get 0 raw, fs1) =
      Inr ((file_block fs raw l, None), inode_get 0 raw, fs2) \<and> same_fs fs fs2 \<and> unat (file_block fs raw l) < 2 ^ 40"
proof -
  have fs: "fs_ok fs" "block_size_ok (sup fs)" "fsize raw < 2 ^ 32" and b: "unat (file_block fs raw l) < 2 ^ 40"
    using ok l by (simp_all add: file_ok_def)
  have fs1: "fs_ok fs1" "sup fs1 = sup fs" using s by (simp_all add: same_fs_def)
  show ?thesis
  proof (cases "i_flags raw AND EXT4_EXTENTS_FL = 0")
    case True
    define i where "i = l * bsize fs"
    have bs: "0 < bsize fs" using block_size_bounds(1) [OF fs(2)] by simp
    have "\<not> k * bsize fs < i + 1" if "i + 1 \<le> k" for k
    proof -
      have "(i + 1) * 1 \<le> k * bsize fs" using that bs by (intro mult_le_mono) simp_all
      then show ?thesis by simp
    qed
    then have "readable fs (inode_get 0 raw) ((i + 1) * bsize fs) (i + 1)"
      using fs True l bs by (auto simp: readable_def fsize_def i_def)
    from block_lookup [OF this _ s, of i None] obtain fs2 where
      "inode_get_data_pblock (of_nat (i div bsize fs)) None False (inode_get 0 raw, fs1) =
        Inr ((ucast (mapped_block fs (inode_get 0 raw) (i div bsize fs)), None), inode_get 0 raw, fs2)" "same_fs fs fs2"
      by auto
    then show ?thesis using True b bs by (intro exI [of _ fs2]) (simp add: i_def file_block_def)
  next
    case False
    have v: "view (bdev fs1) = view (bdev fs)" by (rule same_fs_view [OF fs(1) s])
    have w: "tree_wf (view (bdev fs1)) (root_depth raw) (i_block raw) 0 (2 ^ 32)"
      using ok False by (simp add: file_ok_def v)
    obtain fs2 where f: "extent_get_pblock_new (of_nat l) None False (inode_get 0 raw, fs1) =
        Inr ((file_block fs raw l, None), inode_get 0 raw, fs2)" "fs_ok fs2" "sup fs2 = sup fs1" "view (bdev fs2) = view (bdev fs1)"
      using extent_lookup_run [of fs1 "inode_get 0 raw" "of_nat l" None] fs1(1) w False
      by (auto simp: file_block_def root_depth_def v split: option.splits)
    have "same_fs fs fs2" using f(2-4) fs1(2) v by (simp add: same_fs_def fs_flat_def)
    then show ?thesis
      using f(1) False b by (intro exI [of _ fs2]) (simp add: inode_get_data_pblock_def Let_def)
  qed
qed

interpretation fb: block_map file_block file_ok
  by unfold_locales (use file_block_get in \<open>auto simp: file_ok_def\<close>)

section \<open>Inodes in the blocks of the inode table\<close>

text \<open>What inode_get_by_number() makes of the structure of the caller when the inode is at \<open>off\<close>.\<close>

definition inode_from :: "fs \<Rightarrow> u64 \<Rightarrow> ext4_inode \<Rightarrow> ext4_inode" where
  "inode_from fs off raw =
     inode_of (splice (inode_bytes raw) 0 (map (fs_flat fs) [unat off ..< unat off + inode_disk_size (sup fs)]))"

lemma disk_size_le: "inode_disk_size s \<le> 156"
  by (simp add: inode_disk_size_def sizeof_inode_def)

lemma inode_from_wf: "inode_wf raw \<Longrightarrow> inode_wf (inode_from fs off raw)"
  unfolding inode_from_def using disk_size_le [of "sup fs"] by (intro inode_wf_of) (simp add: length_inode_bytes)

lemma ld_shift:
  "(\<And>i. i < n \<Longrightarrow> m ! (a + i) = m' ! (b + i)) \<Longrightarrow> (ld n m a :: 'a::len word) = ld n m' b"
proof (induction n arbitrary: a b)
  case (Suc n)
  have "(ld n m (Suc a) :: 'a word) = ld n m' (Suc b)"
    using Suc.prems [of "Suc i" for i] by (intro Suc.IH) auto
  then show ?case using Suc.prems [of 0] by simp
qed simp

text \<open>The fields that the head of an inode holds.\<close>

lemma inode_fields:
  fixes d :: ext4_inode and ys :: bytes
  assumes "inode_wf d" "128 \<le> k"
  defines "r \<equiv> inode_of (take k (inode_bytes d) @ ys)"
  shows "i_mode r = i_mode d" "i_flags r = i_flags d" "i_size_lo r = i_size_lo d" "i_size_high r = i_size_high d" "i_block r = i_block d"
proof -
  let ?m = "inode_bytes d"
  have l: "length ?m = 156" by (rule length_inode_bytes [OF assms(1)])
  have ld: "(ld n (take k ?m @ ys) a :: 'a::len word) = ld n ?m a" if "a + n \<le> 128" for n a
    using that l assms(2) by (intro ld_shift) (simp add: nth_append)
  have slice_head: "slice (take k ?m @ ys) 40 60 = slice ?m 40 60"
    using l assms(2) by (intro nth_equalityI) (simp_all add: slice_def nth_append)
  have d: "inode_of ?m = d" by (rule inode_of_bytes [OF assms(1)])
  have "i_mode r = i_mode (inode_of ?m)" "i_flags r = i_flags (inode_of ?m)" "i_size_lo r = i_size_lo (inode_of ?m)"
    "i_size_high r = i_size_high (inode_of ?m)" "i_block r = i_block (inode_of ?m)"
    using l assms(2) by (simp_all add: r_def inode_of_def ld slice_head)
  then show "i_mode r = i_mode d" "i_flags r = i_flags d" "i_size_lo r = i_size_lo d" "i_size_high r = i_size_high d" "i_block r = i_block d"
    by (simp_all only: d)
qed

lemmas inode_head = inode_fields [where k = 128, OF _ order_refl]

text \<open>An inode in a slot of 128 bytes of the device of the examples.\<close>

lemma slot_bytes:
  assumes s: "sup fs = sup demo_fs" and off: "unat off = blk * 1024 + length pre" "length pre + 128 \<le> 1024"
    and slot: "view (bdev fs) (of_nat blk) = pre @ take 128 (inode_bytes d) @ post" and wf: "inode_wf d" "inode_wf raw"
  shows "inode_of (splice (inode_bytes raw) 0 (map (fs_flat fs) [unat off ..< unat off + inode_disk_size (sup fs)])) =
    inode_of (take 128 (inode_bytes d) @ drop 128 (inode_bytes raw))"
proof -
  have flat: "fs_flat fs (b * 1024 + x) = view (bdev fs) (of_nat b) ! x" if "x < 1024" for b x
    using that by (simp add: fs_flat_def flat_def s demo_fs_ok)
  have k: "inode_disk_size (sup fs) = 128" using demo_inode_offset(2) by (simp add: s)
  have "map (fs_flat fs) [unat off ..< unat off + 128] = take 128 (inode_bytes d)"
  proof (rule nth_equalityI)
    fix j assume "j < length (map (fs_flat fs) [unat off ..< unat off + 128])"
    then have j: "j < 128" by simp
    have "fs_flat fs (blk * 1024 + (length pre + j)) = take 128 (inode_bytes d) ! j"
      using j slot off(2) by (subst flat) (simp_all add: nth_append length_inode_bytes [OF wf(1)])
    then show "map (fs_flat fs) [unat off ..< unat off + 128] ! j = take 128 (inode_bytes d) ! j"
      using j by (simp add: off(1) add.assoc)
  qed (simp add: length_inode_bytes [OF wf(1)])
  then show ?thesis
    by (simp add: k splice_0 length_inode_bytes [OF wf(1)])
qed

end
