(* ===== verification/E4F_Dir.thy ===== *)
theory E4F_Dir
  imports E4F_Blockmap
begin

text \<open>
  Directories on the device: the entries of a directory as the list that its blocks hold, the walks of
  src/inode.c over them, and op_readdir() of src/op_readdir.c against that list.
\<close>

section \<open>The content of a directory\<close>

definition bytes_by :: "(fs \<Rightarrow> ext4_inode \<Rightarrow> nat \<Rightarrow> u64) \<Rightarrow> fs \<Rightarrow> ext4_inode \<Rightarrow> bytes" where
  "bytes_by blk fs raw = map (\<lambda>i. fs_flat fs (unat (blk fs raw (i div bsize fs)) * bsize fs + i mod bsize fs)) [0 ..< fsize raw]"

text \<open>From byte \<open>a\<close> on the content \<open>m\<close> is the sequence \<open>es\<close> of entries, none of which crosses the end of a
  block or is too short for its name.\<close>

fun dir_holds :: "nat \<Rightarrow> bytes \<Rightarrow> nat \<Rightarrow> ext4_dir_entry_2 list \<Rightarrow> bool" where
  "dir_holds bs m a [] \<longleftrightarrow> a = length m"
| "dir_holds bs m a (e # es) \<longleftrightarrow> dentry_of m a = e \<and> 8 + unat (de_name_len e) \<le> unat (de_rec_len e) \<and>
     a mod bs + unat (de_rec_len e) \<le> bs \<and> dir_holds bs m (a + unat (de_rec_len e)) es"

lemma dir_holds_le: "dir_holds bs m a es \<Longrightarrow> a + length es \<le> length m"
  by (induction es arbitrary: a) fastforce+

lemma dir_holds_name: "dir_holds bs m a (e # es) \<Longrightarrow> length (de_name e) = unat (de_name_len e)"
  using dir_holds_le [of bs m "a + unat (de_rec_len e)" es] by (auto simp: dentry_of_def slice_def)

text \<open>A buffer that agrees with the content around an entry shows the same entry.\<close>

lemma dentry_of_same:
  assumes "slice m a k = slice m' b k" "a + k \<le> length m" "b + k \<le> length m'"
    "8 + unat (m ! (a + 6)) \<le> k"
  shows "dentry_of m a = dentry_of m' b"
proof -
  have n: "m ! (a + i) = m' ! (b + i)" if "i < k" for i
    using arg_cong [OF assms(1), of "\<lambda>xs. xs ! i"] that assms(2,3) by (simp add: slice_def)
  then have "m ! (a + 6) = m' ! (b + 6)" "m ! (a + 7) = m' ! (b + 7)" using assms(4) by simp_all
  moreover have "(ld 4 m a :: u32) = ld 4 m' b" "(ld 2 m (a + 4) :: u16) = ld 2 m' (b + 4)"
    using n assms(4) by (auto intro!: ld_shift simp: add.assoc)
  moreover have "slice m (a + 8) j = slice m' (b + 8) j" if "8 + j \<le> k" for j
  proof -
    have "slice m (a + 8) j = slice (slice m a k) 8 j" "slice m' (b + 8) j = slice (slice m' b k) 8 j"
      using that by (simp_all add: slice_def drop_take add.commute min_def)
    then show ?thesis using assms(1) by simp
  qed
  ultimately show ?thesis using assms(4) by (simp add: dentry_of_def)
qed


section \<open>Reading the entries one after the other\<close>

text \<open>The buffer of the context holds the block that the context names.\<close>

definition ctx_holds :: "(fs \<Rightarrow> ext4_inode \<Rightarrow> nat \<Rightarrow> u64) \<Rightarrow> fs \<Rightarrow> ext4_inode \<Rightarrow> inode_dir_ctx \<Rightarrow> bool" where
  "ctx_holds blk fs raw ctx \<longleftrightarrow>
     ctx_buf ctx = map (\<lambda>x. fs_flat fs (unat (blk fs raw (unat (ctx_lblock ctx))) * bsize fs + x)) [0 ..< bsize fs]"

lemma block_run:
  assumes ok: "fs_ok fs" "block_size_ok (sup fs)" and s: "same_fs fs fs1" and b: "unat b < 2 ^ 40"
  shows "\<exists>fs2. disk_read_block b fs1 = Inr (map (\<lambda>x. fs_flat fs (unat b * bsize fs + x)) [0 ..< bsize fs], fs2) \<and> same_fs fs fs2"
proof -
  note bs = block_size_bounds [OF ok(2)]
  have s1: "fs_ok fs1" "sup fs1 = sup fs" "fs_flat fs1 = fs_flat fs" using s by (simp_all add: same_fs_def)
  have m: "unat b * bsize fs \<le> 2 ^ 40 * 2 ^ 16" using b bs by (intro mult_le_mono) simp_all
  then have w: "unat (BLOCKS2BYTES b (sup fs)) = unat b * bsize fs"
    unfolding BLOCKS2BYTES_def by (subst unat_mult_small) (simp_all add: unat_ucast_up)
  have "servable fs1 (unat b * bsize fs) (bsize fs)"
    using m bs s1 by (intro servable_small) simp_all
  then obtain fs2 where f: "disk_read (unat b * bsize fs) (bsize fs) fs1 =
      Inr (map (fs_flat fs) [unat b * bsize fs ..< unat b * bsize fs + bsize fs], fs2)" "fs_ok fs2" "sup fs2 = sup fs1"
      "view (bdev fs2) = view (bdev fs1)"
    using disk_read_ok [OF s1(1), unfolded s1(3)] by blast
  have "map (fs_flat fs) [unat b * bsize fs ..< unat b * bsize fs + bsize fs] = map (\<lambda>x. fs_flat fs (unat b * bsize fs + x)) [0 ..< bsize fs]"
    by (rule nth_equalityI) simp_all
  moreover have "same_fs fs fs2" using f s1 by (simp add: same_fs_def fs_flat_def)
  ultimately show ?thesis
    using f(1) by (intro exI [of _ fs2]) (simp add: disk_read_block_def s1(2) w)
qed

context block_map
begin

lemma update_run:
  assumes ok: "ok fs raw" and s: "same_fs fs fs1" and l: "l * bsize fs < fsize raw"
  shows "\<exists>ctx' fs2. dir_ctx_update raw (of_nat l) ctx fs1 = Inr (ctx', fs2) \<and> ctx_holds blk fs raw ctx' \<and>
    ctx_lblock ctx' = of_nat l \<and> same_fs fs fs2"
proof -
  note law = ok_law [OF ok]
  obtain fs2 where f2: "inode_get_data_pblock (of_nat l) None False (inode_get 0 raw, fs1) = Inr ((blk fs raw l, None), inode_get 0 raw, fs2)"
    "same_fs fs fs2" "unat (blk fs raw l) < 2 ^ 40"
    using get_law [OF ok s l] by blast
  obtain fs3 where f3: "disk_read_block (blk fs raw l) fs2 =
      Inr (map (\<lambda>x. fs_flat fs (unat (blk fs raw l) * bsize fs + x)) [0 ..< bsize fs], fs3)" "same_fs fs fs3"
    using block_run [OF _ _ f2(2,3)] law by blast
  have "l \<le> l * bsize fs" using block_size_bounds(1) [of "sup fs"] law by simp
  then have "l < 2 ^ 32" using l law by linarith
  then have "unat (of_nat l :: u32) = l" by (simp add: unat_of_nat)
  then show ?thesis
    using f2(1) f3 by (intro exI [of _ "ctx\<lparr>ctx_buf := _, ctx_lblock := of_nat l\<rparr>"] exI [of _ fs3])
      (simp add: dir_ctx_update_def ctx_holds_def)
qed

lemma dentry_run:
  assumes ok: "ok fs raw" and s: "same_fs fs fs1" and a: "a < fsize raw" and c: "ctx_holds blk fs raw ctx"
  shows "\<exists>ctx' fs2. inode_dentry_get raw (of_nat a) ctx fs1 = Inr (Some (a mod bsize fs), ctx', fs2) \<and>
    ctx_holds blk fs raw ctx' \<and> ctx_lblock ctx' = of_nat (a div bsize fs) \<and> same_fs fs fs2"
proof -
  note law = ok_law [OF ok]
  have s1: "sup fs1 = sup fs" using s by (simp add: same_fs_def)
  have l: "a div bsize fs * bsize fs < fsize raw"
    using div_times_less_eq_dividend a by (rule le_less_trans)
  have a32: "a < 2 ^ 32" using a law by linarith
  then have u: "unat (of_nat a :: u64) = a" by (simp add: unat_of_nat)
  have w: "(ucast (of_nat a div ucast (super_block_size (sup fs)) :: u64) :: u32) = of_nat (a div bsize fs)"
    "unat (of_nat a mod ucast (super_block_size (sup fs)) :: u64) = a mod bsize fs"
    using block_word [OF refl, of "of_nat a" "sup fs"] a32 u by simp_all
  have sz: "\<not> inode_get_size (inode_get 0 raw) = of_nat a" "of_nat a \<le> inode_get_size (inode_get 0 raw)"
    using a u by (auto simp: fsize_def word_le_nat_alt)
  show ?thesis
  proof (cases "of_nat (a div bsize fs) = ctx_lblock ctx")
    case True
    then show ?thesis
      using c s sz by (intro exI [of _ ctx] exI [of _ fs1]) (simp add: inode_dentry_get_def Let_def s1 w)
  next
    case False
    obtain ctx' fs2 where "dir_ctx_update raw (of_nat (a div bsize fs)) ctx fs1 = Inr (ctx', fs2)" "ctx_holds blk fs raw ctx'"
      "ctx_lblock ctx' = of_nat (a div bsize fs)" "same_fs fs fs2"
      using update_run [OF ok s l] by blast
    then show ?thesis
      using False sz by (intro exI [of _ ctx'] exI [of _ fs2]) (simp add: inode_dentry_get_def Let_def s1 w)
  qed
qed

lemma dentry_end:
  assumes "ok fs raw" "same_fs fs fs1"
  shows "inode_dentry_get raw (of_nat (fsize raw)) ctx fs1 = Inr (None, ctx, fs1)"
  using assms ok_law [OF assms(1)] by (simp add: inode_dentry_get_def Let_def fsize_def)

end


section \<open>The walks over a directory\<close>

text \<open>The inode of the first used entry with a name, the names that a listing shows with the offsets of the
  entries that follow them, and a listing that goes on until the caller's function returns nonzero.\<close>

definition dir_find :: "ext4_dir_entry_2 list \<Rightarrow> bytes \<Rightarrow> u32 option" where
  "dir_find es nm = map_option de_inode (find (\<lambda>e. de_inode e \<noteq> 0 \<and> de_name e = nm) es)"

fun dir_names :: "nat \<Rightarrow> ext4_dir_entry_2 list \<Rightarrow> (bytes \<times> u64) list" where
  "dir_names a [] = []"
| "dir_names a (e # es) =
    (let a = a + unat (de_rec_len e); nm = d_string (de_name e)
     in if de_inode e = 0 \<or> nm = [] then dir_names a es else (nm, of_nat a) # dir_names a es)"

fun feed :: "('b \<Rightarrow> bytes \<Rightarrow> u64 \<Rightarrow> 'b \<times> int) \<Rightarrow> 'b \<Rightarrow> (bytes \<times> u64) list \<Rightarrow> 'b" where
  "feed filler buf [] = buf"
| "feed filler buf ((nm, off) # xs) = (let (buf, stop) = filler buf nm off in if stop \<noteq> 0 then buf else feed filler buf xs)"

context block_map
begin

lemma entry_run:
  assumes ok: "ok fs raw" and s: "same_fs fs fs1" and c: "ctx_holds blk fs raw ctx"
    and h: "dir_holds (bsize fs) (bytes_by blk fs raw) a (e # es)"
  shows "\<exists>p ctx' fs2. inode_dentry_get raw (of_nat a) ctx fs1 = Inr (Some p, ctx', fs2) \<and> dentry_at ctx' p = Inr e \<and>
    p + 8 + unat (de_name_len e) \<le> length (ctx_buf ctx') \<and> ctx_holds blk fs raw ctx' \<and> same_fs fs fs2 \<and> a < 2 ^ 32"
proof -
  define bs m k where "bs = bsize fs" and "m = bytes_by blk fs raw" and "k = unat (de_rec_len e)"
  note law = ok_law [OF ok]
  have h: "dentry_of m a = e" "8 + unat (de_name_len e) \<le> k" "a mod bs + k \<le> bs" "a + k + length es \<le> length m"
    using h dir_holds_le [of bs m "a + k" es] by (simp_all add: bs_def m_def k_def)
  have m: "length m = fsize raw" by (simp add: m_def bytes_by_def)
  have a: "a < fsize raw" "a < 2 ^ 32" using h m law by linarith+
  obtain ctx' fs2 where d: "inode_dentry_get raw (of_nat a) ctx fs1 = Inr (Some (a mod bs), ctx', fs2)"
    "ctx_holds blk fs raw ctx'" "ctx_lblock ctx' = of_nat (a div bs)" "same_fs fs fs2"
    using dentry_run [OF ok s a(1) c] by (auto simp: bs_def)
  have "a div bs < 2 ^ 32" using a(2) div_le_dividend le_less_trans by blast
  then have l: "unat (of_nat (a div bs) :: u32) = a div bs" by (simp add: unat_of_nat)
  have buf: "ctx_buf ctx' = map (\<lambda>x. fs_flat fs (unat (blk fs raw (a div bs)) * bs + x)) [0 ..< bs]"
    using d(2) unfolding ctx_holds_def d(3) bs_def [symmetric] l .
  have "slice (ctx_buf ctx') (a mod bs) k = slice m a k"
  proof (rule nth_equalityI)
    fix j assume "j < length (slice (ctx_buf ctx') (a mod bs) k)"
    then have j: "j < k" by (simp add: slice_def)
    have ij: "a + j = a div bs * bs + (a mod bs + j)" by simp
    have "(q * c + x) div c = q \<and> (q * c + x) mod c = x" if "x < c" for q c x :: nat
      using that by simp
    then have dm: "(a + j) div bs = a div bs" "(a + j) mod bs = a mod bs + j"
      using j h(3) unfolding ij by (metis add_less_cancel_left less_le_trans)+
    have "m ! (a + j) = fs_flat fs (unat (blk fs raw ((a + j) div bs)) * bs + (a + j) mod bs)"
      using j h(4) m by (simp add: m_def bytes_by_def bs_def)
    then show "slice (ctx_buf ctx') (a mod bs) k ! j = slice m a k ! j"
      using j h(3,4) by (simp add: slice_def buf dm)
  qed (use h(3,4) in \<open>simp add: slice_def buf\<close>)
  moreover have "m ! (a + 6) = de_name_len e" unfolding h(1) [symmetric] by (simp add: dentry_of_def)
  moreover have "a mod bs + k \<le> length (ctx_buf ctx')" using h(3) by (simp add: buf)
  ultimately have "dentry_of (ctx_buf ctx') (a mod bs) = e"
    using h(1,2,4) dentry_of_same [of m a k "ctx_buf ctx'" "a mod bs"] by simp
  then show ?thesis
    using d a(2) h(2,3) by (intro exI [of _ "a mod bs"] exI [of _ ctx'] exI [of _ fs2]) (simp add: dentry_at_def c_defined_def buf)
qed

end


context block_map
begin

lemma scan_run:
  assumes ok: "ok fs raw" and n: "n < 256" "n \<le> length path"
  shows "same_fs fs fs1 \<Longrightarrow> ctx_holds blk fs raw ctx \<Longrightarrow> dir_holds (bsize fs) (bytes_by blk fs raw) a es \<Longrightarrow> length es < rounds \<Longrightarrow>
    \<exists>ctx' fs2. scan_dir rounds raw path (of_nat n) (of_nat a) ctx fs1 = Inr (dir_find es (take n path), ctx', fs2) \<and>
      same_fs fs fs2 \<and> ctx_holds blk fs raw ctx'"
proof (induction es arbitrary: a ctx fs1 rounds)
  case Nil
  then obtain r where r: "rounds = Suc r" by (cases rounds) auto
  have a: "a = fsize raw" using Nil.prems(3) by (simp add: bytes_by_def)
  have "(ucast (of_nat a :: u32) :: u64) = of_nat a"
    using ok_law [OF ok] by (intro word_unat_eq_iff [THEN iffD2]) (simp add: unat_ucast_up unat_of_nat a)
  then show ?case
    using dentry_end [OF ok Nil.prems(1), of ctx] Nil.prems(1,2) by (simp add: r a dir_find_def)
next
  case (Cons e es)
  from Cons.prems(4) obtain r where r: "rounds = Suc r" "length es < r" by (cases rounds) auto
  obtain p ctx' fs2 where d: "inode_dentry_get raw (of_nat a) ctx fs1 = Inr (Some p, ctx', fs2)" "dentry_at ctx' p = Inr e"
    "p + 8 + unat (de_name_len e) \<le> length (ctx_buf ctx')" "ctx_holds blk fs raw ctx'" "same_fs fs fs2" "a < 2 ^ 32"
    using entry_run [OF ok Cons.prems(1-3)] by blast
  have 64: "(ucast (of_nat a :: u32) :: u64) = of_nat a"
    using d(6) by (intro word_unat_eq_iff [THEN iffD2]) (simp add: unat_ucast_up unat_of_nat)
  define a' where "a' = a + unat (de_rec_len e)"
  have nx: "of_nat a + ucast (de_rec_len e) = (of_nat a' :: u32)" by (simp add: a'_def)
  have h: "dir_holds (bsize fs) (bytes_by blk fs raw) a' es" using Cons.prems(3) by (simp add: a'_def)
  have len: "length (de_name e) = unat (de_name_len e)" by (rule dir_holds_name [OF Cons.prems(3)])
  have nm: "(of_nat n :: u8) = de_name_len e \<and> take (unat (de_name_len e)) path = de_name e \<longleftrightarrow> de_name e = take n path"
  proof -
    have "(of_nat n :: u8) = de_name_len e \<longleftrightarrow> n = unat (de_name_len e)"
      using n(1) by (auto simp: word_unat_eq_iff unat_of_nat)
    moreover have "length (take n path) = n" using n(2) by simp
    ultimately show ?thesis using len by metis
  qed
  show ?case
  proof (cases "de_inode e \<noteq> 0 \<and> de_name e = take n path")
    case True
    with nm show ?thesis
      using d(1-5) by (simp add: r 64 dir_find_def c_defined_def)
  next
    case False
    obtain ctx3 fs3 where f: "scan_dir r raw path (of_nat n) (of_nat a') ctx' fs2 =
        Inr (dir_find es (take n path), ctx3, fs3)" "same_fs fs fs3" "ctx_holds blk fs raw ctx3"
      using Cons.IH [OF d(5,4) h r(2)] by blast
    have "scan_dir rounds raw path (of_nat n) (of_nat a) ctx fs1 = scan_dir r raw path (of_nat n) (of_nat a') ctx' fs2"
    proof (cases "de_inode e = 0 \<or> of_nat n \<noteq> de_name_len e")
      case True
      then show ?thesis using d(1,2) by (auto simp: r(1) 64 Let_def nx)
    next
      case other: False
      then have "take (unat (de_name_len e)) path \<noteq> de_name e" using nm False by blast
      then show ?thesis using other d(1-3) by (simp add: r(1) 64 Let_def nx c_defined_def)
    qed
    then show ?thesis using f False by (auto simp: dir_find_def)
  qed
qed

lemma readdir_run:
  assumes ok: "ok fs raw"
  shows "same_fs fs fs1 \<Longrightarrow> ctx_holds blk fs raw ctx \<Longrightarrow> dir_holds (bsize fs) (bytes_by blk fs raw) a es \<Longrightarrow> length es < rounds \<Longrightarrow>
    \<forall>e \<in> set es. de_inode e \<noteq> 0 \<longrightarrow> de_name_len e < 255 \<Longrightarrow>
    \<exists>fs2. readdir_loop rounds filler raw buf (of_nat a) ctx fs1 = Inr (feed filler buf (dir_names a es), fs2) \<and> same_fs fs fs2"
proof (induction es arbitrary: a ctx fs1 rounds buf)
  case Nil
  then obtain r where r: "rounds = Suc r" by (cases rounds) auto
  have a: "a = fsize raw" using Nil.prems(3) by (simp add: bytes_by_def)
  then show ?case
    using dentry_end [OF ok Nil.prems(1), of ctx] Nil.prems(1,2) by (simp add: r)
next
  case (Cons e es)
  from Cons.prems(4) obtain r where r: "rounds = Suc r" "length es < r" by (cases rounds) auto
  obtain p ctx' fs2 where d: "inode_dentry_get raw (of_nat a) ctx fs1 = Inr (Some p, ctx', fs2)" "dentry_at ctx' p = Inr e"
    "p + 8 + unat (de_name_len e) \<le> length (ctx_buf ctx')" "ctx_holds blk fs raw ctx'" "same_fs fs fs2" "a < 2 ^ 32"
    using entry_run [OF ok Cons.prems(1-3)] by blast
  define nm where "nm = d_string (de_name e)"
  define a' where "a' = a + unat (de_rec_len e)"
  have nx: "of_nat a + ucast (de_rec_len e) = (of_nat a' :: u64)" by (simp add: a'_def)
  have h: "dir_holds (bsize fs) (bytes_by blk fs raw) a' es" using Cons.prems(3) by (simp add: a'_def)
  have IH: "\<exists>fs3. readdir_loop r filler raw b (of_nat a') ctx' fs2 = Inr (feed filler b (dir_names a' es), fs3) \<and> same_fs fs fs3" for b
    using Cons.IH [OF d(5,4) h r(2)] Cons.prems(5) by simp
  show ?case
  proof (cases "de_inode e = 0")
    case True
    then show ?thesis using IH [of buf] d(1,2) by (simp add: r(1) Let_def nx flip: a'_def)
  next
    case False
    then have "unat (de_name_len e) < 255" using Cons.prems(5) by (simp add: word_less_nat_alt)
    then have g: "get_printable_name ctx' p e = Inr nm"
      using d(3) by (simp add: get_printable_name_def c_defined_def nm_def d_string_def)
    obtain buf' stop where fl: "filler buf nm (of_nat a') = (buf', stop)" by (cases "filler buf nm (of_nat a')")
    show ?thesis
      using IH [of buf] IH [of buf'] d(1,2,5) g fl False by (simp add: r(1) Let_def nx flip: a'_def nm_def)
  qed
qed

end

end
