(* ===== verification/E4F_Path.thy ===== *)
theory E4F_Path
  imports E4F_Dir
begin

text \<open>
  The resolution of a path by inode_get_idx_by_path() of src/inode.c, through the cache of directory entries
  of src/dcache.c and the directories of the device, against a tree of names; and the listing of a
  directory by its path with op_readdir() of src/op_readdir.c.
\<close>

section \<open>The tree of names\<close>

abbreviation (input) file_bytes :: "fs \<Rightarrow> ext4_inode \<Rightarrow> bytes" where
  "file_bytes \<equiv> bytes_by file_block"

text \<open>A tree maps the inode numbers of directories to their entries. A path that leaves the tree, because a
  component that is not the last one is no directory, has no meaning; a missing name has the number 0.\<close>

fun resolve :: "(u32 \<Rightarrow> ext4_dir_entry_2 list option) \<Rightarrow> u32 \<Rightarrow> bytes list \<Rightarrow> u32 option" where
  "resolve T n [] = Some n"
| "resolve T n (c # cs) =
    (case T n of
       None \<Rightarrow> None
     | Some es \<Rightarrow> (case dir_find es c of None \<Rightarrow> Some 0 | Some k \<Rightarrow> resolve T k cs))"

definition holds_dir :: "fs \<Rightarrow> ext4_inode \<Rightarrow> ext4_dir_entry_2 list \<Rightarrow> bool" where
  "holds_dir fs raw es \<longleftrightarrow> file_ok fs raw \<and> S_ISDIR (i_mode raw) \<and> es \<noteq> [] \<and> dir_holds (bsize fs) (file_bytes fs raw) 0 es"

text \<open>The device has the directory \<open>n\<close>, whatever the structure of the caller held before.\<close>

definition dir_on :: "fs \<Rightarrow> u32 \<Rightarrow> ext4_dir_entry_2 list \<Rightarrow> bool" where
  "dir_on fs n es \<longleftrightarrow> n \<noteq> 0 \<and> fs_ok fs \<and> block_size_ok (sup fs) \<and>
     (\<exists>off. inode_offset (n - 1) (sup fs) = Inr off \<and> unat off < 2 ^ 62 \<and> (\<forall>raw. inode_wf raw \<longrightarrow> holds_dir fs (inode_from fs off raw) es))"

definition tree_on :: "fs \<Rightarrow> (u32 \<Rightarrow> ext4_dir_entry_2 list option) \<Rightarrow> bool" where
  "tree_on fs T \<longleftrightarrow> (\<forall>n es. T n = Some es \<longrightarrow> dir_on fs n es)"

lemma dir_get_run:
  assumes d: "dir_on fs n es" and s: "same_fs fs fs1" and raw: "inode_wf raw"
  shows "\<exists>r fs2. inode_get_by_number n raw fs1 = Inr (0, r, fs2) \<and> same_fs fs fs2 \<and> inode_wf r \<and> holds_dir fs r es"
proof -
  obtain off where off: "inode_offset (n - 1) (sup fs) = Inr off" "unat off < 2 ^ 62" "holds_dir fs (inode_from fs off raw) es"
    and n: "n \<noteq> 0" "block_size_ok (sup fs)"
    using d raw by (auto simp: dir_on_def)
  have s1: "fs_ok fs1" "sup fs1 = sup fs" "fs_flat fs1 = fs_flat fs" using s by (simp_all add: same_fs_def)
  have "servable fs1 (unat off) (inode_disk_size (sup fs1))"
    using off(2) disk_size_le [of "sup fs"] block_size_bounds(1) [OF n(2)] s1(2) by (intro servable_small) simp_all
  from inode_get_run [OF s1(1) _ n(1) this, of raw] off(1) s1(2)
  obtain fs2 where "inode_get_by_number n raw fs1 = Inr (0, inode_from fs off raw, fs2)" "same_fs fs1 fs2"
    by (auto simp: inode_from_def s1(3))
  then show ?thesis
    using off(3) inode_from_wf [OF raw] same_fs_trans [OF s] by blast
qed

text \<open>One search of a directory, from the number of its inode.\<close>

lemma search_dir_run:
  assumes d: "dir_on fs n es" and s: "same_fs fs fs1" and raw: "inode_wf raw" and k: "k < 256" "k \<le> length path"
  shows "\<exists>r fs2 ctx2 fs3 ctx4 fs4. inode_get_by_number n raw fs1 = Inr (0, r, fs2) \<and> inode_dir_ctx_reset ctx r fs2 = Inr (ctx2, fs3) \<and>
    scan_dir (unat (inode_get_size (inode_get 0 r)) + 2) r path (of_nat k) 0 ctx2 fs3 = Inr (dir_find es (take k path), ctx4, fs4) \<and>
    same_fs fs fs4 \<and> inode_wf r \<and> S_ISDIR (i_mode r)"
proof -
  obtain r fs2 where g: "inode_get_by_number n raw fs1 = Inr (0, r, fs2)" "same_fs fs fs2" "inode_wf r" "holds_dir fs r es"
    using dir_get_run [OF d s raw] by blast
  note h = g(4) [unfolded holds_dir_def]
  have len: "length es \<le> fsize r" using dir_holds_le [of "bsize fs" "file_bytes fs r" 0 es] h by (simp add: bytes_by_def)
  with h have "0 * bsize fs < fsize r" by (cases es) auto
  then obtain ctx2 fs3 where u: "dir_ctx_update r 0 ctx fs2 = Inr (ctx2, fs3)" "ctx_holds file_block fs r ctx2" "same_fs fs fs3"
    using fb.update_run [of fs r fs2 0 ctx] h g(2) by auto
  obtain ctx4 fs4 where "scan_dir (fsize r + 2) r path (of_nat k) (of_nat 0) ctx2 fs3 = Inr (dir_find es (take k path), ctx4, fs4)" "same_fs fs fs4"
    using fb.scan_run [of fs r k path fs3 ctx2 0 es "fsize r + 2"] h u(2,3) k len by auto
  then show ?thesis
    using g(1,3) u(1) h by (intro exI) (auto simp: inode_dir_ctx_reset_def fsize_def)
qed


section \<open>Paths as lists of components\<close>

definition comp_ok :: "bytes \<Rightarrow> bool" where
  "comp_ok c \<longleftrightarrow> c \<noteq> [] \<and> length c < 256 \<and> 0 \<notin> set c \<and> SLASH \<notin> set c"

definition slashed :: "bytes list \<Rightarrow> bytes" where
  "slashed cs = concat (map (\<lambda>c. SLASH # c) cs)"

definition tail_of :: "bytes list \<Rightarrow> bytes" where
  "tail_of cs = (case cs of [] \<Rightarrow> [] | c # cs \<Rightarrow> c @ slashed cs)"

definition path_of :: "bytes list \<Rightarrow> bytes" where
  "path_of cs = SLASH # tail_of cs"

lemma slashed_simps [simp]: "slashed [] = []" "slashed (c # cs) = SLASH # c @ slashed cs"
  by (simp_all add: slashed_def)

lemma tail_of_simps [simp]: "tail_of [] = []" "tail_of (c # cs) = c @ slashed cs"
  by (simp_all add: tail_of_def)

lemma slashed_tail: "cs \<noteq> [] \<Longrightarrow> slashed cs = SLASH # tail_of cs"
  by (cases cs) simp_all

lemma slashed_length: "length cs \<le> length (slashed cs)"
  by (induction cs) auto

lemma tail_of_length: "list_all comp_ok cs \<Longrightarrow> length cs \<le> length (tail_of cs)"
  using slashed_length [of "tl cs"] by (cases cs; cases "hd cs") (auto simp: comp_ok_def)

lemma takeWhile_slashed:
  "(\<And>x. x \<in> set c \<Longrightarrow> P x) \<Longrightarrow> \<not> P SLASH \<Longrightarrow> takeWhile P (c @ slashed cs) = c"
  "(\<And>x. x \<in> set c \<Longrightarrow> P x) \<Longrightarrow> \<not> P SLASH \<Longrightarrow> dropWhile P (c @ slashed cs) = slashed cs"
  by (cases cs; simp add: takeWhile_append2 dropWhile_append2)+

lemma token_tail:
  assumes "list_all comp_ok cs"
  shows "get_path_token_len (tail_of cs) = Inr (case cs of [] \<Rightarrow> 0 | c # _ \<Rightarrow> of_nat (length c))"
proof -
  have "component (tail_of cs) = (case cs of [] \<Rightarrow> [] | c # _ \<Rightarrow> c)"
    using assms by (cases cs) (auto simp: component_def comp_ok_def intro!: takeWhile_slashed)
  then show ?thesis
    using token_len_reached [of "tail_of cs" 0 257] assms by (cases cs) (auto simp: get_path_token_len_def comp_ok_def)
qed

lemma comp_token:
  assumes "comp_ok c"
  shows "token (c @ xs) (length c)" "unat (of_nat (length c) :: u8) = length c" "(of_nat (length c) :: u8) \<noteq> 0"
  using assms by (auto simp: comp_ok_def token_def unat_of_nat word_unat_eq_iff)

lemma skip_slashes:
  assumes "list_all comp_ok cs"
  shows "skip_trailing_backslash (tail_of cs) = tail_of cs" "skip_trailing_backslash (slashed cs) = tail_of cs"
proof -
  show t: "skip_trailing_backslash (tail_of cs) = tail_of cs"
  proof (cases cs)
    case (Cons c cs')
    then obtain x xs where "c = x # xs" "x \<noteq> SLASH" using assms by (cases c) (auto simp: comp_ok_def)
    then show ?thesis using Cons by (simp add: skip_trailing_backslash_def)
  qed (simp add: skip_trailing_backslash_def)
  then show "skip_trailing_backslash (slashed cs) = tail_of cs"
    by (cases cs) (simp_all add: skip_trailing_backslash_def)
qed

text \<open>One round of the walk.\<close>

lemma path_round:
  assumes d: "dir_on fs idx es" and cs: "list_all comp_ok (c # cs)" and path: "skip_trailing_backslash path = tail_of (c # cs)"
    and s: "same_fs fs fs1" and raw: "inode_wf raw"
  shows "\<exists>r ctx' fs2. same_fs fs fs2 \<and> inode_wf r \<and>
    path_loop (Suc rounds) path idx dce raw ctx dc fs1 =
      (case dir_find es c of
         None \<Rightarrow> Inr (0, dc, fs2)
       | Some k \<Rightarrow> res_bind (dcache_insert dce (tail_of (c # cs)) (length c) k dc) (\<lambda>(dce, dc).
           if cs = [] then Inr (k, dc, fs2) else path_loop rounds (slashed cs) k dce r ctx' dc fs2))"
proof -
  have c: "comp_ok c" using cs by simp
  note t = comp_token [OF c]
  have k: "length c < 256" "length c \<le> length (tail_of (c # cs))" "take (length c) (tail_of (c # cs)) = c"
    using c by (simp_all add: comp_ok_def)
  obtain r fs2 ctx2 fs3 ctx4 fs4 where f: "inode_get_by_number idx raw fs1 = Inr (0, r, fs2)" "inode_dir_ctx_reset ctx r fs2 = Inr (ctx2, fs3)"
    "scan_dir (unat (inode_get_size (inode_get 0 r)) + 2) r (tail_of (c # cs)) (of_nat (length c)) 0 ctx2 fs3 = Inr (dir_find es c, ctx4, fs4)"
    "same_fs fs fs4" "inode_wf r" "S_ISDIR (i_mode r)"
    using search_dir_run [OF d s raw k(1,2), of ctx] k(3) by auto
  have "dropWhile (\<lambda>x. x \<noteq> SLASH) (tail_of (c # cs)) = slashed cs"
    using c unfolding tail_of_simps by (intro takeWhile_slashed(2)) (auto simp: comp_ok_def)
  moreover have "slashed cs = [] \<longleftrightarrow> cs = []" by (cases cs) simp_all
  ultimately have "path_loop (Suc rounds) path idx dce raw ctx dc fs1 =
      (case dir_find es c of
         None \<Rightarrow> Inr (0, dc, fs4)
       | Some k \<Rightarrow> res_bind (dcache_insert dce (tail_of (c # cs)) (length c) k dc) (\<lambda>(dce, dc).
           if cs = [] then Inr (k, dc, fs4) else path_loop rounds (slashed cs) k dce r ctx4 dc fs4))"
    using f(1-3,6) token_tail [OF cs] t(2,3)
    by (simp add: path Let_def del: tail_of_simps split: option.split)
  then show ?thesis using f(4,5) by blast
qed


section \<open>The cache agrees with the tree\<close>

definition dc_node :: "dcache \<Rightarrow> nat option \<Rightarrow> u32" where
  "dc_node d p = dc_ino d (dref p)"

text \<open>Every entry of the cache names what the directory of its parent names, and the root is inode 2.\<close>

definition dc_agrees :: "(u32 \<Rightarrow> ext4_dir_entry_2 list option) \<Rightarrow> dcache \<Rightarrow> bool" where
  "dc_agrees T d \<longleftrightarrow> dc_inv d \<and> dc_valid d None \<and> dc_node d None = 2 \<and>
     (\<forall>p x e. dc_has d p x e \<longrightarrow> (\<exists>es. T (dc_node d p) = Some es \<and> dir_find es x = Some (dc_ino d e)))"

lemma dc_agreesD:
  assumes "dc_agrees T d"
  shows "dc_inv d" "dc_valid d None" "dc_node d None = 2"
    "dc_has d p x e \<Longrightarrow> \<exists>es. T (dc_node d p) = Some es \<and> dir_find es x = Some (dc_ino d e)"
  using assms by (simp_all add: dc_agrees_def)

lemma child_parent_less: "dc_inv d \<Longrightarrow> child d p x e \<Longrightarrow> p < d_next d"
  using child_iff dc_ringsD(4) unfolding dc_inv_def by blast

lemma agrees_lookup:
  assumes d: "dc_agrees T d" "dc_valid d p" and t: "token nm n"
  shows "\<exists>r d'. dcache_lookup p nm n d = Inr (r, d') \<and> dc_agrees T d' \<and> dc_has d' = dc_has d \<and> dc_valid d' = dc_valid d \<and>
    dc_node d' = dc_node d \<and>
    (case r of None \<Rightarrow> \<forall>e. \<not> dc_has d p (take n nm) e
     | Some e \<Rightarrow> dc_has d p (take n nm) e \<and> dc_valid d (Some e) \<and>
         (\<exists>es. T (dc_node d p) = Some es \<and> dir_find es (take n nm) = Some (dc_node d (Some e))))"
proof -
  note a = dc_agreesD [OF d(1)]
  obtain r d' where l: "dcache_lookup p nm n d = Inr (r, d')" "dc_inv d'" "dc_has d' = dc_has d" "dc_valid d' = dc_valid d"
    "dc_ino d' = dc_ino d" "\<forall>e. r = Some e \<longleftrightarrow> dc_has d p (take n nm) e"
    using dc.look_law [OF a(1) d(2) t] by blast
  have nd: "dc_node d' = dc_node d" by (simp add: fun_eq_iff dc_node_def l(5))
  have "dc_agrees T d'" using d(1) l(2-5) nd by (simp add: dc_agrees_def)
  moreover have "case r of None \<Rightarrow> \<forall>e. \<not> dc_has d p (take n nm) e
     | Some e \<Rightarrow> dc_has d p (take n nm) e \<and> dc_valid d (Some e) \<and>
         (\<exists>es. T (dc_node d p) = Some es \<and> dir_find es (take n nm) = Some (dc_node d (Some e)))"
  proof (cases r)
    case (Some e)
    then have h: "dc_has d p (take n nm) e" using l(6) by blast
    then have "dc_valid d (Some e)" using child_less [OF a(1)] by (simp add: dc_has_def dc_valid_def dref_def)
    then show ?thesis using a(4) [OF h] h Some by (simp add: dc_node_def dref_def)
  qed (use l(6) in auto)
  ultimately show ?thesis using l(1,3,4) nd by blast
qed

lemma agrees_insert:
  assumes d: "dc_agrees T d" "dc_valid d p" and t: "token nm n" "n < 40"
    and new: "\<forall>e. \<not> dc_has d p (take n nm) e" and v: "T (dc_node d p) = Some es" "dir_find es (take n nm) = Some v"
  shows "\<exists>e d'. dcache_insert p nm n v d = Inr (Some e, d') \<and> dc_agrees T d' \<and> dc_valid d' (Some e) \<and> dc_node d' (Some e) = v \<and>
    (\<forall>x y. \<not> dc_has d' (Some e) x y)"
proof -
  note a = dc_agreesD [OF d(1)]
  have p: "dref p < d_next d" "p = None \<longrightarrow> d_inode (entry_at d d_root) \<noteq> 0" using d(2) by (simp_all add: dc_valid_def)
  obtain d' where i: "dcache_insert p nm n v d = Inr (Some (d_next d), d')" "dc_inv d'" "d_next d' = Suc (d_next d)"
    "\<forall>q x e. child d' q x e \<longleftrightarrow> child d q x e \<or> q = dref p \<and> x = take n nm \<and> e = d_next d"
    "\<forall>a < d_next d. d_inode (entry_at d' a) = d_inode (entry_at d a)" "d_inode (entry_at d' (d_next d)) = v"
    using dcache_insert_ok [OF a(1) p(1) refl p(2) t, of v] new unfolding dc_has_def by blast
  have root: "d_root < d_next d" using a(2) by (simp add: dc_valid_def dref_def)
  have nd: "dc_node d' q = dc_node d q" if "dref q < d_next d" for q
    using i(5) that by (simp add: dc_node_def dc_ino_def)
  have "\<exists>es. T (dc_node d' q) = Some es \<and> dir_find es x = Some (dc_ino d' e)" if "dc_has d' q x e" for q x e
  proof (cases "dc_has d q x e")
    case True
    then show ?thesis
      using a(4) [OF True] child_less [OF a(1)] child_parent_less [OF a(1)] i(5) nd by (auto simp: dc_has_def dc_ino_def)
  next
    case False
    then have "dref q = dref p" "x = take n nm" "e = d_next d" using that i(4) by (auto simp: dc_has_def)
    moreover have "dc_node d' q = dc_node d p" using nd [of q] p(1) \<open>dref q = dref p\<close> by (simp add: dc_node_def)
    ultimately show ?thesis using v i(6) by (simp add: dc_ino_def)
  qed
  moreover have "dc_valid d' None" "dc_node d' None = 2"
    using a(2,3) i(3,5) root nd [of None] by (simp_all add: dc_valid_def dref_def)
  ultimately have "dc_agrees T d'" using i(2) unfolding dc_agrees_def by blast
  moreover have "dc_valid d' (Some (d_next d))" using i(3) by (simp add: dc_valid_def dref_def)
  moreover have "\<not> dc_has d' (Some (d_next d)) x y" for x y
    using i(4) child_parent_less [OF a(1), of "d_next d"] p(1) by (auto simp: dc_has_def dref_def [of "Some _"])
  ultimately show ?thesis
    using i(1,6) by (intro exI [of _ "d_next d"] exI [of _ d']) (simp add: dc_node_def dc_ino_def dref_def)
qed

lemma node_get:
  assumes "dc_inv d" "dc_valid d p"
  shows "dcache_get_inode p d = Inr (dc_node d p)"
proof -
  obtain K where "dc_rings d K" using assms(1) by (auto simp: dc_inv_def)
  then show ?thesis using assms(2) d_get_entry by (simp add: dcache_get_inode_def dc_valid_def dc_node_def dc_ino_def)
qed

section \<open>The two parts of the walk\<close>

text \<open>One round of get_cached_inode_num().\<close>

lemma cached_step:
  assumes d: "dc_agrees T d" "dc_valid d p" and cs: "list_all comp_ok (c # cs)"
    and path: "(case path of c # xs \<Rightarrow> if c = SLASH then xs else path | [] \<Rightarrow> []) = tail_of (c # cs)"
  shows "\<exists>x d'. cached_loop (Suc r) path p d =
      (case x of None \<Rightarrow> Inr (p, tail_of (c # cs), d') | Some e \<Rightarrow> cached_loop r (slashed cs) (Some e) d') \<and>
    dc_agrees T d' \<and> dc_has d' = dc_has d \<and> dc_valid d' = dc_valid d \<and> dc_node d' = dc_node d \<and>
    (case x of None \<Rightarrow> \<forall>e. \<not> dc_has d p c e
     | Some e \<Rightarrow> dc_has d p c e \<and> dc_valid d (Some e) \<and>
         (\<exists>es. T (dc_node d p) = Some es \<and> dir_find es c = Some (dc_node d (Some e))))"
proof -
  have c: "comp_ok c" using cs by simp
  note t = comp_token [OF c]
  have tk: "take (length c) (tail_of (c # cs)) = c" by simp
  obtain x d' where l: "dcache_lookup p (tail_of (c # cs)) (length c) d = Inr (x, d')" "dc_agrees T d'" "dc_has d' = dc_has d"
    "dc_valid d' = dc_valid d" "dc_node d' = dc_node d"
    "case x of None \<Rightarrow> \<forall>e. \<not> dc_has d p c e
     | Some e \<Rightarrow> dc_has d p c e \<and> dc_valid d (Some e) \<and>
         (\<exists>es. T (dc_node d p) = Some es \<and> dir_find es c = Some (dc_node d (Some e)))"
    using agrees_lookup [OF d t(1) [of "slashed cs", folded tail_of_simps]] unfolding tk by blast
  have "cached_loop (Suc r) path p d =
      (case x of None \<Rightarrow> Inr (p, tail_of (c # cs), d') | Some e \<Rightarrow> cached_loop r (slashed cs) (Some e) d')"
    using t(2,3) l(1) token_tail [OF cs] by (simp add: path Let_def split: option.split)
  then show ?thesis using l by blast
qed

lemma cached_run:
  "dc_agrees T d \<Longrightarrow> dc_valid d p \<Longrightarrow> list_all comp_ok cs \<Longrightarrow> length cs < rounds \<Longrightarrow>
   (case path of c # xs \<Rightarrow> if c = SLASH then xs else path | [] \<Rightarrow> []) = tail_of cs \<Longrightarrow>
   \<exists>p' cs' d'. cached_loop rounds path p d = Inr (p', tail_of cs', d') \<and> dc_agrees T d' \<and> dc_valid d' p' \<and> list_all comp_ok cs' \<and>
     set cs' \<subseteq> set cs \<and> resolve T (dc_node d' p') cs' = resolve T (dc_node d p) cs \<and>
     (cs' \<noteq> [] \<longrightarrow> (\<forall>e. \<not> dc_has d' p' (hd cs') e)) \<and> dc_has d' = dc_has d"
proof (induction cs arbitrary: rounds path p d)
  case Nil
  then obtain r where "rounds = Suc r" by (cases rounds) auto
  moreover have "get_path_token_len (tail_of []) = Inr 0" using token_tail [of "[]"] by simp
  ultimately have "cached_loop rounds path p d = Inr (p, tail_of [], d)"
    using Nil.prems(5) by (simp add: Let_def)
  then show ?case using Nil.prems by (intro exI [of _ p] exI [of _ "[]"] exI [of _ d]) simp
next
  case (Cons c cs)
  from Cons.prems(4) obtain r where r: "rounds = Suc r" "length cs < r" by (cases rounds) auto
  obtain x d' where l: "cached_loop rounds path p d =
      (case x of None \<Rightarrow> Inr (p, tail_of (c # cs), d') | Some e \<Rightarrow> cached_loop r (slashed cs) (Some e) d')"
    "dc_agrees T d'" "dc_has d' = dc_has d" "dc_valid d' = dc_valid d" "dc_node d' = dc_node d"
    "case x of None \<Rightarrow> \<forall>e. \<not> dc_has d p c e
     | Some e \<Rightarrow> dc_has d p c e \<and> dc_valid d (Some e) \<and>
         (\<exists>es. T (dc_node d p) = Some es \<and> dir_find es c = Some (dc_node d (Some e)))"
    using cached_step [OF Cons.prems(1,2,3,5), of r] unfolding r(1) by blast
  show ?case
  proof (cases x)
    case None
    then show ?thesis
      using l Cons.prems(2,3) by (intro exI [of _ p] exI [of _ "c # cs"] exI [of _ d']) simp
  next
    case (Some e)
    then obtain es where es: "dc_valid d (Some e)" "T (dc_node d p) = Some es" "dir_find es c = Some (dc_node d (Some e))"
      using l(6) by auto
    have v: "dc_valid d' (Some e)" using es(1) l(4) by simp
    have sl: "(case slashed cs of c # xs \<Rightarrow> if c = SLASH then xs else slashed cs | [] \<Rightarrow> []) = tail_of cs"
      by (cases cs) simp_all
    obtain p' cs' d2 where f: "cached_loop r (slashed cs) (Some e) d' = Inr (p', tail_of cs', d2)" "dc_agrees T d2" "dc_valid d2 p'"
      "list_all comp_ok cs'" "set cs' \<subseteq> set cs" "resolve T (dc_node d2 p') cs' = resolve T (dc_node d' (Some e)) cs"
      "cs' \<noteq> [] \<longrightarrow> (\<forall>e. \<not> dc_has d2 p' (hd cs') e)" "dc_has d2 = dc_has d'"
      using Cons.IH [OF l(2) v _ r(2) sl] Cons.prems(3) by auto
    have "resolve T (dc_node d p) (c # cs) = resolve T (dc_node d (Some e)) cs" using es by simp
    then show ?thesis
      using f l(1,3,5) Some by (intro exI [of _ p'] exI [of _ cs'] exI [of _ d2]) auto
  qed
qed

lemma path_run:
  assumes T: "tree_on fs T"
  shows "same_fs fs fs1 \<Longrightarrow> inode_wf raw \<Longrightarrow> dc_agrees T dc \<Longrightarrow> dc_valid dc dce \<Longrightarrow> dc_node dc dce = idx \<Longrightarrow>
    list_all comp_ok cs \<Longrightarrow> \<forall>c \<in> set cs. length c < 40 \<Longrightarrow> cs \<noteq> [] \<longrightarrow> (\<forall>e. \<not> dc_has dc dce (hd cs) e) \<Longrightarrow>
    skip_trailing_backslash path = tail_of cs \<Longrightarrow> length cs < rounds \<Longrightarrow> resolve T idx cs = Some k \<Longrightarrow>
    \<exists>dc' fs2. path_loop rounds path idx dce raw ctx dc fs1 = Inr (k, dc', fs2) \<and> same_fs fs fs2 \<and> dc_agrees T dc'"
proof (induction cs arbitrary: rounds path idx dce raw ctx dc fs1)
  case Nil
  then obtain r where "rounds = Suc r" by (cases rounds) auto
  moreover have "get_path_token_len (tail_of []) = Inr 0" using token_tail [of "[]"] by simp
  ultimately show ?case using Nil.prems by (simp add: Let_def)
next
  case (Cons c cs)
  from Cons.prems(10) obtain r where r: "rounds = Suc r" "length cs < r" by (cases rounds) auto
  have c: "comp_ok c" "length c < 40" "list_all comp_ok cs" "\<forall>c \<in> set cs. length c < 40" using Cons.prems(6,7) by simp_all
  obtain es where es: "T idx = Some es" using Cons.prems(11) by (auto split: option.splits)
  then have d: "dir_on fs idx es" using T by (simp add: tree_on_def)
  obtain rw ctx' fs2 where f: "same_fs fs fs2" "inode_wf rw"
    "path_loop rounds path idx dce raw ctx dc fs1 =
      (case dir_find es c of
         None \<Rightarrow> Inr (0, dc, fs2)
       | Some k \<Rightarrow> res_bind (dcache_insert dce (tail_of (c # cs)) (length c) k dc) (\<lambda>(dce, dc).
           if cs = [] then Inr (k, dc, fs2) else path_loop r (slashed cs) k dce rw ctx' dc fs2))"
    using path_round [OF d Cons.prems(6,9,1,2), of r dce ctx dc] unfolding r(1) by blast
  show ?case
  proof (cases "dir_find es c")
    case None
    then show ?thesis using f es Cons.prems(3,11) by simp
  next
    case (Some m)
    have tk: "take (length c) (tail_of (c # cs)) = c" by simp
    obtain e dc2 where i: "dcache_insert dce (tail_of (c # cs)) (length c) m dc = Inr (Some e, dc2)" "dc_agrees T dc2" "dc_valid dc2 (Some e)"
      "dc_node dc2 (Some e) = m" "\<forall>x y. \<not> dc_has dc2 (Some e) x y"
      using agrees_insert [OF Cons.prems(3,4), of "tail_of (c # cs)" "length c" es m] comp_token(1) [OF c(1)] c(2) Cons.prems(5,8) es Some tk
      by auto
    have res: "resolve T m cs = Some k" using Cons.prems(11) es Some by simp
    show ?thesis
    proof (cases "cs = []")
      case True
      then show ?thesis using f i res Some by simp
    next
      case False
      have "\<exists>dc' fs3. path_loop r (slashed cs) m (Some e) rw ctx' dc2 fs2 = Inr (k, dc', fs3) \<and> same_fs fs fs3 \<and> dc_agrees T dc'"
        using i(5) by (intro Cons.IH [OF f(1,2) i(2,3,4) c(3,4) _ skip_slashes(2) [OF c(3)] r(2) res]) simp
      then show ?thesis using f(3) i(1) Some False by simp
    qed
  qed
qed


lemma dir_on_same: "dir_on fs n es \<Longrightarrow> same_fs fs fs' \<Longrightarrow> dir_on fs' n es"
proof -
  assume d: "dir_on fs n es" and s: "same_fs fs fs'"
  have ok: "fs_ok fs" "fs_ok fs'" "sup fs' = sup fs" "fs_flat fs' = fs_flat fs" using d s by (simp_all add: dir_on_def same_fs_def)
  have b: "file_block fs' = file_block fs"
    by (intro ext) (simp add: file_block_def same_fs_view [OF ok(1) s] mapped_block_same [OF s])
  have "file_ok fs' raw = file_ok fs raw" for raw
    by (simp add: file_ok_def same_fs_view [OF ok(1) s] b ok)
  moreover have "file_bytes fs' raw = file_bytes fs raw" for raw
    by (simp add: bytes_by_def b ok)
  ultimately show ?thesis using d ok by (simp add: dir_on_def holds_dir_def inode_from_def)
qed

lemma tree_on_same: "tree_on fs T \<Longrightarrow> same_fs fs fs' \<Longrightarrow> tree_on fs' T"
  unfolding tree_on_def using dir_on_same by blast

lemma lookup_run:
  assumes T: "tree_on fs T" and s: "same_fs fs fs1" and dc: "dc_agrees T dc" and raw: "inode_wf raw"
    and cs: "list_all comp_ok cs" "\<forall>c \<in> set cs. length c < 40" and res: "resolve T 2 cs = Some k"
  shows "\<exists>dc' fs2. inode_get_idx_by_path (path_of cs) raw junk dc fs1 = Inr (k, dc', fs2) \<and> same_fs fs fs2 \<and> dc_agrees T dc'"
proof -
  note a = dc_agreesD [OF dc]
  have strip: "(case path_of cs of c # xs \<Rightarrow> if c = SLASH then xs else path_of cs | [] \<Rightarrow> []) = tail_of cs"
    by (simp add: path_of_def)
  have len: "length cs < Suc (length (path_of cs))"
    using tail_of_length [OF cs(1)] by (simp add: path_of_def)
  obtain p cs' dc1 where c: "cached_loop (Suc (length (path_of cs))) (path_of cs) None dc = Inr (p, tail_of cs', dc1)" "dc_agrees T dc1"
    "dc_valid dc1 p" "list_all comp_ok cs'" "set cs' \<subseteq> set cs" "resolve T (dc_node dc1 p) cs' = Some k"
    "cs' \<noteq> [] \<longrightarrow> (\<forall>e. \<not> dc_has dc1 p (hd cs') e)"
    using cached_run [OF dc a(2) cs(1) len strip] res a(3) by auto
  have g: "dcache_get_inode p dc1 = Inr (dc_node dc1 p)"
    by (rule node_get [OF dc_agreesD(1) [OF c(2)] c(3)])
  have "length cs' < Suc (length (tail_of cs'))" using tail_of_length [OF c(4)] by simp
  moreover have "\<forall>c \<in> set cs'. length c < 40" using c(5) cs(2) by blast
  ultimately obtain dc2 fs2 where "path_loop (Suc (length (tail_of cs'))) (tail_of cs') (dc_node dc1 p) p raw junk dc1 fs1 = Inr (k, dc2, fs2)"
    "same_fs fs fs2" "dc_agrees T dc2"
    using path_run [OF T s raw c(2,3) refl c(4) _ c(7) skip_slashes(1) [OF c(4)] _ c(6)] by blast
  then show ?thesis
    using c(1) g by (intro exI [of _ dc2] exI [of _ fs2])
      (simp add: inode_get_idx_by_path_def get_cached_inode_num_def inode_dir_ctx_get_def path_of_def c_assert_def del: path_loop.simps cached_loop.simps)
qed

section \<open>Properties\<close>

text \<open>C8: Looking up a path gives the inode that the tree of names on the device has for it, or 0 when a
  name is missing, whatever part of the path the directory cache already knows: the cached names and the
  directories that are searched agree. The lookup changes nothing on the device and leaves the cache in
  agreement with the tree, so that this holds for every sequence of lookups. The path is absolute, its components are
  not empty and shorter than 40 bytes, and every component but the last is a directory of the tree or missing.\<close>

theorem path_lookup_correct:
  assumes "tree_on fs T" "fs_ok fs" "dc_agrees T dc" "inode_wf raw"
    and "list_all comp_ok cs" "\<forall>c \<in> set cs. length c < 40" "resolve T 2 cs = Some k"
  shows "\<exists>dc' fs'. inode_get_idx_by_path (path_of cs) raw junk dc fs = Inr (k, dc', fs') \<and> same_fs fs fs' \<and>
    tree_on fs' T \<and> dc_agrees T dc'"
  using lookup_run [OF assms(1) same_fs_refl [OF assms(2)] assms(3-7)] tree_on_same [OF assms(1)] by blast

lemma dir_holds_drop:
  "dir_holds bs m a (xs @ ys) \<Longrightarrow> dir_holds bs m (a + sum_list (map (\<lambda>e. unat (de_rec_len e)) xs)) ys"
proof (induction xs arbitrary: a)
  case (Cons x xs)
  then have "dir_holds bs m (a + unat (de_rec_len x) + sum_list (map (\<lambda>e. unat (de_rec_len e)) xs)) ys" by simp
  then show ?case by (simp add: add.assoc)
qed simp

text \<open>C10: Listing a directory by its path: op_readdir() passes to the caller's function exactly the names of the
  used entries, in their order and each with the offset of the entry that follows, from the entry at the
  given offset on until the end of the directory or until the function asks to stop. A listing can
  therefore be taken up again at an offset that an earlier one has passed on. The components of the path are shorter than 40
  bytes, and the names of the used entries that are listed shorter than 255.\<close>

theorem op_readdir_lists:
  assumes T: "tree_on fs T" "fs_ok fs" "dc_agrees T dc" "inode_wf raw"
    and cs: "list_all comp_ok cs" "\<forall>c \<in> set cs. length c < 40" "resolve T 2 cs = Some n"
    and es: "T n = Some (xs @ ys)" "\<forall>e \<in> set ys. de_inode e \<noteq> 0 \<longrightarrow> de_name_len e < 255"
    and a: "a = sum_list (map (\<lambda>e. unat (de_rec_len e)) xs)"
  shows "\<exists>dc' fs'. op_readdir (path_of cs) buf filler (of_nat a) raw junk dc fs =
      Inr (0, feed filler buf (dir_names a ys), dc', fs') \<and> same_fs fs fs' \<and> dc_agrees T dc'"
proof -
  obtain dc1 fs1 where l: "inode_get_idx_by_path (path_of cs) raw junk dc fs = Inr (n, dc1, fs1)" "same_fs fs fs1" "dc_agrees T dc1"
    using lookup_run [OF T(1) same_fs_refl [OF T(2)] T(3,4) cs] by blast
  have d: "dir_on fs n (xs @ ys)" using T(1) es(1) by (simp add: tree_on_def)
  obtain r fs2 where g: "inode_get_by_number n raw fs1 = Inr (0, r, fs2)" "same_fs fs fs2" "holds_dir fs r (xs @ ys)"
    using dir_get_run [OF d l(2) T(4)] by blast
  note h = g(3) [unfolded holds_dir_def]
  have ys: "dir_holds (bsize fs) (file_bytes fs r) a ys" using dir_holds_drop [of "bsize fs" "file_bytes fs r" 0 xs ys] h a by simp
  have len: "length (xs @ ys) \<le> fsize r" using dir_holds_le [of "bsize fs" "file_bytes fs r" 0 "xs @ ys"] h by (simp add: bytes_by_def)
  moreover have "0 < length (xs @ ys)" using h by (cases "xs @ ys") auto
  ultimately have "0 * bsize fs < fsize r" by linarith
  then obtain ctx fs3 where u: "dir_ctx_update r 0 junk fs2 = Inr (ctx, fs3)" "ctx_holds file_block fs r ctx" "same_fs fs fs3"
    using fb.update_run [of fs r fs2 0 junk] h g(2) by auto
  obtain fs4 where "readdir_loop (fsize r + 2) filler r buf (of_nat a) ctx fs3 = Inr (feed filler buf (dir_names a ys), fs4)" "same_fs fs fs4"
    using fb.readdir_run [of fs r fs3 ctx a ys "fsize r + 2" filler buf] h u(2,3) ys es(2) len by auto
  then show ?thesis
    using l(1,3) g(1) u(1) by (intro exI [of _ dc1] exI [of _ fs4])
      (simp add: op_readdir_def inode_get_by_path_def inode_dir_ctx_reset_def inode_dir_ctx_get_def fsize_def)
qed


section \<open>Names that the cache does not take\<close>

lemma has_short:
  assumes "dc_inv d" "dc_has d p x e"
  shows "length x < DCACHE_ENTRY_NAME_LEN"
proof -
  obtain K where r: "dc_rings d K" using assms(1) by (auto simp: dc_inv_def)
  have c: "e \<in> set (K (dref p))" "name_at d e = x" using assms(2) by (simp_all add: dc_has_def child_iff [OF r])
  let ?n = "d_name (entry_at d e)"
  have n: "length ?n = DCACHE_ENTRY_NAME_LEN" "0 \<in> set ?n" using dc_ringsD(9) [OF r] dc_ringsD(4) [OF r c(1)] by auto
  have "takeWhile (\<lambda>c. c \<noteq> 0) ?n \<noteq> ?n" using n(2) by (auto simp: takeWhile_eq_all_conv)
  then have "length (takeWhile (\<lambda>c. c \<noteq> 0) ?n) < length ?n"
    by (metis length_takeWhile_le le_neq_implies_less takeWhile_eq_take take_all_iff)
  then show ?thesis using n(1) c(2) by (simp add: name_at_def d_string_def)
qed

text \<open>C20: A directory name of 40 bytes or more poisons the cache: after a lookup below it the name that was
  looked up there is entered under the root, and the same name in the root directory from then on gives the
  inode of the other file, whatever the root directory has for it.\<close>

theorem long_name_poisons_root:
  assumes T: "tree_on fs T" "fs_ok fs" "dc_agrees T dc" "inode_wf raw"
    and c: "comp_ok c" "40 \<le> length c" and x: "comp_ok x" "length x < 40" "\<forall>e. \<not> dc_has dc None x e"
    and res: "T 2 = Some es" "dir_find es c = Some m" "T m = Some es'" "dir_find es' x = Some k"
  shows "\<exists>dc1 fs1 dc2 fs2. inode_get_idx_by_path (path_of [c, x]) raw junk dc fs = Inr (k, dc1, fs1) \<and>
    inode_get_idx_by_path (path_of [x]) raw junk dc1 fs1 = Inr (k, dc2, fs2)"
proof -
  note a = dc_agreesD [OF T(3)]
  have cs: "list_all comp_ok [c, x]" "list_all comp_ok [x]" using c x by simp_all
  have strip: "(case path_of cs of c # xs \<Rightarrow> if c = SLASH then xs else path_of cs | [] \<Rightarrow> []) = tail_of cs" for cs
    by (simp add: path_of_def)
  have unknown: "\<not> dc_has dc None c e" for e using has_short [OF a(1), of None c e] c(2) by auto
  obtain r dc1 where s1: "cached_loop (Suc (length (path_of [c, x]))) (path_of [c, x]) None dc =
      (case r of None \<Rightarrow> Inr (None, tail_of [c, x], dc1) | Some e \<Rightarrow> cached_loop (length (path_of [c, x])) (slashed [x]) (Some e) dc1)"
    "dc_agrees T dc1" "dc_has dc1 = dc_has dc" "dc_valid dc1 = dc_valid dc" "dc_node dc1 = dc_node dc"
    "case r of None \<Rightarrow> \<forall>e. \<not> dc_has dc None c e
     | Some e \<Rightarrow> dc_has dc None c e \<and> dc_valid dc (Some e) \<and>
         (\<exists>es. T (dc_node dc None) = Some es \<and> dir_find es c = Some (dc_node dc (Some e)))"
    using cached_step [OF T(3) a(2) cs(1) strip, of "length (path_of [c, x])"] by blast
  have r: "r = None" using s1(6) unknown by (cases r) auto
  note a1 = dc_agreesD [OF s1(2)]
  have d: "dir_on fs 2 es" "dir_on fs m es'" using T(1) res by (simp_all add: tree_on_def)
  obtain n where n: "length (tail_of [c, x]) = Suc n" using c(1) by (cases "length (tail_of [c, x])") (auto simp: comp_ok_def)
  have long: "dcache_insert None nm (length c) m dc1 = Inr (None, dc1)" for nm
    using c(2) by (simp add: dcache_insert_def)
  obtain rw ctx fs2 where f2: "same_fs fs fs2" "inode_wf rw"
    "path_loop (Suc (Suc n)) (tail_of [c, x]) 2 None raw junk dc1 fs = path_loop (Suc n) (slashed [x]) m None rw ctx dc1 fs2"
    using path_round [OF d(1) cs(1) skip_slashes(1) [OF cs(1)] same_fs_refl [OF T(2)] T(4), of "Suc n" None junk dc1] res(2) long
    by (auto simp del: path_loop.simps tail_of_simps slashed_simps)
  have new: "\<And>e. \<not> dc_has dc1 None x e" using x(3) s1(3) by simp
  obtain rw3 ctx3 fs3 where f3: "same_fs fs fs3" "inode_wf rw3"
    "path_loop (Suc n) (slashed [x]) m None rw ctx dc1 fs2 =
      res_bind (dcache_insert None (tail_of [x]) (length x) k dc1) (\<lambda>(dce, dc). Inr (k, dc, fs3))"
    using path_round [OF d(2) cs(2) skip_slashes(2) [OF cs(2)] f2(1,2), of n None ctx dc1] res(4)
    by (auto simp del: path_loop.simps tail_of_simps slashed_simps)
  have tk: "token x (length x)" "take (length x) x = x" "tail_of [x] = x" using comp_token(1) [OF x(1), of "[]"] by simp_all
  obtain e dc2 where i: "dcache_insert None x (length x) k dc1 = Inr (Some e, dc2)" "dc_inv dc2" "\<forall>q. dc_valid dc1 q \<longrightarrow> dc_valid dc2 q"
    "dc_valid dc2 (Some e)" "dc_ino dc2 e = k" "dc_has dc2 None x e"
    using dc.ins_law [OF a1(1,2) tk(1), of k] x(2) new unfolding tk(2) by blast
  have first: "inode_get_idx_by_path (path_of [c, x]) raw junk dc fs = Inr (k, dc2, fs3)"
    using s1(1) r node_get [OF a1(1,2)] a1(3) f2(3) f3(3) i(1) n tk(3)
    by (simp add: inode_get_idx_by_path_def get_cached_inode_num_def inode_dir_ctx_get_def path_of_def c_assert_def
        del: path_loop.simps cached_loop.simps tail_of_simps slashed_simps)
  obtain r' dc3 where l: "dcache_lookup None x (length x) dc2 = Inr (r', dc3)" "dc_inv dc3" "dc_valid dc3 = dc_valid dc2"
    "dc_ino dc3 = dc_ino dc2" "\<forall>y. r' = Some y \<longleftrightarrow> dc_has dc2 None x y"
    using dc.look_law [OF i(2) i(3) [rule_format, OF a1(2)] tk(1)] unfolding tk(2) by blast
  have e: "r' = Some e" using l(5) i(6) by blast
  have tl: "get_path_token_len x = Inr (of_nat (length x))" "get_path_token_len [] = Inr 0"
    using token_tail [OF cs(2)] token_tail [of "[]"] tk(3) by simp_all
  obtain n' where n': "length x = Suc n'" using x(1) by (cases x) (auto simp: comp_ok_def)
  have "cached_loop (Suc (length (path_of [x]))) (path_of [x]) None dc2 = Inr (Some e, [], dc3)"
    using l(1) e tl comp_token(2,3) [OF x(1)] by (simp add: path_of_def Let_def n')
  moreover have "dcache_get_inode (Some e) dc3 = Inr k"
    using node_get [OF l(2), of "Some e"] i(4,5) l(3,4) by (simp add: dc_node_def dref_def)
  moreover have "path_loop (Suc 0) [] k (Some e) raw junk dc3 fs3 = Inr (k, dc3, fs3)"
    using tl(2) by (simp add: skip_trailing_backslash_def)
  ultimately have "inode_get_idx_by_path (path_of [x]) raw junk dc2 fs3 = Inr (k, dc3, fs3)"
    by (simp add: inode_get_idx_by_path_def get_cached_inode_num_def inode_dir_ctx_get_def path_of_def c_assert_def
        del: path_loop.simps cached_loop.simps)
  then show ?thesis using first by blast
qed


section \<open>Directories as bytes\<close>

definition dentry_bytes :: "ext4_dir_entry_2 \<Rightarrow> bytes" where
  "dentry_bytes e = le 4 (de_inode e) @ le 2 (de_rec_len e) @ [de_name_len e, de_file_type e] @ de_name e @
     replicate (unat (de_rec_len e) - 8 - length (de_name e)) 0"

fun entries_fit :: "nat \<Rightarrow> nat \<Rightarrow> ext4_dir_entry_2 list \<Rightarrow> bool" where
  "entries_fit bs a [] \<longleftrightarrow> True"
| "entries_fit bs a (e # es) \<longleftrightarrow> length (de_name e) = unat (de_name_len e) \<and> 8 + unat (de_name_len e) \<le> unat (de_rec_len e) \<and>
     a mod bs + unat (de_rec_len e) \<le> bs \<and> entries_fit bs (a + unat (de_rec_len e)) es"

lemma dentry_of_bytes:
  assumes "length (de_name e) = unat (de_name_len e)" "length pre = a"
  shows "dentry_of (pre @ dentry_bytes e @ suf) a = e"
proof -
  have sh: "(ld n (pre @ m) (a + i) :: 'a::len word) = ld n m i" "(pre @ m) ! (a + i) = m ! i" "slice (pre @ m) (a + i) k = slice m i k"
    for n i k m using assms(2) by (simp_all add: ld_append_skip nth_append slice_def)
  let ?m = "dentry_bytes e @ suf"
  have "(ld 4 ?m 0 :: u32) = de_inode e" "(ld 2 ?m 4 :: u16) = de_rec_len e" "?m ! 6 = de_name_len e" "?m ! 7 = de_file_type e"
    "slice ?m 8 (unat (de_name_len e)) = de_name e"
    using assms(1) by (simp_all add: dentry_bytes_def codec_simps nth_append slice_def)
  moreover have "(ld 4 (pre @ ?m) a :: u32) = ld 4 ?m 0" using sh(1) [of 4 ?m 0] by simp
  ultimately show ?thesis by (simp add: dentry_of_def sh)
qed

lemma dir_holds_bytes:
  "entries_fit bs (length pre) es \<Longrightarrow> dir_holds bs (pre @ concat (map dentry_bytes es)) (length pre) es"
proof (induction es arbitrary: pre)
  case (Cons e es)
  have l: "length (dentry_bytes e) = unat (de_rec_len e)" using Cons.prems by (auto simp: dentry_bytes_def)
  have "dir_holds bs ((pre @ dentry_bytes e) @ concat (map dentry_bytes es)) (length (pre @ dentry_bytes e)) es"
    using Cons.prems l by (intro Cons.IH) simp
  then show ?case
    using Cons.prems dentry_of_bytes [of e pre "length pre" "concat (map dentry_bytes es)"] by (simp add: l)
qed simp


section \<open>A device with directories\<close>

text \<open>Root directory and one subdirectory, which is listed under a short and under a long name. The name x of the
  root is a symbolic link with inode 12, that of the subdirectory a file with inode 13.\<close>

definition entry :: "u32 \<Rightarrow> u16 \<Rightarrow> u8 \<Rightarrow> bytes \<Rightarrow> ext4_dir_entry_2" where
  "entry ino len type nm = \<lparr>de_inode = ino, de_rec_len = len, de_name_len = of_nat (length nm), de_file_type = type, de_name = nm\<rparr>"

definition long_name :: bytes where "long_name = replicate 41 97"

definition root_dir :: "ext4_dir_entry_2 list" where
  "root_dir = [entry 2 12 2 [46], entry 2 12 2 [46, 46], entry 11 12 2 [101, 116, 99], entry 11 52 2 long_name, entry 12 936 7 [120]]"

definition sub_dir :: "ext4_dir_entry_2 list" where
  "sub_dir = [entry 11 12 2 [46], entry 2 12 2 [46, 46], entry 13 12 1 [120], entry 0 988 0 []]"

definition demo_tree :: "u32 \<Rightarrow> ext4_dir_entry_2 list option" where
  "demo_tree = [2 \<mapsto> root_dir, 11 \<mapsto> sub_dir]"

definition dir_inode :: "u8 \<Rightarrow> ext4_inode" where
  "dir_inode b = (inode_of (replicate 156 0))\<lparr>i_mode := 0x41ED, i_size_lo := 1024, i_block := [b, 0, 0, 0] @ replicate 56 0\<rparr>"

definition link_inode :: ext4_inode where
  "link_inode = (inode_of (replicate 156 0))\<lparr>i_mode := 0xA1FF, i_size_lo := 2, i_block := [97, 98] @ replicate 58 0\<rparr>"

definition demo_dir_disk :: "u64 \<Rightarrow> bytes" where
  "demo_dir_disk b =
    (if b = 5 then replicate 128 0 @ take 128 (inode_bytes (dir_inode 9)) @ replicate 768 0
     else if b = 6 then replicate 256 0 @ take 128 (inode_bytes (dir_inode 10)) @ take 128 (inode_bytes link_inode) @ replicate 512 0
     else if b = 9 then concat (map dentry_bytes root_dir)
     else if b = 10 then concat (map dentry_bytes sub_dir)
     else replicate 1024 0)"

definition demo_dir_fs :: fs where
  "demo_dir_fs = \<lparr>sup = demo_super, bdev = fs_cache_init 10 demo_dir_disk (\<lambda>_. 0) (\<lambda>_. replicate 1024 0)\<rparr>"

lemma demo_dirs_fit: "entries_fit 1024 0 root_dir" "entries_fit 1024 0 sub_dir"
  by (simp_all add: root_dir_def sub_dir_def entry_def long_name_def)

lemma length_dentry: "length (de_name e) = unat (de_name_len e) \<Longrightarrow> 8 + unat (de_name_len e) \<le> unat (de_rec_len e) \<Longrightarrow>
    length (dentry_bytes e) = unat (de_rec_len e)"
  by (auto simp: dentry_bytes_def)

lemma demo_dirs_length: "length (concat (map dentry_bytes root_dir)) = 1024" "length (concat (map dentry_bytes sub_dir)) = 1024"
  by (simp_all add: root_dir_def sub_dir_def length_dentry entry_def long_name_def)

lemma dir_inode_wf: "inode_wf (dir_inode b)" "inode_wf link_inode"
  by (simp_all add: inode_wf_def dir_inode_def link_inode_def)

lemma demo_dir_ok: "fs_ok demo_dir_fs" "sup demo_dir_fs = sup demo_fs" "view (bdev demo_dir_fs) = demo_dir_disk"
proof -
  have "\<forall>b. length (demo_dir_disk b) = 2 ^ 10"
    by (simp add: demo_dir_disk_def demo_dirs_length length_inode_bytes [OF dir_inode_wf(1)] length_inode_bytes [OF dir_inode_wf(2)])
  note init = cache_init_inv [OF this, of "\<lambda>_. replicate 1024 0"]
  show "fs_ok demo_dir_fs" "sup demo_dir_fs = sup demo_fs" "view (bdev demo_dir_fs) = demo_dir_disk"
    using init by (simp_all add: fs_ok_def demo_dir_fs_def demo_fs_def demo_super_eval fs_cache_init_def bdev_alloc_def)
qed

lemma demo_dir_flat: "x < 1024 \<Longrightarrow> fs_flat demo_dir_fs (b * 1024 + x) = demo_dir_disk (of_nat b) ! x"
  by (simp add: fs_flat_def flat_def demo_dir_ok demo_fs_ok)

lemma demo_sizes: "unat (super_block_size (sup demo_dir_fs)) = 1024" "inode_disk_size (sup demo_dir_fs) = 128" "block_size_ok (sup demo_dir_fs)"
  using demo_inode_offset(2) demo_block_size_ok by (simp_all add: demo_dir_ok(2) demo_fs_ok)

lemma demo_offsets: "inode_offset 1 (sup demo_dir_fs) = Inr 5248" "inode_offset 10 (sup demo_dir_fs) = Inr 6400"
proof -
  have "super_inodes_per_group demo_super = 64" "super_inode_size demo_super = 128" "super_blocks_per_group demo_super = 8192"
    by (simp_all add: demo_super_def super_of_def super_inodes_per_group_def super_inode_size_def super_blocks_per_group_def)
  then show "inode_offset 1 (sup demo_dir_fs) = Inr 5248" "inode_offset 10 (sup demo_dir_fs) = Inr 6400"
    by (simp_all add: demo_dir_ok(2) inode_offset_def demo_fs_def super_group_inode_table_offset_def demo_super_eval BLOCKS2BYTES_def)
qed

lemma demo_slot:
  assumes "unat off = blk * 1024 + length pre" "length pre + 128 \<le> 1024"
    "demo_dir_disk (of_nat blk) = pre @ take 128 (inode_bytes d) @ post" "inode_wf d" "inode_wf raw"
  shows "inode_from demo_dir_fs off raw = inode_of (take 128 (inode_bytes d) @ drop 128 (inode_bytes raw))"
  unfolding inode_from_def by (rule slot_bytes [OF demo_dir_ok(2)]) (use assms in \<open>simp_all add: demo_dir_ok(3)\<close>)

lemma demo_dir_on:
  assumes n: "n \<noteq> 0" "inode_offset (n - 1) (sup demo_dir_fs) = Inr off" "unat off = blk * 1024 + length pre"
    and slot: "demo_dir_disk (of_nat blk) = pre @ take 128 (inode_bytes (dir_inode b)) @ post" "length pre + 128 \<le> 1024" "blk \<le> 10"
    and dir: "demo_dir_disk (ucast b) = concat (map dentry_bytes es)" "entries_fit 1024 0 es"
      "length (concat (map dentry_bytes es)) = 1024"
  shows "dir_on demo_dir_fs n es"
proof -
  note sz = demo_sizes(1,2) and nb = demo_sizes(3)
  have "holds_dir demo_dir_fs (inode_from demo_dir_fs off raw) es" if "inode_wf raw" for raw
  proof -
    define r where "r = inode_from demo_dir_fs off raw"
    have r: "r = inode_of (take 128 (inode_bytes (dir_inode b)) @ drop 128 (inode_bytes raw))"
      unfolding r_def by (rule demo_slot [OF n(3) slot(2,1) dir_inode_wf(1) that])
    note h = inode_head [OF dir_inode_wf(1), of b "drop 128 (inode_bytes raw)", folded r]
    have f: "i_flags r = 0" "i_mode r = 0x41ED" "fsize r = 1024"
      using h by (simp_all add: dir_inode_def inode_of_def ld_zeros fsize_def inode_get_size_def)
    have "(4 :: nat) = Suc (Suc (Suc (Suc 0)))" by simp
    then have "(ld 4 ([b, 0, 0, 0] @ replicate 56 0) 0 :: u32) = ucast b"
      by (simp only: ld.simps) simp
    moreover have "(ucast (ucast b :: u32) :: u64) = ucast b"
      by (rule bit_word_eqI) (auto simp: bit_simps dest: bit_imp_le_length)
    ultimately have blk: "file_block demo_dir_fs r 0 = ucast b"
      using h(5) f(1) by (simp add: file_block_def mapped_block_def i_data_def dir_inode_def Let_def)
    have "l = 0" if "l * 1024 < (1024 :: nat)" for l using that by simp
    moreover have "unat (ucast b :: u64) < 2 ^ 40"
    proof -
      have "unat b < 2 ^ LENGTH(8)" by (rule unsigned_less)
      then show ?thesis by (simp add: unsigned_ucast_eq take_bit_nat_eq_self)
    qed
    ultimately have ok: "file_ok demo_dir_fs r"
      using demo_dir_ok(1) nb f blk by (auto simp: file_ok_def sz(1))
    have "file_bytes demo_dir_fs r = concat (map dentry_bytes es)"
    proof (rule nth_equalityI)
      fix i assume "i < length (file_bytes demo_dir_fs r)"
      then have i: "i < 1024" by (simp add: bytes_by_def f)
      have "fs_flat demo_dir_fs (unat (ucast b :: u64) * 1024 + i) = concat (map dentry_bytes es) ! i"
        using i dir(1) by (subst demo_dir_flat) simp_all
      then show "file_bytes demo_dir_fs r ! i = concat (map dentry_bytes es) ! i"
        using i by (simp add: bytes_by_def f sz(1) blk)
    qed (simp add: bytes_by_def f dir(3))
    moreover have "dir_holds 1024 (concat (map dentry_bytes es)) 0 es"
      using dir_holds_bytes [of 1024 "[]" es] dir(2) by simp
    moreover have "es \<noteq> []" using dir(3) by auto
    ultimately show ?thesis
      using ok f(2) unfolding r_def [symmetric] by (simp add: holds_dir_def sz(1) S_ISDIR_def)
  qed
  moreover have "unat off < 2 ^ 62" using n(3) slot(2,3) by simp
  ultimately show ?thesis
    using n(1,2) demo_dir_ok(1) nb by (auto simp: dir_on_def)
qed

lemma demo_tree_on: "tree_on demo_dir_fs demo_tree"
proof -
  have "dir_on demo_dir_fs 2 root_dir"
    by (rule demo_dir_on [of 2 5248 5 "replicate 128 0" 9 "replicate 768 0"])
      (use demo_offsets demo_dirs_fit demo_dirs_length in \<open>simp_all add: demo_dir_disk_def\<close>)
  moreover have "dir_on demo_dir_fs 11 sub_dir"
    by (rule demo_dir_on [of 11 6400 6 "replicate 256 0" 10 "take 128 (inode_bytes link_inode) @ replicate 512 0"])
      (use demo_offsets demo_dirs_fit demo_dirs_length in \<open>simp_all add: demo_dir_disk_def\<close>)
  ultimately show ?thesis by (auto simp: tree_on_def demo_tree_def split: if_splits)
qed

lemma demo_agrees: "dc_agrees demo_tree dcache_ready"
proof -
  have r: "dc_rings dcache_ready (\<lambda>_. [])"
    by (auto simp: dc_rings_def dcache_ready_def entry_at_def empty_entry_def ring_def)
  have "\<not> dc_has dcache_ready p x e" for p x e by (simp add: dc_has_def child_iff [OF r])
  moreover have "dc_node dcache_ready None = 2"
    by (simp add: dc_node_def dc_ino_def dref_def d_root_def dcache_ready_def entry_at_def)
  ultimately show ?thesis using dcache_ready_inv by (simp add: dc_agrees_def)
qed

theorem path_lookup_correct_witness:
  "\<forall>junk. (\<exists>dc fs. inode_get_idx_by_path [47, 101, 116, 99, 47, 120] (inode_of (replicate 156 7)) junk dcache_ready demo_dir_fs = Inr (13, dc, fs)) \<and>
   (\<exists>dc fs. inode_get_idx_by_path [47, 101, 116, 99, 47, 121] (inode_of (replicate 156 7)) junk dcache_ready demo_dir_fs = Inr (0, dc, fs))"
  (is "\<forall>junk. ?P junk")
proof (rule allI)
  fix junk
  have wf: "inode_wf (inode_of (replicate 156 7))" by (simp add: inode_wf_of)
  have cs: "comp_ok [101, 116, 99]" "comp_ok [120]" "comp_ok [121]" by (simp_all add: comp_ok_def)
  have res: "resolve demo_tree 2 [[101, 116, 99], [120]] = Some 13" "resolve demo_tree 2 [[101, 116, 99], [121]] = Some 0"
    by (simp_all add: demo_tree_def dir_find_def root_dir_def sub_dir_def entry_def)
  show "?P junk"
    using path_lookup_correct [OF demo_tree_on demo_dir_ok(1) demo_agrees wf, of "[[101, 116, 99], [120]]" 13 junk]
      path_lookup_correct [OF demo_tree_on demo_dir_ok(1) demo_agrees wf, of "[[101, 116, 99], [121]]" 0 junk] cs res
    by (auto simp: path_of_def)
qed


theorem op_readdir_lists_witness:
  "\<forall>junk. \<exists>dc fs. op_readdir [47, 101, 116, 99] [] (\<lambda>buf nm off. (buf @ [(nm, off)], 0)) 12 (inode_of (replicate 156 7)) junk dcache_ready demo_dir_fs =
     Inr (0, [([46, 46], 24), ([120], 36)], dc, fs)"
  (is "\<forall>junk. ?P junk")
proof (rule allI)
  fix junk
  have wf: "inode_wf (inode_of (replicate 156 7))" by (simp add: inode_wf_of)
  have cs: "comp_ok [101, 116, 99]" by (simp add: comp_ok_def)
  have res: "resolve demo_tree 2 [[101, 116, 99]] = Some 11"
    by (simp add: demo_tree_def dir_find_def root_dir_def entry_def)
  have es: "demo_tree 11 = Some ([entry 11 12 2 [46]] @ [entry 2 12 2 [46, 46], entry 13 12 1 [120], entry 0 988 0 []])"
    by (simp add: demo_tree_def sub_dir_def)
  show "?P junk"
    using op_readdir_lists [OF demo_tree_on demo_dir_ok(1) demo_agrees wf _ _ res es, of 12 "[]" "\<lambda>buf nm off. (buf @ [(nm, off)], 0)" junk] cs
    by (auto simp: path_of_def entry_def d_string_def)
qed

theorem long_name_poisons_root_witness:
  "\<forall>junk. resolve demo_tree 2 [[120]] = Some 12 \<and>
   (\<exists>dc1 fs1 dc2 fs2. inode_get_idx_by_path (path_of [long_name, [120]]) (inode_of (replicate 156 7)) junk dcache_ready demo_dir_fs = Inr (13, dc1, fs1) \<and>
      inode_get_idx_by_path (path_of [[120]]) (inode_of (replicate 156 7)) junk dc1 fs1 = Inr (13, dc2, fs2))"
  (is "\<forall>junk. ?P junk")
proof (rule allI)
  fix junk
  have wf: "inode_wf (inode_of (replicate 156 7))" by (simp add: inode_wf_of)
  have cs: "comp_ok long_name" "40 \<le> length long_name" "comp_ok [120]" by (simp_all add: comp_ok_def long_name_def)
  have "length [46 :: u8] \<noteq> length long_name" "length [46 :: u8, 46] \<noteq> length long_name" "length [101 :: u8, 116, 99] \<noteq> length long_name"
    "length [120 :: u8] \<noteq> length long_name"
    by (simp_all add: long_name_def)
  then have ne: "[46] \<noteq> long_name" "[46, 46] \<noteq> long_name" "[101, 116, 99] \<noteq> long_name" "long_name \<noteq> [120]" by metis+
  have res: "demo_tree 2 = Some root_dir" "dir_find root_dir long_name = Some 11" "demo_tree 11 = Some sub_dir" "dir_find sub_dir [120] = Some 13"
    "resolve demo_tree 2 [[120]] = Some 12"
    by (simp_all add: demo_tree_def dir_find_def root_dir_def sub_dir_def entry_def ne)
  show "?P junk"
    using long_name_poisons_root [OF demo_tree_on demo_dir_ok(1) demo_agrees wf cs _ _ res(1-4), of junk] res(5) dcache_ready_inv(3)
    by auto
qed

end
