(* ===== verification/E4F_Link.thy ===== *)
theory E4F_Link
  imports E4F_Path
begin

text \<open>
  Symbolic links: what op_readlink() of src/op_readlink.c stores in the buffer of the caller, for targets in
  the inode and targets in a block, and where it stores behind the end of the buffer.
\<close>

section \<open>The target of a link\<close>

text \<open>A target of up to 60 bytes is in the inode, a longer one at the start of the first block, where a zero
  follows it. This is the limit of op_readlink.c; ext4 itself has only targets of fewer than 60 bytes in the inode, so
  that links with a target of exactly 60 bytes are not those of the format.\<close>

definition link_target :: "fs \<Rightarrow> ext4_inode \<Rightarrow> bytes \<Rightarrow> bool" where
  "link_target fs raw t \<longleftrightarrow> S_ISLNK (i_mode raw) \<and> length t = fsize raw \<and>
     (if fsize raw \<le> 60 then inode_wf raw \<and> t = take (fsize raw) (i_block raw)
      else file_ok fs raw \<and> fsize raw < bsize fs \<and> 0 \<notin> set t \<and>
        map (\<lambda>i. fs_flat fs (unat (file_block fs raw 0) * bsize fs + i)) [0 ..< Suc (fsize raw)] = t @ [0])"

lemma takeWhile_zero: "0 \<notin> set t \<Longrightarrow> takeWhile (\<lambda>c. c \<noteq> (0 :: u8)) (t @ 0 # rest) = t"
  by (subst takeWhile_append2) auto

text \<open>The copy of a target of \<open>n\<close> bytes that a store of the terminator follows.\<close>

lemma terminated:
  assumes "n < length buf" "length s \<le> length buf" "take n s = t" "length t = n" "n \<le> length s"
  shows "take (Suc n) (splice (splice buf 0 s) n [0]) = t @ [0]" "length (splice (splice buf 0 s) n [0]) = length buf"
  using assms by (simp_all add: splice_def)

lemma link_block_run:
  assumes t: "link_target fs raw t" "60 < fsize raw" and ok: "fs_ok fs"
  shows "\<exists>rest fs2 fs3. inode_get_data_pblock 0 None False (inode_get 0 raw, fs) = Inr ((file_block fs raw 0, None), inode_get 0 raw, fs2) \<and>
    disk_read_block (file_block fs raw 0) fs2 = Inr (t @ 0 # rest, fs3) \<and> same_fs fs fs3"
proof -
  note l = t(1) [unfolded link_target_def]
  have f: "file_ok fs raw" "fsize raw < bsize fs"
    "map (\<lambda>i. fs_flat fs (unat (file_block fs raw 0) * bsize fs + i)) [0 ..< Suc (fsize raw)] = t @ [0]"
    using l t(2) by simp_all
  obtain fs2 where f2: "inode_get_data_pblock (of_nat 0) None False (inode_get 0 raw, fs) = Inr ((file_block fs raw 0, None), inode_get 0 raw, fs2)"
    "same_fs fs fs2" "unat (file_block fs raw 0) < 2 ^ 40"
    using fb.get_law [OF f(1) same_fs_refl [OF ok], of 0] t(2) by auto
  let ?b = "\<lambda>i. fs_flat fs (unat (file_block fs raw 0) * bsize fs + i)"
  obtain fs3 where f3: "disk_read_block (file_block fs raw 0) fs2 = Inr (map ?b [0 ..< bsize fs], fs3)" "same_fs fs fs3"
    using block_run [OF _ _ f2(2,3)] f(1) by (auto simp: file_ok_def)
  have "[0 ..< bsize fs] = [0 ..< Suc (fsize raw)] @ [Suc (fsize raw) ..< bsize fs]"
    using f(2) upt_add_eq_append [of 0 "Suc (fsize raw)" "bsize fs - Suc (fsize raw)"] by simp
  then have "map ?b [0 ..< bsize fs] = t @ 0 # map ?b [Suc (fsize raw) ..< bsize fs]"
    using f(3) by (simp only: map_append) simp
  then show ?thesis
    using f2(1) f3 by (intro exI [of _ "map ?b [Suc (fsize raw) ..< bsize fs]"] exI [of _ fs2] exI [of _ fs3]) simp
qed

section \<open>Properties\<close>

text \<open>C12: op_readlink() stores the target of a symbolic link and its terminating zero at the start of the buffer
  and changes nothing on the device, whether the target is in the inode or in a block, if the buffer is
  longer than the target. A buffer that is not longer is overrun: the terminator is stored at the length of
  the target, whatever the size of the buffer.\<close>

theorem op_readlink_target:
  assumes get: "inode_get_by_path path raw0 junk dc0 fs0 = Inr (ret, raw, dc, fs)"
    and t: "link_target fs raw t" and ok: "fs_ok fs"
  shows "if length t < length buf
    then \<exists>buf' fs'. op_readlink path buf raw0 junk dc0 fs0 = Inr (0, buf', dc, fs') \<and> same_fs fs fs' \<and>
      length buf' = length buf \<and> take (Suc (length t)) buf' = t @ [0]
    else op_readlink path buf raw0 junk dc0 fs0 = Inl Undefined"
proof -
  have l: "S_ISLNK (i_mode raw)" "length t = fsize raw" using t by (simp_all add: link_target_def)
  have sz: "unat (inode_get_size (inode_get 0 raw)) = length t" "inode_get_size (inode_get 0 raw) \<le> 60 \<longleftrightarrow> length t \<le> 60"
    using l(2) by (simp_all add: fsize_def word_le_nat_alt)
  note run = op_readlink_def get get_link_dest_def em_run sz node_at_def node_bytes_def em_lift_def buf_store_def c_defined_def l(1)
  show ?thesis
  proof (cases "length t \<le> 60")
    case True
    then have "t = take (length t) (i_block raw)" using t l(2) by (simp add: link_target_def)
    then have b: "take (length t) (i_block raw) = t" by (rule sym)
    show ?thesis
    proof (cases "length t < length buf")
      case less: True
      then show ?thesis
        using True b terminated [of "length t" buf t t] same_fs_refl [OF ok] by (simp add: run)
    next
      case False
      moreover have "min (length (i_block raw)) (length t) = length t" using arg_cong [OF b, of length] by simp
      moreover have "length t \<le> length buf \<Longrightarrow> length (splice buf 0 t) = length buf" by simp
      ultimately show ?thesis using True b by (auto simp: run)
    qed
  next
    case False
    then have "60 < fsize raw" using l(2) by simp
    from link_block_run [OF t this ok] obtain rest fs2 fs3 where
      f: "inode_get_data_pblock 0 None False (inode_get 0 raw, fs) = Inr ((file_block fs raw 0, None), inode_get 0 raw, fs2)"
        "disk_read_block (file_block fs raw 0) fs2 = Inr (t @ 0 # rest, fs3)" "same_fs fs fs3" by blast
    have nz: "0 \<notin> set t" using t False l(2) by (simp add: link_target_def)
    let ?s = "take (length buf - 1) (t @ replicate (length buf - 1) 0)"
    have s: "strncpy_bytes (t @ 0 # rest) (length buf - 1) = Inr ?s" "length ?s = length buf - 1"
      using takeWhile_zero [OF nz] by (simp_all add: strncpy_bytes_def c_defined_def)
    show ?thesis
    proof (cases "length t < length buf")
      case less: True
      then have "take (length t) ?s = t" by simp
      then show ?thesis
        using False less f s terminated [of "length t" buf ?s t] by (auto simp add: run em_fs_run simp del: length_take take_append)
    next
      case other: False
      then show ?thesis using False f s by (simp add: run em_fs_run)
    qed
  qed
qed


text \<open>The link x in the root directory of the device with directories.\<close>

theorem op_readlink_target_witness:
  "\<forall>junk. (\<exists>buf dc fs. op_readlink [47, 120] (replicate 8 1) (inode_of (replicate 156 7)) junk dcache_ready demo_dir_fs = Inr (0, buf, dc, fs) \<and>
     take 3 buf = [97, 98, 0]) \<and>
   op_readlink [47, 120] [1, 1] (inode_of (replicate 156 7)) junk dcache_ready demo_dir_fs = Inl Undefined"
  (is "\<forall>junk. ?P junk")
proof (rule allI)
  fix junk
  define raw where "raw = inode_of (replicate 156 7)"
  have wf: "inode_wf raw" by (simp add: raw_def inode_wf_of)
  have cs: "list_all comp_ok [[120]]" "\<forall>c \<in> set [[120 :: u8]]. length c < 40" by (simp_all add: comp_ok_def)
  have "length [120 :: u8] \<noteq> length long_name" by (simp add: long_name_def)
  then have "long_name \<noteq> [120]" by metis
  then have "resolve demo_tree 2 [[120]] = Some 12"
    by (simp add: demo_tree_def dir_find_def root_dir_def entry_def)
  from lookup_run [OF demo_tree_on same_fs_refl [OF demo_dir_ok(1)] demo_agrees wf cs this, of junk]
  obtain dc fs1 where l: "inode_get_idx_by_path [47, 120] raw junk dcache_ready demo_dir_fs = Inr (12, dc, fs1)" "same_fs demo_dir_fs fs1"
    by (auto simp: path_of_def)
  have s1: "fs_ok fs1" "sup fs1 = sup demo_dir_fs" "fs_flat fs1 = fs_flat demo_dir_fs" using l(2) by (simp_all add: same_fs_def)
  have off: "inode_offset (12 - 1) (sup fs1) = Inr 6528" using demo_inode_offset(1) by (simp add: s1 demo_dir_ok(2))
  have sv: "servable fs1 (unat (6528 :: u64)) (inode_disk_size (sup fs1))"
    by (rule servable_small) (simp_all add: s1 demo_sizes)
  have "(12 :: u32) \<noteq> 0" by simp
  from inode_get_run [OF s1(1) off this sv, of raw] obtain fs2 where
    g: "inode_get_by_number 12 raw fs1 = Inr (0, inode_from demo_dir_fs 6528 raw, fs2)" "same_fs fs1 fs2"
    unfolding inode_from_def s1(2,3) .
  define r where "r = inode_from demo_dir_fs 6528 raw"
  have "demo_dir_disk (of_nat 6) = (replicate 256 0 @ take 128 (inode_bytes (dir_inode 10))) @ take 128 (inode_bytes link_inode) @ replicate 512 0"
    by (simp add: demo_dir_disk_def)
  from demo_slot [OF _ _ this dir_inode_wf(2) wf, of 6528]
  have "r = inode_of (take 128 (inode_bytes link_inode) @ drop 128 (inode_bytes raw))"
    by (simp add: r_def length_inode_bytes [OF dir_inode_wf(1)])
  from inode_head [OF dir_inode_wf(2), of "drop 128 (inode_bytes raw)", folded this]
  have h: "i_mode r = 0xA1FF" "fsize r = 2" "i_block r = [97, 98] @ replicate 58 0"
    by (simp_all add: link_inode_def fsize_def inode_get_size_def inode_of_def ld_zeros)
  then have t: "link_target fs2 r [97, 98]"
    by (simp add: link_target_def inode_wf_def S_ISLNK_def)
  have get: "inode_get_by_path [47, 120] raw junk dcache_ready demo_dir_fs = Inr (0, r, dc, fs2)"
    using l(1) g(1) by (simp add: inode_get_by_path_def r_def)
  have ok: "fs_ok fs2" using g(2) by (simp add: same_fs_def)
  show "?P junk"
    unfolding raw_def [symmetric]
    using op_readlink_target [OF get t ok, of "replicate 8 1"] op_readlink_target [OF get t ok, of "[1, 1]"]
    by (auto simp: numeral_3_eq_3)
qed

end
