(* ===== verification/E4F_Write.thy ===== *)
theory E4F_Write
  imports E4F_Blockmap
begin

text \<open>
  What op_write() of src/op_write.c does to the device when the write lies in one block that the file
  already has, and the size that it leaves in the inode.
\<close>

section \<open>Blocks that exist\<close>

text \<open>Block \<open>l\<close> of a file with extents is allocated.\<close>

definition allocated_block :: "fs \<Rightarrow> ext4_inode \<Rightarrow> nat \<Rightarrow> bool" where
  "allocated_block fs raw l \<longleftrightarrow> fs_ok fs \<and> block_size_ok (sup fs) \<and> i_flags raw AND EXT4_EXTENTS_FL \<noteq> 0 \<and>
     tree_wf (view (bdev fs)) (root_depth raw) (i_block raw) 0 (2 ^ 32) \<and>
     find (ext_covers (of_nat l)) (tree_exts (view (bdev fs)) (root_depth raw) (i_block raw)) \<noteq> None \<and>
     file_block fs raw l \<noteq> 0 \<and> unat (file_block fs raw l) < 2 ^ 40"

lemma block_for_write:
  assumes a: "allocated_block fs raw l" and len: "len = None \<or> len = Some 1"
  shows "\<exists>fs2. inode_get_data_pblock (of_nat l) len True (inode_get ino raw, fs) =
      Inr ((file_block fs raw l, len), inode_get ino raw, fs2) \<and> same_fs fs fs2"
proof -
  let ?z = "(inode_get ino raw, fs)"
  note h = a [unfolded allocated_block_def]
  obtain x where x: "find (ext_covers (of_nat l)) (tree_exts (view (bdev fs)) (root_depth raw) (i_block raw)) = Some x"
    using h by blast
  have root: "node_at In_inode ?z = i_block raw" by (simp add: node_at_def node_bytes_def)
  have c: "0 < ext_end x - unat (of_nat l :: u32)"
    using x by (auto simp: find_Some_iff ext_covers_def)
  obtain z' where g: "ext4_ext_get_blocks (ucast (of_nat l :: u32)) 1 zero_bh True ?z =
      Inr ((sint (ucast (if 1 < (of_nat (ext_end x - unat (of_nat l :: u32)) :: u64) then 1 else of_nat (ext_end x - unat (of_nat l :: u32)) :: u64) :: u32),
        (set_buffer BH_Mapped (clear_buffer BH_New zero_bh))\<lparr>b_blocknr := ext4_ext_pblock x + ucast (of_nat l - ee_block x)\<rparr>), z')"
    "same_content ?z z'" "ext_end x - unat (of_nat l :: u32) \<le> 32768"
    using get_blocks_covered [of ?z "root_depth raw" "of_nat l" x 1 zero_bh True] h x root by (auto simp: root_depth_def)
  have "(if 1 < (of_nat (ext_end x - unat (of_nat l :: u32)) :: u64) then 1 else of_nat (ext_end x - unat (of_nat l :: u32)) :: u64) = 1"
  proof -
    have "(if 1 < (of_nat k :: u64) then 1 else of_nat k :: u64) = 1" if "0 < k" "k \<le> 32768" for k
    proof (cases "k = 1")
      case False
      then have "(1 :: u64) < of_nat k" using that by (simp add: word_less_nat_alt unat_of_nat)
      then show ?thesis by simp
    qed simp
    then show ?thesis using c g(3) by blast
  qed
  then have "extent_get_pblock_new (of_nat l) len True ?z = Inr ((file_block fs raw l, len), z')"
    using g(1) len x h by (auto simp: extent_get_pblock_new_def em_run file_block_def)
  moreover obtain fs2 where "z' = (inode_get ino raw, fs2)" "same_fs fs fs2"
    using g(2) by (cases z') (auto simp: same_content_def same_fs_def fs_flat_def)
  ultimately show ?thesis
    using h len by (auto simp: inode_get_data_pblock_def Let_def)
qed


text \<open>A file whose extents are all in the inode has its blocks in every state of the device with that inode.\<close>

lemma allocated_root:
  assumes a: "allocated_block fs raw l" and r: "root_depth raw = 0" "i_flags raw' = i_flags raw" "i_block raw' = i_block raw"
    and fs: "fs_ok fs'" "sup fs' = sup fs"
  shows "allocated_block fs' raw' l" "file_block fs' raw' l = file_block fs raw l"
proof -
  have d: "root_depth raw' = 0" using r(1,3) by (simp add: root_depth_def)
  show f: "file_block fs' raw' l = file_block fs raw l"
    using a r d by (simp add: file_block_def allocated_block_def)
  show "allocated_block fs' raw' l"
    using a unfolding allocated_block_def f by (simp add: r d fs)
qed

lemma inode_get_from:
  assumes ok: "fs_ok fs" "block_size_ok (sup fs)" and off: "inode_offset (n - 1) (sup fs) = Inr off" "n \<noteq> 0" "unat off < 2 ^ 62"
  obtains fs' where "inode_get_by_number n raw fs = Inr (0, inode_from fs off raw, fs')" "same_fs fs fs'"
proof -
  have "servable fs (unat off) (inode_disk_size (sup fs))"
    using off(3) disk_size_le [of "sup fs"] block_size_bounds(1) [OF ok(2)] by (intro servable_small) simp_all
  then obtain fs' where "inode_get_by_number n raw fs = Inr (0, inode_from fs off raw, fs')" "same_fs fs fs'"
    unfolding inode_from_def by (rule inode_get_run [OF ok(1) off(1,2), of raw])
  then show thesis by (rule that)
qed

text \<open>The place of a request on the device.\<close>

definition block_place :: "fs \<Rightarrow> ext4_inode \<Rightarrow> u64 \<Rightarrow> nat" where
  "block_place fs raw offset = unat (file_block fs raw (unat offset div bsize fs)) * bsize fs + unat offset mod bsize fs"

section \<open>Stores\<close>

definition wrote :: "fs \<Rightarrow> nat \<Rightarrow> bytes \<Rightarrow> fs \<Rightarrow> bool" where
  "wrote fs w p fs' \<longleftrightarrow> fs_ok fs' \<and> sup fs' = sup fs \<and>
     (\<forall>i < 2 ^ 63. fs_flat fs' i = (if w \<le> i \<and> i < w + length p then p ! (i - w) else fs_flat fs i))"

lemma write_run:
  assumes s: "same_fs fs fs1" and bs: "block_size_ok (sup fs)" and p: "length p \<le> bsize fs" "w + length p < 2 ^ 63"
  shows "\<exists>fs2. disk_write w p fs1 = Inr fs2 \<and> wrote fs w p fs2"
proof -
  have s1: "fs_ok fs1" "sup fs1 = sup fs" "fs_flat fs1 = fs_flat fs" using s by (simp_all add: same_fs_def)
  have b: "1024 \<le> bsize fs" by (rule block_size_bounds(1) [OF bs])
  have "servable fs1 w (length p)" using p b s1(2) by (intro servable_small) simp_all
  from disk_write_ok [OF s1(1) this] obtain fs2 where f: "disk_write w p fs1 = Inr fs2" "fs_ok fs2" "sup fs2 = sup fs"
    "\<forall>i < 2 ^ 64 * bsize fs. fs_flat fs2 i = (if w \<le> i \<and> i < w + length p then p ! (i - w) else fs_flat fs i)"
    unfolding s1(2,3) by blast
  have "i < 2 ^ 64 * bsize fs" if "i < 2 ^ 63" for i
  proof -
    have "(2 :: nat) ^ 64 * 1 \<le> 2 ^ 64 * bsize fs" using b by (intro mult_le_mono2) simp
    with that show ?thesis by simp
  qed
  then have "wrote fs w p fs2" using f(2-4) by (simp add: wrote_def)
  then show ?thesis using f(1) by blast
qed

lemma block_pos_wide:
  assumes s: "block_size_ok s" and b: "unat b < 2 ^ 40" and x: "unat x < 2 ^ 20"
  shows "unat (BLOCKS2BYTES b s + x) = unat b * unat (super_block_size s) + unat x"
    "unat b * unat (super_block_size s) + unat x < 2 ^ 57"
proof -
  have m: "unat b * unat (super_block_size s) \<le> 2 ^ 40 * 2 ^ 16"
    using b block_size_bounds(2) [OF s] by (intro mult_le_mono) simp_all
  then show lt: "unat b * unat (super_block_size s) + unat x < 2 ^ 57" using x by simp
  have "unat (BLOCKS2BYTES b s) = unat b * unat (super_block_size s)"
    unfolding BLOCKS2BYTES_def using m by (subst unat_mult_small) (simp_all add: unat_ucast_up)
  then show "unat (BLOCKS2BYTES b s + x) = unat b * unat (super_block_size s) + unat x"
    using lt by (subst unat_add_small) simp_all
qed

section \<open>The two ways into a block\<close>

text \<open>The words of a request of \<open>m\<close> bytes in one block.\<close>

lemma request_words:
  fixes offset :: u64
  assumes so: "block_size_ok s" and l: "unat offset div unat (super_block_size s) < 2 ^ 32"
    and m: "0 < m" "unat offset mod unat (super_block_size s) + m \<le> unat (super_block_size s)"
  defines "bs \<equiv> unat (super_block_size s)"
  shows "(ucast (offset div ucast (super_block_size s)) :: u32) = of_nat (unat offset div bs)"
    "(ucast ((offset + (of_nat m - 1)) div ucast (super_block_size s)) :: u32) = of_nat (unat offset div bs)"
    "(ucast (offset mod ucast (super_block_size s)) :: u32) = 0 \<longleftrightarrow> unat offset mod bs = 0"
    "unat (ucast (ucast (offset mod ucast (super_block_size s)) :: u32) :: u64) = unat offset mod bs"
    "unat (of_nat m :: u64) = m" "unat offset < 2 ^ 48" "(of_nat m :: u64) \<noteq> 0" "m \<le> bs" "unat offset mod bs < 2 ^ 20"
proof -
  define o' where "o' = unat offset"
  have bs: "1024 \<le> bs" "bs \<le> 65536" using block_size_bounds [OF so] by (simp_all add: bs_def)
  have mb: "0 < m" "m \<le> bs" "o' mod bs + m \<le> bs" using m by (simp_all add: o'_def bs_def)
  have o48: "o' < 2 ^ 48"
  proof -
    have "o' div bs + 1 \<le> 2 ^ 32" using l by (simp add: o'_def bs_def)
    then have "(o' div bs + 1) * bs \<le> 2 ^ 32 * 65536" using bs(2) by (intro mult_le_mono) simp_all
    moreover have "o' < (o' div bs + 1) * bs" using dividend_less_div_times [of bs o'] bs(1) by (simp add: mult.commute)
    ultimately show ?thesis by simp
  qed
  have um: "unat (of_nat m :: u64) = m" using mb(2) bs(2) by (simp add: unat_of_nat)
  have e1: "unat (offset + (of_nat m - 1)) = o' + m - 1"
  proof -
    have "unat (of_nat m - 1 :: u64) = m - 1" using mb(1) um by (subst unat_sub) (simp_all add: word_le_nat_alt)
    then show ?thesis using o48 mb bs by (subst unat_add_small) (simp_all add: o'_def)
  qed
  have same: "(o' + m - 1) div bs = o' div bs" using same_block_iff [of bs m o'] bs(1) mb by simp
  have d: "unat offset div bs < 2 ^ 32" "unat (offset + (of_nat m - 1)) div bs < 2 ^ 32" using l same by (simp_all add: e1 bs_def o'_def)
  have bsu: "unat (super_block_size s) = bs" by (simp add: bs_def)
  note wo = block_word_wide [OF bsu d(1)] and we = block_word_wide [OF bsu d(2), unfolded e1 same]
  have ob: "o' mod bs < 65536" using bs mod_less_divisor [of bs o'] by linarith
  then have u32: "unat (ucast (offset mod ucast (super_block_size s)) :: u32) = unat offset mod bs"
    by (subst unat_ucast_down) (simp_all add: wo o'_def)
  show "(ucast (offset div ucast (super_block_size s)) :: u32) = of_nat (unat offset div bs)"
    "(ucast ((offset + (of_nat m - 1)) div ucast (super_block_size s)) :: u32) = of_nat (unat offset div bs)"
    by (rule wo(2)) (rule we(2) [unfolded o'_def])
  show "(ucast (offset mod ucast (super_block_size s)) :: u32) = 0 \<longleftrightarrow> unat offset mod bs = 0"
    using u32 by (simp add: word_unat_eq_iff)
  show "unat (ucast (ucast (offset mod ucast (super_block_size s)) :: u32) :: u64) = unat offset mod bs"
    by (simp only: unat_ucast_up u32)
  show "unat (of_nat m :: u64) = m" by (rule um)
  then show "(of_nat m :: u64) \<noteq> 0" using mb(1) by (metis less_irrefl unat_0)
  show "unat offset < 2 ^ 48" "m \<le> bs" "unat offset mod bs < 2 ^ 20" using o48 mb ob by (simp_all add: o'_def)
qed

lemma first_write_run:
  assumes a: "allocated_block fs raw (unat offset div bsize fs)" and l: "unat offset div bsize fs < 2 ^ 32"
    and n: "0 < length buf" "unat offset mod bsize fs + length buf \<le> bsize fs" and off: "unat offset mod bsize fs \<noteq> 0"
  shows "\<exists>fs2. first_write buf (of_nat (length buf)) offset (inode_get ino raw, fs) =
      Inr (of_nat (length buf), inode_get ino raw, fs2) \<and>
    wrote fs (block_place fs raw offset) buf fs2"
proof -
  note h = a [unfolded allocated_block_def]
  have so: "block_size_ok (sup fs)" using h by simp
  note w = request_words [OF so l n]
  let ?b = "file_block fs raw (unat offset div bsize fs)" and ?o = "unat offset mod bsize fs"
  obtain fs2 where f2: "inode_get_data_pblock (of_nat (unat offset div bsize fs)) None True (inode_get ino raw, fs) =
      Inr ((?b, None), inode_get ino raw, fs2)" "same_fs fs fs2"
    using block_for_write [OF a, of None ino] by auto
  have b40: "unat ?b < 2 ^ 40" using h by simp
  have "unat (ucast (ucast (offset mod ucast (super_block_size (sup fs))) :: u32) :: u64) < 2 ^ 20" using w(4,9) by (simp only:)
  note pos = block_pos_wide [OF so b40 this, unfolded w(4), folded block_place_def]
  have "length buf \<le> bsize fs" "block_place fs raw offset + length buf < 2 ^ 63"
    using w(8) pos(2) block_size_bounds(2) [OF so] by simp_all
  from write_run [OF f2(2) so this] obtain fs3 where
    f3: "disk_write (block_place fs raw offset) buf fs2 = Inr fs3" "wrote fs (block_place fs raw offset) buf fs3" by blast
  have "first_write buf (of_nat (length buf)) offset (inode_get ino raw, fs) = Inr (of_nat (length buf), inode_get ino raw, fs3)"
    using f2(1) f3(1) off by (simp add: first_write_def em_run Let_def w(1,2,3,5,7) pos(1) em_fs_run c_defined_def)
  then show ?thesis using f3(2) by blast
qed

lemma write_loop_run:
  assumes a: "allocated_block fs raw l" and n: "0 < length buf" "length buf \<le> bsize fs"
  shows "\<exists>fs2. write_loop (Suc (length buf)) buf (of_nat l) True (of_nat (length buf)) 0 (inode_get ino raw, fs) =
      Inr (of_nat (length buf), inode_get ino raw, fs2) \<and> wrote fs (unat (file_block fs raw l) * bsize fs) buf fs2"
proof -
  define m bs where "m = length buf" and "bs = bsize fs"
  note h = a [unfolded allocated_block_def]
  have bs: "1024 \<le> bs" "bs \<le> 65536" using block_size_bounds [of "sup fs"] h by (simp_all add: bs_def)
  have m: "0 < m" "m \<le> bs" using n by (simp_all add: m_def bs_def)
  have um: "unat (of_nat m :: u64) = m" using m bs(2) by (simp add: unat_of_nat)
  have len: "ucast ((of_nat m + ucast (super_block_size (sup fs)) - 1) div ucast (super_block_size (sup fs)) :: u64) = (1 :: u32)"
  proof -
    have c: "unat (of_nat m + ucast (super_block_size (sup fs)) :: u64) = m + bs"
      using m bs by (subst unat_add_small) (simp_all add: um unat_ucast_up bs_def)
    then have "unat (of_nat m + ucast (super_block_size (sup fs)) - 1 :: u64) = m + bs - 1"
      using m by (subst unat_sub) (simp_all add: word_le_nat_alt)
    then have "unat ((of_nat m + ucast (super_block_size (sup fs)) - 1) div ucast (super_block_size (sup fs)) :: u64) = (m + bs - 1) div bs"
      by (simp add: unat_div unat_ucast_up bs_def)
    also have "m + bs - 1 = (m - 1) + 1 * bs" using m by simp
    also have "\<dots> div bs = 1" using m bs by (subst div_mult_self1) simp_all
    finally have "(of_nat m + ucast (super_block_size (sup fs)) - 1) div ucast (super_block_size (sup fs)) = (1 :: u64)"
      by (intro word_unat_eq_iff [THEN iffD2]) simp
    then show ?thesis by (simp only: ucast_1)
  qed
  obtain fs2 where f2: "inode_get_data_pblock (of_nat l) (Some 1) True (inode_get ino raw, fs) =
      Inr ((file_block fs raw l, Some 1), inode_get ino raw, fs2)" "same_fs fs fs2"
    using block_for_write [OF a, of "Some 1" ino] by auto
  have so: "block_size_ok (sup fs)" and b: "unat (file_block fs raw l) < 2 ^ 40" "file_block fs raw l \<noteq> 0" using h by simp_all
  have pos: "unat (BLOCKS2BYTES (file_block fs raw l) (sup fs)) = unat (file_block fs raw l) * bs" "unat (file_block fs raw l) * bs < 2 ^ 57"
    using block_pos_wide [OF so b(1), of 0] by (simp_all add: bs_def)
  obtain fs3 where f3: "disk_write (unat (file_block fs raw l) * bs) buf fs2 = Inr fs3" "wrote fs (unat (file_block fs raw l) * bs) buf fs3"
    using write_run [OF f2(2) so, of buf "unat (file_block fs raw l) * bs"] m bs pos(2) by (auto simp: m_def bs_def)
  have ctx: "disk_ctx_create (unat (file_block fs raw l) * bs) bs 1 = Inr \<lparr>ctx_cur = unat (file_block fs raw l) * bs, ctx_size = bs\<rparr>"
    using bs by (simp add: disk_ctx_create_def)
  have wr: "disk_ctx_write \<lparr>ctx_cur = unat (file_block fs raw l) * bs, ctx_size = bs\<rparr> m buf fs2 =
      Inr (\<lparr>ctx_cur = unat (file_block fs raw l) * bs + m, ctx_size = bs - m\<rparr>, fs3)"
    using f3(1) m bs by (simp add: disk_ctx_write_def Let_def m_def)
  obtain k where k: "m = Suc k" using m(1) by (cases m) simp_all
  have gt: "(0 :: u64) < of_nat m" by (simp add: word_less_nat_alt um m)
  have "write_loop m buf (of_nat l + 1) True (of_nat m) (of_nat m) (inode_get ino raw, fs3) = Inr (of_nat m, inode_get ino raw, fs3)"
    by (subst k, subst write_loop.simps) (simp add: em_run)
  then have "write_loop (Suc m) buf (of_nat l) True (of_nat m) 0 (inode_get ino raw, fs) = Inr (of_nat m, inode_get ino raw, fs3)"
    by (subst write_loop.simps) (simp add: em_run gt Let_def len f2(1) b(2) pos(1) ctx wr em_fs_run um del: write_loop.simps flip: bs_def)
  then show ?thesis using f3(2) by (auto simp: m_def bs_def)
qed

lemma sint_count:
  assumes "n < 2 ^ 31"
  shows "sint (ucast (of_nat n :: u64) :: u32) = int n"
proof -
  have "ucast (of_nat n :: u64) = (word_of_int (int n) :: u32)"
    using assms by (intro word_unat_eq_iff [THEN iffD2]) (simp add: unat_ucast_down unat_of_nat)
  moreover have "signed_take_bit 31 (int n) = int n"
    using assms by (intro signed_take_bit_int_eq_self) simp_all
  ultimately show ?thesis by (simp only: sint_sbintrunc') simp
qed

text \<open>The size in the inode after a write: the part that ends an unaligned write at a block boundary or inside
  its block is counted twice, because it has already moved the offset when the bytes are added up.\<close>

definition size_after :: "fs \<Rightarrow> nat \<Rightarrow> nat \<Rightarrow> nat" where
  "size_after fs off n = off + n + (if off mod bsize fs = 0 then 0 else n)"

text \<open>The two halves of a size.\<close>

lemma size_halves:
  assumes "unat (SZ :: u64) = sz"
  shows "(of_nat sz :: u32) = ucast SZ" "(of_nat (sz div 2 ^ 32) :: u32) = ucast (drop_bit 32 SZ)"
proof -
  show "(of_nat sz :: u32) = ucast SZ" unfolding assms [symmetric] by (rule of_nat_unat)
  have "sz div 2 ^ 32 = unat (drop_bit 32 SZ)"
    unfolding assms [symmetric] by (simp add: drop_bit_eq_div unat_div)
  then show "(of_nat (sz div 2 ^ 32) :: u32) = ucast (drop_bit 32 SZ)"
    by (simp only: of_nat_unat)
qed

lemma op_write_block_run:
  assumes get: "inode_get_by_number (ucast fh) raw0 fs0 = Inr (0, raw, fs)" and wf: "inode_wf raw"
    and a: "allocated_block fs raw (unat offset div bsize fs)" and l: "unat offset div bsize fs < 2 ^ 32"
    and n: "0 < length buf" "unat offset mod bsize fs + length buf \<le> bsize fs"
    and slot: "(ucast fh :: u32) \<noteq> 0" "inode_offset (ucast fh - 1) (sup fs) = Inr off" "unat off < 2 ^ 62"
  defines "sz \<equiv> size_after fs (unat offset) (length buf)"
  shows "\<exists>fs1 fs2. op_write buf offset fh raw0 fs0 = Inr (int (length buf), fs2) \<and> wrote fs (block_place fs raw offset) buf fs1 \<and>
    (if fsize raw < sz
     then wrote fs1 (unat off) (take (inode_disk_size (sup fs))
       (inode_bytes (raw\<lparr>i_size_lo := of_nat sz, i_size_high := of_nat (sz div 2 ^ 32)\<rparr>))) fs2
     else fs2 = fs1)"
proof -
  define m bs ino l where "m = length buf" and "bs = bsize fs" and "ino = (ucast fh :: u32)" and "l = unat offset div bsize fs"
  define inode where "inode = inode_get ino raw"
  note h = a [unfolded allocated_block_def]
  have bs: "1024 \<le> bs" "bs \<le> 65536" using block_size_bounds [of "sup fs"] h by (simp_all add: bs_def)
  have m: "0 < m" "m \<le> bs" using n by (simp_all add: m_def bs_def)
  have so: "block_size_ok (sup fs)" using h by simp
  note w = request_words [OF so l n, folded m_def bs_def]
  note um = w(5) and o48 = w(6)
  have sz: "sz = unat offset + m + (if unat offset mod bs = 0 then 0 else m)" by (simp add: sz_def size_after_def m_def bs_def)
  obtain r1 fsA fs1 where r1: "first_write buf (of_nat m) offset (inode, fs) = Inr (r1, inode, fsA)" "sup fsA = sup fs"
      "write_loop (Suc m) buf (ucast ((offset + r1) div ucast (super_block_size (sup fs)))) True (of_nat m) r1 (inode, fsA) = Inr (of_nat m, inode, fs1)"
      "wrote fs (block_place fs raw offset) buf fs1" "unat (offset + r1 + of_nat m) = sz"
  proof (cases "unat offset mod bs = 0")
    case True
    then have "first_write buf (of_nat m) offset (inode, fs) = Inr (0, inode, fs)"
      by (simp add: first_write_def em_run Let_def w(3))
    moreover obtain fs1 where "write_loop (Suc m) buf (of_nat l) True (of_nat m) 0 (inode, fs) = Inr (of_nat m, inode, fs1)"
      "wrote fs (unat (file_block fs raw l) * bsize fs) buf fs1"
      using write_loop_run [of fs raw l buf ino] a m unfolding l_def inode_def m_def bs_def by blast
    moreover have "(ucast (offset div ucast (super_block_size (sup fs))) :: u32) = of_nat l"
      using w(1) by (simp add: l_def bs_def)
    moreover have "unat (offset + of_nat m) = sz"
      using True o48 m bs by (subst unat_add_small) (simp_all add: um sz)
    ultimately show thesis
      using True by (intro that [of 0 fs fs1]) (simp_all add: block_place_def l_def bs_def del: write_loop.simps)
  next
    case False
    from first_write_run [OF a l n, of ino] False obtain fs1 where
      f: "first_write buf (of_nat m) offset (inode, fs) = Inr (of_nat m, inode, fs1)" "wrote fs (block_place fs raw offset) buf fs1"
      unfolding m_def bs_def inode_def by blast
    have "unat (offset + of_nat m + of_nat m) = sz"
    proof -
      have "unat (offset + of_nat m) = unat offset + m" using o48 m bs by (subst unat_add_small) (simp_all add: um)
      then show ?thesis using False o48 m bs by (subst unat_add_small) (simp_all add: um sz)
    qed
    moreover have "write_loop (Suc m) buf x True (of_nat m) (of_nat m) (inode, fs1) = Inr (of_nat m, inode, fs1)" for x
      by (subst write_loop.simps) (simp add: em_run)
    moreover have "sup fs1 = sup fs" using f(2) by (simp add: wrote_def)
    ultimately show thesis using f by (intro that [of "of_nat m" fs1 fs1]) (simp_all del: write_loop.simps)
  qed
  define SZ where "SZ = offset + r1 + of_nat m"
  have fsz: "unat (inode_get_size inode) = fsize raw" by (simp add: inode_def fsize_def inode_get_size_def)
  have ok1: "fs_ok fs1" "sup fs1 = sup fs" using r1(4) by (simp_all add: wrote_def)
  have grown: "inode_get_size inode < SZ \<longleftrightarrow> fsize raw < sz" using r1(5) fsz by (simp add: word_less_nat_alt SZ_def)
  have sint: "sint (ucast (of_nat m :: u64) :: u32) = int m" using m bs by (intro sint_count) simp
  have run: "op_write buf offset fh raw0 fs0 =
      res_bind (inode_put (if inode_get_size inode < SZ then inode_set_size inode SZ else inode) fs1) (\<lambda>fs. Inr (int m, fs))"
    using get slot(1) r1(1,3) unfolding op_write_def
    by (simp add: Let_def r1(2) um sint c_assert_def SZ_def del: write_loop.simps flip: m_def inode_def ino_def)
  show ?thesis
  proof (cases "fsize raw < sz")
    case False
    then show ?thesis using run grown r1(4) by (auto simp: inode_def m_def)
  next
    case True
    let ?raw = "raw\<lparr>i_size_lo := of_nat sz, i_size_high := of_nat (sz div 2 ^ 32)\<rparr>"
    note halves = size_halves [OF r1(5) [folded SZ_def]]
    have wf': "inode_wf ?raw" using wf by (simp add: inode_wf_def)
    let ?p = "take (inode_disk_size (sup fs)) (inode_bytes ?raw)"
    have "inode_disk_size (sup fs) \<le> 156" by (simp add: inode_disk_size_def sizeof_inode_def)
    then have "length ?p \<le> bsize fs1" "unat off + length ?p < 2 ^ 63"
      using bs slot(3) by (simp_all add: ok1(2) length_inode_bytes [OF wf'] bs_def)
    from write_run [OF same_fs_refl [OF ok1(1)] _ this] obtain fs2 where
      f: "disk_write (unat off) ?p fs1 = Inr fs2" "wrote fs1 (unat off) ?p fs2" using h ok1(2) by auto
    have "inode_put (inode_set_size inode SZ) fs1 = Inr fs2"
      using slot(1,2) f(1)
      by (simp add: inode_put_def inode_set_size_def inode_mark_dirty_def inode_set_by_number_def inode_def inode_get_def ino_def ok1(2) flip: halves)
    then show ?thesis using run grown r1(4) f(2) True by (auto simp: m_def)
  qed
qed

section \<open>Properties\<close>

text \<open>C11: A write that lies in one block of a file with extents, which the file already has: op_write() stores
  exactly the bytes of the buffer at their place in that block and returns their number. When the size
  that it computes exceeds that of the inode, the inode is written with that size; for a write that does
  not start at a block boundary this is not the end of the data but as many bytes further as were
  written, so that such a write lengthens a file even when it lies inside of it.\<close>

theorem op_write_one_block:
  assumes get: "inode_get_by_number (ucast fh) raw0 fs0 = Inr (0, raw, fs)" and wf: "inode_wf raw"
    and a: "allocated_block fs raw (unat offset div bsize fs)" and l: "unat offset div bsize fs < 2 ^ 32"
    and n: "0 < length buf" "unat offset mod bsize fs + length buf \<le> bsize fs"
    and slot: "(ucast fh :: u32) \<noteq> 0" "inode_offset (ucast fh - 1) (sup fs) = Inr off" "unat off < 2 ^ 62"
  defines "sz \<equiv> size_after fs (unat offset) (length buf)"
  shows "\<exists>fs1 fs2. op_write buf offset fh raw0 fs0 = Inr (int (length buf), fs2) \<and> wrote fs (block_place fs raw offset) buf fs1 \<and>
    (if fsize raw < sz
     then wrote fs1 (unat off) (take (inode_disk_size (sup fs))
       (inode_bytes (raw\<lparr>i_size_lo := of_nat sz, i_size_high := of_nat (sz div 2 ^ 32)\<rparr>))) fs2
     else fs2 = fs1)"
  unfolding sz_def by (rule op_write_block_run [OF get wf a l n slot])


text \<open>A device whose inode 12 is a file of 5 bytes with extents, in block 9.\<close>

definition extent_root :: bytes where
  "extent_root = eh_bytes \<lparr>eh_magic = EXT4_EXT_MAGIC, eh_entries = 1, eh_max = 4, eh_depth = 0, eh_generation = 0\<rparr> @
     ext_bytes \<lparr>ee_block = 0, ee_len = 1, ee_start_hi = 0, ee_start_lo = 9\<rparr> @ replicate 36 0"

definition extent_inode :: ext4_inode where
  "extent_inode = (inode_of (replicate 156 0))\<lparr>i_flags := EXT4_EXTENTS_FL, i_size_lo := 5, i_block := extent_root\<rparr>"

definition demo_write_fs :: fs where
  "demo_write_fs = \<lparr>sup = demo_super, bdev = fs_cache_init 10
     (\<lambda>b. if b = 6 then replicate 384 0 @ take 128 (inode_bytes extent_inode) @ replicate 512 0 else replicate 1024 0)
     (\<lambda>_. 0) (\<lambda>_. replicate 1024 0)\<rparr>"

lemma extent_root_nodes: "length extent_root = 60" "unat (eh_depth (eh_of extent_root)) = 0" "node_fits extent_root"
  "node_exts extent_root = [\<lparr>ee_block = 0, ee_len = 1, ee_start_hi = 0, ee_start_lo = 9\<rparr>]"
proof -
  have h: "eh_of extent_root = \<lparr>eh_magic = EXT4_EXT_MAGIC, eh_entries = 1, eh_max = 4, eh_depth = 0, eh_generation = 0\<rparr>"
    by (simp add: extent_root_def eh_of_def eh_bytes_def ext_bytes_def codec_simps)
  show l: "length extent_root = 60" by (simp add: extent_root_def eh_bytes_def ext_bytes_def)
  show "unat (eh_depth (eh_of extent_root)) = 0" "node_fits extent_root"
    using h l by (simp_all add: node_fits_def entry_off_def)
  show "node_exts extent_root = [\<lparr>ee_block = 0, ee_len = 1, ee_start_hi = 0, ee_start_lo = 9\<rparr>]"
    using h by (simp add: node_exts_def upt_rec entry_off_def extent_root_def ext_of_def eh_bytes_def ext_bytes_def codec_simps)
qed

lemma extent_inode_wf: "inode_wf extent_inode"
  by (simp add: inode_wf_def extent_inode_def extent_root_nodes)

lemma demo_write_ok: "fs_ok demo_write_fs" "sup demo_write_fs = sup demo_fs"
  "view (bdev demo_write_fs) (of_nat 6) = replicate 384 0 @ take 128 (inode_bytes extent_inode) @ replicate 512 0"
proof -
  let ?v = "\<lambda>b :: u64. if b = 6 then replicate 384 0 @ take 128 (inode_bytes extent_inode) @ replicate 512 0 else replicate 1024 0"
  have "\<forall>b. length (?v b) = 2 ^ 10"
    by (simp add: length_inode_bytes [OF extent_inode_wf])
  note init = cache_init_inv [OF this, of "\<lambda>_. replicate 1024 0"]
  show "fs_ok demo_write_fs" "sup demo_write_fs = sup demo_fs"
    "view (bdev demo_write_fs) (of_nat 6) = replicate 384 0 @ take 128 (inode_bytes extent_inode) @ replicate 512 0"
    using init by (simp_all add: fs_ok_def demo_write_fs_def demo_fs_def demo_super_eval fs_cache_init_def bdev_alloc_def)
qed

lemma demo_write_inode:
  assumes wf: "inode_wf raw0"
  defines "raw \<equiv> inode_from demo_write_fs 6528 raw0"
  shows "inode_wf raw" "fsize raw = 5" "root_depth raw = 0" "file_block demo_write_fs raw 0 = 9" "allocated_block demo_write_fs raw 0"
proof -
  note ok = demo_write_ok
  have "raw = inode_of (take 128 (inode_bytes extent_inode) @ drop 128 (inode_bytes raw0))"
    unfolding raw_def inode_from_def by (rule slot_bytes [OF ok(2) _ _ ok(3) extent_inode_wf wf]) simp_all
  note h = inode_head [OF extent_inode_wf, of "drop 128 (inode_bytes raw0)", folded this]
  have f: "i_flags raw = EXT4_EXTENTS_FL" "i_block raw = extent_root"
    using h by (simp_all add: extent_inode_def)
  show "fsize raw = 5" using h by (simp add: extent_inode_def fsize_def inode_get_size_def inode_of_def ld_zeros)
  show d: "root_depth raw = 0" by (simp add: root_depth_def f(2) extent_root_nodes)
  have x: "find (ext_covers (of_nat 0)) (tree_exts (view (bdev demo_write_fs)) (root_depth raw) (i_block raw)) =
      Some \<lparr>ee_block = 0, ee_len = 1, ee_start_hi = 0, ee_start_lo = 9\<rparr>"
    by (simp add: d f(2) extent_root_nodes ext_covers_def ext_end_def ext4_ext_get_actual_len_def)
  show b: "file_block demo_write_fs raw 0 = 9"
    using x by (simp add: file_block_def f(1) ext4_ext_pblock_def)
  have "block_size_ok (sup demo_write_fs)" using demo_block_size_ok by (simp add: ok(2))
  then show "allocated_block demo_write_fs raw 0"
    using ok(1) x b by (simp add: allocated_block_def f d extent_root_nodes ext_end_def ext4_ext_get_actual_len_def)
  show "inode_wf raw" by (simp add: inode_wf_def f(2) extent_root_nodes)
qed

lemma demo_write_sizes: "unat (super_block_size (sup demo_write_fs)) = 1024" "inode_disk_size (sup demo_write_fs) = 128"
  "inode_offset 11 (sup demo_write_fs) = Inr 6528" "super_inode_size (sup demo_write_fs) = 128" "block_size_ok (sup demo_write_fs)"
proof -
  have "super_inode_size demo_super = 128" by (simp add: demo_super_def super_of_def super_inode_size_def)
  then show "super_inode_size (sup demo_write_fs) = 128" by (simp add: demo_write_fs_def)
qed (use demo_inode_offset demo_block_size_ok in \<open>simp_all add: demo_write_ok(2) demo_fs_ok\<close>)

theorem op_write_one_block_witness:
  "\<exists>raw fs fs1 fs2. fsize raw = 5 \<and> op_write [1, 2] 3 12 (inode_of (replicate 156 7)) demo_write_fs = Inr (2, fs2) \<and>
     wrote fs (9 * 1024 + 3) [1, 2] fs1 \<and> wrote fs1 6528 (take 128 (inode_bytes (raw\<lparr>i_size_lo := 7, i_size_high := 0\<rparr>))) fs2"
proof -
  define raw0 where "raw0 = inode_of (replicate 156 7)"
  have wf: "inode_wf raw0" by (simp add: raw0_def inode_wf_of)
  define raw where "raw = inode_from demo_write_fs 6528 raw0"
  note d = demo_write_inode [OF wf, folded raw_def] and z = demo_write_sizes
  obtain fs where g: "inode_get_by_number 12 raw0 demo_write_fs = Inr (0, raw, fs)" "same_fs demo_write_fs fs"
    unfolding raw_def using inode_get_from [OF demo_write_ok(1) z(5), of 12 6528 raw0] z(3) by auto
  have s: "fs_ok fs" "sup fs = sup demo_write_fs" using g(2) by (simp_all add: same_fs_def)
  note a = allocated_root [OF d(5,3) refl refl s]
  have z': "unat (super_block_size (sup fs)) = 1024" "inode_disk_size (sup fs) = 128" "inode_offset 11 (sup fs) = Inr 6528"
    using z by (simp_all only: s(2))
  have "size_after fs (unat (3 :: u64)) (length [1 :: u8, 2]) = 7" by (simp add: size_after_def z')
  then obtain fs1 fs2 where "op_write [1, 2] 3 12 raw0 demo_write_fs = Inr (2, fs2)" "wrote fs (9 * 1024 + 3) [1, 2] fs1"
    "wrote fs1 6528 (take 128 (inode_bytes (raw\<lparr>i_size_lo := 7, i_size_high := 0\<rparr>))) fs2"
    using op_write_one_block [of 12 raw0 demo_write_fs raw fs 3 "[1, 2]" 6528] g(1) a d z' by (auto simp: block_place_def)
  then show ?thesis
    unfolding raw0_def [symmetric] using d(2) by blast
qed

end
