(* ===== verification/E4F_Roundtrip.thy ===== *)
theory E4F_Roundtrip
  imports E4F_Write
begin

text \<open>
  Writing to a file and reading the same range: op_write() of src/op_write.c followed by op_read() of
  src/op_read.c, through the inode on the device, the extent tree and the buffer cache.
\<close>

section \<open>Reading from one block\<close>

lemma block_for_read:
  assumes a: "allocated_block fs raw l" and s: "same_fs fs fs1"
  shows "\<exists>L fs2. inode_get_data_pblock (of_nat l) len False (inode_get ino raw, fs1) =
      Inr ((file_block fs raw l, map_option (\<lambda>_. of_nat L) len), inode_get ino raw, fs2) \<and> same_fs fs fs2 \<and> 0 < L \<and> L \<le> 32768"
proof -
  note h = a [unfolded allocated_block_def]
  obtain x where x: "find (ext_covers (of_nat l)) (tree_exts (view (bdev fs)) (root_depth raw) (i_block raw)) = Some x"
    using h by blast
  have s1: "fs_ok fs1" "sup fs1 = sup fs" "view (bdev fs1) = view (bdev fs)"
    using s same_fs_view [of fs fs1] h by (simp_all add: same_fs_def)
  define L where "L = ext_end x - unat (of_nat l :: u32)"
  have c: "ext_covers (of_nat l) x" using x by (auto simp: find_Some_iff)
  then have L: "0 < L" "L \<le> 32768"
    using actual_len_le [of x] by (auto simp: L_def ext_covers_def ext_end_def)
  obtain fs2 where f: "extent_get_pblock_new (of_nat l) len2 False (inode_get ino raw, fs1) =
      Inr ((file_block fs raw l, map_option (\<lambda>_. of_nat L) len2), inode_get ino raw, fs2)" "fs_ok fs2" "sup fs2 = sup fs1"
      "view (bdev fs2) = view (bdev fs1)" if "len2 = map_option (\<lambda>_. 1) len" for len2
    using extent_lookup_run [of fs1 "inode_get ino raw" "of_nat l" "map_option (\<lambda>_. 1) len"] h x s1
    by (auto simp: file_block_def root_depth_def L_def option.map_comp o_def)
  note f = f [OF refl]
  have "same_fs fs fs2" using f(2-4) s1 by (simp add: same_fs_def fs_flat_def)
  then show ?thesis
    using f(1) h L by (intro exI [of _ L] exI [of _ fs2]) (simp add: inode_get_data_pblock_def Let_def option.map_comp o_def)
qed

lemma read_run:
  assumes s: "same_fs fs fs1" and bs: "block_size_ok (sup fs)" and n: "n \<le> bsize fs" "w + n < 2 ^ 63"
  shows "\<exists>fs2. disk_read w n fs1 = Inr (map (fs_flat fs) [w ..< w + n], fs2) \<and> same_fs fs fs2"
proof -
  have s1: "fs_ok fs1" "sup fs1 = sup fs" "fs_flat fs1 = fs_flat fs" using s by (simp_all add: same_fs_def)
  have b: "1024 \<le> bsize fs" by (rule block_size_bounds(1) [OF bs])
  have "servable fs1 w n" using n b s1(2) by (intro servable_small) simp_all
  from disk_read_ok [OF s1(1) this] obtain fs2 where
    "disk_read w n fs1 = Inr (map (fs_flat fs) [w ..< w + n], fs2)" "fs_ok fs2" "sup fs2 = sup fs1" "view (bdev fs2) = view (bdev fs1)"
    unfolding s1(3) by blast
  then show ?thesis using s1 by (intro exI [of _ fs2]) (simp add: same_fs_def fs_flat_def)
qed


lemma splice_all: "length xs = length buf \<Longrightarrow> splice buf 0 xs = xs"
  by (simp add: splice_def)

lemma read_loop_block_run:
  assumes a: "allocated_block fs raw l" and n: "0 < length buf" "length buf \<le> bsize fs"
  shows "\<exists>fs2. read_loop (Suc (length buf)) buf (of_nat l) (of_nat (length buf)) 0 (inode_get ino raw, fs) =
      Inr ((of_nat (length buf), map (fs_flat fs) [unat (file_block fs raw l) * bsize fs ..< unat (file_block fs raw l) * bsize fs + length buf]),
        inode_get ino raw, fs2) \<and> same_fs fs fs2"
proof -
  define m bs where "m = length buf" and "bs = bsize fs"
  note h = a [unfolded allocated_block_def]
  have so: "block_size_ok (sup fs)" and ok: "fs_ok fs" and b: "unat (file_block fs raw l) < 2 ^ 40" "file_block fs raw l \<noteq> 0" using h by simp_all
  have bs: "1024 \<le> bs" "bs \<le> 65536" using block_size_bounds [OF so] by (simp_all add: bs_def)
  have m: "0 < m" "m \<le> bs" using n by (simp_all add: m_def bs_def)
  have um: "unat (of_nat m :: u64) = m" using m bs(2) by (simp add: unat_of_nat)
  let ?w = "unat (file_block fs raw l) * bs"
  obtain L fs2 where f2: "inode_get_data_pblock (of_nat l) (Some 0) False (inode_get ino raw, fs) =
      Inr ((file_block fs raw l, Some (of_nat L)), inode_get ino raw, fs2)" "same_fs fs fs2" "0 < L" "L \<le> 32768"
    using block_for_read [OF a same_fs_refl [OF ok], of "Some 0" ino] by auto
  have pos: "unat (BLOCKS2BYTES (file_block fs raw l) (sup fs)) = ?w" "?w < 2 ^ 57"
    using block_pos_wide [OF so b(1), of 0] by (simp_all add: bs_def)
  obtain fs3 where f3: "disk_read ?w m fs2 = Inr (map (fs_flat fs) [?w ..< ?w + m], fs3)" "same_fs fs fs3"
    using read_run [OF f2(2) so, of m ?w] m bs pos(2) by (auto simp: bs_def)
  have uL: "unat (of_nat L :: u32) = L" using f2(4) by (simp add: unat_of_nat)
  have bL: "bs * L < 2 ^ 64" "bs \<le> bs * L"
  proof -
    have "bs * L \<le> 65536 * 32768" using bs(2) f2(4) by (rule mult_le_mono)
    then show "bs * L < 2 ^ 64" by simp
    show "bs \<le> bs * L" using f2(3) by simp
  qed
  have ctx: "disk_ctx_create ?w bs (of_nat L) = Inr \<lparr>ctx_cur = ?w, ctx_size = bs * L\<rparr>"
    using bs bL(1) by (simp add: disk_ctx_create_def uL)
  have rd: "disk_ctx_read \<lparr>ctx_cur = ?w, ctx_size = bs * L\<rparr> m fs2 =
      Inr (\<lparr>ctx_cur = ?w + m, ctx_size = bs * L - m\<rparr>, map (fs_flat fs) [?w ..< ?w + m], fs3)"
  proof -
    have "\<not> bs * L < m" "bs * L \<noteq> 0" using m bL(2) bs by linarith+
    then show ?thesis using f3(1) by (simp add: disk_ctx_read_def Let_def)
  qed
  obtain k where k: "m = Suc k" using m(1) by (cases m) simp_all
  have gt: "(0 :: u64) < of_nat m" by (simp add: word_less_nat_alt um m)
  let ?xs = "map (fs_flat fs) [?w ..< ?w + m]"
  have st: "buf_store buf 0 ?xs = Inr ?xs" using splice_all [of ?xs buf] by (simp add: buf_store_def c_defined_def m_def)
  have "read_loop m ?xs (of_nat l + of_nat L) (of_nat m) (of_nat m) (inode_get ino raw, fs3) = Inr ((of_nat m, ?xs), inode_get ino raw, fs3)"
    by (subst k, subst read_loop.simps) (simp add: em_run)
  then have "read_loop (Suc m) buf (of_nat l) (of_nat m) 0 (inode_get ino raw, fs) = Inr ((of_nat m, ?xs), inode_get ino raw, fs3)"
    by (subst read_loop.simps) (simp add: em_run gt Let_def f2(1) b(2) pos(1) ctx rd em_fs_run um st del: read_loop.simps flip: bs_def)
  then show ?thesis using f3(2) by (auto simp: m_def bs_def)
qed

lemma first_read_block_run:
  assumes a: "allocated_block fs raw (unat offset div bsize fs)" and l: "unat offset div bsize fs < 2 ^ 32"
    and n: "0 < length buf" "unat offset mod bsize fs + length buf \<le> bsize fs" and off: "unat offset mod bsize fs \<noteq> 0"
  shows "\<exists>fs2. first_read buf (of_nat (length buf)) offset (inode_get ino raw, fs) =
      Inr ((of_nat (length buf), map (fs_flat fs) [block_place fs raw offset ..< block_place fs raw offset + length buf]), inode_get ino raw, fs2) \<and>
    same_fs fs fs2"
proof -
  note h = a [unfolded allocated_block_def]
  have so: "block_size_ok (sup fs)" and ok: "fs_ok fs" using h by simp_all
  note w = request_words [OF so l n]
  let ?b = "file_block fs raw (unat offset div bsize fs)" and ?o = "unat offset mod bsize fs"
  obtain fs2 where f2: "inode_get_data_pblock (of_nat (unat offset div bsize fs)) None False (inode_get ino raw, fs) =
      Inr ((?b, None), inode_get ino raw, fs2)" "same_fs fs fs2"
    using block_for_read [OF a same_fs_refl [OF ok], of None ino] by auto
  have b40: "unat ?b < 2 ^ 40" using h by simp
  have "unat (ucast (ucast (offset mod ucast (super_block_size (sup fs))) :: u32) :: u64) < 2 ^ 20" using w(4,9) by (simp only:)
  note pos = block_pos_wide [OF so b40 this, unfolded w(4), folded block_place_def]
  have "length buf \<le> bsize fs" "block_place fs raw offset + length buf < 2 ^ 63"
    using w(8) pos(2) block_size_bounds(2) [OF so] by simp_all
  from read_run [OF f2(2) so this] obtain fs3 where
    f3: "disk_read (block_place fs raw offset) (length buf) fs2 =
      Inr (map (fs_flat fs) [block_place fs raw offset ..< block_place fs raw offset + length buf], fs3)" "same_fs fs fs3" by blast
  let ?xs = "map (fs_flat fs) [block_place fs raw offset ..< block_place fs raw offset + length buf]"
  have st: "buf_store buf 0 ?xs = Inr ?xs" using splice_all [of ?xs buf] by (simp add: buf_store_def c_defined_def)
  have "first_read buf (of_nat (length buf)) offset (inode_get ino raw, fs) = Inr ((of_nat (length buf), ?xs), inode_get ino raw, fs3)"
    using f2(1) f3(1) off by (simp add: first_read_def em_run Let_def w(1,2,3,5,7) pos(1) em_fs_run c_defined_def st)
  then show ?thesis using f3(2) by blast
qed

lemma op_read_block_run:
  assumes get: "inode_get_by_number (ucast fh) raw0 fs0 = Inr (0, raw, fs)"
    and a: "allocated_block fs raw (unat offset div bsize fs)" and l: "unat offset div bsize fs < 2 ^ 32"
    and n: "0 < length buf" "unat offset mod bsize fs + length buf \<le> bsize fs" and sz: "unat offset + length buf \<le> fsize raw"
  shows "\<exists>fs2. op_read buf offset fh raw0 fs0 = Inr (int (length buf),
      map (fs_flat fs) [block_place fs raw offset ..< block_place fs raw offset + length buf], fs2) \<and> same_fs fs fs2"
proof -
  define m inode where "m = length buf" and "inode = inode_get (ucast fh) raw"
  note h = a [unfolded allocated_block_def]
  have so: "block_size_ok (sup fs)" and ok: "fs_ok fs" using h by simp_all
  note w = request_words [OF so l n, folded m_def]
  let ?xs = "map (fs_flat fs) [block_place fs raw offset ..< block_place fs raw offset + m]"
  have fsz: "unat (inode_get_size inode) = fsize raw" by (simp add: inode_def fsize_def inode_get_size_def)
  have m16: "m \<le> 65536" using w(8) block_size_bounds(2) [OF so] by linarith
  have ts: "truncate_size inode (of_nat m) offset = of_nat m"
  proof -
    have s: "unat (offset + of_nat m) = unat offset + m" using w(6) m16 by (subst unat_add_small) (simp_all add: w(5))
    have "unat offset < fsize raw" using sz n(1) by linarith
    then have 1: "\<not> offset \<ge> inode_get_size inode" by (simp add: word_le_nat_alt fsz)
    have "inode_get_size inode - offset = of_nat m" if "offset + of_nat m \<ge> inode_get_size inode"
    proof -
      have "fsize raw \<le> unat offset + m" using that unfolding word_le_nat_alt s fsz .
      then have "unat (offset + of_nat m) = unat (inode_get_size inode)" unfolding s fsz using sz by (simp add: m_def)
      then have "inode_get_size inode = offset + of_nat m" by (intro word_unat_eq_iff [THEN iffD2]) simp
      then show ?thesis by simp
    qed
    then show ?thesis using 1 by (simp add: truncate_size_def Let_def)
  qed
  have "\<exists>r fsA buf' fs2. first_read buf (of_nat m) offset (inode, fs) = Inr ((r, buf'), inode, fsA) \<and> sup fsA = sup fs \<and>
    read_loop (Suc m) buf' (ucast ((offset + r) div ucast (super_block_size (sup fs)))) (of_nat m) r (inode, fsA) =
      Inr ((of_nat m, ?xs), inode, fs2) \<and> same_fs fs fs2"
  proof (cases "unat offset mod bsize fs = 0")
    case True
    then have "first_read buf (of_nat m) offset (inode, fs) = Inr ((0, buf), inode, fs)"
      by (simp add: first_read_def em_run Let_def w(3))
    moreover have "block_place fs raw offset = unat (file_block fs raw (unat offset div bsize fs)) * bsize fs"
      using True by (simp add: block_place_def)
    moreover have "length buf \<le> bsize fs" using w(8) by (simp add: m_def)
    ultimately show ?thesis
      using read_loop_block_run [OF a n(1), of "ucast fh"] by (auto simp: inode_def w(1) m_def simp del: read_loop.simps)
  next
    case False
    from first_read_block_run [OF a l n False, of "ucast fh"] obtain fsA where
      f: "first_read buf (of_nat m) offset (inode, fs) = Inr ((of_nat m, ?xs), inode, fsA)" "same_fs fs fsA"
      unfolding m_def inode_def by blast
    have "read_loop (Suc m) ?xs x (of_nat m) (of_nat m) (inode, fsA) = Inr ((of_nat m, ?xs), inode, fsA)" for x
      by (subst read_loop.simps) (simp add: em_run)
    then show ?thesis using f by (auto simp: same_fs_def simp del: read_loop.simps)
  qed
  then obtain r fsA buf' fs2 where f: "first_read buf (of_nat m) offset (inode, fs) = Inr ((r, buf'), inode, fsA)" "sup fsA = sup fs"
    "read_loop (Suc m) buf' (ucast ((offset + r) div ucast (super_block_size (sup fs)))) (of_nat m) r (inode, fsA) = Inr ((of_nat m, ?xs), inode, fs2)"
    "same_fs fs fs2" by blast
  have "sint (ucast (of_nat m :: u64) :: u32) = int m" using m16 by (intro sint_count) simp
  moreover have "inode_put inode fs2 = Inr fs2" by (simp add: inode_def)
  ultimately show ?thesis
    using get f by (intro exI [of _ fs2]) (simp add: op_read_def Let_def ts w(5) flip: m_def inode_def del: read_loop.simps)
qed


section \<open>Writing and reading back\<close>

lemma place_bound:
  assumes a: "allocated_block fs raw (unat offset div bsize fs)"
  shows "block_place fs raw offset < 2 ^ 57"
proof -
  note h = a [unfolded allocated_block_def]
  have so: "block_size_ok (sup fs)" using h by simp
  have "unat offset mod bsize fs < bsize fs" using block_size_bounds(1) [OF so] by simp
  then have "unat offset mod bsize fs < 2 ^ 20" using block_size_bounds(2) [OF so] by simp
  moreover have "unat (of_nat (unat offset mod bsize fs) :: u64) = unat offset mod bsize fs"
    using \<open>unat offset mod bsize fs < 2 ^ 20\<close> by (simp add: unat_of_nat)
  ultimately show ?thesis
    using block_pos_wide(2) [OF so, of "file_block fs raw (unat offset div bsize fs)" "of_nat (unat offset mod bsize fs)"] h
    by (simp add: block_place_def)
qed

lemma inode_from_head:
  assumes k: "128 \<le> super_inode_size (sup fs)" and wf: "inode_wf R" "inode_wf raw"
    and slot: "map (fs_flat fs) [unat off ..< unat off + inode_disk_size (sup fs)] = take (inode_disk_size (sup fs)) (inode_bytes R)"
  shows "i_flags (inode_from fs off raw) = i_flags R" "i_block (inode_from fs off raw) = i_block R" "fsize (inode_from fs off raw) = fsize R"
proof -
  have "128 \<le> inode_disk_size (sup fs)" using k by (simp add: inode_disk_size_def sizeof_inode_def word_le_nat_alt)
  note h = inode_fields [OF wf(1) this, of "drop (inode_disk_size (sup fs)) (inode_bytes raw)"]
  have "inode_from fs off raw = inode_of (take (inode_disk_size (sup fs)) (inode_bytes R) @ drop (inode_disk_size (sup fs)) (inode_bytes raw))"
    using disk_size_le [of "sup fs"] by (simp add: inode_from_def slot splice_0 length_inode_bytes [OF wf(1)] min_def)
  then show "i_flags (inode_from fs off raw) = i_flags R" "i_block (inode_from fs off raw) = i_block R" "fsize (inode_from fs off raw) = fsize R"
    using h by (simp_all add: fsize_def inode_get_size_def)
qed

lemma fsize_halves:
  assumes "unat (SZ :: u64) = sz"
  shows "fsize (raw\<lparr>i_size_lo := of_nat sz, i_size_high := of_nat (sz div 2 ^ 32)\<rparr>) = sz"
  by (simp add: fsize_def inode_get_size_def inode_get_def size_halves [OF assms, simplified] hi_lo_64 assms)

lemma inode_from_bytes:
  assumes "inode_wf raw"
  shows "take (inode_disk_size (sup fs)) (inode_bytes (inode_from fs off raw)) = map (fs_flat fs) [unat off ..< unat off + inode_disk_size (sup fs)]"
proof -
  have k: "inode_disk_size (sup fs) \<le> 156" by (rule disk_size_le)
  let ?xs = "map (fs_flat fs) [unat off ..< unat off + inode_disk_size (sup fs)]"
  have "length (splice (inode_bytes raw) 0 ?xs) = 156" using k by (simp add: length_inode_bytes [OF assms])
  then have "inode_bytes (inode_from fs off raw) = ?xs @ drop (inode_disk_size (sup fs)) (inode_bytes raw)"
    unfolding inode_from_def by (subst inode_bytes_of) (simp_all add: splice_0)
  then show ?thesis by simp
qed


lemma wrote_there:
  "wrote fs w p fs' \<Longrightarrow> w + length p \<le> 2 ^ 63 \<Longrightarrow> map (fs_flat fs') [w ..< w + length p] = p"
  by (rule nth_equalityI) (simp_all add: wrote_def)

lemma wrote_apart:
  "wrote fs w p fs' \<Longrightarrow> w + length p \<le> v \<or> v + n \<le> w \<Longrightarrow> v + n \<le> 2 ^ 63 \<Longrightarrow>
    map (fs_flat fs') [v ..< v + n] = map (fs_flat fs) [v ..< v + n]"
  by (rule nth_equalityI) (auto simp: wrote_def)

section \<open>Properties\<close>

text \<open>C9: What op_write() stores is what op_read() of the same range returns: a write that lies in one allocated
  block of a file whose extents are in its inode, followed by a read of the range into a buffer of the same
  length, gives the bytes that were written, through the inode that is read from the device again, whatever
  size the write has left in it. The data and the slot of the inode in the inode table do not overlap.\<close>

theorem op_write_then_read:
  assumes raw: "raw = inode_from fs off raw0" "inode_wf raw0" "inode_wf raw1"
    and slot: "(ucast fh :: u32) \<noteq> 0" "inode_offset (ucast fh - 1) (sup fs) = Inr off" "unat off < 2 ^ 62" "128 \<le> super_inode_size (sup fs)"
    and a: "allocated_block fs raw (unat offset div bsize fs)" "root_depth raw = 0" and l: "unat offset div bsize fs < 2 ^ 32"
    and n: "0 < length buf" "unat offset mod bsize fs + length buf \<le> bsize fs" "length buf' = length buf"
    and apart: "block_place fs raw offset + length buf \<le> unat off \<or> unat off + inode_disk_size (sup fs) \<le> block_place fs raw offset"
  shows "\<exists>fs1 fs2. op_write buf offset fh raw0 fs = Inr (int (length buf), fs1) \<and>
    op_read buf' offset fh raw1 fs1 = Inr (int (length buf), buf, fs2)"
proof -
  define w k sz where "w = block_place fs raw offset" and "k = inode_disk_size (sup fs)" and "sz = size_after fs (unat offset) (length buf)"
  note h = a(1) [unfolded allocated_block_def]
  have so: "block_size_ok (sup fs)" using h by simp
  note bs = block_size_bounds [OF so]
  have wf: "inode_wf raw" unfolding raw(1) by (rule inode_from_wf [OF raw(2)])
  obtain fsg where g: "inode_get_by_number (ucast fh) raw0 fs = Inr (0, raw, fsg)" "same_fs fs fsg"
    using inode_get_from [of fs "ucast fh" off raw0] h slot raw(1) by auto
  have sg: "fs_ok fsg" "sup fsg = sup fs" "fs_flat fsg = fs_flat fs" using g(2) by (simp_all add: same_fs_def)
  note ag = allocated_root [OF a refl refl sg(1,2)]
  have w57: "w + length buf < 2 ^ 63" using place_bound [OF a(1)] n(2) bs by (simp add: w_def)
  have pg: "block_place fsg raw offset = w" by (simp add: w_def block_place_def sg(2) ag(2))
  have szg: "size_after fsg (unat offset) (length buf) = sz" by (simp add: size_after_def sz_def sg(2))
  obtain fsA fs1 where wr: "op_write buf offset fh raw0 fs = Inr (int (length buf), fs1)" "wrote fsg w buf fsA"
    "if fsize raw < sz then wrote fsA (unat off) (take k (inode_bytes (raw\<lparr>i_size_lo := of_nat sz, i_size_high := of_nat (sz div 2 ^ 32)\<rparr>))) fs1
     else fs1 = fsA"
    using op_write_block_run [OF g(1) wf, of offset buf off] ag(1) l n(1,2) slot(1-3) unfolding sg(2) pg szg k_def by blast
  have kk: "128 \<le> k" "k \<le> 156" using slot(4) disk_size_le [of "sup fs"] by (simp_all add: k_def inode_disk_size_def sizeof_inode_def word_le_nat_alt)
  define R where "R = (if fsize raw < sz then raw\<lparr>i_size_lo := of_nat sz, i_size_high := of_nat (sz div 2 ^ 32)\<rparr> else raw)"
  have R: "inode_wf R" "i_flags R = i_flags raw" "i_block R = i_block raw" using wf by (simp_all add: R_def inode_wf_def)
  have s1: "fs_ok fs1" "sup fs1 = sup fs" using wr(2,3) sg by (auto simp: wrote_def split: if_splits)
  have szn: "unat offset + length buf \<le> fsize R"
  proof -
    have "sz \<le> unat offset + length buf + length buf" by (simp add: sz_def size_after_def)
    also have "\<dots> < 2 ^ 64" using request_words(6) [OF so l n(1,2)] n(2) bs(2) by simp
    finally have "unat (of_nat sz :: u64) = sz" by (simp add: unat_of_nat)
    note fsize_halves [OF this, of raw]
    moreover have "unat offset + length buf \<le> sz" by (simp add: sz_def size_after_def)
    ultimately show ?thesis by (auto simp: R_def simp del: of_nat_unat)
  qed
  have data1: "map (fs_flat fsA) [w ..< w + length buf] = buf"
    by (rule wrote_there [OF wr(2)]) (use w57 in simp)
  have slot1: "map (fs_flat fsA) [unat off ..< unat off + k] = take k (inode_bytes raw)"
    using wrote_apart [OF wr(2), of "unat off" k] apart slot(3) kk(2) inode_from_bytes [OF raw(2), of fs off]
    by (simp add: sg(3) raw(1) [symmetric] flip: w_def k_def)
  have pl: "length (take k (inode_bytes R)) = k" using kk(2) by (simp add: length_inode_bytes [OF R(1)])
  have "map (fs_flat fs1) [unat off ..< unat off + k] = take k (inode_bytes R) \<and> map (fs_flat fs1) [w ..< w + length buf] = buf"
  proof (cases "fsize raw < sz")
    case True
    then have w1: "wrote fsA (unat off) (take k (inode_bytes R)) fs1" using wr(3) by (simp add: R_def)
    have "map (fs_flat fs1) [unat off ..< unat off + k] = take k (inode_bytes R)"
      using wrote_there [OF w1] pl slot(3) kk(2) by simp
    moreover have "map (fs_flat fs1) [w ..< w + length buf] = map (fs_flat fsA) [w ..< w + length buf]"
      by (rule wrote_apart [OF w1]) (use apart w57 pl in \<open>auto simp: w_def k_def\<close>)
    ultimately show ?thesis using data1 by simp
  next
    case False
    then show ?thesis using wr(3) data1 slot1 by (simp add: R_def)
  qed
  then have slotbytes: "map (fs_flat fs1) [unat off ..< unat off + k] = take k (inode_bytes R)"
    and data: "map (fs_flat fs1) [w ..< w + length buf] = buf" by blast+
  let ?raw = "inode_from fs1 off raw1"
  have hd: "i_flags ?raw = i_flags R" "i_block ?raw = i_block R" "fsize ?raw = fsize R"
    using inode_from_head [of fs1 R raw1 off] slot(4) R(1) raw(3) slotbytes by (simp_all add: s1(2) k_def)
  obtain fs3 where g3: "inode_get_by_number (ucast fh) raw1 fs1 = Inr (0, ?raw, fs3)" "same_fs fs1 fs3"
    using inode_get_from [of fs1 "ucast fh" off raw1] s1 so slot by auto
  have s3: "fs_ok fs3" "sup fs3 = sup fs" "fs_flat fs3 = fs_flat fs1" using g3(2) s1 by (simp_all add: same_fs_def)
  have "i_flags ?raw = i_flags raw" "i_block ?raw = i_block raw" using hd R by simp_all
  note a3 = allocated_root [OF a this s3(1,2)]
  have p3: "block_place fs3 ?raw offset = w" by (simp add: w_def block_place_def s3(2) a3(2))
  have rd: "unat offset + length buf' \<le> fsize ?raw" using szn hd(3) n(3) by simp
  have "\<exists>fs2. op_read buf' offset fh raw1 fs1 = Inr (int (length buf'), map (fs_flat fs3) [w ..< w + length buf'], fs2) \<and> same_fs fs3 fs2"
    unfolding p3 [symmetric]
    by (rule op_read_block_run [OF g3(1) _ _ _ _ rd]) (use a3(1) l n in \<open>simp_all add: s3(2)\<close>)
  then show ?thesis using wr(1) data n(3) by (auto simp: s3(3))
qed


theorem op_write_then_read_witness:
  "\<exists>fs1 fs2. op_write [1, 2] 3 12 (inode_of (replicate 156 7)) demo_write_fs = Inr (2, fs1) \<and>
    op_read [0, 0] 3 12 (inode_of (replicate 156 5)) fs1 = Inr (2, [1, 2], fs2)"
proof -
  have wf: "inode_wf (inode_of (replicate 156 7))" "inode_wf (inode_of (replicate 156 5))" by (simp_all add: inode_wf_of)
  note d = demo_write_inode [OF wf(1)] and z = demo_write_sizes
  have "3 div (1024 :: nat) = 0" "3 mod (1024 :: nat) = 3" by simp_all
  then show ?thesis
    using op_write_then_read [OF refl wf, of 12 demo_write_fs 6528 3 "[1, 2]" "[0, 0]"] d z by (simp add: block_place_def)
qed

end
