(* ===== verification/E4F_Main.thy ===== *)
theory E4F_Main
  imports E4F_Ops
begin

text \<open>
  The start and the end of the program: src/fuse-main.c with the log of src/logging.c. libfuse, the C library
  and the devices that can be opened are the record \<open>host\<close>; the operations run inside of fuse_main().
\<close>

section \<open>The log\<close>

text \<open>The level up to which messages are written and the text of the log file, if one is open.\<close>

record logger =
  loglevel :: int
  logfile :: "string option"

definition LOG_DEBUG :: int where "LOG_DEBUG = 7"

definition DEFAULT_LOG_LEVEL :: int where "DEFAULT_LOG_LEVEL = LOG_DEBUG"

definition log_start :: logger where
  "log_start = \<lparr>loglevel = DEFAULT_LOG_LEVEL, logfile = None\<rparr>"

definition loglevel_str :: "string list" where
  "loglevel_str = [''[emerg]'', ''[alert]'', ''[crit] '', ''[err]  '', ''[warn] '', ''[notic]'', ''[info] '', ''[debug]'']"

text \<open>A line number as %d prints it.\<close>

fun decimal :: "nat \<Rightarrow> string" where
  "decimal n = (if n < 10 then [char_of (48 + n)] else decimal (n div 10) @ [char_of (48 + n mod 10)])"

declare decimal.simps [simp del]

text \<open>\<open>msg\<close> is what vfprintf() makes of the format and its arguments. A level behind the names of the levels
  reads outside of their array.\<close>

definition LOG :: "int \<Rightarrow> string \<Rightarrow> nat \<Rightarrow> string \<Rightarrow> logger \<Rightarrow> logger res" where
  "LOG level func line msg lg =
     (case logfile lg of
        None \<Rightarrow> Inr lg
      | Some out \<Rightarrow>
          if level < 0 then Inr lg
          else if level > loglevel lg then Inr lg
          else
            res_bind (c_defined (nat level < length loglevel_str)) (\<lambda>_.
              Inr (lg\<lparr>logfile := Some (out @ loglevel_str ! nat level @ ''['' @ func @ '':'' @ decimal line @ ''] '' @ msg @ [CHR 0x0A])\<rparr>)))"

text \<open>Messages of one function, each with its line, in order.\<close>

fun LOG_all :: "int \<Rightarrow> string \<Rightarrow> (nat \<times> string) list \<Rightarrow> logger \<Rightarrow> logger res" where
  "LOG_all level func [] lg = Inr lg"
| "LOG_all level func ((line, msg) # xs) lg = res_bind (LOG level func line msg lg) (LOG_all level func xs)"

definition logging_setlevel :: "int \<Rightarrow> logger \<Rightarrow> logger" where
  "logging_setlevel new_level lg = lg\<lparr>loglevel := new_level\<rparr>"

text \<open>fopen() either fails or gives an empty file.\<close>

definition logging_open :: "(string \<Rightarrow> bool) \<Rightarrow> string option \<Rightarrow> logger \<Rightarrow> int \<times> logger" where
  "logging_open fopen path lg =
     (case path of
        None \<Rightarrow> (0, lg)
      | Some p \<Rightarrow> if fopen p then (0, lg\<lparr>logfile := Some []\<rparr>) else (-1, lg\<lparr>logfile := None\<rparr>))"

text \<open>The handler of a segmentation fault: the log when it calls abort(). The frames come from backtrace_symbols().\<close>

definition signal_handle_sigsegv :: "string list \<Rightarrow> logger \<Rightarrow> logger res" where
  "signal_handle_sigsegv frames lg =
     LOG_all LOG_DEBUG ''signal_handle_sigsegv''
       ((89, ''========================================'') # (90, ''Segmentation Fault.  Starting backtrace:'') #
        map (\<lambda>s. (95, s)) (take 10 frames) @ [(96, ''========================================'')]) lg"

section \<open>The command line\<close>

record e4f =
  e4f_disk :: "string option"
  e4f_logfile :: "string option"

datatype opt_key = FUSE_OPT_KEY_OPT | FUSE_OPT_KEY_NONOPT | Key_other

text \<open>The callback of fuse_opt_parse(): the result is 0 for an argument that is taken away and 1 for one that is
  kept. abort() is the failed assertion.\<close>

definition e4f_opt_proc :: "string \<Rightarrow> opt_key \<Rightarrow> e4f \<Rightarrow> (int \<times> e4f) res" where
  "e4f_opt_proc arg key s =
     (case key of
        FUSE_OPT_KEY_OPT \<Rightarrow> Inr (1, s)
      | FUSE_OPT_KEY_NONOPT \<Rightarrow> if e4f_disk s = None then Inr (0, s\<lparr>e4f_disk := Some arg\<rparr>) else Inr (1, s)
      | Key_other \<Rightarrow> Inl Assert_fail)"

section \<open>The program\<close>

text \<open>
  What the program asks of its host. \<open>fuse_opt_parse\<close> takes the arguments, the callback and the options, and
  gives its result, the arguments that are left and the options. \<open>open_errno\<close> is 0 for a path that can be opened; \<open>content\<close> is
  its content and \<open>pread_bytes\<close> the result of a read. \<open>fuse_main\<close> takes the arguments and what op_init() does when it is
  called; its result is the state after the last operation, or \<open>None\<close> if op_init() was never called.
\<close>

record host =
  signal_fails :: bool
  fuse_opt_parse :: "string list \<Rightarrow> (string \<Rightarrow> opt_key \<Rightarrow> e4f \<Rightarrow> (int \<times> e4f) res) \<Rightarrow> e4f \<Rightarrow> (int \<times> string list \<times> e4f) res"
  fopen_ok :: "string \<Rightarrow> bool"
  open_errno :: "string \<Rightarrow> int"
  content :: "string \<Rightarrow> nat \<Rightarrow> u8"
  pread_bytes :: "string \<Rightarrow> nat \<Rightarrow> nat \<Rightarrow> int"
  fuse_main :: "string list \<Rightarrow> (dcache \<times> fs) res \<Rightarrow> (int \<times> (dcache \<times> fs) option) res"

text \<open>disk_open() of src/disk.c; a positive errno is the error of open().\<close>

definition disk_open :: "host \<Rightarrow> string \<Rightarrow> int" where
  "disk_open h path = (if open_errno h path = 0 then 0 else - open_errno h path)"

definition EXIT_FAILURE :: int where "EXIT_FAILURE = 1"

definition disk_magic_offset :: nat where
  "disk_magic_offset = BOOT_SECTOR_SIZE + 56"

text \<open>The variable of main(): the bytes that pread() returned, and the old content of the others.\<close>

definition disk_magic :: "host \<Rightarrow> string \<Rightarrow> bytes \<Rightarrow> u16" where
  "disk_magic h path old =
     (let n = nat (pread_bytes h path disk_magic_offset 2)
      in ld16 (take n (map (content h path) [disk_magic_offset ..< disk_magic_offset + 2]) @ drop n old) 0)"

text \<open>
  The end of main(). Before op_init() has run, the superblock is zero and super_n_block_groups() divides by its
  zero s_blocks_per_group.
\<close>

definition shut_down :: "u64 list \<Rightarrow> (dcache \<times> fs) option \<Rightarrow> fs res" where
  "shut_down keys state =
     (case state of
        None \<Rightarrow> Inl Undefined
      | Some (dc, fs) \<Rightarrow>
          res_bind (super_group_uninit fs) (\<lambda>fs.
          res_bind (super_uninit fs) (\<lambda>fs.
          res_bind (fs_cache_cleanup keys (bdev fs)) (\<lambda>d. Inr (fs\<lparr>bdev := d\<rparr>)))))"

text \<open>
  The result of main(), the file system at its end if there is one, and the log with the messages of main() itself.
\<close>

definition main :: "host \<Rightarrow> string list \<Rightarrow> bytes \<Rightarrow> (u64 \<Rightarrow> int) \<Rightarrow> (u64 \<Rightarrow> bytes) \<Rightarrow> u64 list \<Rightarrow> (int \<times> fs option \<times> logger) res" where
  "main h argv old ioe junk keys =
     (if signal_fails h then Inr (EXIT_FAILURE, None, log_start)
      else
        res_bind (fuse_opt_parse h argv e4f_opt_proc \<lparr>e4f_disk = None, e4f_logfile = None\<rparr>) (\<lambda>(r, args, e).
          if r = -1 then Inr (EXIT_FAILURE, None, log_start)
          else
            (case e4f_disk e of
               None \<Rightarrow> Inr (1, None, log_start)
             | Some d \<Rightarrow>
                (let (r, lg) = logging_open (fopen_ok h) (e4f_logfile e) log_start
                 in if r < 0 then Inr (EXIT_FAILURE, None, lg)
                    else if disk_open h d < 0 then Inr (EXIT_FAILURE, None, lg)
                    else if pread_bytes h d disk_magic_offset 2 < 0 then Inr (EXIT_FAILURE, None, lg)
                    else if disk_magic h d old \<noteq> 0xEF53 then Inr (EXIT_FAILURE, None, lg)
                    else
                      res_bind (fuse_main h args (op_init (content h d) ioe junk dcache_start)) (\<lambda>(res, state).
                      res_bind (LOG LOG_DEBUG ''main'' 152 ''Uninitializing...'' lg) (\<lambda>lg.
                      res_bind (shut_down keys state) (\<lambda>fs. Inr (res, Some fs, lg))))))))"

section \<open>The parts of the program\<close>

text \<open>A message goes to an open log iff its level is a legal one up to the level of the log.\<close>

lemma LOG_filter:
  assumes "loglevel lg \<le> LOG_DEBUG"
  shows "\<exists>lg'. LOG level func line msg lg = Inr lg' \<and> loglevel lg' = loglevel lg \<and>
    (lg' = lg \<longleftrightarrow> logfile lg = None \<or> level < 0 \<or> loglevel lg < level)"
proof (cases "logfile lg")
  case (Some out)
  have ne: "lg\<lparr>logfile := Some (out @ xs)\<rparr> \<noteq> lg" if "xs \<noteq> []" for xs
    using Some that by (metis append_self_conv logger.select_convs(2) logger.surjective logger.update_convs(2) option.inject)
  have "nat level < length loglevel_str" if "level \<le> loglevel lg"
    using assms that by (simp add: loglevel_str_def LOG_DEBUG_def)
  then show ?thesis using Some ne by (auto simp: LOG_def not_less)
qed (simp add: LOG_def)

text \<open>The callback gives the first argument that is no option to main() and leaves the others to FUSE.\<close>

fun run_opt_proc :: "(string \<times> opt_key) list \<Rightarrow> e4f \<Rightarrow> (string list \<times> e4f) res" where
  "run_opt_proc [] e = Inr ([], e)"
| "run_opt_proc ((arg, key) # xs) e =
     res_bind (e4f_opt_proc arg key e) (\<lambda>(r, e).
     res_bind (run_opt_proc xs e) (\<lambda>(kept, e). Inr (if r = 1 then arg # kept else kept, e)))"

lemma run_opt_proc_rest:
  "e4f_disk e = Some d \<Longrightarrow> Key_other \<notin> snd ` set xs \<Longrightarrow> run_opt_proc xs e = Inr (map fst xs, e)"
  by (induction xs) (auto simp: e4f_opt_proc_def split: opt_key.splits)

lemma run_opt_proc_first:
  assumes "list_all (\<lambda>x. snd x = FUSE_OPT_KEY_OPT) xs" "Key_other \<notin> snd ` set ys" "e4f_disk e = None"
  shows "run_opt_proc (xs @ (d, FUSE_OPT_KEY_NONOPT) # ys) e = Inr (map fst xs @ map fst ys, e\<lparr>e4f_disk := Some d\<rparr>)"
  using assms(1)
proof (induction xs)
  case Nil
  then show ?case using assms(2,3) by (simp add: e4f_opt_proc_def run_opt_proc_rest)
next
  case (Cons x xs)
  then show ?case by (cases x) (simp add: e4f_opt_proc_def)
qed

lemma ld_two: "(ld 2 m a :: u16) = ld 2 [m ! a, m ! Suc a] 0"
  by (simp add: numeral_2_eq_2)

text \<open>The number that main() tests is the field of the superblock, if both of its bytes are read.\<close>

lemma disk_magic_field:
  assumes "pread_bytes h d disk_magic_offset 2 = 2"
  shows "disk_magic h d old = s_magic (super_block (sup (super_fill (content h d) ioe junk)))"
proof -
  have two: "map (content h d) [1080 ..< 1082] = [content h d 1080, content h d 1081]"
    by (simp add: upt_conv_Cons)
  have at: "map (content h d) [1024 ..< 2048] ! 56 = content h d 1080" "map (content h d) [1024 ..< 2048] ! 57 = content h d 1081"
    by simp_all
  have "disk_magic h d old = ld 2 [content h d 1080, content h d 1081] 0"
    using assms two ld_two [of "content h d 1080 # content h d 1081 # drop 2 old" 0]
    by (simp add: disk_magic_def disk_magic_offset_def ld16_def)
  also have "\<dots> = s_magic (super_of (map (content h d) [1024 ..< 2048]))"
    by (simp only: super_of_def ext4_super_block.select_convs) (use ld_two [of "map (content h d) [1024 ..< 2048]" 56] at in simp)
  finally show ?thesis by (simp add: super_fill_block)
qed

section \<open>The end of the program\<close>

text \<open>The bytes of the device itself, without the cache, and the bytes that writing back may change.\<close>

definition on_device :: "fs \<Rightarrow> nat \<Rightarrow> u8" where
  "on_device fs = flat (disk (bdev fs)) (unat (super_block_size (sup fs)))"

definition saved_byte :: "super_state \<Rightarrow> nat \<Rightarrow> bool" where
  "saved_byte s x \<longleftrightarrow> gd_byte s (length (gdesc_table s)) x \<or> BOOT_SECTOR_SIZE \<le> x \<and> x < BOOT_SECTOR_SIZE + 1024"

lemma shut_down_run:
  assumes m: "mounted fs" and free: "\<forall>b. refs (bdev fs) b = 0"
  shows "\<exists>fs'. shut_down keys (Some (dc, fs)) = Inr fs' \<and>
    map (on_device fs') [BOOT_SECTOR_SIZE ..< BOOT_SECTOR_SIZE + 1024] = super_bytes (super_block (sup fs)) \<and>
    (\<forall>i < length (gdesc_table (sup fs)). map (on_device fs') [gd_pos (sup fs) i ..< gd_pos (sup fs) i + ds (sup fs)] =
       gd_bytes (sup fs) (saved (sup fs) i)) \<and>
    (\<forall>x < 2 ^ 63. \<not> saved_byte (sup fs) x \<longrightarrow> on_device fs' x = fs_flat fs x)"
proof -
  obtain fs1 where w: "super_group_writeback fs = Inr fs1" "written fs (length (gdesc_table (sup fs))) fs1"
    using super_group_writeback_ok [OF m] by blast
  define fs1' where "fs1' = fs1\<lparr>sup := (sup fs1)\<lparr>gdesc_table := []\<rparr>\<rparr>"
  obtain fs2 where u: "super_writeback fs1' = Inr fs2" "fs_ok fs2" "refs (bdev fs2) = refs (bdev fs)"
    "flat_at fs2 BOOT_SECTOR_SIZE 1024 = super_bytes (super_block (sup fs))"
    "\<And>i. i < length (gdesc_table (sup fs)) \<Longrightarrow> flat_at fs2 (gd_pos (sup fs) i) (ds (sup fs)) = gd_bytes (sup fs) (saved (sup fs) i)"
    "\<And>x. x < 2 ^ 63 \<Longrightarrow> \<not> saved_byte (sup fs) x \<Longrightarrow> fs_flat fs2 x = fs_flat fs x"
    using write_back_run [OF m w(2) fs1'_def] unfolding saved_byte_def by (metis not_less)
  obtain d' where c: "fs_cache_cleanup keys (bdev fs2) = Inr d'" "disk d' = view (bdev fs2)"
    using cleanup_run [of "bdev fs2" keys] u(2,3) free by (auto simp: fs_ok_def)
  define fs' where "fs' = fs2\<lparr>bdev := d'\<rparr>"
  have dev: "on_device fs' = fs_flat fs2" by (simp add: on_device_def fs'_def fs_flat_def c(2))
  have "shut_down keys (Some (dc, fs)) = Inr fs'"
    using w(1) u(1) c(1) by (simp add: shut_down_def super_group_uninit_def super_uninit_def fs'_def fs1'_def)
  then show ?thesis using u(4-6) unfolding flat_at_def dev [symmetric] by blast
qed

section \<open>Properties\<close>

text \<open>C24: Nothing is lost when the program ends: if the operations leave a mounted file system (without META_BG) and
  no buffer in use, which main() does not ensure, main() ends with the result of fuse_main(), and the device then mounts to the superblock and the
  group descriptors that were in memory; every other byte of the device is the one that the cache had for it.\<close>

theorem main_writes_back:
  assumes host: "\<not> signal_fails h" "open_errno h d = 0" "pread_bytes h d disk_magic_offset 2 = 2"
    and args: "fuse_opt_parse h argv e4f_opt_proc \<lparr>e4f_disk = None, e4f_logfile = None\<rparr> = Inr (0, args, e)"
      "e4f_disk e = Some d" "\<forall>p. e4f_logfile e = Some p \<longrightarrow> fopen_ok h p"
    and magic: "s_magic (super_block (sup (super_fill (content h d) ioe junk))) = 0xEF53"
    and session: "fuse_main h args (op_init (content h d) ioe junk dcache_start) = Inr (r, Some (dc, fs))"
    and state: "mounted fs" "\<forall>b. refs (bdev fs) b = 0"
    and junk': "\<forall>b. length (junk' b) = unat (super_block_size (sup fs))"
  shows "\<exists>fs' lg fs3. main h argv old ioe junk keys = Inr (r, Some fs', lg) \<and>
    super_group_fill (super_fill (on_device fs') (\<lambda>_. 0) junk') = Inr fs3 \<and>
    sup fs3 = \<lparr>super_block = super_block (sup fs), super_block_dirty = False,
      gdesc_table = map (saved (sup fs)) [0 ..< length (gdesc_table (sup fs))]\<rparr> \<and>
    (\<forall>x < 2 ^ 63. \<not> saved_byte (sup fs) x \<longrightarrow> on_device fs' x = fs_flat fs x)"
proof -
  obtain fs' where s: "shut_down keys (Some (dc, fs)) = Inr fs'"
    "map (on_device fs') [BOOT_SECTOR_SIZE ..< BOOT_SECTOR_SIZE + 1024] = super_bytes (super_block (sup fs))"
    "\<And>i. i < length (gdesc_table (sup fs)) \<Longrightarrow> map (on_device fs') [gd_pos (sup fs) i ..< gd_pos (sup fs) i + ds (sup fs)] =
       gd_bytes (sup fs) (saved (sup fs) i)"
    "\<forall>x < 2 ^ 63. \<not> saved_byte (sup fs) x \<longrightarrow> on_device fs' x = fs_flat fs x"
    using shut_down_run [OF state] by metis
  obtain lg where lg: "logging_open (fopen_ok h) (e4f_logfile e) log_start = (0, lg)" "loglevel lg = LOG_DEBUG"
    using args(3) by (cases "e4f_logfile e") (simp_all add: logging_open_def log_start_def DEFAULT_LOG_LEVEL_def)
  obtain lg' where l: "LOG LOG_DEBUG ''main'' 152 ''Uninitializing...'' lg = Inr lg'"
    using LOG_filter [of lg] lg(2) by (metis order_refl)
  have "main h argv old ioe junk keys = Inr (r, Some fs', lg')"
    using host args(1,2) session s(1) lg(1) l disk_magic_field [OF host(3), of old ioe junk] magic
    by (simp add: main_def disk_open_def)
  then show ?thesis using remount [OF state(1) junk' s(2,3)] s(4) by blast
qed

text \<open>A host whose only device holds an empty file system, with a session that ends at once.\<close>

definition demo_magic :: ext4_super_block where
  "demo_magic = (super_block demo_super)\<lparr>s_magic := 0xEF53\<rparr>"

definition demo_device :: "nat \<Rightarrow> u8" where
  "demo_device x = (if 1024 \<le> x \<and> x < 2048 then super_bytes demo_magic ! (x - 1024) else 0)"

definition demo_host :: host where
  "demo_host = \<lparr>signal_fails = False,
     fuse_opt_parse = (\<lambda>argv _ e. res_bind (run_opt_proc (map (\<lambda>a. (a, if take 1 a = ''-'' then FUSE_OPT_KEY_OPT else FUSE_OPT_KEY_NONOPT)) (tl argv)) e)
       (\<lambda>(kept, e). Inr (0, take 1 argv @ kept, e))),
     fopen_ok = (\<lambda>_. False), open_errno = (\<lambda>p. if p = ''disk'' then 0 else 2), content = (\<lambda>_. demo_device),
     pread_bytes = (\<lambda>_ _ n. int n), fuse_main = (\<lambda>_ init. res_bind init (\<lambda>state. Inr (0, Some state)))\<rparr>"

lemma demo_device_fill: "super_block (sup (super_fill demo_device ioe junk)) = demo_magic"
proof -
  have wf: "super_wf demo_magic" using demo_super_wf by (simp add: demo_magic_def super_wf_def)
  have "map demo_device [1024 ..< 1024 + 1024] = super_bytes demo_magic"
    by (rule map_upt_nth [OF length_super_bytes [OF wf]]) (simp add: demo_device_def)
  then show ?thesis unfolding super_fill_block by (simp only: super_of_bytes [OF wf])
qed

lemma demo_init:
  "\<exists>fs. op_init demo_device (\<lambda>_. 0) (\<lambda>_. replicate 1024 0) dcache_start = Inr (dcache_ready, fs) \<and> mounted fs \<and>
    (\<forall>b. refs (bdev fs) b = 0) \<and> super_block_size (sup fs) = 1024"
proof -
  let ?fs0 = "super_fill demo_device (\<lambda>_. 0) (\<lambda>_. replicate 1024 0)"
  have geo: "super_block_size (sup ?fs0) = 1024" "plain_layout (sup ?fs0)"
    using demo_super_eval(1) demo_plain
    by (simp_all add: super_block_size_def plain_layout_def EXT4_HAS_INCOMPAT_FEATURE_def super_blocks_per_group_def demo_device_fill demo_magic_def)
  obtain d where d: "super_group_fill ?fs0 = Inr \<lparr>sup = (sup ?fs0)\<lparr>gdesc_table := map (entry ?fs0) [0 ..< unat (super_n_block_groups (sup ?fs0))]\<rparr>, bdev = d\<rparr>"
    "same_view (bdev ?fs0) d"
    "mounted \<lparr>sup = (sup ?fs0)\<lparr>gdesc_table := map (entry ?fs0) [0 ..< unat (super_n_block_groups (sup ?fs0))]\<rparr>, bdev = d\<rparr>"
    using mount_ok [of demo_device "\<lambda>_. replicate 1024 0"] geo by auto
  have "refs (bdev ?fs0) = (\<lambda>_. 0)"
    by (simp add: super_fill_def Let_def fs_cache_init_def bdev_alloc_def refs_def fun_eq_iff)
  then have "refs d = (\<lambda>_. 0)" using d(2) by (simp add: same_view_def)
  then show ?thesis
    using d(1,3) geo(1) dcache_ready_inv(4) by (simp add: op_init_def inode_init_def super_block_size_def)
qed

theorem main_writes_back_witness:
  "\<exists>fs' lg. main demo_host [''ext4fuse'', ''-f'', ''disk'', ''mnt''] [] (\<lambda>_. 0) (\<lambda>_. replicate 1024 0) [] = Inr (0, Some fs', lg)"
proof -
  obtain fs where fs: "op_init demo_device (\<lambda>_. 0) (\<lambda>_. replicate 1024 0) dcache_start = Inr (dcache_ready, fs)" "mounted fs"
    "\<forall>b. refs (bdev fs) b = 0" "super_block_size (sup fs) = 1024"
    using demo_init by blast
  show ?thesis
    using main_writes_back [of demo_host "''disk''" "[''ext4fuse'', ''-f'', ''disk'', ''mnt'']" "[''ext4fuse'', ''-f'', ''mnt'']"
        "\<lparr>e4f_disk = Some ''disk'', e4f_logfile = None\<rparr>" "\<lambda>_. 0" "\<lambda>_. replicate 1024 0" 0 dcache_ready fs "\<lambda>_. replicate 1024 0" "[]" "[]"] fs
    by (simp add: demo_host_def e4f_opt_proc_def demo_device_fill demo_magic_def) blast
qed

end
