(* ===== verification/Spec2Isabelle.thy ===== *)
theory Spec2Isabelle
  imports E4F_Bitmap E4F_Crc E4F_Mount E4F_Extins E4F_Ops E4F_Read E4F_Index E4F_Ring E4F_Hlist
    E4F_Link E4F_Roundtrip E4F_Main
begin

section \<open>ext4fuse\<close>

text \<open>
  ext4fuse is an ext4 file system in user space, written in C. Its parts call each other downwards:

    \<^item> main() (src/fuse-main.c) opens the device and hands over to FUSE; when FUSE returns it writes everything
      back. Messages go to a log (src/logging.c).
    \<^item> FUSE calls the operations of src/op_*.c, which work on inodes, directories and paths (src/inode.c,
      src/inode_in-memory.c) and cache the names they have found (src/dcache.c).
    \<^item> A block of a file is found through the classical block map (src/inode.c) or an extent tree
      (src/extents/extents.c), and new blocks come from the allocator (src/alloc.c) with the bitmap operations
      of src/bitmap.c and src/bitmap.h.
    \<^item> The superblock and the group descriptors are global data (src/super.c) with checksums
      (src/ext4_crc16.c, src/ext4_crc32.c).
    \<^item> All access to the device goes through src/disk.c to the buffer cache (src/buffer.c, src/bufops.c),
      which has an index of its buffers in a red-black tree (src/rbtree.c), a free list and a dirty list, and
      reads and writes blocks with POSIX asynchronous requests in the order that a writeback thread gives them.

  The development follows these parts, each in the order of the source. A definition has the name of the C
  function, or, where a function has several loops or long branches, names for them; the manifest gives the
  lines of each.
\<close>

section \<open>How the code is modelled\<close>

text \<open>
  Machine integers are words of their width (u8 to u64 of \<open>E4F_Prelude\<close>), and a comparison or a shift has the
  type that C gives it after promotion. Structures are records; those that the code copies byte by byte have
  an encoding in \<open>E4F_Types\<close>, and a buffer, a node of an extent tree or a directory block is the list of its bytes.
  A function that may fail an assertion, use memory outside an object or run forever has the result type
  \<open>res\<close>: \<open>Inl Assert_fail\<close>, \<open>Inl Undefined\<close> and \<open>Inl Diverge\<close> are these outcomes, so that a theorem that a result is
  \<open>Inr\<close> includes that none of them happens. Error codes are the negative integers of the code.

  The states are: \<open>block_device\<close> (E4F_Buffer) for a device with its cache, the disk content and the answers of the
  POSIX services; \<open>super_state\<close> (E4F_Super) for the globals of super.c; \<open>fs\<close> (E4F_Disk) for both together;
  \<open>dcache\<close> (E4F_Dcache), a heap of entries; \<open>rb_root\<close> (E4F_Rbtree), a heap of tree nodes with the root. The
  functions on extents and blocks of a file take the inode and the \<open>fs\<close> (the monad \<open>em\<close> of E4F_Extents).
\<close>

section \<open>The theories\<close>

text \<open>
    \<^item> \<open>E4F_Prelude\<close>: integer types, outcomes, byte memories, shared lemmas and the rewriting collections.
    \<^item> \<open>E4F_Bitops\<close>, \<open>E4F_Bitmap\<close>: bitmap.h and bitmap.c. Every operation is reduced to the bits it touches;
      the word-wise searches are equal to the first bit of a specification, and the range operations change
      exactly their range.
    \<^item> \<open>E4F_Crc\<close>: both checksums equal the bit-serial ones; the locale \<open>crc_table\<close> holds the common proof.
    \<^item> \<open>E4F_Buffer\<close>: buffer.c, buffer.h and bufops.c. \<open>E4F_Cache\<close>: its invariant, and the refinement of a store
      of blocks without a cache, with the bytes that every read returns; the locale of the store is interpreted on the cache, a
      sequence of calls of a client is a sequence of steps, and every legal sequence runs to its end.
    \<^item> \<open>E4F_Types\<close>: on-disk structures and their encoding. \<open>E4F_Super\<close>: accessors and layout of super.c.
      The positions of the metadata of a group are computed from the format (\<open>lay_ok\<close> and the definitions before it), and the
      bitmap that the code initialises has exactly these.
      \<open>E4F_Mount\<close>: reading and writing the superblock and the descriptors; the image and the memory agree.
    \<^item> \<open>E4F_Disk\<close>: disk.c. A read returns what a write stored, over block boundaries.
    \<^item> \<open>E4F_Alloc\<close>: alloc.c. The first free block of the first group that has one is taken, freeing undoes it, a full device ends in
      ENOSPC after one round.
    \<^item> \<open>E4F_Dcache\<close>: dcache.c against a map from parent and name to entries.
    \<^item> \<open>E4F_Extents\<close>: extents.c and extents.h. \<open>E4F_Exttree\<close>: the lookup in a tree of any depth finds the extent
      of the tree's list of extents. \<open>E4F_Extins\<close>: insertion in a root leaf, then lookup.
    \<^item> \<open>E4F_Inode\<close>: inode.c, inode_in-memory.c, ext4_dentry.h. \<open>E4F_Ops\<close>: the op_*.c files. \<open>E4F_Files\<close>: inodes
      on the device and the classical block map against a reference. \<open>E4F_Read\<close>: what op_read() returns.
    \<^item> \<open>E4F_Blockmap\<close>: the blocks of a file with and without extents, as the locale \<open>block_map\<close> that the readers of
      directories use, interpreted on inode_get_data_pblock(). \<open>E4F_Dir\<close>: a directory as the list of its entries; the
      walks of inode.c and op_readdir.c go through that list. \<open>E4F_Path\<close>: a tree of names that the device holds; the
      walk of a path, through the cache of entries and the directories, resolves in it, and a listing gives its
      names. \<open>E4F_Link\<close>: the targets of symbolic links.
    \<^item> \<open>E4F_Write\<close>: op_write() inside of one allocated block, with the bytes and the inode it stores.
      \<open>E4F_Roundtrip\<close>: op_write() and then op_read() of the range.
    \<^item> \<open>E4F_Main\<close>: fuse-main.c and logging.c; main() with a session of FUSE that ends writes the whole state back.
    \<^item> \<open>E4F_Rbtree\<close>: rbtree.c, rbtree.h and the search of buffer.c. \<open>E4F_Rbshape\<close>: the tree that a heap represents,
      contexts, rotations. \<open>E4F_Rbinsert\<close>, \<open>E4F_Rberase\<close>: insertion and removal keep a balanced and ordered tree
      and change its map at one block number. \<open>E4F_Index\<close>: the contract of the index as a locale, interpreted on
      the tree; a sequence of insertions and removals with the memory of removed nodes freed. The model of the
      cache has that map.
    \<^item> \<open>E4F_List\<close>: list.h and its use in buffer.c. \<open>E4F_Ring\<close>: each operation on circular lists as an operation on the
      sequence of nodes; the lists of the cache implement the sequences in the model of the cache.
      \<open>E4F_Hlist\<close>: the same for hash lists.
\<close>

section \<open>Loops\<close>

text \<open>
  A loop without a structural bound counts its rounds, and \<open>Diverge\<close> is the outcome when they are used up.
  The walk of the allocator has one round per group. The loops that drop or write back buffers take one off a
  list in each round. A wait for a semaphore or a lock is no loop: it goes on at once, or after the request of its
  buffer has completed, and has the outcome \<open>Diverge\<close> when that does not help, because nothing else can end it. The scan of a path component has 257 rounds, one more
  than an 8-bit counter has values, so that a scan that uses them up is in a state it was in before and
  never ends. A walk over a path or a directory has a round per byte that is left. Reading and writing
  have a round per byte of the request. An insertion into an extent tree may start again after a split or
  a growth of the tree, at most 65537 times since the depth is a 16-bit number; the removal of extents takes
  its rounds as an argument. The loops of the red-black tree end within as many rounds as there are nodes,
  a search within 2 m rounds when there are fewer than 2^m - 1 nodes, the loops over a list of n nodes within
  n + 1 rounds: the theorems on them have that bound as a hypothesis and state that a result exists. test_root() may run forever and is an optional
  result; \<open>test_root_diverges\<close> gives the case.
\<close>

section \<open>Not modelled\<close>

text \<open>
  The command line parser and the dispatcher of libfuse are arguments of main(), the formatting of a message is
  that of the C library. The messages of the operations are not in the log of the model, only those of
  main(). A superblock without blocks or inodes per group stops the program with a division by zero; the model
  has the outcome \<open>Undefined\<close> where it is mounted, written back or asked for an inode, and total division in the
  functions that compute with the geometry after that. Of the conditional code, the branches for FreeBSD (which are
  not valid C: they declare a static array of a size that is not constant), for a build without USE_AIO apart
  from its queue, AGGRESSIVE_TEST, _EXTENTS_TEST and without CONFIG_EXTENT_KEEP_PATH_VALID are not
  compiled. malloc() fails only where the code tests for it in the cache; elsewhere it succeeds. The mutexes of the lists
  and of the tree serialise the calls, so that operations are sequences of calls; what overlaps is a request of the
  writeback thread and a call, which are separate steps of the cache. The lock and the semaphore of a buffer, which are held
  across the steps of a request, are fields of the buffer. The int counters of the cache (references, free and dirty buffers,
  allocations) are integers, which agree with the code below 2 ^ 31. A block number times the block size is an offset of
  at most 63 bits on every device; the model gives larger block numbers a content of their own instead of wrapping the offset
  around. The tree of buffers compares the difference of two block numbers as a signed number, so that the map that
  stands for it in the model of the cache is justified for block numbers below 2 ^ 63, as the theorems on the tree state.
  Links of 60 bytes are specified where the code looks for them, in the inode; ext4 keeps them in a block.
\<close>

end
